(* ===== verification/Prelude.thy ===== *)
theory Prelude
  imports Main "HOL-Library.Word"
begin

text \<open>
  Shared vocabulary of the development: the errors the C code raises by \<open>longjmp\<close>
  (\<open>gafqG_runerror\<close>, \<open>gafqD_throw\<close>) as values of a sum type, the plumbing of
  such results, and the generic facts about lists, powers of two and bytes that the component
  theories use.  Three collections of lemmas carry the automation: \<open>res_simps\<close> for
  the result plumbing, \<open>list_facts\<close> for index arithmetic on lists, and
  \<open>pow2_simps\<close> for masks and powers of two.
\<close>

named_theorems res_simps
named_theorems list_facts
named_theorems pow2_simps

unbundle bit_operations_syntax

subsection \<open>Errors as values\<close>

text \<open>
  \<open>RunError\<close> is \<open>gafqG_runerror\<close> (\<open>GAFQ_ERRRUN\<close>), \<open>SyntaxError\<close> is
  \<open>gafqD_throw(L, GAFQ_ERRSYNTAX)\<close>, \<open>MemError\<close> is \<open>GAFQ_ERRMEM\<close>.  \<open>Undefined\<close>
  stands for behaviour C does not define (a read outside an array, the use of a null pointer): the
  safety theorems show that a component does not come to it.  \<open>OutOfFuel\<close> is no error of the
  program: it marks that a bounded model of a recursion was cut off, and the theorems of each
  component show that it does not happen.
\<close>

datatype gerr = RunError string | SyntaxError string | MemError | Undefined string | OutOfFuel

type_synonym 'a res = "gerr + 'a"

fun rbind :: "'a res \<Rightarrow> ('a \<Rightarrow> 'b res) \<Rightarrow> 'b res" where
  "rbind (Inl e) f = Inl e"
| "rbind (Inr x) f = f x"

definition is_ok :: "'a res \<Rightarrow> bool" where
  "is_ok r \<longleftrightarrow> (\<exists>x. r = Inr x)"

lemma is_ok_simps [simp, res_simps]: "is_ok (Inr x)" "\<not> is_ok (Inl e)"
  by (simp_all add: is_ok_def)

lemma rbind_eq_Inr [res_simps]: "rbind r f = Inr y \<longleftrightarrow> (\<exists>x. r = Inr x \<and> f x = Inr y)"
  by (cases r) auto

lemma rbind_eq_Inl [res_simps]:
  "rbind r f = Inl e \<longleftrightarrow> r = Inl e \<or> (\<exists>x. r = Inr x \<and> f x = Inl e)"
  by (cases r) auto

lemma rbind_assoc: "rbind (rbind r f) g = rbind r (\<lambda>x. rbind (f x) g)"
  by (cases r) auto

subsection \<open>Lists\<close>

lemma nth_in_range_cong [list_facts]: "i < length xs \<Longrightarrow> (xs[i := v]) ! j = (if j = i then v else xs ! j)"
  by (simp add: nth_list_update)

lemma last_conv_nth_minus: "0 < length xs \<Longrightarrow> xs ! (length xs - 1) = last xs"
  by (metis last_conv_nth list.size(3) less_irrefl)

lemma count_filter_update:
  assumes "i < length xs"
  shows "length (filter P (xs[i := v])) + (if P (xs ! i) then 1 else 0)
       = length (filter P xs) + (if P v then 1 else 0)"
  using assms
proof (induction xs arbitrary: i)
  case Nil
  then show ?case by simp
next
  case (Cons x xs)
  then show ?case by (cases i) auto
qed

subsection \<open>Powers of two\<close>

lemma two_pow_pos [simp, pow2_simps]: "(0::nat) < 2 ^ n"
  by simp

lemma pow2_less_iff [pow2_simps]: "(2::nat) ^ m < 2 ^ n \<longleftrightarrow> m < n"
  by simp

lemma bracket_unique:
  assumes "(2::nat) ^ m \<le> x" "x < 2 ^ Suc m" "2 ^ n \<le> x" "x < 2 ^ Suc n"
  shows "m = n"
proof (rule ccontr)
  assume "m \<noteq> n"
  then consider "Suc m \<le> n" | "Suc n \<le> m" by linarith
  then show False
  proof cases
    case 1
    then have "(2::nat) ^ Suc m \<le> 2 ^ n" by (intro power_increasing) auto
    with assms show False by linarith
  next
    case 2
    then have "(2::nat) ^ Suc n \<le> 2 ^ m" by (intro power_increasing) auto
    with assms show False by linarith
  qed
qed

end
