(* ===== verification/Numbers.thy ===== *)
theory Numbers
  imports Prelude
begin

text \<open>
  \<open>gafq_Number\<close> is a C \<open>double\<close> (\<open>gafqconf.h\<close>: \<open>GAFQ_NUMBER_DOUBLE\<close>).  It is
  modelled by its IEEE 754 binary64 bit pattern, so that the hash function of \<open>gtable.c\<close>
  and the dump of a constant in \<open>gdump.c\<close> can read its bytes.  Every finite double is an
  integer multiple of \<open>2 ^ -1074\<close>: \<open>nscaled\<close> is that integer, and the arithmetic
  is exact integer arithmetic followed by \<open>num_round\<close>, which rounds to nearest, ties to even.
  The macros \<open>gafqi_numadd\<close> \<dots> \<open>gafqi_numisnan\<close> of \<open>gafqconf.h\<close>
  follow.  A conversion \<open>(int)d\<close> out of range, undefined in C, has the value
  \<open>INT_MIN\<close> that the x86-64 instruction gives; no theorem of the development depends
  on which value it is.
\<close>

type_synonym gafq_Number = "64 word"

subsection \<open>The fields of a double\<close>

definition nsign :: "gafq_Number \<Rightarrow> bool" where
  "nsign x \<longleftrightarrow> 2 ^ 63 \<le> unat x"

definition nexp :: "gafq_Number \<Rightarrow> nat" where
  "nexp x = unat x div 2 ^ 52 mod 2 ^ 11"

definition nfrac :: "gafq_Number \<Rightarrow> nat" where
  "nfrac x = unat x mod 2 ^ 52"

definition nmag :: "gafq_Number \<Rightarrow> nat" where
  "nmag x = (if nexp x = 0 then nfrac x else (2 ^ 52 + nfrac x) * 2 ^ (nexp x - 1))"

definition nscaled :: "gafq_Number \<Rightarrow> int" where
  "nscaled x = (if nsign x then - int (nmag x) else int (nmag x))"

definition nisnan :: "gafq_Number \<Rightarrow> bool" where
  "nisnan x \<longleftrightarrow> nexp x = 2047 \<and> nfrac x \<noteq> 0"

definition nisinf :: "gafq_Number \<Rightarrow> bool" where
  "nisinf x \<longleftrightarrow> nexp x = 2047 \<and> nfrac x = 0"

abbreviation nan :: gafq_Number where
  "nan \<equiv> 0x7FF8000000000000"

definition ninf :: "bool \<Rightarrow> gafq_Number" where
  "ninf s = (if s then 0xFFF0000000000000 else 0x7FF0000000000000)"

definition nzero :: "bool \<Rightarrow> gafq_Number" where
  "nzero s = (if s then 0x8000000000000000 else 0)"

subsection \<open>Rounding\<close>

fun bitlen :: "nat \<Rightarrow> nat" where
  "bitlen n = (if n = 0 then 0 else Suc (bitlen (n div 2)))"

declare bitlen.simps [simp del]

text \<open>
  \<open>num_round s m k\<close> is the double nearest to \<open>m / 2 ^ k\<close> units of \<open>2 ^ -1074\<close>, with
  sign \<open>s\<close>.  With \<open>e\<close> the exponent that leaves 53 bits, the bit pattern is
  \<open>e * 2 ^ 52\<close> plus the rounded significand: the leading bit of the significand and a carry
  out of it both fall into the exponent field, and an overflow is cut off at infinity.
\<close>

definition num_round :: "bool \<Rightarrow> nat \<Rightarrow> nat \<Rightarrow> gafq_Number" where
  "num_round s m k =
     (let e = bitlen m - (k + 53);
          d = 2 ^ (k + e);
          q = m div d;
          r = m mod d;
          q' = (if d < 2 * r \<or> d = 2 * r \<and> odd q then q + 1 else q);
          bits = min (e * 2 ^ 52 + q') (2047 * 2 ^ 52)
      in of_nat (bits + (if s then 2 ^ 63 else 0)))"

subsection \<open>The number macros of gafqconf.h\<close>

definition gafqi_numeq :: "gafq_Number \<Rightarrow> gafq_Number \<Rightarrow> bool" where
  "gafqi_numeq a b \<longleftrightarrow> \<not> nisnan a \<and> \<not> nisnan b \<and> nscaled a = nscaled b"

definition gafqi_numlt :: "gafq_Number \<Rightarrow> gafq_Number \<Rightarrow> bool" where
  "gafqi_numlt a b \<longleftrightarrow> \<not> nisnan a \<and> \<not> nisnan b \<and> nscaled a < nscaled b"

definition gafqi_numle :: "gafq_Number \<Rightarrow> gafq_Number \<Rightarrow> bool" where
  "gafqi_numle a b \<longleftrightarrow> \<not> nisnan a \<and> \<not> nisnan b \<and> nscaled a \<le> nscaled b"

definition gafqi_numisnan :: "gafq_Number \<Rightarrow> bool" where
  "gafqi_numisnan a \<longleftrightarrow> \<not> gafqi_numeq a a"

definition gafqi_numunm :: "gafq_Number \<Rightarrow> gafq_Number" where
  "gafqi_numunm a = a XOR 0x8000000000000000"

definition gafqi_numadd :: "gafq_Number \<Rightarrow> gafq_Number \<Rightarrow> gafq_Number" where
  "gafqi_numadd a b =
     (if nisnan a \<or> nisnan b then nan
      else if nisinf a then (if nisinf b \<and> nsign a \<noteq> nsign b then nan else a)
      else if nisinf b then b
      else let z = nscaled a + nscaled b
           in if z = 0 then nzero (nsign a \<and> nsign b)
              else num_round (z < 0) (nat \<bar>z\<bar>) 0)"

definition gafqi_numsub :: "gafq_Number \<Rightarrow> gafq_Number \<Rightarrow> gafq_Number" where
  "gafqi_numsub a b = gafqi_numadd a (gafqi_numunm b)"

definition gafqi_nummul :: "gafq_Number \<Rightarrow> gafq_Number \<Rightarrow> gafq_Number" where
  "gafqi_nummul a b =
     (let s = (nsign a \<noteq> nsign b)
      in if nisnan a \<or> nisnan b then nan
         else if nisinf a \<or> nisinf b then (if nmag a = 0 \<or> nmag b = 0 then nan else ninf s)
         else num_round s (nmag a * nmag b) 1074)"

text \<open>The quotient carries 1200 fraction bits and a sticky bit, enough for any pair of doubles.\<close>

definition gafqi_numdiv :: "gafq_Number \<Rightarrow> gafq_Number \<Rightarrow> gafq_Number" where
  "gafqi_numdiv a b =
     (let s = (nsign a \<noteq> nsign b)
      in if nisnan a \<or> nisnan b then nan
         else if nisinf a then (if nisinf b then nan else ninf s)
         else if nisinf b then nzero s
         else if nmag b = 0 then (if nmag a = 0 then nan else ninf s)
         else let n = nmag a * 2 ^ (1074 + 1200);
                  m = 2 * (n div nmag b) + (if n mod nmag b = 0 then 0 else 1)
              in num_round s m 1201)"

definition num_floor :: "gafq_Number \<Rightarrow> gafq_Number" where
  "num_floor a =
     (if nisnan a \<or> nisinf a \<or> nmag a = 0 then a
      else let z = nscaled a div 2 ^ 1074
           in num_round (z < 0) (nat \<bar>z\<bar> * 2 ^ 1074) 0)"

definition gafqi_nummod :: "gafq_Number \<Rightarrow> gafq_Number \<Rightarrow> gafq_Number" where
  "gafqi_nummod a b =
     gafqi_numsub a (gafqi_nummul (num_floor (gafqi_numdiv a b)) b)"

definition cast_num :: "int \<Rightarrow> gafq_Number" where
  "cast_num i = num_round (i < 0) (nat \<bar>i\<bar> * 2 ^ 1074) 0"

definition gafq_number2int :: "gafq_Number \<Rightarrow> int" where
  "gafq_number2int d =
     (let z = (if nsign d then - int (nmag d div 2 ^ 1074) else int (nmag d div 2 ^ 1074))
      in if nisnan d \<or> z < - (2 ^ 31) \<or> 2 ^ 31 \<le> z then - (2 ^ 31) else z)"

subsection \<open>Bit lengths\<close>

lemma bitlen_0 [simp]: "bitlen 0 = 0"
  by (simp add: bitlen.simps)

lemma bitlen_upper: "n < 2 ^ bitlen n"
proof (induction n rule: bitlen.induct)
  case (1 n)
  show ?case
  proof (cases "n = 0")
    case False
    with "1" have "n div 2 < 2 ^ bitlen (n div 2)" by simp
    then have "n < 2 * 2 ^ bitlen (n div 2)" by linarith
    with False show ?thesis by (simp add: bitlen.simps [of n])
  qed simp
qed

lemma bitlen_lower: "0 < n \<Longrightarrow> 2 ^ (bitlen n - 1) \<le> n"
proof (induction n rule: bitlen.induct)
  case (1 n)
  show ?case
  proof (cases "n div 2 = 0")
    case True
    with "1.prems" show ?thesis by (simp add: bitlen.simps [of n])
  next
    case False
    with "1" have "2 ^ (bitlen (n div 2) - 1) \<le> n div 2" by simp
    moreover have "bitlen (n div 2) \<noteq> 0" using False by (simp add: bitlen.simps)
    then have "2 ^ bitlen (n div 2) = (2::nat) * 2 ^ (bitlen (n div 2) - 1)"
      by (cases "bitlen (n div 2)") auto
    ultimately show ?thesis using "1.prems" by (simp add: bitlen.simps [of n])
  qed
qed

lemma bitlen_eqI: assumes "0 < b" "2 ^ (b - 1) \<le> n" "n < 2 ^ b" shows "bitlen n = b"
proof -
  have n: "0 < n" using assms(2) by (metis less_le_trans two_pow_pos)
  have pos: "0 < bitlen n" using n by (simp add: bitlen.simps)
  have "bitlen n - 1 = b - 1"
    by (rule bracket_unique [of _ n]) (use assms pos bitlen_upper [of n] bitlen_lower [OF n] in auto)
  with pos assms(1) show ?thesis by simp
qed

subsection \<open>Fields of a bit pattern\<close>

lemma split_fields:
  fixes n P Q :: nat
  assumes "n < 2 * (P * Q)" "0 < P" "0 < Q"
  shows "n = (if P * Q \<le> n then P * Q else 0) + (n div Q mod P) * Q + n mod Q"
proof -
  let ?d = "n div Q"
  have lt: "?d < 2 * P" using assms by (intro less_mult_imp_div_less) (simp add: mult.assoc)
  have le: "P \<le> ?d \<longleftrightarrow> P * Q \<le> n"
    using assms(3) by (simp add: less_eq_div_iff_mult_less_eq)
  have "?d = (if P * Q \<le> n then P else 0) + ?d mod P"
    using lt le by (auto simp: le_mod_geq)
  from arg_cong [OF this, of "\<lambda>x. x * Q"]
  have "?d * Q = (if P * Q \<le> n then P * Q else 0) + (?d mod P) * Q"
    by (simp only: add_mult_distrib if_distrib [of "\<lambda>x. x * Q"] mult_0)
  moreover have "n = ?d * Q + n mod Q" by simp
  ultimately show ?thesis by linarith
qed

lemma unat_fields: "unat x = (if nsign x then 2 ^ 63 else 0) + nexp x * 2 ^ 52 + nfrac x"
proof -
  have "unat x < 2 * (2 ^ 11 * 2 ^ 52)" using unsigned_less [of x] by simp
  from split_fields [OF this] show ?thesis
    by (simp add: nsign_def nexp_def nfrac_def split: if_splits)
qed

lemma nexp_bound: "nexp x < 2 ^ 11" and nfrac_bound: "nfrac x < 2 ^ 52"
  by (simp_all add: nexp_def nfrac_def)

lemma fields_inject: "nsign x = nsign y \<Longrightarrow> nexp x = nexp y \<Longrightarrow> nfrac x = nfrac y \<Longrightarrow> x = y"
  using unat_fields [of x] unat_fields [of y] by (simp add: word_unat_eq_iff)

lemma nmag_inject: assumes "nmag x = nmag y" shows "nexp x = nexp y \<and> nfrac x = nfrac y"
proof -
  have norm: "2 ^ (52 + (nexp z - 1)) \<le> nmag z \<and> nmag z < 2 ^ Suc (52 + (nexp z - 1))"
    if "nexp z \<noteq> 0" for z
  proof -
    have "nmag z = (2 ^ 52 + nfrac z) * 2 ^ (nexp z - 1)" using that by (simp add: nmag_def)
    moreover have "2 ^ (52 + (nexp z - 1)) = (2::nat) ^ 52 * 2 ^ (nexp z - 1)"
      "2 ^ Suc (52 + (nexp z - 1)) = (2 ^ 52 + 2 ^ 52 :: nat) * 2 ^ (nexp z - 1)"
      by (simp_all only: power_add power_Suc) (simp add: algebra_simps)
    ultimately show ?thesis using nfrac_bound [of z] by (simp only: mult_le_cancel2 mult_less_cancel2) simp
  qed
  have sub: "nmag z < 2 ^ 52" if "nexp z = 0" for z
    using that nfrac_bound [of z] by (simp add: nmag_def)
  have ge: "2 ^ 52 \<le> nmag z" if "nexp z \<noteq> 0" for z
    using norm [OF that] by (meson le_trans one_le_numeral power_increasing le_add1)
  show ?thesis
  proof (cases "nexp x = 0 \<or> nexp y = 0")
    case True
    then have "nexp x = 0 \<and> nexp y = 0"
      using assms sub ge by (metis not_le)
    with assms show ?thesis by (simp add: nmag_def)
  next
    case False
    then have "52 + (nexp x - 1) = 52 + (nexp y - 1)"
      using norm [of x] norm [of y] assms by (intro bracket_unique) auto
    then have e: "nexp x = nexp y" using False by linarith
    with assms False show ?thesis by (simp add: nmag_def)
  qed
qed

lemma nscaled_inject: assumes "nscaled x = nscaled y" "nmag x \<noteq> 0" shows "x = y"
proof -
  have m: "nmag x = nmag y" and s: "nsign x = nsign y"
    using assms by (auto simp: nscaled_def split: if_splits)
  from nmag_inject [OF m] s show ?thesis by (auto intro: fields_inject)
qed

lemma nfields_of_nat:
  assumes "b < 2 ^ 63"
  shows "nsign (of_nat (b + (if s then 2 ^ 63 else 0))) = s"
    and "nexp (of_nat (b + (if s then 2 ^ 63 else 0))) = b div 2 ^ 52"
    and "nfrac (of_nat (b + (if s then 2 ^ 63 else 0))) = b mod 2 ^ 52"
proof -
  let ?n = "b + (if s then 2 ^ 63 else 0)"
  have u: "unat (of_nat ?n :: 64 word) = ?n"
    using assms by (cases s) (simp_all only: unat_of_nat, simp_all)
  have d: "b div 2 ^ 52 < 2 ^ 11" using assms by (simp add: less_mult_imp_div_less)
  show "nsign (of_nat ?n) = s" unfolding nsign_def u using assms by auto
  have "?n div 2 ^ 52 = (if s then 2 ^ 11 else 0) + b div 2 ^ 52"
    using div_add_self1 [of "2 ^ 52" "b"] div_mult_self2 [of "2 ^ 52" b "2 ^ 11"] by (cases s) (simp_all del: div_mult_self2)
  then show "nexp (of_nat ?n) = b div 2 ^ 52" unfolding nexp_def u using d by simp
  show "nfrac (of_nat ?n) = b mod 2 ^ 52" unfolding nfrac_def u
    using mod_mult_self2 [of b "2 ^ 52" "2 ^ 11"] by (cases s) (simp_all del: mod_mult_self2)
qed

subsection \<open>Exact rounding\<close>

text \<open>A value of at most 53 significant bits below the overflow threshold is not changed.\<close>

lemma num_round_exact:
  assumes "m < 2 ^ 2098" "2 ^ (bitlen m - 53) dvd m"
  shows "nmag (num_round s m 0) = m \<and> nsign (num_round s m 0) = s \<and>
         nexp (num_round s m 0) < 2047"
proof -
  let ?e = "bitlen m - 53"
  let ?q = "m div 2 ^ ?e"
  have m: "m = ?q * 2 ^ ?e" using assms(2) by simp
  have r: "m mod 2 ^ ?e = 0" using assms(2) by simp
  have q53: "?q < 2 ^ 53"
  proof -
    have "m < 2 ^ (53 + ?e)"
      by (rule less_le_trans [OF bitlen_upper]) (intro power_increasing, auto)
    then have "m < 2 ^ 53 * 2 ^ ?e" by (simp only: power_add)
    then show ?thesis by (rule less_mult_imp_div_less)
  qed
  have q52: "2 ^ 52 \<le> ?q" if "?e \<noteq> 0"
  proof -
    have "0 < m" using that by (cases "m = 0") auto
    then have "2 ^ (bitlen m - 1) \<le> m" by (rule bitlen_lower)
    moreover have "bitlen m - 1 = 52 + ?e" using that by simp
    ultimately have "2 ^ 52 * 2 ^ ?e \<le> m" by (simp only: power_add)
    then have "2 ^ 52 * 2 ^ ?e div 2 ^ ?e \<le> ?q" by (rule div_le_mono)
    then show ?thesis by (simp only: nonzero_mult_div_cancel_right [OF power_not_zero [OF zero_neq_numeral [symmetric]]])
  qed
  have e: "?e \<le> 2045"
  proof (rule ccontr)
    assume "\<not> ?e \<le> 2045"
    then have b: "2098 \<le> bitlen m - 1" and "0 < m" by (auto intro: gr0I)
    have "(2::nat) ^ 2098 \<le> 2 ^ (bitlen m - 1)" using b by (rule power_increasing) simp
    also have "\<dots> \<le> m" using \<open>0 < m\<close> by (rule bitlen_lower)
    finally have "2 ^ 2098 \<le> m" .
    with assms(1) show False by (meson not_le)
  qed
  let ?b = "?e * 2 ^ 52 + ?q"
  have b: "?b < 2047 * 2 ^ 52" using e q53 by (simp)
  have nr: "num_round s m 0 = of_nat (?b + (if s then 2 ^ 63 else 0))"
    using b r by (simp add: num_round_def Let_def min_def)
  have b63: "?b < 2 ^ 63" using b by simp
  note f = nfields_of_nat [OF b63, of s, folded nr]
  have mag: "nmag (num_round s m 0) = m"
  proof (cases "?e = 0")
    case True
    then show ?thesis
    proof (cases "?q < 2 ^ 52")
      case False
      then have "?q div 2 ^ 52 = 1" "?q mod 2 ^ 52 = ?q - 2 ^ 52"
        using q53 by (auto simp: div_nat_eqI le_mod_geq)
      with True False show ?thesis by (simp add: nmag_def f)
    qed (simp add: nmag_def f True)
  next
    case False
    then have "?b = (?e + 1) * 2 ^ 52 + (?q - 2 ^ 52)" using q52 by simp
    moreover have "?q - 2 ^ 52 < 2 ^ 52" using q53 by simp
    ultimately have "?b div 2 ^ 52 = ?e + 1" "?b mod 2 ^ 52 = ?q - 2 ^ 52"
      by (metis div_mult_self3 div_less add_0_right power_not_zero zero_neq_numeral)
         (metis \<open>?b = _\<close> \<open>?q - 2 ^ 52 < 2 ^ 52\<close> mod_mult_self3 mod_less)
    then have "nmag (num_round s m 0) = (2 ^ 52 + (?q - 2 ^ 52)) * 2 ^ ?e"
      by (simp add: nmag_def f)
    then show ?thesis using q52 [OF False] m by simp
  qed
  have "?b div 2 ^ 52 < 2047" using b by (simp add: less_mult_imp_div_less)
  with mag f show ?thesis by simp
qed


lemma nmag_0_scaled [simp]: "nscaled x = 0 \<longleftrightarrow> nmag x = 0"
  by (simp add: nscaled_def)

subsection \<open>Equality of numbers\<close>

lemma numeq_sym: "gafqi_numeq a b \<longleftrightarrow> gafqi_numeq b a"
  by (auto simp: gafqi_numeq_def)

lemma numeq_trans: "gafqi_numeq a b \<Longrightarrow> gafqi_numeq b c \<Longrightarrow> gafqi_numeq a c"
  by (auto simp: gafqi_numeq_def)

lemma numeq_refl: "gafqi_numeq a a \<longleftrightarrow> \<not> nisnan a"
  by (simp add: gafqi_numeq_def)

lemma gafqi_numisnan_iff: "gafqi_numisnan a \<longleftrightarrow> nisnan a"
  by (simp add: gafqi_numisnan_def numeq_refl)

text \<open>Two equal numbers have the same bits, but for the two zeros.\<close>

lemma numeq_cases:
  "gafqi_numeq a b \<Longrightarrow> a = b \<or> nmag a = 0 \<and> nmag b = 0"
  using nscaled_inject [of a b] nmag_0_scaled [of a] nmag_0_scaled [of b]
  unfolding gafqi_numeq_def by metis

lemma numeq_zero_iff: "gafqi_numeq a 0 \<longleftrightarrow> nmag a = 0"
proof -
  have z: "nmag 0 = 0" "\<not> nisnan 0"
    by (simp_all add: nmag_def nexp_def nfrac_def nisnan_def)
  have "\<not> nisnan a" if "nmag a = 0"
    using that by (auto simp: nmag_def nisnan_def)
  then show ?thesis using z nmag_0_scaled [of a] nmag_0_scaled [of 0]
    unfolding gafqi_numeq_def by metis
qed

subsection \<open>Conversions between int and double\<close>

lemma bitlen_shift: "0 < n \<Longrightarrow> bitlen (n * 2 ^ k) = bitlen n + k"
proof (rule bitlen_eqI)
  assume n: "0 < n"
  then have p: "0 < bitlen n" by (simp add: bitlen.simps)
  then show "0 < bitlen n + k" by simp
  have "2 ^ (bitlen n - 1) * 2 ^ k \<le> n * 2 ^ k" using bitlen_lower [OF n] by simp
  moreover have "bitlen n + k - 1 = (bitlen n - 1) + k" using p by simp
  ultimately show "2 ^ (bitlen n + k - 1) \<le> n * 2 ^ k" by (simp only: power_add)
  have "n * 2 ^ k < 2 ^ bitlen n * 2 ^ k" using bitlen_upper [of n] by simp
  then show "n * 2 ^ k < 2 ^ (bitlen n + k)" by (simp only: power_add)
qed

lemma bitlen_le: assumes "n < 2 ^ k" shows "bitlen n \<le> k"
proof (rule ccontr)
  assume c: "\<not> bitlen n \<le> k"
  then have "0 < n" by (cases "n = 0") auto
  have "(2::nat) ^ k \<le> 2 ^ (bitlen n - 1)" using c by (intro power_increasing) auto
  also have "\<dots> \<le> n" using \<open>0 < n\<close> by (rule bitlen_lower)
  finally show False using assms by simp
qed

lemma cast_num_exact:
  assumes "\<bar>i\<bar> < 2 ^ 53"
  shows "nmag (cast_num i) = nat \<bar>i\<bar> * 2 ^ 1074" and "nsign (cast_num i) = (i < 0)"
    and "nexp (cast_num i) < 2047"
proof -
  let ?n = "nat \<bar>i\<bar>"
  have n: "?n < 2 ^ 53" using assms by (simp add: nat_less_iff)
  have lt: "?n * 2 ^ 1074 < 2 ^ 2098"
  proof -
    have "?n * 2 ^ 1074 < 2 ^ 53 * 2 ^ 1074" using n by (simp only: mult_less_cancel2) simp
    also have "\<dots> = (2::nat) ^ (53 + 1074)" by (simp only: power_add)
    also have "\<dots> \<le> 2 ^ 2098" by (rule power_increasing) simp_all
    finally show ?thesis .
  qed
  have dvd: "2 ^ (bitlen (?n * 2 ^ 1074) - 53) dvd ?n * 2 ^ 1074"
  proof (cases "?n = 0")
    case False
    then have "bitlen (?n * 2 ^ 1074) - 53 \<le> 1074"
      using bitlen_le [OF n] bitlen_shift [of ?n 1074] by linarith
    then have "(2::nat) ^ (bitlen (?n * 2 ^ 1074) - 53) dvd 2 ^ 1074" by (rule le_imp_power_dvd)
    then show ?thesis by (rule dvd_mult)
  qed simp
  from num_round_exact [OF lt dvd, of "i < 0"]
  show "nmag (cast_num i) = ?n * 2 ^ 1074" "nsign (cast_num i) = (i < 0)" "nexp (cast_num i) < 2047"
    by (simp_all only: cast_num_def)
qed

lemma cast_num_scaled: "\<bar>i\<bar> < 2 ^ 53 \<Longrightarrow> nscaled (cast_num i) = i * 2 ^ 1074"
  by (simp only: nscaled_def cast_num_exact of_nat_mult of_nat_power) auto

lemma cast_num_not_nan: "\<bar>i\<bar> < 2 ^ 53 \<Longrightarrow> \<not> nisnan (cast_num i)"
  using cast_num_exact(3) [of i] by (auto simp: nisnan_def)

lemma cast_num_eq_iff:
  assumes "\<bar>i\<bar> < 2 ^ 53" "\<bar>j\<bar> < 2 ^ 53"
  shows "gafqi_numeq (cast_num i) (cast_num j) \<longleftrightarrow> i = j"
  using assms by (simp only: gafqi_numeq_def cast_num_scaled cast_num_not_nan) simp

lemma number2int_cast_num:
  assumes "- (2 ^ 31) \<le> i" "i < 2 ^ 31"
  shows "gafq_number2int (cast_num i) = i"
proof -
  have b: "\<bar>i\<bar> < 2 ^ 53" using assms by simp
  have d: "nmag (cast_num i) div 2 ^ 1074 = nat \<bar>i\<bar>"
    by (simp only: cast_num_exact(1) [OF b] nonzero_mult_div_cancel_right [OF power_not_zero [OF zero_neq_numeral [symmetric]]])
  show ?thesis
    unfolding gafq_number2int_def d cast_num_exact(2) [OF b]
    using assms cast_num_not_nan [OF b] by (auto simp: Let_def)
qed

lemma number2int_range: "- (2 ^ 31) \<le> gafq_number2int d \<and> gafq_number2int d < 2 ^ 31"
  by (auto simp: gafq_number2int_def Let_def)

end
