(* ===== verification/Opcodes.thy ===== *)
theory Opcodes
  imports Prelude
begin

text \<open>
  The instruction format of the virtual machine: \<open>gopcodes.h\<close> and \<open>gopcodes.c\<close>.  An
  \<open>Instruction\<close> is a 32-bit word; the field macros are masks and shifts on it, written
  as in the header.  \<open>GET_OPCODE\<close> yields a number below 64, which the C code casts to the
  enumeration: \<open>opcode_of\<close> is that cast, \<open>None\<close> for the 26 numbers that are no opcode.
  The lemmas show that the fields are independent, that every encoder is inverted by the
  decoders, and what the property table \<open>gafqP_opmodes\<close> says of each opcode.
\<close>

type_synonym Instruction = "32 word"

datatype OpMode = iABC | iABx | iAsBx

datatype OpArgMask = OpArgN | OpArgU | OpArgR | OpArgK

datatype OpCode =
    OP_MOVE | OP_LOADK | OP_LOADBOOL | OP_LOADNIL | OP_GETUPVAL | OP_GETGLOBAL
  | OP_GETTABLE | OP_SETGLOBAL | OP_SETUPVAL | OP_SETTABLE | OP_NEWTABLE | OP_SELF
  | OP_ADD | OP_SUB | OP_MUL | OP_DIV | OP_MOD | OP_POW
  | OP_UNM | OP_NOT | OP_LEN | OP_CONCAT | OP_JMP | OP_EQ
  | OP_LT | OP_LE | OP_TEST | OP_TESTSET | OP_CALL | OP_TAILCALL
  | OP_RETURN | OP_FORLOOP | OP_FORPREP | OP_TFORLOOP | OP_SETLIST | OP_CLOSE
  | OP_CLOSURE | OP_VARARG

subsection \<open>Sizes, positions and limits of the arguments\<close>

definition SIZE_C :: nat where "SIZE_C = 9"
definition SIZE_B :: nat where "SIZE_B = 9"
definition SIZE_Bx :: nat where "SIZE_Bx = SIZE_C + SIZE_B"
definition SIZE_A :: nat where "SIZE_A = 8"
definition SIZE_OP :: nat where "SIZE_OP = 6"
definition POS_OP :: nat where "POS_OP = 0"
definition POS_A :: nat where "POS_A = POS_OP + SIZE_OP"
definition POS_C :: nat where "POS_C = POS_A + SIZE_A"
definition POS_B :: nat where "POS_B = POS_C + SIZE_C"
definition POS_Bx :: nat where "POS_Bx = POS_C"

definition MAXARG_Bx :: int where "MAXARG_Bx = 2 ^ SIZE_Bx - 1"
definition MAXARG_sBx :: int where "MAXARG_sBx = MAXARG_Bx div 2"
definition MAXARG_A :: int where "MAXARG_A = 2 ^ SIZE_A - 1"
definition MAXARG_B :: int where "MAXARG_B = 2 ^ SIZE_B - 1"
definition MAXARG_C :: int where "MAXARG_C = 2 ^ SIZE_C - 1"

lemmas size_defs = SIZE_C_def SIZE_B_def SIZE_Bx_def SIZE_A_def SIZE_OP_def
  POS_OP_def POS_A_def POS_C_def POS_B_def POS_Bx_def

lemmas maxarg_defs = MAXARG_Bx_def MAXARG_sBx_def MAXARG_A_def MAXARG_B_def MAXARG_C_def

definition MASK1 :: "nat \<Rightarrow> nat \<Rightarrow> Instruction" where
  "MASK1 n p = push_bit p (NOT (push_bit n (NOT 0)))"

definition MASK0 :: "nat \<Rightarrow> nat \<Rightarrow> Instruction" where
  "MASK0 n p = NOT (MASK1 n p)"

subsection \<open>Reading and writing the fields\<close>

definition GET_OPCODE :: "Instruction \<Rightarrow> nat" where
  "GET_OPCODE i = unat (drop_bit POS_OP i AND MASK1 SIZE_OP 0)"

definition SET_OPCODE :: "Instruction \<Rightarrow> nat \<Rightarrow> Instruction" where
  "SET_OPCODE i op = (i AND MASK0 SIZE_OP POS_OP) OR
     (push_bit POS_OP (of_nat op) AND MASK1 SIZE_OP POS_OP)"

definition GETARG_A :: "Instruction \<Rightarrow> int" where
  "GETARG_A i = uint (drop_bit POS_A i AND MASK1 SIZE_A 0)"

definition SETARG_A :: "Instruction \<Rightarrow> int \<Rightarrow> Instruction" where
  "SETARG_A i u = (i AND MASK0 SIZE_A POS_A) OR
     (push_bit POS_A (word_of_int u) AND MASK1 SIZE_A POS_A)"

definition GETARG_B :: "Instruction \<Rightarrow> int" where
  "GETARG_B i = uint (drop_bit POS_B i AND MASK1 SIZE_B 0)"

definition SETARG_B :: "Instruction \<Rightarrow> int \<Rightarrow> Instruction" where
  "SETARG_B i u = (i AND MASK0 SIZE_B POS_B) OR
     (push_bit POS_B (word_of_int u) AND MASK1 SIZE_B POS_B)"

definition GETARG_C :: "Instruction \<Rightarrow> int" where
  "GETARG_C i = uint (drop_bit POS_C i AND MASK1 SIZE_C 0)"

definition SETARG_C :: "Instruction \<Rightarrow> int \<Rightarrow> Instruction" where
  "SETARG_C i u = (i AND MASK0 SIZE_C POS_C) OR
     (push_bit POS_C (word_of_int u) AND MASK1 SIZE_C POS_C)"

definition GETARG_Bx :: "Instruction \<Rightarrow> int" where
  "GETARG_Bx i = uint (drop_bit POS_Bx i AND MASK1 SIZE_Bx 0)"

definition SETARG_Bx :: "Instruction \<Rightarrow> int \<Rightarrow> Instruction" where
  "SETARG_Bx i u = (i AND MASK0 SIZE_Bx POS_Bx) OR
     (push_bit POS_Bx (word_of_int u) AND MASK1 SIZE_Bx POS_Bx)"

definition GETARG_sBx :: "Instruction \<Rightarrow> int" where
  "GETARG_sBx i = GETARG_Bx i - MAXARG_sBx"

definition SETARG_sBx :: "Instruction \<Rightarrow> int \<Rightarrow> Instruction" where
  "SETARG_sBx i b = SETARG_Bx i (b + MAXARG_sBx)"

definition CREATE_ABC :: "nat \<Rightarrow> int \<Rightarrow> int \<Rightarrow> int \<Rightarrow> Instruction" where
  "CREATE_ABC op a b c = push_bit POS_OP (of_nat op) OR push_bit POS_A (word_of_int a) OR
     push_bit POS_B (word_of_int b) OR push_bit POS_C (word_of_int c)"

definition CREATE_ABx :: "nat \<Rightarrow> int \<Rightarrow> int \<Rightarrow> Instruction" where
  "CREATE_ABx op a bc = push_bit POS_OP (of_nat op) OR push_bit POS_A (word_of_int a) OR
     push_bit POS_Bx (word_of_int bc)"

subsection \<open>Register-or-constant indices\<close>

definition BITRK :: int where "BITRK = 2 ^ (SIZE_B - 1)"

definition ISK :: "int \<Rightarrow> bool" where "ISK x \<longleftrightarrow> x AND BITRK \<noteq> 0"

definition INDEXK :: "int \<Rightarrow> int" where "INDEXK r = r AND NOT BITRK"

definition MAXINDEXRK :: int where "MAXINDEXRK = BITRK - 1"

definition RKASK :: "int \<Rightarrow> int" where "RKASK x = x OR BITRK"

definition NO_REG :: int where "NO_REG = MAXARG_A"

definition LFIELDS_PER_FLUSH :: int where "LFIELDS_PER_FLUSH = 50"

subsection \<open>The opcodes, their names and properties\<close>

text \<open>The enumeration in its order; the number of an opcode is its position.\<close>

definition opcode_list :: "OpCode list" where
  "opcode_list =
    [OP_MOVE, OP_LOADK, OP_LOADBOOL, OP_LOADNIL, OP_GETUPVAL, OP_GETGLOBAL,
     OP_GETTABLE, OP_SETGLOBAL, OP_SETUPVAL, OP_SETTABLE, OP_NEWTABLE, OP_SELF,
     OP_ADD, OP_SUB, OP_MUL, OP_DIV, OP_MOD, OP_POW,
     OP_UNM, OP_NOT, OP_LEN, OP_CONCAT, OP_JMP, OP_EQ,
     OP_LT, OP_LE, OP_TEST, OP_TESTSET, OP_CALL, OP_TAILCALL,
     OP_RETURN, OP_FORLOOP, OP_FORPREP, OP_TFORLOOP, OP_SETLIST, OP_CLOSE,
     OP_CLOSURE, OP_VARARG]"

definition NUM_OPCODES :: nat where "NUM_OPCODES = 38"

definition opcode_of :: "nat \<Rightarrow> OpCode option" where
  "opcode_of n = (if n < NUM_OPCODES then Some (opcode_list ! n) else None)"

fun opnum :: "OpCode \<Rightarrow> nat" where
  "opnum OP_MOVE = 0"
| "opnum OP_LOADK = 1"
| "opnum OP_LOADBOOL = 2"
| "opnum OP_LOADNIL = 3"
| "opnum OP_GETUPVAL = 4"
| "opnum OP_GETGLOBAL = 5"
| "opnum OP_GETTABLE = 6"
| "opnum OP_SETGLOBAL = 7"
| "opnum OP_SETUPVAL = 8"
| "opnum OP_SETTABLE = 9"
| "opnum OP_NEWTABLE = 10"
| "opnum OP_SELF = 11"
| "opnum OP_ADD = 12"
| "opnum OP_SUB = 13"
| "opnum OP_MUL = 14"
| "opnum OP_DIV = 15"
| "opnum OP_MOD = 16"
| "opnum OP_POW = 17"
| "opnum OP_UNM = 18"
| "opnum OP_NOT = 19"
| "opnum OP_LEN = 20"
| "opnum OP_CONCAT = 21"
| "opnum OP_JMP = 22"
| "opnum OP_EQ = 23"
| "opnum OP_LT = 24"
| "opnum OP_LE = 25"
| "opnum OP_TEST = 26"
| "opnum OP_TESTSET = 27"
| "opnum OP_CALL = 28"
| "opnum OP_TAILCALL = 29"
| "opnum OP_RETURN = 30"
| "opnum OP_FORLOOP = 31"
| "opnum OP_FORPREP = 32"
| "opnum OP_TFORLOOP = 33"
| "opnum OP_SETLIST = 34"
| "opnum OP_CLOSE = 35"
| "opnum OP_CLOSURE = 36"
| "opnum OP_VARARG = 37"

definition gafqP_opnames :: "string list" where
  "gafqP_opnames =
    [''MOVE'', ''LOADK'', ''LOADBOOL'', ''LOADNIL'', ''GETUPVAL'', ''GETGLOBAL'',
     ''GETTABLE'', ''SETGLOBAL'', ''SETUPVAL'', ''SETTABLE'', ''NEWTABLE'', ''SELF'',
     ''ADD'', ''SUB'', ''MUL'', ''DIV'', ''MOD'', ''POW'',
     ''UNM'', ''NOT'', ''LEN'', ''CONCAT'', ''JMP'', ''EQ'',
     ''LT'', ''LE'', ''TEST'', ''TESTSET'', ''CALL'', ''TAILCALL'',
     ''RETURN'', ''FORLOOP'', ''FORPREP'', ''TFORLOOP'', ''SETLIST'', ''CLOSE'',
     ''CLOSURE'', ''VARARG'']"

fun opmode_num :: "OpMode \<Rightarrow> 8 word" where
  "opmode_num iABC = 0" | "opmode_num iABx = 1" | "opmode_num iAsBx = 2"

fun opargmask_num :: "OpArgMask \<Rightarrow> 8 word" where
  "opargmask_num OpArgN = 0" | "opargmask_num OpArgU = 1"
| "opargmask_num OpArgR = 2" | "opargmask_num OpArgK = 3"

definition opmode :: "8 word \<Rightarrow> 8 word \<Rightarrow> OpArgMask \<Rightarrow> OpArgMask \<Rightarrow> OpMode \<Rightarrow> 8 word" where
  "opmode t a b c m = push_bit 7 t OR push_bit 6 a OR push_bit 4 (opargmask_num b) OR
     push_bit 2 (opargmask_num c) OR opmode_num m"

definition gafqP_opmodes :: "8 word list" where
  "gafqP_opmodes =
    [opmode 0 1 OpArgR OpArgN iABC,
     opmode 0 1 OpArgK OpArgN iABx,
     opmode 0 1 OpArgU OpArgU iABC,
     opmode 0 1 OpArgR OpArgN iABC,
     opmode 0 1 OpArgU OpArgN iABC,
     opmode 0 1 OpArgK OpArgN iABx,
     opmode 0 1 OpArgR OpArgK iABC,
     opmode 0 0 OpArgK OpArgN iABx,
     opmode 0 0 OpArgU OpArgN iABC,
     opmode 0 0 OpArgK OpArgK iABC,
     opmode 0 1 OpArgU OpArgU iABC,
     opmode 0 1 OpArgR OpArgK iABC,
     opmode 0 1 OpArgK OpArgK iABC,
     opmode 0 1 OpArgK OpArgK iABC,
     opmode 0 1 OpArgK OpArgK iABC,
     opmode 0 1 OpArgK OpArgK iABC,
     opmode 0 1 OpArgK OpArgK iABC,
     opmode 0 1 OpArgK OpArgK iABC,
     opmode 0 1 OpArgR OpArgN iABC,
     opmode 0 1 OpArgR OpArgN iABC,
     opmode 0 1 OpArgR OpArgN iABC,
     opmode 0 1 OpArgR OpArgR iABC,
     opmode 0 0 OpArgR OpArgN iAsBx,
     opmode 1 0 OpArgK OpArgK iABC,
     opmode 1 0 OpArgK OpArgK iABC,
     opmode 1 0 OpArgK OpArgK iABC,
     opmode 1 1 OpArgR OpArgU iABC,
     opmode 1 1 OpArgR OpArgU iABC,
     opmode 0 1 OpArgU OpArgU iABC,
     opmode 0 1 OpArgU OpArgU iABC,
     opmode 0 0 OpArgU OpArgN iABC,
     opmode 0 1 OpArgR OpArgN iAsBx,
     opmode 0 1 OpArgR OpArgN iAsBx,
     opmode 1 0 OpArgN OpArgU iABC,
     opmode 0 0 OpArgU OpArgU iABC,
     opmode 0 0 OpArgN OpArgN iABC,
     opmode 0 1 OpArgU OpArgN iABx,
     opmode 0 1 OpArgU OpArgN iABC]"

definition getOpMode :: "nat \<Rightarrow> OpMode" where
  "getOpMode m = (let v = gafqP_opmodes ! m AND 3
                  in if v = 0 then iABC else if v = 1 then iABx else iAsBx)"

definition opargmask_of :: "8 word \<Rightarrow> OpArgMask" where
  "opargmask_of v = (if v = 0 then OpArgN else if v = 1 then OpArgU
                     else if v = 2 then OpArgR else OpArgK)"

definition getBMode :: "nat \<Rightarrow> OpArgMask" where
  "getBMode m = opargmask_of (drop_bit 4 (gafqP_opmodes ! m) AND 3)"

definition getCMode :: "nat \<Rightarrow> OpArgMask" where
  "getCMode m = opargmask_of (drop_bit 2 (gafqP_opmodes ! m) AND 3)"

definition testAMode :: "nat \<Rightarrow> bool" where
  "testAMode m \<longleftrightarrow> gafqP_opmodes ! m AND push_bit 6 1 \<noteq> 0"

definition testTMode :: "nat \<Rightarrow> bool" where
  "testTMode m \<longleftrightarrow> gafqP_opmodes ! m AND push_bit 7 1 \<noteq> 0"

subsection \<open>Fields as bit ranges\<close>

lemma bit_MASK1: "n \<le> 32 \<Longrightarrow> bit (MASK1 n p) k \<longleftrightarrow> p \<le> k \<and> k < p + n \<and> k < 32"
  by (auto simp: MASK1_def bit_simps not_le)

lemma bit_MASK0: "n \<le> 32 \<Longrightarrow> bit (MASK0 n p) k \<longleftrightarrow> k < 32 \<and> \<not> (p \<le> k \<and> k < p + n)"
  by (auto simp: MASK0_def bit_simps bit_MASK1)

lemma field_take_bit: "n \<le> 32 \<Longrightarrow> drop_bit p i AND MASK1 n 0 = take_bit n (drop_bit p i)"
  by (rule bit_word_eqI) (auto simp: bit_simps bit_MASK1)

lemma take_bit_wordI:
  fixes x y :: Instruction
  assumes "\<And>k. k < n \<Longrightarrow> bit x k = bit y k"
  shows "take_bit n x = take_bit n y"
  by (rule bit_word_eqI) (use assms in \<open>auto simp: bit_simps\<close>)

text \<open>
  What every field macro pair promises: the reader takes \<open>size\<close> bits at \<open>pos\<close>, the
  writer replaces exactly those.  The laws of one field, and of two disjoint fields, follow
  once and for all.
\<close>

locale instr_field =
  fixes pos size :: nat
    and getf :: "Instruction \<Rightarrow> int"
    and setf :: "Instruction \<Rightarrow> int \<Rightarrow> Instruction"
  assumes fits: "pos + size \<le> 32"
    and getf_eq: "getf i = uint (take_bit size (drop_bit pos i))"
    and bit_setf: "k < 32 \<Longrightarrow> bit (setf i u) k =
      (if pos \<le> k \<and> k < pos + size then bit u (k - pos) else bit i k)"
begin

lemma getf_bounds: "0 \<le> getf i \<and> getf i < 2 ^ size"
  by (simp add: getf_eq unsigned_take_bit_eq)

lemma getf_setf: "getf (setf i u) = take_bit size u"
proof -
  have "take_bit size (drop_bit pos (setf i u)) = take_bit size (word_of_int u)"
    using fits by (intro take_bit_wordI) (auto simp: bit_simps bit_setf)
  then have "getf (setf i u) = uint (take_bit size (word_of_int u :: Instruction))"
    by (simp add: getf_eq)
  also have "\<dots> = take_bit size u"
    using fits by (simp add: unsigned_take_bit_eq unsigned_of_int min_def)
  finally show ?thesis .
qed

lemma getf_setf_id: "0 \<le> u \<Longrightarrow> u < 2 ^ size \<Longrightarrow> getf (setf i u) = u"
  by (simp add: getf_setf take_bit_int_eq_self)

lemma setf_getf: "setf i (getf i) = i"
proof (rule bit_word_eqI)
  fix k assume "k < LENGTH(32)"
  then show "bit (setf i (getf i)) k = bit i k"
    by (auto simp: bit_setf getf_eq bit_simps)
qed

lemma setf_setf: "setf (setf i u) v = setf i v"
  by (rule bit_word_eqI) (simp add: bit_setf)

end

locale instr_fields_disjoint =
  f: instr_field pos size getf setf + g: instr_field pos' size' getg setg
  for pos size getf setf pos' size' getg setg +
  assumes disjoint: "pos + size \<le> pos' \<or> pos' + size' \<le> pos"
begin

lemma getf_setg: "getf (setg i u) = getf i"
proof -
  have "take_bit size (drop_bit pos (setg i u)) = take_bit size (drop_bit pos i)"
    using disjoint f.fits by (intro take_bit_wordI) (auto simp: bit_simps g.bit_setf)
  then show ?thesis by (simp add: f.getf_eq)
qed

lemma setf_setg_commute: "setf (setg i u) v = setg (setf i v) u"
  by (rule bit_word_eqI) (use disjoint in \<open>auto simp: f.bit_setf g.bit_setf\<close>)

end

lemma bit_word_of_int_iff32: "k < 32 \<Longrightarrow> bit (word_of_int u :: Instruction) k = bit u k"
  by (simp add: bit_simps)

lemma set_field_bit:
  assumes "n \<le> 32" "k < 32"
  shows "bit ((i AND MASK0 n p) OR (push_bit p (word_of_int u) AND MASK1 n p)) k =
     (if p \<le> k \<and> k < p + n then bit u (k - p) else bit (i :: Instruction) k)"
  using assms by (auto simp: bit_simps bit_MASK0 bit_MASK1)

interpretation fA: instr_field POS_A SIZE_A GETARG_A SETARG_A
  by unfold_locales (simp_all add: size_defs GETARG_A_def SETARG_A_def field_take_bit set_field_bit)

interpretation fB: instr_field POS_B SIZE_B GETARG_B SETARG_B
  by unfold_locales (simp_all add: size_defs GETARG_B_def SETARG_B_def field_take_bit set_field_bit)

interpretation fC: instr_field POS_C SIZE_C GETARG_C SETARG_C
  by unfold_locales (simp_all add: size_defs GETARG_C_def SETARG_C_def field_take_bit set_field_bit)

interpretation fBx: instr_field POS_Bx SIZE_Bx GETARG_Bx SETARG_Bx
  by unfold_locales (simp_all add: size_defs GETARG_Bx_def SETARG_Bx_def field_take_bit set_field_bit)

interpretation fOP: instr_field POS_OP SIZE_OP "\<lambda>i. int (GET_OPCODE i)"
    "\<lambda>i u. SET_OPCODE i (nat (u mod 2 ^ 32))"
proof
  have e: "(of_nat (nat (u mod 2 ^ 32)) :: Instruction) = word_of_int u" for u
  proof -
    have "(of_nat (nat (u mod 2 ^ 32)) :: Instruction) = word_of_int (u mod 2 ^ 32)"
      by (simp add: of_nat_nat)
    also have "\<dots> = word_of_int u"
      by (rule word_uint_eq_iff [THEN iffD2]) (simp add: unsigned_of_int take_bit_eq_mod)
    finally show ?thesis .
  qed
  show "POS_OP + SIZE_OP \<le> 32" by (simp add: size_defs)
  show "int (GET_OPCODE i) = uint (take_bit SIZE_OP (drop_bit POS_OP i))" for i
    unfolding GET_OPCODE_def by (subst field_take_bit) (simp_all add: size_defs)
  show "k < 32 \<Longrightarrow> bit (SET_OPCODE i (nat (u mod 2 ^ 32))) k =
      (if POS_OP \<le> k \<and> k < POS_OP + SIZE_OP then bit u (k - POS_OP) else bit i k)" for k i u
    unfolding SET_OPCODE_def e by (subst set_field_bit) (simp_all add: size_defs)
qed

interpretation fAB: instr_fields_disjoint POS_A SIZE_A GETARG_A SETARG_A POS_B SIZE_B GETARG_B SETARG_B
  by unfold_locales (simp add: size_defs)
interpretation fBA: instr_fields_disjoint POS_B SIZE_B GETARG_B SETARG_B POS_A SIZE_A GETARG_A SETARG_A
  by unfold_locales (simp add: size_defs)
interpretation fAC: instr_fields_disjoint POS_A SIZE_A GETARG_A SETARG_A POS_C SIZE_C GETARG_C SETARG_C
  by unfold_locales (simp add: size_defs)
interpretation fCA: instr_fields_disjoint POS_C SIZE_C GETARG_C SETARG_C POS_A SIZE_A GETARG_A SETARG_A
  by unfold_locales (simp add: size_defs)
interpretation fBC: instr_fields_disjoint POS_B SIZE_B GETARG_B SETARG_B POS_C SIZE_C GETARG_C SETARG_C
  by unfold_locales (simp add: size_defs)
interpretation fCB: instr_fields_disjoint POS_C SIZE_C GETARG_C SETARG_C POS_B SIZE_B GETARG_B SETARG_B
  by unfold_locales (simp add: size_defs)
interpretation fABx: instr_fields_disjoint POS_A SIZE_A GETARG_A SETARG_A POS_Bx SIZE_Bx GETARG_Bx SETARG_Bx
  by unfold_locales (simp add: size_defs)
interpretation fBxA: instr_fields_disjoint POS_Bx SIZE_Bx GETARG_Bx SETARG_Bx POS_A SIZE_A GETARG_A SETARG_A
  by unfold_locales (simp add: size_defs)
interpretation fOPA: instr_fields_disjoint POS_OP SIZE_OP "\<lambda>i. int (GET_OPCODE i)"
    "\<lambda>i u. SET_OPCODE i (nat (u mod 2 ^ 32))" POS_A SIZE_A GETARG_A SETARG_A
  by unfold_locales (simp add: size_defs)
interpretation fOPB: instr_fields_disjoint POS_OP SIZE_OP "\<lambda>i. int (GET_OPCODE i)"
    "\<lambda>i u. SET_OPCODE i (nat (u mod 2 ^ 32))" POS_B SIZE_B GETARG_B SETARG_B
  by unfold_locales (simp add: size_defs)
interpretation fOPC: instr_fields_disjoint POS_OP SIZE_OP "\<lambda>i. int (GET_OPCODE i)"
    "\<lambda>i u. SET_OPCODE i (nat (u mod 2 ^ 32))" POS_C SIZE_C GETARG_C SETARG_C
  by unfold_locales (simp add: size_defs)
interpretation fOPBx: instr_fields_disjoint POS_OP SIZE_OP "\<lambda>i. int (GET_OPCODE i)"
    "\<lambda>i u. SET_OPCODE i (nat (u mod 2 ^ 32))" POS_Bx SIZE_Bx GETARG_Bx SETARG_Bx
  by unfold_locales (simp add: size_defs)

lemmas fields_independent =
  fAB.getf_setg fBA.getf_setg fAC.getf_setg fCA.getf_setg fBC.getf_setg fCB.getf_setg
  fABx.getf_setg fBxA.getf_setg fOPA.getf_setg [simplified] fOPB.getf_setg [simplified]
  fOPC.getf_setg [simplified] fOPBx.getf_setg [simplified]

subsection \<open>Encoding and decoding\<close>

lemma bit_small_int: "0 \<le> (u::int) \<Longrightarrow> u < 2 ^ n \<Longrightarrow> n \<le> j \<Longrightarrow> \<not> bit u j"
  by (metis bit_take_bit_iff not_le take_bit_int_eq_self)

lemma SET_OPCODE_bit:
  "k < 32 \<Longrightarrow> bit (SET_OPCODE i op) k = (if k < 6 then bit op k else bit i k)"
proof -
  assume k: "k < 32"
  have w: "of_nat op = (word_of_int (int op) :: Instruction)" by simp
  show ?thesis
    using k unfolding SET_OPCODE_def w by (subst set_field_bit) (simp_all add: size_defs bit_simps)
qed

lemma CREATE_ABC_sets:
  assumes "op < 2 ^ SIZE_OP" "0 \<le> a" "a \<le> MAXARG_A" "0 \<le> b" "b \<le> MAXARG_B" "0 \<le> c" "c \<le> MAXARG_C"
  shows "CREATE_ABC op a b c = SET_OPCODE (SETARG_A (SETARG_B (SETARG_C 0 c) b) a) op"
proof (rule bit_word_eqI)
  fix k assume k: "k < LENGTH(32)"
  have "6 \<le> k \<longrightarrow> \<not> bit (int op) k"
    using assms(1) by (intro impI bit_small_int [of _ 6]) (simp_all add: size_defs)
  moreover have "14 \<le> k \<longrightarrow> \<not> bit a (k - 6)"
    using assms(2,3) by (intro impI bit_small_int [of _ 8]) (simp_all add: size_defs maxarg_defs)
  moreover have "23 \<le> k \<longrightarrow> \<not> bit c (k - 14)"
    using assms(6,7) by (intro impI bit_small_int [of _ 9]) (simp_all add: size_defs maxarg_defs)
  ultimately show "bit (CREATE_ABC op a b c) k =
      bit (SET_OPCODE (SETARG_A (SETARG_B (SETARG_C 0 c) b) a) op) k"
    using k unfolding CREATE_ABC_def
    by (auto simp: SET_OPCODE_bit fA.bit_setf fB.bit_setf fC.bit_setf bit_simps size_defs)
qed

lemma CREATE_ABx_sets:
  assumes "op < 2 ^ SIZE_OP" "0 \<le> a" "a \<le> MAXARG_A" "0 \<le> bc" "bc \<le> MAXARG_Bx"
  shows "CREATE_ABx op a bc = SET_OPCODE (SETARG_A (SETARG_Bx 0 bc) a) op"
proof (rule bit_word_eqI)
  fix k assume k: "k < LENGTH(32)"
  have "6 \<le> k \<longrightarrow> \<not> bit (int op) k"
    using assms(1) by (intro impI bit_small_int [of _ 6]) (simp_all add: size_defs)
  moreover have "14 \<le> k \<longrightarrow> \<not> bit a (k - 6)"
    using assms(2,3) by (intro impI bit_small_int [of _ 8]) (simp_all add: size_defs maxarg_defs)
  ultimately show "bit (CREATE_ABx op a bc) k = bit (SET_OPCODE (SETARG_A (SETARG_Bx 0 bc) a) op) k"
    using k unfolding CREATE_ABx_def
    by (auto simp: SET_OPCODE_bit fA.bit_setf fBx.bit_setf bit_simps size_defs)
qed

lemma GET_SET_OPCODE: "op < 2 ^ SIZE_OP \<Longrightarrow> GET_OPCODE (SET_OPCODE i op) = op"
  using fOP.getf_setf_id [of "int op" i] by (simp add: size_defs)

lemma getarg_SET_OPCODE:
  "GETARG_A (SET_OPCODE i op) = GETARG_A i" "GETARG_B (SET_OPCODE i op) = GETARG_B i"
  "GETARG_C (SET_OPCODE i op) = GETARG_C i" "GETARG_Bx (SET_OPCODE i op) = GETARG_Bx i"
  by (auto simp: fA.getf_eq fB.getf_eq fC.getf_eq fBx.getf_eq size_defs bit_simps SET_OPCODE_bit
      intro!: take_bit_wordI arg_cong [where f = uint])

lemma maxarg_bounds:
  "u \<le> MAXARG_A \<longleftrightarrow> u < 2 ^ SIZE_A" "u \<le> MAXARG_B \<longleftrightarrow> u < 2 ^ SIZE_B"
  "u \<le> MAXARG_C \<longleftrightarrow> u < 2 ^ SIZE_C" "u \<le> MAXARG_Bx \<longleftrightarrow> u < 2 ^ SIZE_Bx"
  by (auto simp: maxarg_defs)

subsection \<open>Register-or-constant operands\<close>

lemma INDEXK_RKASK: "0 \<le> x \<Longrightarrow> x \<le> MAXINDEXRK \<Longrightarrow> INDEXK (RKASK x) = x"
proof (rule bit_eqI)
  fix n assume "0 \<le> x" "x \<le> MAXINDEXRK"
  then have "n = 8 \<longrightarrow> \<not> bit x n"
    by (intro impI bit_small_int [of _ 8]) (simp_all add: MAXINDEXRK_def BITRK_def size_defs)
  moreover have "bit BITRK n \<longleftrightarrow> n = 8"
    by (simp add: BITRK_def SIZE_B_def bit_push_bit_iff bit_exp_iff [of 8 n, where ?'a = int, simplified])
  ultimately show "bit (INDEXK (RKASK x)) n = bit x n"
    by (auto simp: INDEXK_def RKASK_def bit_simps)
qed

lemma ISK_RKASK: "ISK (RKASK x)"
proof -
  have "bit BITRK 8"
    by (simp add: BITRK_def SIZE_B_def bit_exp_iff [of 8 8, where ?'a = int, simplified])
  then have "bit (RKASK x AND BITRK) 8" by (simp add: RKASK_def bit_simps)
  then show ?thesis unfolding ISK_def by (metis bit_0_eq bot_apply bot_bool_def)
qed

lemma not_ISK_register: "0 \<le> x \<Longrightarrow> x \<le> MAXINDEXRK \<Longrightarrow> \<not> ISK x"
proof -
  assume "0 \<le> x" "x \<le> MAXINDEXRK"
  then have "\<not> bit x 8"
    by (intro bit_small_int [of _ 8]) (simp_all add: MAXINDEXRK_def BITRK_def size_defs)
  then have "x AND BITRK = 0"
    by (intro bit_eqI) (auto simp: BITRK_def SIZE_B_def bit_simps bit_exp_iff [of 8, where ?'a = int, simplified])
  then show ?thesis by (simp add: ISK_def)
qed

lemma RKASK_bounds: "0 \<le> x \<Longrightarrow> x \<le> MAXINDEXRK \<Longrightarrow> 0 \<le> RKASK x \<and> RKASK x \<le> MAXARG_B"
  using OR_upper [of x 9 BITRK]
  by (simp add: RKASK_def MAXINDEXRK_def BITRK_def size_defs maxarg_defs or_nonnegative_int_iff)

subsection \<open>The opcode tables\<close>

lemma opcode_of_opnum: "opcode_of (opnum op) = Some op"
  by (cases op) (simp_all add: opcode_of_def NUM_OPCODES_def opcode_list_def)

lemma opcode_of_Some: "opcode_of n = Some op \<longleftrightarrow> n = opnum op"
proof
  assume "opcode_of n = Some op"
  then have n: "n < 38" "op = opcode_list ! n"
    by (auto simp: opcode_of_def NUM_OPCODES_def split: if_splits)
  have "map opnum opcode_list = [0..<38]" "length opcode_list = 38"
    by (simp_all add: opcode_list_def upt_rec)
  with n show "n = opnum op" by (metis add_0 nth_map nth_upt)
qed (simp add: opcode_of_opnum)

lemma opnum_bound: "opnum op < NUM_OPCODES"
  by (cases op) (simp_all add: NUM_OPCODES_def)

text \<open>
  C35.  Instruction encoding round trip: an instruction built by \<open>CREATE_ABC\<close> from operands
  within their limits is decoded by \<open>GET_OPCODE\<close> and the \<open>GETARG\<close> macros to exactly the
  opcode and operands it was built from.
\<close>

theorem create_ABC_decode:
  assumes "op < 2 ^ SIZE_OP" "0 \<le> a" "a \<le> MAXARG_A" "0 \<le> b" "b \<le> MAXARG_B"
    and "0 \<le> c" "c \<le> MAXARG_C"
  shows "GET_OPCODE (CREATE_ABC op a b c) = op \<and> GETARG_A (CREATE_ABC op a b c) = a \<and>
    GETARG_B (CREATE_ABC op a b c) = b \<and> GETARG_C (CREATE_ABC op a b c) = c"
  using assms
  by (simp add: CREATE_ABC_sets GET_SET_OPCODE getarg_SET_OPCODE fields_independent maxarg_bounds
      fA.getf_setf_id fB.getf_setf_id fC.getf_setf_id)

theorem create_ABC_decode_witness:
  "GET_OPCODE (CREATE_ABC 12 3 256 7) = 12 \<and> GETARG_A (CREATE_ABC 12 3 256 7) = 3 \<and>
    GETARG_B (CREATE_ABC 12 3 256 7) = 256 \<and> GETARG_C (CREATE_ABC 12 3 256 7) = 7"
  by (rule create_ABC_decode) (simp_all add: size_defs maxarg_defs)

text \<open>
  Jump offsets: writing a signed offset within \<open>MAXARG_sBx\<close> into an instruction and
  reading it back gives the offset, and leaves the opcode and register \<open>A\<close> alone.
\<close>

lemma sBx_roundtrip:
  assumes "\<bar>s\<bar> \<le> MAXARG_sBx"
  shows "GETARG_sBx (SETARG_sBx i s) = s \<and> GETARG_A (SETARG_sBx i s) = GETARG_A i \<and>
    GET_OPCODE (SETARG_sBx i s) = GET_OPCODE i"
proof -
  have "0 \<le> s + MAXARG_sBx" "s + MAXARG_sBx < 2 ^ SIZE_Bx"
    using assms by (auto simp: maxarg_defs size_defs)
  then show ?thesis
    by (simp add: SETARG_sBx_def GETARG_sBx_def fBx.getf_setf_id fields_independent)
qed

text \<open>
  Register-or-constant operands: a constant index up to \<open>MAXINDEXRK\<close> coded by
  \<open>RKASK\<close> fits the \<open>B\<close> and \<open>C\<close> fields, is recognised as a constant, and
  \<open>INDEXK\<close> recovers the index; the plain number is a register.
\<close>

lemma rk_operands:
  assumes "0 \<le> x" "x \<le> MAXINDEXRK"
  shows "ISK (RKASK x) \<and> INDEXK (RKASK x) = x \<and> \<not> ISK x \<and>
    0 \<le> RKASK x \<and> RKASK x \<le> MAXARG_B"
  using assms by (simp add: ISK_RKASK INDEXK_RKASK not_ISK_register RKASK_bounds)

end
