(* ===== verification/Objects.thy ===== *)
theory Objects
  imports Numbers Opcodes
begin

text \<open>
  The values of the language (\<open>gobject.h\<close>) and the generic functions over them
  (\<open>gobject.c\<close>).  A \<open>TValue\<close> is a constructor per tag.  Collectable objects other than
  strings are known by their address.  A string is known by its contents: \<open>gstring.c\<close> keeps one
  object per contents, so that the pointer comparison of the C code is equality of contents and
  the stored hash is a function of the contents; the theory of the string table proves both.
  \<open>TDeadKey\<close> keeps the collectable value whose key the collector retired.
\<close>

type_synonym addr = "64 word"

datatype TValue =
    TNil
  | TBoolean bool
  | TLightUserdata addr
  | TNumber gafq_Number
  | TString string
  | TTable addr
  | TFunction addr
  | TUserdata addr
  | TThread addr
  | TProto addr
  | TUpval addr
  | TDeadKey TValue

fun ttype :: "TValue \<Rightarrow> nat" where
  "ttype TNil = 0"
| "ttype (TBoolean _) = 1"
| "ttype (TLightUserdata _) = 2"
| "ttype (TNumber _) = 3"
| "ttype (TString _) = 4"
| "ttype (TTable _) = 5"
| "ttype (TFunction _) = 6"
| "ttype (TUserdata _) = 7"
| "ttype (TThread _) = 8"
| "ttype (TProto _) = 9"
| "ttype (TUpval _) = 10"
| "ttype (TDeadKey _) = 11"

definition ttisnil :: "TValue \<Rightarrow> bool" where
  "ttisnil v \<longleftrightarrow> ttype v = 0"

definition iscollectable :: "TValue \<Rightarrow> bool" where
  "iscollectable v \<longleftrightarrow> 4 \<le> ttype v"

definition l_isfalse :: "TValue \<Rightarrow> bool" where
  "l_isfalse v \<longleftrightarrow> ttisnil v \<or> v = TBoolean False"

lemma ttisnil_iff [simp]: "ttisnil v \<longleftrightarrow> v = TNil"
  by (cases v) (simp_all add: ttisnil_def)

fun gafqO_rawequalObj :: "TValue \<Rightarrow> TValue \<Rightarrow> bool" where
  "gafqO_rawequalObj TNil TNil = True"
| "gafqO_rawequalObj (TNumber a) (TNumber b) = gafqi_numeq a b"
| "gafqO_rawequalObj (TBoolean a) (TBoolean b) = (a = b)"
| "gafqO_rawequalObj (TLightUserdata a) (TLightUserdata b) = (a = b)"
| "gafqO_rawequalObj a b = (a = b)"

subsection \<open>Function prototypes\<close>

record LocVar =
  varname :: "string option"
  startpc :: int
  endpc :: int

datatype Proto = Proto
  (p_k: "TValue list")
  (p_code: "Instruction list")
  (p_p: "Proto list")
  (p_lineinfo: "int list")
  (p_locvars: "LocVar list")
  (p_upvalues: "string option list")
  (p_source: "string option")
  (p_linedefined: int)
  (p_lastlinedefined: int)
  (p_nups: "8 word")
  (p_numparams: "8 word")
  (p_is_vararg: "8 word")
  (p_maxstacksize: "8 word")

definition VARARG_HASARG :: "8 word" where "VARARG_HASARG = 1"
definition VARARG_ISVARARG :: "8 word" where "VARARG_ISVARARG = 2"
definition VARARG_NEEDSARG :: "8 word" where "VARARG_NEEDSARG = 4"

subsection \<open>Floating point bytes\<close>

text \<open>\<open>int2fb_loop x e\<close> is the loop of \<open>gafqO_int2fb\<close> with its two variables.\<close>

function int2fb_loop :: "32 word \<Rightarrow> nat \<Rightarrow> 32 word \<times> nat" where
  "int2fb_loop x e = (if 16 \<le> x then int2fb_loop (drop_bit 1 (x + 1)) (e + 1) else (x, e))"
  by pat_completeness auto
termination
proof (relation "measure (\<lambda>(x, e). unat x)")
  fix x :: "32 word" and e :: nat
  assume x: "16 \<le> x"
  have "unat (drop_bit 1 (x + 1)) = unat (x + 1) div 2"
    by (simp add: drop_bit_Suc unat_div)
  also have "\<dots> < unat x"
  proof (cases "x + 1 = 0")
    case True
    then show ?thesis using x by (simp add: word_le_nat_alt)
  next
    case False
    then have "unat (x + 1) = unat x + 1" using unatSuc [of x] by (simp add: add.commute)
    moreover have "16 \<le> unat x" using x by (simp add: word_le_nat_alt)
    ultimately show ?thesis by simp
  qed
  finally show "((drop_bit 1 (x + 1), e + 1), (x, e)) \<in> measure (\<lambda>(x, e). unat x)" by simp
qed simp

definition gafqO_int2fb :: "32 word \<Rightarrow> int" where
  "gafqO_int2fb x =
     (let (x', e) = int2fb_loop x 0
      in if x' < 8 then uint x' else push_bit 3 (int e + 1) OR (uint x' - 8))"

definition gafqO_fb2int :: "int \<Rightarrow> int" where
  "gafqO_fb2int x =
     (let e = drop_bit 3 x AND 31
      in if e = 0 then x else push_bit (nat (e - 1)) ((x AND 7) + 8))"

subsection \<open>Binary logarithm\<close>

definition log_2 :: "int list" where
  "log_2 = 0 # 1 # replicate 2 2 @ replicate 4 3 @ replicate 8 4 @ replicate 16 5 @
     replicate 32 6 @ replicate 64 7 @ replicate 128 8"

fun log2_loop :: "nat \<Rightarrow> int \<Rightarrow> int" where
  "log2_loop x l = (if 256 \<le> x then log2_loop (x div 256) (l + 8) else l + log_2 ! x)"

declare log2_loop.simps [simp del]

definition gafqO_log2 :: "nat \<Rightarrow> int" where
  "gafqO_log2 x = log2_loop x (-1)"

definition ceillog2 :: "nat \<Rightarrow> int" where
  "ceillog2 x = gafqO_log2 (x - 1) + 1"

definition twoto :: "nat \<Rightarrow> nat" where
  "twoto x = 2 ^ x"

definition lmod :: "nat \<Rightarrow> nat \<Rightarrow> nat" where
  "lmod s sz = unat ((of_nat s :: 32 word) AND (of_nat sz - 1))"

subsection \<open>Source names for messages\<close>

text \<open>
  A C string ends at its first zero character.  \<open>size_sub\<close> is subtraction of \<open>size_t\<close> values.
\<close>

definition cstr :: "string \<Rightarrow> string" where
  "cstr s = takeWhile (\<lambda>c. c \<noteq> CHR 0x00) s"

definition size_sub :: "nat \<Rightarrow> nat \<Rightarrow> nat" where
  "size_sub a b = (a + 2 ^ 64 - b) mod 2 ^ 64"

definition gafqO_chunkid :: "string \<Rightarrow> nat \<Rightarrow> string" where
  "gafqO_chunkid source0 bufflen =
     (let source = cstr source0
      in if take 1 source = ''='' then take (bufflen - 1) (tl source)
         else if take 1 source = ''@'' then
          (let bl = size_sub bufflen 8; rest = tl source; l = length rest
           in if bl < l then ''...'' @ drop (l - bl) rest else rest)
         else
          (let len0 = length (takeWhile (\<lambda>c. c \<noteq> CHR 0x0A \<and> c \<noteq> CHR 0x0D) source);
               bl = size_sub bufflen 17;
               len = (if bl < len0 then bl else len0)
           in ''[string '' @ [CHR 0x22] @
              (if len < length source then take len source @ ''...'' else source) @
              [CHR 0x22] @ '']''))"

subsection \<open>Raw equality\<close>

lemma rawequal_sym: "gafqO_rawequalObj a b = gafqO_rawequalObj b a"
  by (cases a; cases b) (auto simp: numeq_sym)

lemma rawequal_trans: "gafqO_rawequalObj a b \<Longrightarrow> gafqO_rawequalObj b c \<Longrightarrow> gafqO_rawequalObj a c"
  by (cases a; cases b; cases c) (auto intro: numeq_trans)

definition isnan_val :: "TValue \<Rightarrow> bool" where
  "isnan_val v = (case v of TNumber n \<Rightarrow> gafqi_numisnan n | _ \<Rightarrow> False)"

lemma rawequal_refl: "gafqO_rawequalObj a a \<longleftrightarrow> \<not> isnan_val a"
  by (cases a) (simp_all add: isnan_val_def numeq_refl gafqi_numisnan_iff)

lemma rawequal_nil [simp]: "gafqO_rawequalObj TNil v \<longleftrightarrow> v = TNil"
  by (cases v) auto

lemma rawequal_nil2 [simp]: "gafqO_rawequalObj v TNil \<longleftrightarrow> v = TNil"
  by (cases v) auto

lemma rawequal_cases:
  "gafqO_rawequalObj a b \<Longrightarrow> a = b \<or> (\<exists>x y. a = TNumber x \<and> b = TNumber y \<and> nmag x = 0 \<and> nmag y = 0)"
  by (cases a; cases b) (auto dest: numeq_cases)

lemma rawequal_ttype: "gafqO_rawequalObj a b \<Longrightarrow> ttype a = ttype b"
  by (cases a; cases b) auto

lemma rawequal_number_left: "gafqO_rawequalObj (TNumber x) v \<longleftrightarrow> (\<exists>y. v = TNumber y \<and> gafqi_numeq x y)"
  by (cases v) auto

lemma rawequal_number_right: "gafqO_rawequalObj v (TNumber x) \<longleftrightarrow> (\<exists>y. v = TNumber y \<and> gafqi_numeq y x)"
  by (cases v) auto

lemma rawequal_string_right: "gafqO_rawequalObj v (TString s) \<longleftrightarrow> v = TString s"
  by (cases v) auto

subsection \<open>The logarithm is the bit length\<close>

lemma log_2_bitlen: "x < 256 \<Longrightarrow> log_2 ! x = int (bitlen x)"
proof -
  assume x: "x < 256"
  have "log_2 = map (\<lambda>n. int (bitlen n)) [0..<256]" by code_simp
  then have "log_2 ! x = map (\<lambda>n. int (bitlen n)) [0..<256] ! x" by (rule arg_cong)
  also have "\<dots> = int (bitlen x)"
    using x by (subst nth_map) (simp_all only: length_upt nth_upt diff_zero add_0)
  finally show ?thesis .
qed

lemma bitlen_div2: "bitlen (n div 2) = bitlen n - 1"
  by (simp add: bitlen.simps [of n])

lemma bitlen_div256: "256 \<le> x \<Longrightarrow> bitlen x = bitlen (x div 256) + 8"
proof -
  assume x: "256 \<le> x"
  have d: "x div 256 = x div 2 div 2 div 2 div 2 div 2 div 2 div 2 div 2"
    by (simp add: div_mult2_eq [symmetric])
  have "bitlen (x div 256) = bitlen x - 8" unfolding d by (simp add: bitlen_div2)
  moreover have "8 < bitlen x"
  proof (rule ccontr)
    assume "\<not> 8 < bitlen x"
    then have "(2::nat) ^ bitlen x \<le> 2 ^ 8" by (intro power_increasing) auto
    then show False using bitlen_upper [of x] x by simp
  qed
  ultimately show ?thesis by simp
qed

lemma log2_loop_bitlen: "log2_loop x l = l + int (bitlen x)"
proof (induction x l rule: log2_loop.induct)
  case (1 x l)
  show ?case
    by (cases "256 \<le> x")
       (simp_all add: log2_loop.simps [of x] "1.IH" bitlen_div256 log_2_bitlen)
qed

lemma gafqO_log2_bitlen: "gafqO_log2 x = int (bitlen x) - 1"
  by (simp add: gafqO_log2_def log2_loop_bitlen)

lemma ceillog2_bitlen: "ceillog2 x = int (bitlen (x - 1))"
  by (simp add: ceillog2_def gafqO_log2_bitlen)

lemma ceillog2_upper: "x \<le> 2 ^ nat (ceillog2 x)"
  using bitlen_upper [of "x - 1"] by (simp add: ceillog2_bitlen)

lemma ceillog2_le_iff: "0 < x \<Longrightarrow> ceillog2 x \<le> int k \<longleftrightarrow> x \<le> 2 ^ k"
proof -
  assume x: "0 < x"
  have "bitlen (x - 1) \<le> k" if "x \<le> 2 ^ k" using that x by (intro bitlen_le) simp
  moreover have "x \<le> 2 ^ k" if "bitlen (x - 1) \<le> k"
  proof -
    have "x - 1 < 2 ^ bitlen (x - 1)" by (rule bitlen_upper)
    also have "\<dots> \<le> 2 ^ k" using that by (intro power_increasing) auto
    finally show ?thesis by simp
  qed
  ultimately show ?thesis by (auto simp: ceillog2_bitlen)
qed

lemma lmod_pow2: "k \<le> 32 \<Longrightarrow> s < 2 ^ 32 \<Longrightarrow> lmod s (2 ^ k) = s mod 2 ^ k"
proof -
  assume k: "k \<le> 32" and s: "s < 2 ^ 32"
  have "(of_nat (2 ^ k) :: 32 word) - 1 = mask k" by (simp add: mask_eq_exp_minus_1)
  then have "lmod s (2 ^ k) = unat (take_bit k (of_nat s :: 32 word))"
    by (simp add: lmod_def take_bit_eq_mask)
  also have "\<dots> = s mod 2 ^ k"
    using k s by (simp add: unsigned_take_bit_eq unsigned_of_nat take_bit_eq_mod [symmetric] min_def)
  finally show ?thesis .
qed

subsection \<open>Floating point bytes\<close>

declare int2fb_loop.simps [simp del]

lemma int2fb_loop_spec:
  assumes "unat x < 2 ^ 31" "int2fb_loop x e = (x', e')"
  shows "e \<le> e' \<and> unat x \<le> unat x' * 2 ^ (e' - e) \<and> unat x' * 2 ^ (e' - e) < unat x + 2 ^ (e' - e) \<and>
    unat x' < 16 \<and> (e < e' \<longrightarrow> 8 \<le> unat x')"
  using assms
proof (induction x e rule: int2fb_loop.induct)
  case (1 x e)
  show ?case
  proof (cases "16 \<le> x")
    case False
    with "1.prems" show ?thesis
      by (auto simp: int2fb_loop.simps [of x] word_le_nat_alt)
  next
    case True
    let ?y = "drop_bit 1 (x + 1)"
    have "x + 1 \<noteq> 0"
    proof
      assume "x + 1 = 0"
      then have "x = - 1" by (simp add: eq_neg_iff_add_eq_0)
      with "1.prems"(1) show False by (simp add: unsigned_minus_1_eq_mask mask_eq_exp_minus_1)
    qed
    then have ux: "unat (x + 1) = unat x + 1" using unatSuc [of x] by (simp add: add.commute)
    then have uy: "unat ?y = (unat x + 1) div 2" by (simp add: drop_bit_Suc unat_div)
    have x16: "16 \<le> unat x" using True by (simp add: word_le_nat_alt)
    from True "1.prems" have lp: "int2fb_loop ?y (e + 1) = (x', e')"
      by (simp add: int2fb_loop.simps [of x])
    have "unat ?y < 2 ^ 31" using "1.prems"(1) uy by simp
    from "1.IH" [OF True this lp]
    have ih: "e + 1 \<le> e'" "unat ?y \<le> unat x' * 2 ^ (e' - (e + 1))"
      "unat x' * 2 ^ (e' - (e + 1)) < unat ?y + 2 ^ (e' - (e + 1))" "unat x' < 16"
      "e + 1 < e' \<longrightarrow> 8 \<le> unat x'" by auto
    define P where "P = (2::nat) ^ (e' - (e + 1))"
    have P: "2 ^ (e' - e) = 2 * P" using ih(1) by (simp add: P_def power_Suc [symmetric] Suc_diff_Suc del: power_Suc)
    have "8 \<le> unat x'"
    proof (cases "e + 1 < e'")
      case False
      then have "e' = e + 1" using ih(1) by simp
      then show ?thesis using ih(2) uy x16 by simp
    qed (use ih(5) in simp)
    moreover have "unat x \<le> unat x' * (2 * P)" "unat x' * (2 * P) < unat x + 2 * P"
      using ih(2,3) uy unfolding P_def [symmetric] by (simp_all add: mult.left_commute)
    ultimately show ?thesis using ih P by simp
  qed
qed

lemma and_7: "(x::int) AND 7 = x mod 8" and and_31: "x AND 31 = x mod 32"
  using take_bit_eq_mask [of 3 x] take_bit_eq_mask [of 5 x]
  by (simp_all add: mask_eq_exp_minus_1 take_bit_eq_mod)

lemma fb_encode_decode:
  assumes "8 \<le> x" "x < 16" "e < 31"
  shows "gafqO_fb2int (push_bit 3 (int e + 1) OR (int x - 8)) = int (x * 2 ^ e)"
proof -
  let ?v = "push_bit 3 (int e + 1) OR (int x - 8)"
  have low: "int x - 8 < 2 ^ 3" "0 \<le> int x - 8" using assms by auto
  have v: "?v = (int e + 1) * 8 + (int x - 8)"
  proof -
    have "push_bit 3 (int e + 1) AND (int x - 8) = 0"
      by (rule bit_eqI) (use bit_small_int [OF low(2,1)] in \<open>auto simp: bit_simps\<close>)
    then show ?thesis by (simp add: disjunctive_add_eq_or [symmetric] push_bit_eq_mult)
  qed
  have d: "drop_bit 3 ?v = int e + 1" and m: "?v AND 7 = int x - 8"
    unfolding v using assms(1,2) by (simp_all add: drop_bit_eq_div and_7) presburger+
  have e: "(int e + 1) AND 31 = int e + 1" using assms by (simp add: and_31)
  show ?thesis unfolding gafqO_fb2int_def d e m by (simp add: push_bit_eq_mult)
qed


lemma fb2int_small: "n < 8 \<Longrightarrow> gafqO_fb2int (int n) = int n"
  by (simp add: gafqO_fb2int_def drop_bit_eq_div)

text \<open>
  C36.  Floating point bytes: a table size below \<open>2 ^ 30\<close> coded by \<open>gafqO_int2fb\<close> for the
  operands of \<open>OP_NEWTABLE\<close> is decoded to a size that is not smaller, exceeds it by at most a
  seventh, and is the size itself below 16.
\<close>

theorem fb_roundtrip:
  assumes "unat x < 2 ^ 30"
  shows "int (unat x) \<le> gafqO_fb2int (gafqO_int2fb x) \<and>
    7 * gafqO_fb2int (gafqO_int2fb x) \<le> 8 * int (unat x) \<and>
    (unat x < 16 \<longrightarrow> gafqO_fb2int (gafqO_int2fb x) = int (unat x))"
proof -
  obtain x' e where lp: "int2fb_loop x 0 = (x', e)" by (cases "int2fb_loop x 0")
  have "unat x < 2 ^ 31" using assms by simp
  from int2fb_loop_spec [OF this lp]
  have s: "unat x \<le> unat x' * 2 ^ e" "unat x' * 2 ^ e < unat x + 2 ^ e" "unat x' < 16"
    "0 < e \<longrightarrow> 8 \<le> unat x'" by auto
  have small: "e = 0" if "unat x < 16"
    using lp that by (simp add: int2fb_loop.simps [of x] word_le_nat_alt)
  show ?thesis
  proof (cases "unat x' < 8")
    case True
    then have "e = 0" using s(4) by linarith
    with s True have "unat x = unat x'" by simp
    moreover have "gafqO_int2fb x = int (unat x')"
      using True lp by (simp add: gafqO_int2fb_def word_less_nat_alt)
    moreover have "gafqO_fb2int (int (unat x')) = int (unat x')"
      by (rule fb2int_small [OF True])
    ultimately show ?thesis by simp
  next
    case False
    have e: "e < 31"
    proof (rule ccontr)
      assume "\<not> e < 31"
      then have "(2::nat) ^ 31 \<le> 2 ^ e" by (intro power_increasing) auto
      moreover have "8 * 2 ^ e \<le> unat x' * 2 ^ e" using False by simp
      moreover have "(2::nat) ^ 30 \<le> 2 ^ 31" by simp
      ultimately show False using s(2) assms by linarith
    qed
    have "gafqO_int2fb x = push_bit 3 (int e + 1) OR (int (unat x') - 8)"
      using False lp by (simp add: gafqO_int2fb_def word_less_nat_alt)
    then have r: "gafqO_fb2int (gafqO_int2fb x) = int (unat x' * 2 ^ e)"
      using False s(3) e by (simp only: fb_encode_decode not_less)
    have "8 * 2 ^ e \<le> unat x' * 2 ^ e" using False by simp
    with s(2) have "7 * (unat x' * 2 ^ e) \<le> 8 * unat x" by linarith
    moreover have "unat x' * 2 ^ e = unat x" if "unat x < 16" using s(1,2) small [OF that] by simp
    ultimately show ?thesis unfolding r using s(1) by (intro conjI impI) linarith+
  qed
qed

theorem fb_roundtrip_witness:
  "int (unat (100 :: 32 word)) \<le> gafqO_fb2int (gafqO_int2fb 100) \<and>
    7 * gafqO_fb2int (gafqO_int2fb 100) \<le> 8 * int (unat (100 :: 32 word))"
proof -
  have "unat (100 :: 32 word) < 2 ^ 30" by simp
  from fb_roundtrip [OF this] show ?thesis by blast
qed

text \<open>
   \<open>gafqO_log2\<close> is the integer binary logarithm: for a positive argument it is the exponent
  of the power of two at or below it, and \<open>ceillog2\<close> is the least exponent of a power of two
  that is at least its argument.
\<close>

lemma log2_brackets:
  assumes "0 < x"
  shows "2 ^ nat (gafqO_log2 x) \<le> x \<and> x < 2 ^ nat (gafqO_log2 x + 1) \<and> 0 \<le> gafqO_log2 x \<and>
    (\<forall>k. x \<le> 2 ^ k \<longleftrightarrow> ceillog2 x \<le> int k)"
proof -
  have "0 < bitlen x" using assms by (simp add: bitlen.simps)
  moreover have "nat (int (bitlen x) - 1) = bitlen x - 1" by simp
  ultimately show ?thesis
    using bitlen_lower [OF assms] bitlen_upper [of x] ceillog2_le_iff [OF assms]
    by (simp add: gafqO_log2_bitlen)
qed

subsection \<open>Source names\<close>

lemma size_sub_le: "b \<le> a \<Longrightarrow> a < 2 ^ 64 \<Longrightarrow> size_sub a b = a - b"
proof -
  assume "b \<le> a" "a < 2 ^ 64"
  then have "a + 2 ^ 64 - b = (a - b) + 2 ^ 64" by simp
  with \<open>a < 2 ^ 64\<close> show ?thesis unfolding size_sub_def by (simp only: mod_add_self2) simp
qed

text \<open>
  C37.  No buffer overflow in \<open>gafqO_chunkid\<close>: with a buffer of at least 17 bytes, the
  characters written and the terminating zero fit the buffer, whatever the source name is.
\<close>

theorem chunkid_fits:
  assumes "17 \<le> bufflen" "bufflen < 2 ^ 64"
  shows "length (gafqO_chunkid source bufflen) < bufflen"
proof -
  have s: "size_sub bufflen 8 = bufflen - 8" "size_sub bufflen 17 = bufflen - 17"
    using assms by (simp_all add: size_sub_le)
  have t: "length (takeWhile P (cstr source)) \<le> length (cstr source)" for P
    by (rule length_takeWhile_le)
  consider "take 1 (cstr source) = ''=''" | "take 1 (cstr source) = ''@''"
    | "take 1 (cstr source) \<noteq> ''=''" "take 1 (cstr source) \<noteq> ''@''" by blast
  then show ?thesis
  proof cases
    case 1
    then show ?thesis using assms by (simp add: gafqO_chunkid_def Let_def)
  next
    case 2
    then show ?thesis using assms by (simp add: gafqO_chunkid_def Let_def s) linarith
  next
    case 3
    then show ?thesis using assms t
      by (simp only: gafqO_chunkid_def Let_def s if_False) (simp, linarith)
  qed
qed

theorem chunkid_fits_witness:
  "length (gafqO_chunkid ''@a/very/long/path/to/a/file/whose/name/does/not/fit/the/buffer.gafq'' 60) < 60"
  by (rule chunkid_fits) simp_all

end
