(* ===== verification/Strings.thy ===== *)
theory Strings
  imports Objects "HOL-Library.Multiset"
begin

text \<open>
  The table of interned strings: \<open>gstring.c\<close> and the mark-bit macros of \<open>ggc.h\<close> it uses.  A
  bucket of \<open>strt.hash\<close> is the chain of its objects, newest first; an object keeps its address,
  which is what the rest of the program compares.  The allocator is a parameter: the address of
  the block that \<open>gafqM_malloc\<close> returned for the string (\<open>None\<close> when it raised the memory
  error), and whether the vector of \<open>gafqS_resize\<close> could be allocated.  The theorems: the
  table invariant is kept, and two live strings have the same address exactly when they have the
  same contents, which justifies that the other theories know a string by its contents.
\<close>

subsection \<open>Mark bits (ggc.h)\<close>

definition WHITEBITS :: "8 word" where "WHITEBITS = push_bit 0 1 OR push_bit 1 1"

definition otherwhite :: "8 word \<Rightarrow> 8 word" where
  "otherwhite currentwhite = currentwhite XOR WHITEBITS"

definition isdead :: "8 word \<Rightarrow> 8 word \<Rightarrow> bool" where
  "isdead currentwhite marked \<longleftrightarrow> marked AND otherwhite currentwhite AND WHITEBITS \<noteq> 0"

definition changewhite :: "8 word \<Rightarrow> 8 word" where
  "changewhite marked = marked XOR WHITEBITS"

definition gafqC_white :: "8 word \<Rightarrow> 8 word" where
  "gafqC_white currentwhite = currentwhite AND WHITEBITS"

subsection \<open>String objects and the string table\<close>

record TStr =
  ts_ptr :: addr
  ts_marked :: "8 word"
  ts_reserved :: "8 word"
  ts_hash :: "32 word"
  ts_len :: nat
  ts_str :: string

record stringtable =
  st_hash :: "TStr list list"
  st_nuse :: nat
  st_size :: nat

record strstate =
  strt :: stringtable
  currentwhite :: "8 word"
  gcstate :: nat

definition GCSsweepstring :: nat where "GCSsweepstring = 2"
definition MAX_INT :: int where "MAX_INT = 2 ^ 31 - 1 - 2"
definition MAX_SIZET :: nat where "MAX_SIZET = 2 ^ 64 - 1 - 2"
definition sizeof_TString :: nat where "sizeof_TString = 24"

text \<open>The hash loop of \<open>gafqS_newlstr\<close>: at most 32 characters, from the end of the string.\<close>

function hash_loop :: "string \<Rightarrow> nat \<Rightarrow> nat \<Rightarrow> 32 word \<Rightarrow> 32 word" where
  "hash_loop str step l1 h =
     (if step \<le> l1 \<and> 0 < step
      then hash_loop str step (l1 - step)
             (h XOR (push_bit 5 h + drop_bit 2 h + of_nat (of_char (str ! (l1 - 1)))))
      else h)"
  by pat_completeness auto
termination
  by (relation "measure (\<lambda>(str, step, l1, h). l1)") auto

declare hash_loop.simps [simp del]

definition string_hash :: "string \<Rightarrow> 32 word" where
  "string_hash str =
     (let l = length str; step = l div 32 + 1 in hash_loop str step l (of_nat l))"

text \<open>The rehash loop of \<open>gafqS_resize\<close>: each object of a chain goes to the front of its new bucket.\<close>

fun rehash_chain :: "nat \<Rightarrow> TStr list \<Rightarrow> TStr list list \<Rightarrow> TStr list list" where
  "rehash_chain newsize [] newhash = newhash"
| "rehash_chain newsize (p # ps) newhash =
     (let h1 = lmod (unat (ts_hash p)) newsize
      in rehash_chain newsize ps (newhash[h1 := p # newhash ! h1]))"

fun rehash_buckets :: "nat \<Rightarrow> TStr list list \<Rightarrow> TStr list list \<Rightarrow> TStr list list" where
  "rehash_buckets newsize [] newhash = newhash"
| "rehash_buckets newsize (b # bs) newhash =
     rehash_buckets newsize bs (rehash_chain newsize b newhash)"

definition gafqS_resize :: "bool \<Rightarrow> strstate \<Rightarrow> nat \<Rightarrow> strstate \<times> unit res" where
  "gafqS_resize vec s newsize =
     (if gcstate s = GCSsweepstring then (s, Inr ())
      else if \<not> vec then (s, Inl MemError)
      else let tb = strt s;
               newhash = rehash_buckets newsize (st_hash tb) (replicate newsize [])
           in (s\<lparr>strt := tb\<lparr>st_hash := newhash, st_size := newsize\<rparr>\<rparr>, Inr ()))"

text \<open>The middle of \<open>newlstr\<close>: the new object is filled in and chained, and counted.\<close>

definition link_str :: "strstate \<Rightarrow> addr \<Rightarrow> string \<Rightarrow> 32 word \<Rightarrow> strstate" where
  "link_str s p str h =
     (let ts = \<lparr>ts_ptr = p, ts_marked = gafqC_white (currentwhite s), ts_reserved = 0,
                 ts_hash = h, ts_len = length str, ts_str = str\<rparr>;
          tb = strt s;
          h1 = lmod (unat h) (st_size tb)
      in s\<lparr>strt := tb\<lparr>st_hash := (st_hash tb)[h1 := ts # st_hash tb ! h1],
                       st_nuse := (st_nuse tb + 1) mod 2 ^ 32\<rparr>\<rparr>)"

definition newlstr :: "addr option \<Rightarrow> bool \<Rightarrow> strstate \<Rightarrow> string \<Rightarrow> 32 word \<Rightarrow> strstate \<times> addr res" where
  "newlstr blk vec s str h =
     (if MAX_SIZET - sizeof_TString < length str + 1
      then (s, Inl (RunError ''memory allocation error: block too big''))
      else case blk of
        None \<Rightarrow> (s, Inl MemError)
      | Some p \<Rightarrow>
          (let s' = link_str s p str h; tb = strt s'
           in if st_size tb < st_nuse tb \<and> int (st_size tb) \<le> MAX_INT div 2
              then (case gafqS_resize vec s' (2 * st_size tb) of
                      (s'', Inl e) \<Rightarrow> (s'', Inl e)
                    | (s'', Inr _) \<Rightarrow> (s'', Inr p))
              else (s', Inr p)))"

text \<open>
  The search of \<open>gafqS_newlstr\<close>: the position in the chain of the object with these contents.
  A dead object that is found gets the current white.
\<close>

fun find_pos :: "('a \<Rightarrow> bool) \<Rightarrow> 'a list \<Rightarrow> nat option" where
  "find_pos P [] = None"
| "find_pos P (x # xs) = (if P x then Some 0 else map_option Suc (find_pos P xs))"

definition gafqS_newlstr :: "addr option \<Rightarrow> bool \<Rightarrow> strstate \<Rightarrow> string \<Rightarrow> strstate \<times> addr res" where
  "gafqS_newlstr blk vec s str =
     (let h = string_hash str;
          b = lmod (unat h) (st_size (strt s));
          chain = st_hash (strt s) ! b
      in case find_pos (\<lambda>ts. ts_len ts = length str \<and> ts_str ts = str) chain of
           Some i \<Rightarrow>
             (let ts = chain ! i;
                  ts' = (if isdead (currentwhite s) (ts_marked ts)
                         then ts\<lparr>ts_marked := changewhite (ts_marked ts)\<rparr> else ts)
              in (s\<lparr>strt := (strt s)\<lparr>st_hash := (st_hash (strt s))[b := chain[i := ts']]\<rparr>\<rparr>,
                  Inr (ts_ptr ts)))
         | None \<Rightarrow> newlstr blk vec s str h)"

subsection \<open>Dead and live marks\<close>

text \<open>One of the two white bits is the current one; an object is dead when it has the other.\<close>

lemma dead_bit: "isdead 1 m \<longleftrightarrow> bit m 1" "isdead 2 m \<longleftrightarrow> bit m 0"
  using and_exp_eq_0_iff_not_bit [of m 1] and_exp_eq_0_iff_not_bit [of m 0]
  by (simp_all add: isdead_def otherwhite_def WHITEBITS_def and.assoc)

lemma changewhite_alive: "w = 1 \<or> w = 2 \<Longrightarrow> isdead w m \<Longrightarrow> \<not> isdead w (changewhite m)"
  by (auto simp: dead_bit changewhite_def WHITEBITS_def bit_simps)

lemma white_alive: "w = 1 \<or> w = 2 \<Longrightarrow> \<not> isdead w (gafqC_white w)"
  by (auto simp: dead_bit gafqC_white_def WHITEBITS_def bit_simps)

subsection \<open>The invariant of the string table\<close>

definition strs :: "strstate \<Rightarrow> TStr list" where
  "strs s = concat (st_hash (strt s))"

definition str_obj_ok :: "nat \<Rightarrow> nat \<Rightarrow> TStr \<Rightarrow> bool" where
  "str_obj_ok sz b ts \<longleftrightarrow> ts_hash ts = string_hash (ts_str ts) \<and> ts_len ts = length (ts_str ts) \<and>
     lmod (unat (ts_hash ts)) sz = b"

definition buckets_ok :: "nat \<Rightarrow> TStr list list \<Rightarrow> bool" where
  "buckets_ok sz bs \<longleftrightarrow> length bs = sz \<and> (\<forall>b < sz. \<forall>ts \<in> set (bs ! b). str_obj_ok sz b ts)"

definition strtab_ok :: "strstate \<Rightarrow> bool" where
  "strtab_ok s \<longleftrightarrow> (\<exists>k \<le> 30. st_size (strt s) = 2 ^ k) \<and>
     buckets_ok (st_size (strt s)) (st_hash (strt s)) \<and>
     distinct (map ts_str (strs s)) \<and> distinct (map ts_ptr (strs s)) \<and>
     st_nuse (strt s) = length (strs s) mod 2 ^ 32"

lemma lmod_less: "k \<le> 32 \<Longrightarrow> lmod (unat (h :: 32 word)) (2 ^ k) < 2 ^ k"
  using unsigned_less [of h, where ?'a = nat] by (simp add: lmod_pow2)

lemma buckets_ok_bound: "buckets_ok (2 ^ k) bs \<Longrightarrow> k \<le> 30 \<Longrightarrow> lmod (unat (h :: 32 word)) (2 ^ k) < length bs"
  by (simp add: buckets_ok_def lmod_less)

lemma mset_concat_update:
  "i < length bs \<Longrightarrow> mset (concat (bs[i := xs])) + mset (bs ! i) = mset (concat bs) + mset xs"
proof (induction bs arbitrary: i)
  case (Cons b bs)
  then show ?case by (cases i) (auto simp: algebra_simps)
qed simp

lemma mset_concat_push:
  "i < length bs \<Longrightarrow> mset (concat (bs[i := x # bs ! i])) = add_mset x (mset (concat bs))"
  using mset_concat_update [of i bs "x # bs ! i"] by simp

lemma buckets_ok_push:
  "buckets_ok sz bs \<Longrightarrow> b < sz \<Longrightarrow> str_obj_ok sz b ts \<Longrightarrow> buckets_ok sz (bs[b := ts # bs ! b])"
  by (auto simp: buckets_ok_def nth_list_update)

subsection \<open>Rehashing\<close>

lemma rehash_chain_ok:
  assumes "k \<le> 30" "buckets_ok (2 ^ k) nh"
    and "\<And>ts. ts \<in> set ps \<Longrightarrow> ts_hash ts = string_hash (ts_str ts) \<and> ts_len ts = length (ts_str ts)"
  shows "buckets_ok (2 ^ k) (rehash_chain (2 ^ k) ps nh) \<and>
    mset (concat (rehash_chain (2 ^ k) ps nh)) = mset (concat nh) + mset ps"
  using assms(2,3)
proof (induction ps arbitrary: nh)
  case (Cons p ps)
  let ?h = "lmod (unat (ts_hash p)) (2 ^ k)"
  have h: "?h < 2 ^ k" using assms(1) by (simp add: lmod_less)
  have len: "length nh = 2 ^ k" using Cons.prems(1) by (simp add: buckets_ok_def)
  have "str_obj_ok (2 ^ k) ?h p" using Cons.prems(2) [of p] by (simp add: str_obj_ok_def)
  then have "buckets_ok (2 ^ k) (nh[?h := p # nh ! ?h])"
    using Cons.prems(1) h by (intro buckets_ok_push)
  from Cons.IH [OF this] Cons.prems(2) h len show ?case
    by (simp add: Let_def mset_concat_push)
qed simp

lemma rehash_buckets_ok:
  assumes "k \<le> 30" "buckets_ok (2 ^ k) nh"
    and "\<And>ts. ts \<in> set (concat bs) \<Longrightarrow> ts_hash ts = string_hash (ts_str ts) \<and> ts_len ts = length (ts_str ts)"
  shows "buckets_ok (2 ^ k) (rehash_buckets (2 ^ k) bs nh) \<and>
    mset (concat (rehash_buckets (2 ^ k) bs nh)) = mset (concat nh) + mset (concat bs)"
  using assms(2,3)
proof (induction bs arbitrary: nh)
  case (Cons b bs)
  from rehash_chain_ok [OF assms(1) Cons.prems(1), of b] Cons.prems(2)
  have c: "buckets_ok (2 ^ k) (rehash_chain (2 ^ k) b nh)"
    "mset (concat (rehash_chain (2 ^ k) b nh)) = mset (concat nh) + mset b" by auto
  from Cons.IH [OF c(1)] Cons.prems(2) c(2) show ?case by (simp add: algebra_simps)
qed simp

lemma buckets_ok_empty: "buckets_ok sz (replicate sz [])"
  by (simp add: buckets_ok_def)

lemma buckets_obj: "buckets_ok sz bs \<Longrightarrow> ts \<in> set (concat bs) \<Longrightarrow> \<exists>b. b < sz \<and> str_obj_ok sz b ts \<and> ts \<in> set (bs ! b)"
  unfolding buckets_ok_def by (fastforce simp: in_set_conv_nth [of _ bs])

lemma strtab_ok_cong:
  assumes "strtab_ok s" "k \<le> 30" "st_size (strt s') = 2 ^ k" "buckets_ok (2 ^ k) (st_hash (strt s'))"
    and "mset (strs s') = mset (strs s)" "st_nuse (strt s') = st_nuse (strt s)"
  shows "strtab_ok s'"
proof -
  have "mset (map ts_str (strs s')) = mset (map ts_str (strs s))"
    "mset (map ts_ptr (strs s')) = mset (map ts_ptr (strs s))"
    using assms(5) by simp_all
  from this [THEN mset_eq_imp_distinct_iff]
  have "distinct (map ts_str (strs s'))" "distinct (map ts_ptr (strs s'))"
    using assms(1) by (simp_all only: strtab_ok_def)
  moreover have "length (strs s') = length (strs s)" using assms(5) by (rule mset_eq_length)
  then have "st_nuse (strt s') = length (strs s') mod 2 ^ 32"
    using assms(1,6) by (simp only: strtab_ok_def)
  ultimately show ?thesis unfolding strtab_ok_def assms(3) using assms(2,4) by blast
qed

lemma gafqS_resize_ok:
  assumes "strtab_ok s" "k \<le> 30" "gafqS_resize vec s (2 ^ k) = (s', r)"
  shows "strtab_ok s' \<and> mset (strs s') = mset (strs s)"
proof (cases "gcstate s = GCSsweepstring \<or> \<not> vec")
  case True
  then show ?thesis using assms by (auto simp: gafqS_resize_def split: if_splits)
next
  case False
  let ?nh = "rehash_buckets (2 ^ k) (st_hash (strt s)) (replicate (2 ^ k) [])"
  have s': "s' = s\<lparr>strt := (strt s)\<lparr>st_hash := ?nh, st_size := 2 ^ k\<rparr>\<rparr>"
    using False assms(3) by (auto simp: gafqS_resize_def Let_def)
  have objs: "ts_hash ts = string_hash (ts_str ts) \<and> ts_len ts = length (ts_str ts)"
    if "ts \<in> set (concat (st_hash (strt s)))" for ts
    using buckets_obj [OF _ that] assms(1) by (auto simp: strtab_ok_def str_obj_ok_def)
  from rehash_buckets_ok [OF assms(2) buckets_ok_empty objs]
  have nh: "buckets_ok (2 ^ k) ?nh" "mset (concat ?nh) = mset (concat (st_hash (strt s)))" by auto
  then have "mset (strs s') = mset (strs s)" by (simp add: strs_def s')
  with strtab_ok_cong [OF assms(1,2), of s'] nh show ?thesis by (simp add: s')
qed


subsection \<open>Interning\<close>

definition str_pairs :: "strstate \<Rightarrow> (addr \<times> string) set" where
  "str_pairs s = (\<lambda>ts. (ts_ptr ts, ts_str ts)) ` set (strs s)"

text \<open>The pairs of the objects that are not dead.\<close>

definition live_pairs :: "strstate \<Rightarrow> (addr \<times> string) set" where
  "live_pairs s = (\<lambda>ts. (ts_ptr ts, ts_str ts)) ` {ts \<in> set (strs s). \<not> isdead (currentwhite s) (ts_marked ts)}"

lemma live_pairs_cong: "mset (strs s') = mset (strs s) \<Longrightarrow> currentwhite s' = currentwhite s \<Longrightarrow> live_pairs s' = live_pairs s"
  unfolding live_pairs_def by (metis set_mset_mset)

lemma str_pairs_cong: "mset (strs s') = mset (strs s) \<Longrightarrow> str_pairs s' = str_pairs s"
  by (metis set_mset_mset str_pairs_def)

lemma find_pos_Some: "find_pos P xs = Some i \<Longrightarrow> i < length xs \<and> P (xs ! i)"
  by (induction xs arbitrary: i) (auto split: if_splits)

lemma find_pos_None: "find_pos P xs = None \<longleftrightarrow> (\<forall>x \<in> set xs. \<not> P x)"
  by (induction xs) auto

lemma link_str_ok:
  assumes ok: "strtab_ok s" and new: "str \<notin> ts_str ` set (strs s)" and fresh: "p \<notin> ts_ptr ` set (strs s)"
  shows "strtab_ok (link_str s p str (string_hash str))"
    and "str_pairs (link_str s p str (string_hash str)) = insert (p, str) (str_pairs s)"
    and "st_size (strt (link_str s p str (string_hash str))) = st_size (strt s)"
    and "currentwhite s = 1 \<or> currentwhite s = 2 \<Longrightarrow> live_pairs (link_str s p str (string_hash str)) = insert (p, str) (live_pairs s)"
proof -
  obtain k where k: "k \<le> 30" "st_size (strt s) = 2 ^ k" using ok by (auto simp: strtab_ok_def)
  let ?h = "lmod (unat (string_hash str)) (2 ^ k)"
  define ts where "ts = \<lparr>ts_ptr = p, ts_marked = gafqC_white (currentwhite s), ts_reserved = 0,
    ts_hash = string_hash str, ts_len = length str, ts_str = str\<rparr>"
  let ?s1 = "link_str s p str (string_hash str)"
  have s1: "strt ?s1 = (strt s)\<lparr>st_hash := (st_hash (strt s))[?h := ts # st_hash (strt s) ! ?h],
    st_nuse := (st_nuse (strt s) + 1) mod 2 ^ 32\<rparr>"
    using k by (simp add: link_str_def ts_def Let_def)
  have b: "buckets_ok (2 ^ k) (st_hash (strt s))" using ok k by (simp add: strtab_ok_def)
  have m: "mset (strs ?s1) = add_mset ts (mset (strs s))"
    using buckets_ok_bound [OF b k(1)] by (simp add: strs_def s1 mset_concat_push)
  then have set1: "set (strs ?s1) = insert ts (set (strs s))"
    by (metis set_mset_add_mset_insert set_mset_mset)
  have "mset (map ts_str (strs ?s1)) = mset (str # map ts_str (strs s))"
    "mset (map ts_ptr (strs ?s1)) = mset (p # map ts_ptr (strs s))"
    using m by (simp_all add: ts_def)
  then have d: "distinct (map ts_str (strs ?s1))" "distinct (map ts_ptr (strs ?s1))"
    using ok new fresh
    by (simp_all add: mset_eq_imp_distinct_iff [of _ "_ # _"] strtab_ok_def del: mset_map mset.simps)
  have "length (strs ?s1) = length (strs s) + 1" using m by (metis size_mset size_add_mset Suc_eq_plus1)
  then have n: "st_nuse (strt ?s1) = length (strs ?s1) mod 2 ^ 32"
    using ok by (simp add: s1 strtab_ok_def mod_simps)
  have "buckets_ok (2 ^ k) (st_hash (strt ?s1))"
    using b k by (auto simp: s1 ts_def str_obj_ok_def lmod_less intro!: buckets_ok_push)
  then show "strtab_ok ?s1" using k d n by (auto simp: strtab_ok_def s1)
  show "str_pairs ?s1 = insert (p, str) (str_pairs s)"
    unfolding str_pairs_def set1 by (simp add: ts_def)
  show "st_size (strt ?s1) = st_size (strt s)" by (simp add: s1)
  assume "currentwhite s = 1 \<or> currentwhite s = 2"
  then have live: "\<not> isdead (currentwhite s) (ts_marked ts)" using white_alive by (simp add: ts_def)
  have "currentwhite ?s1 = currentwhite s" by (simp add: link_str_def Let_def)
  moreover have "{t. (t = ts \<or> t \<in> set (strs s)) \<and> \<not> isdead (currentwhite s) (ts_marked t)} =
      insert ts {t \<in> set (strs s). \<not> isdead (currentwhite s) (ts_marked t)}" using live by auto
  ultimately show "live_pairs ?s1 = insert (p, str) (live_pairs s)" unfolding live_pairs_def set1 by (simp add: ts_def)
qed

lemma newlstr_ok:
  assumes ok: "strtab_ok s" and new: "str \<notin> ts_str ` set (strs s)"
    and fresh: "\<forall>p. blk = Some p \<longrightarrow> p \<notin> ts_ptr ` set (strs s)"
    and res: "newlstr blk vec s str (string_hash str) = (s', r)"
    and white: "currentwhite s = 1 \<or> currentwhite s = 2"
  shows "strtab_ok s' \<and> (\<forall>q. r = Inr q \<longrightarrow> blk = Some q \<and> str_pairs s' = insert (q, str) (str_pairs s) \<and> live_pairs s' = insert (q, str) (live_pairs s))"
proof (cases "MAX_SIZET - sizeof_TString < length str + 1 \<or> blk = None")
  case True
  then show ?thesis using res ok by (auto simp: newlstr_def split: if_splits)
next
  case False
  then obtain p where p: "blk = Some p" by auto
  obtain k where k: "k \<le> 30" "st_size (strt s) = 2 ^ k" using ok by (auto simp: strtab_ok_def)
  let ?s1 = "link_str s p str (string_hash str)"
  note l = link_str_ok [OF ok new fresh [rule_format, OF p]]
  show ?thesis
  proof (cases "st_size (strt ?s1) < st_nuse (strt ?s1) \<and> int (st_size (strt ?s1)) \<le> MAX_INT div 2")
    case nogrow: False
    then have "(s', r) = (?s1, Inr p)"
      using res False p by (auto simp: newlstr_def Let_def)
    then show ?thesis using l(1,2) l(4) [OF white] p by simp
  next
    case grow: True
    have k29: "Suc k \<le> 30"
    proof (rule ccontr)
      assume "\<not> Suc k \<le> 30"
      then have "(2::int) ^ 30 \<le> 2 ^ k" by (intro power_increasing) auto
      then show False using grow k l(3) by (simp add: MAX_INT_def)
    qed
    obtain s2 r2 where r2: "gafqS_resize vec ?s1 (2 ^ Suc k) = (s2, r2)" by fastforce
    have "(s', r) = (s2, case r2 of Inl e \<Rightarrow> Inl e | Inr _ \<Rightarrow> Inr p)"
      using res grow False p k l(3) r2
      by (auto simp: newlstr_def Let_def split: sum.splits)
    moreover have "currentwhite s2 = currentwhite ?s1" using r2 by (auto simp: gafqS_resize_def Let_def split: if_splits)
    ultimately show ?thesis using gafqS_resize_ok [OF l(1) k29 r2]
      l(2) l(4) [OF white] p str_pairs_cong [of s2 ?s1] live_pairs_cong [of s2 ?s1] by (auto split: sum.splits)
  qed
qed

lemma strs_same_identity:
  assumes "strtab_ok s" "ts \<in> set (strs s)" "ts' \<in> set (strs s)"
  shows "ts_ptr ts = ts_ptr ts' \<longleftrightarrow> ts_str ts = ts_str ts'"
  using assms by (auto simp: strtab_ok_def distinct_map dest: inj_onD)

text \<open>Replacing an object in its chain by one that agrees with it under \<open>f\<close>.\<close>

lemma map_concat_replace:
  assumes "b < length bs" "i < length (bs ! b)" "f x = f (bs ! b ! i)"
  shows "map f (concat (bs[b := (bs ! b)[i := x]])) = map f (concat bs)"
proof -
  have "map f ((bs ! b)[i := x]) = map f (bs ! b)"
    using assms by (simp add: map_update list_update_same_conv)
  then have "map (map f) (bs[b := (bs ! b)[i := x]]) = map (map f) bs"
    using assms(1) by (metis list_update_id map_update)
  then show ?thesis by (simp only: map_concat)
qed

lemma remark_ok:
  assumes ok: "strtab_ok s" and b: "b < st_size (strt s)" and i: "i < length (st_hash (strt s) ! b)"
    and x: "x = (st_hash (strt s) ! b ! i)\<lparr>ts_marked := m\<rparr>"
    and s': "strt s' = (strt s)\<lparr>st_hash := (st_hash (strt s))[b := (st_hash (strt s) ! b)[i := x]]\<rparr>"
  shows "strtab_ok s' \<and> str_pairs s' = str_pairs s"
proof -
  have len: "length (st_hash (strt s)) = st_size (strt s)"
    using ok by (simp add: strtab_ok_def buckets_ok_def)
  note mc = map_concat_replace [OF b [folded len] i]
  have m: "map ts_str (strs s') = map ts_str (strs s)" "map ts_ptr (strs s') = map ts_ptr (strs s)"
    "map (\<lambda>ts. (ts_ptr ts, ts_str ts)) (strs s') = map (\<lambda>ts. (ts_ptr ts, ts_str ts)) (strs s)"
    unfolding strs_def s' using x by (simp_all add: mc)
  have n: "length (strs s') = length (strs s)" using m(1) by (metis length_map)
  have old: "str_obj_ok (st_size (strt s)) b' ts"
    if "b' < st_size (strt s)" "ts \<in> set (st_hash (strt s) ! b')" for b' ts
    using ok that by (simp add: strtab_ok_def buckets_ok_def)
  have "str_obj_ok (st_size (strt s)) b x"
    using old [OF b nth_mem [OF i]] by (auto simp: str_obj_ok_def x)
  then have "str_obj_ok (st_size (strt s)) b' ts"
    if "b' < st_size (strt s)" "ts \<in> set (st_hash (strt s') ! b')" for b' ts
    using old that b len by (auto simp: s' nth_list_update dest!: set_update_subset_insert [THEN subsetD] split: if_splits)
  then have "buckets_ok (st_size (strt s')) (st_hash (strt s'))"
    using len by (simp add: buckets_ok_def s')
  then have "strtab_ok s'" using ok m n by (simp add: strtab_ok_def s')
  moreover have "str_pairs s' = str_pairs s"
    using arg_cong [OF m(3), of set] by (simp only: str_pairs_def list.set_map)
  ultimately show ?thesis ..
qed

lemma remark_live:
  assumes ok: "strtab_ok s" and b: "b < st_size (strt s)" and i: "i < length (st_hash (strt s) ! b)"
    and x: "x = (st_hash (strt s) ! b ! i)\<lparr>ts_marked := m\<rparr>"
    and s': "strt s' = (strt s)\<lparr>st_hash := (st_hash (strt s))[b := (st_hash (strt s) ! b)[i := x]]\<rparr>" "currentwhite s' = currentwhite s"
    and live: "\<not> isdead (currentwhite s) (ts_marked x)"
  shows "live_pairs s' = insert (ts_ptr x, ts_str x) (live_pairs s)"
proof -
  let ?bs = "st_hash (strt s)" and ?y = "st_hash (strt s) ! b ! i" and ?P = "\<lambda>ts. (ts_ptr ts, ts_str ts)"
  have len: "length ?bs = st_size (strt s)" using ok by (simp add: strtab_ok_def buckets_ok_def)
  define ch ch' where "ch = ?bs ! b" and "ch' = ch[i := x]"
  have c: "add_mset ?y (mset ch') = add_mset x (mset ch)" using i by (simp add: ch_def ch'_def mset_update)
  have m: "mset (strs s') + mset ch = mset (strs s) + mset ch'"
    using mset_concat_update [OF b [folded len]] by (simp add: strs_def s' ch_def ch'_def)
  have "add_mset ?y (mset (strs s')) + mset ch = add_mset ?y (mset (strs s') + mset ch)" by simp
  also have "\<dots> = mset (strs s) + add_mset ?y (mset ch')" unfolding m by simp
  also have "\<dots> = add_mset x (mset (strs s)) + mset ch" unfolding c by simp
  finally have "add_mset ?y (mset (strs s')) = add_mset x (mset (strs s))" by (rule add_right_imp_eq)
  then have sets: "insert ?y (set (strs s')) = insert x (set (strs s))" by (metis set_mset_add_mset_insert set_mset_mset)
  have xin: "x \<in> set (strs s')" using b i len by (auto simp: strs_def s' set_update_memI intro!: bexI [of _ "(?bs ! b)[i := x]"])
  have yin: "?y \<in> set (strs s)" using b i len by (auto simp: strs_def intro!: bexI [of _ "?bs ! b"])
  have pair: "?P ?y = ?P x" by (simp add: x)
  show ?thesis
  proof (intro set_eqI iffI)
    fix z assume "z \<in> live_pairs s'"
    then obtain ts where ts: "ts \<in> set (strs s')" "\<not> isdead (currentwhite s) (ts_marked ts)" "z = ?P ts" by (auto simp: live_pairs_def s')
    then have "ts = x \<or> ts \<in> set (strs s)" using sets by blast
    then show "z \<in> insert (?P x) (live_pairs s)" using ts by (auto simp: live_pairs_def)
  next
    fix z assume "z \<in> insert (?P x) (live_pairs s)"
    then consider "z = ?P x" | ts where "ts \<in> set (strs s)" "\<not> isdead (currentwhite s) (ts_marked ts)" "z = ?P ts" by (auto simp: live_pairs_def)
    then show "z \<in> live_pairs s'"
    proof cases
      case 1
      then show ?thesis using xin live by (auto simp: live_pairs_def s')
    next
      case 2
      have "ts = ?y \<or> ts \<in> set (strs s')" using 2(1) sets by blast
      then show ?thesis using 2 xin live pair by (auto simp: live_pairs_def s')
    qed
  qed
qed

lemma gafqS_newlstr_ok:
  assumes ok: "strtab_ok s" and fresh: "\<forall>p. blk = Some p \<longrightarrow> p \<notin> fst ` str_pairs s"
    and res: "gafqS_newlstr blk vec s str = (s', r)" and white: "currentwhite s = 1 \<or> currentwhite s = 2"
  shows "strtab_ok s' \<and> (\<forall>q. r = Inr q \<longrightarrow> str_pairs s' = insert (q, str) (str_pairs s) \<and> live_pairs s' = insert (q, str) (live_pairs s))"
proof -
  obtain k where k: "k \<le> 30" "st_size (strt s) = 2 ^ k" using ok by (auto simp: strtab_ok_def)
  let ?b = "lmod (unat (string_hash str)) (st_size (strt s))"
  let ?ch = "st_hash (strt s) ! ?b"
  have b: "?b < st_size (strt s)" using k by (simp add: lmod_less)
  have len: "length (st_hash (strt s)) = st_size (strt s)"
    using ok by (simp add: strtab_ok_def buckets_ok_def)
  show ?thesis
  proof (cases "find_pos (\<lambda>ts. ts_len ts = length str \<and> ts_str ts = str) ?ch")
    case None
    have "str \<notin> ts_str ` set (strs s)"
    proof
      assume "str \<in> ts_str ` set (strs s)"
      then obtain ts where t: "ts_str ts = str" "ts \<in> set (concat (st_hash (strt s)))"
        by (auto simp: strs_def)
      moreover have "buckets_ok (st_size (strt s)) (st_hash (strt s))" using ok by (simp add: strtab_ok_def)
      ultimately obtain b' where ts: "ts_str ts = str" "str_obj_ok (st_size (strt s)) b' ts"
        "ts \<in> set (st_hash (strt s) ! b')" using buckets_obj by blast
      then have "b' = ?b" "ts_len ts = length str" by (auto simp: str_obj_ok_def)
      with ts None show False by (auto simp: find_pos_None)
    qed
    moreover have "\<forall>p. blk = Some p \<longrightarrow> p \<notin> ts_ptr ` set (strs s)"
      using fresh by (auto simp: str_pairs_def image_image)
    moreover have "newlstr blk vec s str (string_hash str) = (s', r)"
      using res None by (simp add: gafqS_newlstr_def Let_def)
    ultimately show ?thesis using newlstr_ok [OF ok _ _ _ white, of str blk vec s' r] by blast
  next
    case (Some i)
    from find_pos_Some [OF this] have i: "i < length ?ch" "ts_str (?ch ! i) = str" by auto
    define ts' where "ts' = (if isdead (currentwhite s) (ts_marked (?ch ! i))
      then (?ch ! i)\<lparr>ts_marked := changewhite (ts_marked (?ch ! i))\<rparr> else ?ch ! i)"
    have ts': "ts' = (?ch ! i)\<lparr>ts_marked := ts_marked ts'\<rparr>" by (simp add: ts'_def)
    have r: "r = Inr (ts_ptr (?ch ! i))" and
      s': "strt s' = (strt s)\<lparr>st_hash := (st_hash (strt s))[?b := ?ch[i := ts']]\<rparr>" "currentwhite s' = currentwhite s"
      using res Some by (auto simp: gafqS_newlstr_def Let_def ts'_def)
    have "?ch ! i \<in> set (strs s)"
      unfolding strs_def using b i(1) len by (auto intro!: bexI [of _ ?ch])
    then have "(ts_ptr (?ch ! i), str) \<in> str_pairs s" using i(2) by (force simp: str_pairs_def)
    moreover have "\<not> isdead (currentwhite s) (ts_marked ts')" using changewhite_alive [OF white] by (simp add: ts'_def)
    ultimately show ?thesis using remark_ok [OF ok b i(1) ts' s'(1)] remark_live [OF ok b i(1) ts' s'] r i(2) ts'_def
      by (auto simp: insert_absorb)
  qed
qed

subsection \<open>A table to start from\<close>

definition strstate_init :: strstate where
  "strstate_init = \<lparr>strt = \<lparr>st_hash = replicate 32 [], st_nuse = 0, st_size = 32\<rparr>,
     currentwhite = 1, gcstate = 0\<rparr>"

lemma strstate_init_ok: "strtab_ok strstate_init" "str_pairs strstate_init = {}"
proof -
  have "strs strstate_init = []" by (simp add: strs_def strstate_init_def)
  then show "str_pairs strstate_init = {}" "strtab_ok strstate_init"
    by (auto simp: str_pairs_def strtab_ok_def strstate_init_def buckets_ok_empty intro: exI [of _ 5])
qed

lemmas intern_eval = gafqS_newlstr_def newlstr_def link_str_def strstate_init_def string_hash_def
  hash_loop.simps lmod_def MAX_SIZET_def sizeof_TString_def Let_def



lemma str_pairs_identity:
  "strtab_ok s \<Longrightarrow> (p, a) \<in> str_pairs s \<Longrightarrow> (q, b) \<in> str_pairs s \<Longrightarrow> p = q \<longleftrightarrow> a = b"
  unfolding str_pairs_def by (auto simp: strs_same_identity)

text \<open>
  Interned strings are compared by address: of two strings interned one after the other, the
  addresses are equal exactly when the contents are equal.
\<close>

lemma interned_equality:
  assumes "strtab_ok s"
    and "\<forall>p. b1 = Some p \<longrightarrow> p \<notin> fst ` str_pairs s" and "gafqS_newlstr b1 v1 s str1 = (s1, Inr p1)"
    and "currentwhite s = 1 \<or> currentwhite s = 2"
    and "\<forall>p. b2 = Some p \<longrightarrow> p \<notin> fst ` str_pairs s1" and "gafqS_newlstr b2 v2 s1 str2 = (s2, Inr p2)"
    and "currentwhite s1 = 1 \<or> currentwhite s1 = 2"
  shows "p1 = p2 \<longleftrightarrow> str1 = str2"
proof -
  from gafqS_newlstr_ok [OF assms(1-4)]
  have s1: "strtab_ok s1" "str_pairs s1 = insert (p1, str1) (str_pairs s)" by auto
  from gafqS_newlstr_ok [OF s1(1) assms(5-7)]
  have "strtab_ok s2" "str_pairs s2 = insert (p2, str2) (str_pairs s1)" by auto
  with s1 show ?thesis by (intro str_pairs_identity [of s2]) auto
qed

end
