(* ===== verification/Table.thy ===== *)
theory Table
  imports Strings
begin

text \<open>
  The tables of the language: \<open>gtable.c\<close>.  A table has an array part and a hash part, a chained
  scatter table with Brent's variation.  A node vector is a list, a pointer to a node its index,
  and \<open>isdummy\<close> says that \<open>node\<close> is the shared \<open>dummynode\<close>.  The search functions return the
  place of the value found (\<open>slot\<close>), \<open>None\<close> for \<open>gafqO_nilobject\<close>, as the C code
  returns a pointer and compares it.  The insertion of a key into a full hash part grows the table,
  which re-inserts the elements by the same functions: this recursion is written with the growing
  step as an argument, \<open>grow\<close>, and tied by fuel; the theory \<open>Table_Rehash\<close> shows that one level is enough.
  Allocation is taken to succeed; the error \<open>table overflow\<close> is modelled.
\<close>

subsection \<open>Nodes, tables, slots\<close>

record Node =
  i_val :: TValue
  i_key :: TValue
  i_next :: "nat option"

record Table =
  flags :: "8 word"
  lsizenode :: nat
  metatable :: "addr option"
  array :: "TValue list"
  node :: "Node list"
  isdummy :: bool
  lastfree :: int

datatype slot = SArray nat | SNode nat

definition MAXBITS :: nat where "MAXBITS = 26"

definition MAXASIZE :: int where "MAXASIZE = 2 ^ MAXBITS"

definition dummynode :: Node where
  "dummynode = \<lparr>i_val = TNil, i_key = TNil, i_next = None\<rparr>"

definition sizenode :: "Table \<Rightarrow> nat" where
  "sizenode t = twoto (lsizenode t)"

abbreviation sizearray :: "Table \<Rightarrow> nat" where
  "sizearray t \<equiv> length (array t)"

fun slotval :: "Table \<Rightarrow> slot \<Rightarrow> TValue" where
  "slotval t (SArray i) = array t ! i"
| "slotval t (SNode i) = i_val (node t ! i)"

fun setslot :: "Table \<Rightarrow> slot \<Rightarrow> TValue \<Rightarrow> Table" where
  "setslot t (SArray i) v = t\<lparr>array := (array t)[i := v]\<rparr>"
| "setslot t (SNode i) v = t\<lparr>node := (node t)[i := (node t ! i)\<lparr>i_val := v\<rparr>]\<rparr>"

definition slotoptval :: "Table \<Rightarrow> slot option \<Rightarrow> TValue" where
  "slotoptval t so = (case so of None \<Rightarrow> TNil | Some s \<Rightarrow> slotval t s)"

subsection \<open>Hashing\<close>

definition hashpow2 :: "Table \<Rightarrow> nat \<Rightarrow> nat" where
  "hashpow2 t n = lmod n (sizenode t)"

definition hashmod :: "Table \<Rightarrow> nat \<Rightarrow> nat" where
  "hashmod t n = n mod nat ((int (sizenode t) - 1) OR 1)"

definition hashnum :: "Table \<Rightarrow> gafq_Number \<Rightarrow> nat" where
  "hashnum t n =
     (if gafqi_numeq n 0 then 0
      else hashmod t ((unat n mod 2 ^ 32 + unat n div 2 ^ 32) mod 2 ^ 32))"

text \<open>The address of a collectable value other than a string; the main position of nil and of
  retired keys is never asked for.\<close>

fun gcaddr :: "TValue \<Rightarrow> nat" where
  "gcaddr (TTable a) = unat a"
| "gcaddr (TFunction a) = unat a"
| "gcaddr (TUserdata a) = unat a"
| "gcaddr (TThread a) = unat a"
| "gcaddr (TProto a) = unat a"
| "gcaddr (TUpval a) = unat a"
| "gcaddr _ = 0"

definition hashpointer :: "Table \<Rightarrow> nat \<Rightarrow> nat" where
  "hashpointer t p = hashmod t (p mod 2 ^ 32)"

definition mainposition :: "Table \<Rightarrow> TValue \<Rightarrow> nat" where
  "mainposition t key =
     (case key of
        TNumber n \<Rightarrow> hashnum t n
      | TString s \<Rightarrow> hashpow2 t (unat (string_hash s))
      | TBoolean b \<Rightarrow> hashpow2 t (if b then 1 else 0)
      | TLightUserdata p \<Rightarrow> hashpointer t (unat p)
      | _ \<Rightarrow> hashpointer t (gcaddr key))"

definition arrayindex :: "TValue \<Rightarrow> int" where
  "arrayindex key =
     (case key of
        TNumber n \<Rightarrow> (let k = gafq_number2int n in if gafqi_numeq (cast_num k) n then k else -1)
      | _ \<Rightarrow> -1)"

subsection \<open>Searching\<close>

text \<open>
  The nodes a walk along \<open>gnext\<close> visits from node \<open>i\<close>.  The number of nodes bounds the walk:
  the chains of a sound table have no cycle.
\<close>

fun chain_from :: "nat \<Rightarrow> Node list \<Rightarrow> nat \<Rightarrow> nat list" where
  "chain_from 0 ns i = []"
| "chain_from (Suc f) ns i =
     i # (case i_next (ns ! i) of None \<Rightarrow> [] | Some j \<Rightarrow> chain_from f ns j)"

definition chain :: "Table \<Rightarrow> nat \<Rightarrow> nat list" where
  "chain t i = chain_from (length (node t)) (node t) i"

definition search_chain :: "Table \<Rightarrow> (TValue \<Rightarrow> bool) \<Rightarrow> nat \<Rightarrow> nat option" where
  "search_chain t P i = find (\<lambda>j. P (i_key (node t ! j))) (chain t i)"

definition gafqH_getnum :: "Table \<Rightarrow> int \<Rightarrow> slot option" where
  "gafqH_getnum t key =
     (if (key - 1) mod 2 ^ 32 < int (sizearray t) then Some (SArray (nat ((key - 1) mod 2 ^ 32)))
      else let nk = cast_num key
           in map_option SNode
                (search_chain t (\<lambda>k. case k of TNumber n \<Rightarrow> gafqi_numeq n nk | _ \<Rightarrow> False)
                   (hashnum t nk)))"

definition gafqH_getstr :: "Table \<Rightarrow> string \<Rightarrow> slot option" where
  "gafqH_getstr t key =
     map_option SNode (search_chain t (\<lambda>k. k = TString key) (hashpow2 t (unat (string_hash key))))"

definition get_generic :: "Table \<Rightarrow> TValue \<Rightarrow> slot option" where
  "get_generic t key =
     map_option SNode (search_chain t (\<lambda>k. gafqO_rawequalObj k key) (mainposition t key))"

definition gafqH_get :: "Table \<Rightarrow> TValue \<Rightarrow> slot option" where
  "gafqH_get t key =
     (case key of
        TNil \<Rightarrow> None
      | TString s \<Rightarrow> gafqH_getstr t s
      | TNumber n \<Rightarrow>
          (let k = gafq_number2int n
           in if gafqi_numeq (cast_num k) n then gafqH_getnum t k else get_generic t key)
      | _ \<Rightarrow> get_generic t key)"

definition tget :: "Table \<Rightarrow> TValue \<Rightarrow> TValue" where
  "tget t key = slotoptval t (gafqH_get t key)"

subsection \<open>Traversal\<close>

text \<open>
  A retired key keeps the pointer of the object that was the key, and \<open>findindex\<close> compares it with that of the key it looks for.  Whether
  they are the same is the parameter \<open>same\<close>: a string is known by its contents, and a retired string may have been freed and made again.
\<close>

definition findindex :: "(TValue \<Rightarrow> TValue \<Rightarrow> bool) \<Rightarrow> Table \<Rightarrow> TValue \<Rightarrow> int res" where
  "findindex same t key =
     (if ttisnil key then Inr (-1)
      else let i = arrayindex key
           in if 0 < i \<and> i \<le> int (sizearray t) then Inr (i - 1)
              else case search_chain t (\<lambda>k. gafqO_rawequalObj k key \<or>
                          (case k of TDeadKey d \<Rightarrow> iscollectable key \<and> same d key | _ \<Rightarrow> False)) (mainposition t key) of
                     Some j \<Rightarrow> Inr (int j + int (sizearray t))
                   | None \<Rightarrow> Inl (RunError (''invalid key to '' @ [CHR 0x27] @ ''next'' @ [CHR 0x27])))"

text \<open>The two scans of \<open>gafqH_next\<close>, from index \<open>i\<close> on.\<close>

fun next_array :: "nat \<Rightarrow> TValue list \<Rightarrow> (TValue \<times> TValue) option" where
  "next_array i [] = None"
| "next_array i (v # vs) =
     (if \<not> ttisnil v then Some (TNumber (cast_num (int i + 1)), v) else next_array (Suc i) vs)"

fun next_node :: "Node list \<Rightarrow> (TValue \<times> TValue) option" where
  "next_node [] = None"
| "next_node (n # ns) = (if \<not> ttisnil (i_val n) then Some (i_key n, i_val n) else next_node ns)"

definition gafqH_next :: "(TValue \<Rightarrow> TValue \<Rightarrow> bool) \<Rightarrow> Table \<Rightarrow> TValue \<Rightarrow> (TValue \<times> TValue) option res" where
  "gafqH_next same t key =
     rbind (findindex same t key) (\<lambda>i0.
       let i = nat (i0 + 1)
       in case next_array i (drop i (array t)) of
            Some kv \<Rightarrow> Inr (Some kv)
          | None \<Rightarrow> Inr (next_node (drop (max i (sizearray t) - sizearray t) (node t))))"

text \<open>
  \<open>removeentry\<close> of the collector: the key of an empty entry is retired; it keeps the pointer and is not an object any more.
\<close>

fun setdead :: "TValue \<Rightarrow> TValue" where
  "setdead (TDeadKey v) = TDeadKey v"
| "setdead v = TDeadKey v"

definition removeentry :: "Node \<Rightarrow> Node" where
  "removeentry n = (if iscollectable (i_key n) then n\<lparr>i_key := setdead (i_key n)\<rparr> else n)"

subsection \<open>Sizes for a rehash\<close>

text \<open>The loop of \<open>computesizes\<close> over the counts that are left, for slices of size \<open>twotoi\<close> on.\<close>

primrec computesizes_loop :: "nat list \<Rightarrow> nat \<Rightarrow> nat \<Rightarrow> nat \<Rightarrow> nat \<Rightarrow> nat \<Rightarrow> nat \<times> nat" where
  "computesizes_loop [] twotoi narray a na n = (n, na)"
| "computesizes_loop (x # nums) twotoi narray a na n =
     (if twotoi div 2 < narray then
        (let a' = (if 0 < x then a + x else a);
             better = (0 < x \<and> twotoi div 2 < a');
             n' = (if better then twotoi else n);
             na' = (if better then a' else na)
         in if a' = narray then (n', na')
            else computesizes_loop nums (twotoi * 2) narray a' na' n')
      else (n, na))"

definition computesizes :: "nat list \<Rightarrow> nat \<Rightarrow> nat \<times> nat" where
  "computesizes nums narray = computesizes_loop nums 1 narray 0 0 0"

definition countint :: "TValue \<Rightarrow> nat list \<Rightarrow> nat list \<times> nat" where
  "countint key nums =
     (let k = arrayindex key
      in if 0 < k \<and> k \<le> MAXASIZE
         then (let j = nat (ceillog2 (nat k)) in (nums[j := nums ! j + 1], 1))
         else (nums, 0))"

text \<open>
  The loop of \<open>numusearray\<close>: \<open>slices\<close> counts the slices \<open>lg .. MAXBITS\<close> left, \<open>i\<close> is the first
  index not counted yet.
\<close>

primrec numusearray_loop :: "nat \<Rightarrow> TValue list \<Rightarrow> nat \<Rightarrow> nat \<Rightarrow> nat \<Rightarrow> nat list \<Rightarrow> nat \<Rightarrow> nat list \<times> nat" where
  "numusearray_loop 0 arr lg ttlg i nums ause = (nums, ause)"
| "numusearray_loop (Suc slices) arr lg ttlg i nums ause =
     (let lim = (if length arr < ttlg then length arr else ttlg)
      in if length arr < ttlg \<and> lim < i then (nums, ause)
         else let lc = length (filter (\<lambda>v. \<not> ttisnil v) (take (lim + 1 - i) (drop (i - 1) arr)))
              in numusearray_loop slices arr (lg + 1) (ttlg * 2) (max i (lim + 1))
                   (nums[lg := nums ! lg + lc]) (ause + lc))"

definition numusearray :: "Table \<Rightarrow> nat list \<Rightarrow> nat list \<times> nat" where
  "numusearray t nums = numusearray_loop (Suc MAXBITS) (array t) 0 1 1 nums 0"

primrec numusehash_loop :: "Node list \<Rightarrow> nat list \<Rightarrow> nat \<Rightarrow> nat \<Rightarrow> nat list \<times> nat \<times> nat" where
  "numusehash_loop [] nums ause totaluse = (nums, ause, totaluse)"
| "numusehash_loop (n # ns) nums ause totaluse =
     (if \<not> ttisnil (i_val n)
      then (let (nums', c) = countint (i_key n) nums
            in numusehash_loop ns nums' (ause + c) (totaluse + 1))
      else numusehash_loop ns nums ause totaluse)"

definition numusehash :: "Table \<Rightarrow> nat list \<Rightarrow> nat \<Rightarrow> nat list \<times> nat \<times> nat" where
  "numusehash t nums pnasize =
     (let (nums', ause, totaluse) = numusehash_loop (rev (node t)) nums 0 0
      in (nums', pnasize + ause, totaluse))"

subsection \<open>Changing the vectors\<close>

definition setarrayvector :: "Table \<Rightarrow> nat \<Rightarrow> Table" where
  "setarrayvector t sz =
     t\<lparr>array := take sz (array t) @ replicate (sz - sizearray t) TNil\<rparr>"

definition setnodevector :: "Table \<Rightarrow> nat \<Rightarrow> Table res" where
  "setnodevector t sz =
     (if sz = 0 then Inr (t\<lparr>node := [dummynode], isdummy := True, lsizenode := 0, lastfree := 0\<rparr>)
      else let lsize = nat (ceillog2 sz)
           in if MAXBITS < lsize then Inl (RunError ''table overflow'')
              else Inr (t\<lparr>node := replicate (twoto lsize) \<lparr>i_val = TNil, i_key = TNil, i_next = None\<rparr>,
                          isdummy := False, lsizenode := lsize, lastfree := int (twoto lsize)\<rparr>))"

definition gafqH_new :: "nat \<Rightarrow> nat \<Rightarrow> Table res" where
  "gafqH_new narray nhash =
     setnodevector
       (setarrayvector
         \<lparr>flags = NOT 0, lsizenode = 0, metatable = None, array = [], node = [dummynode],
          isdummy = True, lastfree = 0\<rparr> narray) nhash"

subsection \<open>Inserting\<close>

text \<open>\<open>getfreepos\<close> moves \<open>lastfree\<close> down; \<open>getfreepos_loop\<close> is its loop from a non-negative position.\<close>

fun getfreepos_loop :: "Node list \<Rightarrow> nat \<Rightarrow> nat option" where
  "getfreepos_loop ns 0 = None"
| "getfreepos_loop ns (Suc i) = (if ttisnil (i_key (ns ! i)) then Some i else getfreepos_loop ns i)"

definition getfreepos :: "Table \<Rightarrow> Table \<times> nat option" where
  "getfreepos t =
     (case getfreepos_loop (node t) (nat (lastfree t)) of
        Some i \<Rightarrow> (t\<lparr>lastfree := int i\<rparr>, Some i)
      | None \<Rightarrow> (t\<lparr>lastfree := min (lastfree t) 0 - 1\<rparr>, None))"

text \<open>The walk \<open>while (gnext(othern) != mp) othern = gnext(othern)\<close> of \<open>newkey\<close>.\<close>

definition find_previous :: "Table \<Rightarrow> nat \<Rightarrow> nat \<Rightarrow> nat option" where
  "find_previous t othern mp = find (\<lambda>j. i_next (node t ! j) = Some mp) (chain t othern)"

definition set_next :: "Table \<Rightarrow> nat \<Rightarrow> nat option \<Rightarrow> Table" where
  "set_next t i nx = t\<lparr>node := (node t)[i := (node t ! i)\<lparr>i_next := nx\<rparr>]\<rparr>"

definition set_key :: "Table \<Rightarrow> nat \<Rightarrow> TValue \<Rightarrow> Table" where
  "set_key t i k = t\<lparr>node := (node t)[i := (node t ! i)\<lparr>i_key := k\<rparr>]\<rparr>"

text \<open>
  The colliding node is out of its main position: it moves to the free position \<open>n\<close>, the chain is
  redone around it, and \<open>mp\<close> becomes free.
\<close>

definition move_colliding :: "Table \<Rightarrow> nat \<Rightarrow> nat \<Rightarrow> nat \<Rightarrow> Table" where
  "move_colliding t prev mp n =
     (let t1 = set_next t prev (Some n);
          t2 = t1\<lparr>node := (node t1)[n := node t1 ! mp]\<rparr>
      in t2\<lparr>node := (node t2)[mp := (node t2 ! mp)\<lparr>i_next := None, i_val := TNil\<rparr>]\<rparr>)"

text \<open>The colliding node is in its main position: the free position \<open>n\<close> is chained after it.\<close>

definition chain_free :: "Table \<Rightarrow> nat \<Rightarrow> nat \<Rightarrow> Table" where
  "chain_free t mp n = set_next (set_next t n (i_next (node t ! mp))) mp (Some n)"

definition newkey_with ::
  "(Table \<Rightarrow> TValue \<Rightarrow> (Table \<times> slot) res) \<Rightarrow> Table \<Rightarrow> TValue \<Rightarrow> (Table \<times> slot) res" where
  "newkey_with grow t key =
     (let mp = mainposition t key
      in if \<not> ttisnil (i_val (node t ! mp)) \<or> isdummy t then
           (case getfreepos t of
              (t1, None) \<Rightarrow> grow t1 key
            | (t1, Some n) \<Rightarrow>
                (let othern = mainposition t1 (i_key (node t1 ! mp))
                 in if othern \<noteq> mp then
                      (case find_previous t1 othern mp of
                         Some prev \<Rightarrow> Inr (set_key (move_colliding t1 prev mp n) mp key, SNode mp)
                       | None \<Rightarrow> Inl OutOfFuel)
                    else Inr (set_key (chain_free t1 mp n) n key, SNode n)))
         else Inr (set_key t mp key, SNode mp))"

definition gafqH_set_with ::
  "(Table \<Rightarrow> TValue \<Rightarrow> (Table \<times> slot) res) \<Rightarrow> Table \<Rightarrow> TValue \<Rightarrow> (Table \<times> slot) res" where
  "gafqH_set_with grow t key =
     (let t' = t\<lparr>flags := 0\<rparr>
      in case gafqH_get t key of
           Some s \<Rightarrow> Inr (t', s)
         | None \<Rightarrow>
             if ttisnil key then Inl (RunError ''table index is nil'')
             else if (case key of TNumber n \<Rightarrow> gafqi_numisnan n | _ \<Rightarrow> False)
                  then Inl (RunError ''table index is NaN'')
             else newkey_with grow t' key)"

definition gafqH_setnum_with ::
  "(Table \<Rightarrow> TValue \<Rightarrow> (Table \<times> slot) res) \<Rightarrow> Table \<Rightarrow> int \<Rightarrow> (Table \<times> slot) res" where
  "gafqH_setnum_with grow t key =
     (case gafqH_getnum t key of
        Some s \<Rightarrow> Inr (t, s)
      | None \<Rightarrow> newkey_with grow t (TNumber (cast_num key)))"

definition gafqH_setstr_with ::
  "(Table \<Rightarrow> TValue \<Rightarrow> (Table \<times> slot) res) \<Rightarrow> Table \<Rightarrow> string \<Rightarrow> (Table \<times> slot) res" where
  "gafqH_setstr_with grow t key =
     (case gafqH_getstr t key of
        Some s \<Rightarrow> Inr (t, s)
      | None \<Rightarrow> newkey_with grow t (TString key))"

subsection \<open>Growing\<close>

text \<open>
  The elements of the vanishing slice \<open>array[i ..]\<close>.  The assignment takes the address of the element before it calls \<open>gafqH_setnum\<close>: when
  that call gives the table another array, the element is read from memory that was freed.
\<close>

primrec reinsert_array ::
  "(Table \<Rightarrow> TValue \<Rightarrow> (Table \<times> slot) res) \<Rightarrow> nat \<Rightarrow> TValue list \<Rightarrow> Table \<Rightarrow> Table res" where
  "reinsert_array grow i [] t = Inr t"
| "reinsert_array grow i (v # vs) t =
     (if \<not> ttisnil v
      then rbind (gafqH_setnum_with grow t (int i + 1))
             (\<lambda>(t', s). if sizearray t' = sizearray t then reinsert_array grow (Suc i) vs (setslot t' s v)
                       else Inl (Undefined ''element of a freed array''))
      else reinsert_array grow (Suc i) vs t)"

primrec reinsert_nodes ::
  "(Table \<Rightarrow> TValue \<Rightarrow> (Table \<times> slot) res) \<Rightarrow> Node list \<Rightarrow> Table \<Rightarrow> Table res" where
  "reinsert_nodes grow [] t = Inr t"
| "reinsert_nodes grow (old # olds) t =
     (if \<not> ttisnil (i_val old)
      then rbind (gafqH_set_with grow t (i_key old))
             (\<lambda>(t', s). reinsert_nodes grow olds (setslot t' s (i_val old)))
      else reinsert_nodes grow olds t)"

definition resize_with ::
  "(Table \<Rightarrow> TValue \<Rightarrow> (Table \<times> slot) res) \<Rightarrow> Table \<Rightarrow> nat \<Rightarrow> nat \<Rightarrow> Table res" where
  "resize_with grow t nasize nhsize =
     (let oldasize = sizearray t;
          nold = node t;
          t1 = (if oldasize < nasize then setarrayvector t nasize else t)
      in rbind (setnodevector t1 nhsize) (\<lambda>t2.
           rbind (if nasize < oldasize
                  then reinsert_array grow nasize (drop nasize (array t2))
                         (t2\<lparr>array := take nasize (array t2)\<rparr>)
                  else Inr t2)
             (reinsert_nodes grow (rev nold))))"

definition rehash_with ::
  "(Table \<Rightarrow> TValue \<Rightarrow> (Table \<times> slot) res) \<Rightarrow> Table \<Rightarrow> TValue \<Rightarrow> Table res" where
  "rehash_with grow t ek =
     (let (nums1, nasize1) = numusearray t (replicate (MAXBITS + 1) 0);
          (nums2, nasize2, hashuse) = numusehash t nums1 nasize1;
          (nums3, c) = countint ek nums2;
          totaluse = nasize1 + hashuse + 1;
          (nasize, na) = computesizes nums3 (nasize2 + c)
      in resize_with grow t nasize (totaluse - na))"

text \<open>
  The growing step of \<open>newkey\<close>: rehash, then set the key again.  The first argument bounds the
  depth of growing inside growing.
\<close>

fun grow :: "nat \<Rightarrow> Table \<Rightarrow> TValue \<Rightarrow> (Table \<times> slot) res" where
  "grow 0 t key = Inl OutOfFuel"
| "grow (Suc d) t key = rbind (rehash_with (grow d) t key) (\<lambda>t'. gafqH_set_with (grow d) t' key)"

definition newkey :: "Table \<Rightarrow> TValue \<Rightarrow> (Table \<times> slot) res" where
  "newkey = newkey_with (grow 1)"

definition gafqH_set :: "Table \<Rightarrow> TValue \<Rightarrow> (Table \<times> slot) res" where
  "gafqH_set = gafqH_set_with (grow 1)"

definition gafqH_setnum :: "Table \<Rightarrow> int \<Rightarrow> (Table \<times> slot) res" where
  "gafqH_setnum = gafqH_setnum_with (grow 1)"

definition gafqH_setstr :: "Table \<Rightarrow> string \<Rightarrow> (Table \<times> slot) res" where
  "gafqH_setstr = gafqH_setstr_with (grow 1)"

definition gafqH_resizearray :: "Table \<Rightarrow> nat \<Rightarrow> Table res" where
  "gafqH_resizearray t nasize =
     (let nsize = (if isdummy t then 0 else sizenode t) in resize_with (grow 1) t nasize nsize)"

subsection \<open>The border of the integer keys\<close>

text \<open>
  The binary searches of \<open>gafqH_getn\<close> and \<open>unbound_search\<close>, over the test for absence of an
  index.
\<close>

function binsearch :: "(nat \<Rightarrow> bool) \<Rightarrow> nat \<Rightarrow> nat \<Rightarrow> nat" where
  "binsearch absent i j =
     (if 1 < j - i
      then (let m = (i + j) div 2 in if absent m then binsearch absent i m else binsearch absent m j)
      else i)"
  by pat_completeness auto
termination
  by (relation "measure (\<lambda>(absent, i, j). j - i)") auto

declare binsearch.simps [simp del]

text \<open>The doubling loop: \<open>Inr (i, j)\<close> brackets a border, \<open>Inl ()\<close> is the overflow exit.\<close>

function double_search :: "(nat \<Rightarrow> bool) \<Rightarrow> nat \<Rightarrow> nat \<Rightarrow> unit + nat \<times> nat" where
  "double_search absent i j =
     (if absent j then Inr (i, j)
      else if MAX_INT < int (j * 2) \<or> j = 0 then Inl ()
      else double_search absent j (j * 2))"
  by pat_completeness auto
termination
  by (relation "measure (\<lambda>(absent, i, j). nat MAX_INT + 1 - j)") (auto simp: MAX_INT_def)

declare double_search.simps [simp del]

text \<open>The linear search of the overflow exit; \<open>None\<close> when it runs past the \<open>unsigned int\<close> range.\<close>

function linear_search :: "(nat \<Rightarrow> bool) \<Rightarrow> nat \<Rightarrow> nat option" where
  "linear_search absent i =
     (if 2 ^ 32 \<le> i then None else if absent i then Some i else linear_search absent (i + 1))"
  by pat_completeness auto
termination
  by (relation "measure (\<lambda>(absent, i). 2 ^ 32 - i)") auto

declare linear_search.simps [simp del]

definition uint2int :: "nat \<Rightarrow> int" where
  "uint2int j = (if 2 ^ 31 \<le> j then int j - 2 ^ 32 else int j)"

definition num_absent :: "Table \<Rightarrow> nat \<Rightarrow> bool" where
  "num_absent t j = ttisnil (slotoptval t (gafqH_getnum t (uint2int j)))"

definition unbound_search :: "Table \<Rightarrow> nat \<Rightarrow> nat option" where
  "unbound_search t j =
     (case double_search (num_absent t) j (j + 1) of
        Inr (i, j') \<Rightarrow> Some (binsearch (num_absent t) i j')
      | Inl () \<Rightarrow> map_option (\<lambda>i. i - 1) (linear_search (num_absent t) 1))"

definition gafqH_getn :: "Table \<Rightarrow> nat option" where
  "gafqH_getn t =
     (let j = sizearray t
      in if 0 < j \<and> ttisnil (array t ! (j - 1))
         then Some (binsearch (\<lambda>m. ttisnil (array t ! (m - 1))) 0 j)
         else if isdummy t then Some j
         else unbound_search t j)"

end
