(* ===== verification/Table_Inv.thy ===== *)
theory Table_Inv
  imports Table
begin

text \<open>
  The invariant of a hash part and what it gives for searching.  The chains of a node vector form a
  forest of disjoint acyclic paths; every live key is reachable from its main position; and, the
  invariant the comment at the top of \<open>gtable.c\<close> states, a key out of its main position finds
  there a key that is in its own main position.  The locale \<open>scatter\<close> is the interface to the
  hash function: a main position within the vector that respects raw equality of keys.
\<close>

subsection \<open>Keys\<close>

definition live :: "TValue \<Rightarrow> bool" where
  "live k \<longleftrightarrow> k \<noteq> TNil \<and> (\<forall>v. k \<noteq> TDeadKey v)"

definition proper :: "TValue \<Rightarrow> bool" where
  "proper k \<longleftrightarrow> live k \<and> \<not> isnan_val k"

lemma proper_live: "proper k \<Longrightarrow> live k"
  by (simp add: proper_def)

lemma proper_refl: "proper k \<Longrightarrow> gafqO_rawequalObj k k"
  by (simp add: proper_def rawequal_refl)

lemma live_not_nil: "live k \<Longrightarrow> k \<noteq> TNil"
  by (simp add: live_def)

lemma rawequal_live: "gafqO_rawequalObj a b \<Longrightarrow> live a \<longleftrightarrow> live b"
  using rawequal_ttype [of a b] by (cases a; cases b) (auto simp: live_def)

lemma rawequal_proper: "gafqO_rawequalObj a b \<Longrightarrow> live b \<Longrightarrow> proper a"
  using rawequal_trans [of a b a] rawequal_sym [of a b] rawequal_live [of a b]
  by (auto simp: proper_def rawequal_refl [symmetric])

subsection \<open>Node vectors\<close>

abbreviation nkey :: "Node list \<Rightarrow> nat \<Rightarrow> TValue" where
  "nkey ns i \<equiv> i_key (ns ! i)"

abbreviation nval :: "Node list \<Rightarrow> nat \<Rightarrow> TValue" where
  "nval ns i \<equiv> i_val (ns ! i)"

abbreviation nnext :: "Node list \<Rightarrow> nat \<Rightarrow> nat option" where
  "nnext ns i \<equiv> i_next (ns ! i)"

definition links :: "Node list \<Rightarrow> (nat \<times> nat) set" where
  "links ns = {(i, j). i < length ns \<and> nnext ns i = Some j}"

definition ranked :: "(nat \<Rightarrow> nat) \<Rightarrow> Node list \<Rightarrow> bool" where
  "ranked r ns \<longleftrightarrow> (\<forall>i j. (i, j) \<in> links ns \<longrightarrow> r i < r j)"

definition chains_ok :: "Node list \<Rightarrow> bool" where
  "chains_ok ns \<longleftrightarrow>
     (\<forall>i j. (i, j) \<in> links ns \<longrightarrow> j < length ns \<and> nkey ns i \<noteq> TNil \<and> nkey ns j \<noteq> TNil) \<and>
     (\<forall>i i' j. (i, j) \<in> links ns \<and> (i', j) \<in> links ns \<longrightarrow> i = i') \<and>
     (\<exists>r. ranked r ns)"

definition keys_ok :: "Node list \<Rightarrow> bool" where
  "keys_ok ns \<longleftrightarrow>
     (\<forall>i < length ns. live (nkey ns i) \<longrightarrow> proper (nkey ns i)) \<and>
     (\<forall>i < length ns. nval ns i \<noteq> TNil \<longrightarrow> live (nkey ns i)) \<and>
     (\<forall>i < length ns. \<forall>j < length ns. live (nkey ns i) \<and> gafqO_rawequalObj (nkey ns i) (nkey ns j) \<longrightarrow> i = j)"

definition placed :: "(TValue \<Rightarrow> nat) \<Rightarrow> Node list \<Rightarrow> bool" where
  "placed mp ns \<longleftrightarrow>
     (\<forall>i < length ns. live (nkey ns i) \<longrightarrow>
        (mp (nkey ns i), i) \<in> (links ns)\<^sup>* \<and> nkey ns (mp (nkey ns i)) \<noteq> TNil \<and>
        (live (nkey ns (mp (nkey ns i))) \<longrightarrow> mp (nkey ns (mp (nkey ns i))) = mp (nkey ns i)))"

definition hash_inv :: "(TValue \<Rightarrow> nat) \<Rightarrow> Node list \<Rightarrow> bool" where
  "hash_inv mp ns \<longleftrightarrow> chains_ok ns \<and> keys_ok ns \<and> placed mp ns"

text \<open>
  A retired key that comes before a live key on the way from the main position of that key was retired while the live key was in the
  table already, because a new key is always put at the front of its chain or next to it.  Two objects alive at one time have different
  addresses, so that such a retired key never has the address of the live key; \<open>R\<close> is the comparison of addresses.
\<close>

definition dead_apart :: "(TValue \<Rightarrow> TValue \<Rightarrow> bool) \<Rightarrow> (TValue \<Rightarrow> nat) \<Rightarrow> Node list \<Rightarrow> bool" where
  "dead_apart R mp ns \<longleftrightarrow>
     (\<forall>i j d. j < length ns \<and> live (nkey ns j) \<and> (mp (nkey ns j), i) \<in> (links ns)\<^sup>* \<and> (i, j) \<in> (links ns)\<^sup>+ \<and> nkey ns i = TDeadKey d \<longrightarrow>
        \<not> R d (nkey ns j))"

lemma linksD: "(i, j) \<in> links ns \<Longrightarrow> i < length ns \<and> nnext ns i = Some j"
  by (simp add: links_def)

lemma chains_okD:
  assumes "chains_ok ns" "(i, j) \<in> links ns"
  shows "i < length ns" "j < length ns" "nkey ns i \<noteq> TNil" "nkey ns j \<noteq> TNil" "i \<noteq> j"
proof -
  from assms(1) obtain r where "ranked r ns" by (auto simp: chains_ok_def)
  then show "i \<noteq> j" using assms(2) by (auto simp: ranked_def)
qed (use assms in \<open>auto simp: chains_ok_def links_def\<close>)

lemma chains_ok_inj: "chains_ok ns \<Longrightarrow> (i, j) \<in> links ns \<Longrightarrow> (i', j) \<in> links ns \<Longrightarrow> i = i'"
  unfolding chains_ok_def by blast

lemma chains_ok_free: "chains_ok ns \<Longrightarrow> i < length ns \<Longrightarrow> nkey ns i = TNil \<Longrightarrow> nnext ns i = None"
  using chains_okD(3) [of ns i] by (cases "nnext ns i") (auto simp: links_def)

lemma chains_ok_acyclic: "chains_ok ns \<Longrightarrow> (i, i) \<notin> (links ns)\<^sup>+"
proof
  assume "chains_ok ns" "(i, i) \<in> (links ns)\<^sup>+"
  then obtain r where r: "ranked r ns" by (auto simp: chains_ok_def)
  have "r i < r j" if "(i, j) \<in> (links ns)\<^sup>+" for j
    using that by induction (use r in \<open>auto simp: ranked_def intro: less_trans\<close>)
  then show False using \<open>(i, i) \<in> (links ns)\<^sup>+\<close> by blast
qed

lemma proper_not_dead: "proper k \<Longrightarrow> k \<noteq> TDeadKey d"
  by (auto simp: proper_def live_def)

text \<open>The links of a changed vector, followed back to the vector before by \<open>h\<close>.\<close>

lemma dead_apart_back:
  assumes ok: "dead_apart R mp ns"
    and step: "\<And>x y. (x, y) \<in> links ns' \<Longrightarrow> (h x, h y) \<in> (links ns)\<^sup>*"
    and old: "\<And>j. j < length ns' \<Longrightarrow> live (nkey ns' j) \<Longrightarrow> j \<noteq> p \<Longrightarrow>
      h j < length ns \<and> nkey ns (h j) = nkey ns' j \<and> h (mp (nkey ns' j)) = mp (nkey ns' j)"
    and dead: "\<And>i d. i < length ns' \<Longrightarrow> nkey ns' i = TDeadKey d \<Longrightarrow> nkey ns (h i) = TDeadKey d"
    and new: "\<And>i d. (mp (nkey ns' p), i) \<in> (links ns')\<^sup>* \<Longrightarrow> (i, p) \<in> (links ns')\<^sup>+ \<Longrightarrow> nkey ns' i \<noteq> TDeadKey d"
  shows "dead_apart R mp ns'"
  unfolding dead_apart_def
proof (intro allI impI, elim conjE)
  fix i j d
  assume a: "j < length ns'" "live (nkey ns' j)" "(mp (nkey ns' j), i) \<in> (links ns')\<^sup>*" "(i, j) \<in> (links ns')\<^sup>+" "nkey ns' i = TDeadKey d"
  have star: "(h x, h y) \<in> (links ns)\<^sup>*" if "(x, y) \<in> (links ns')\<^sup>*" for x y
    using that
  proof induction
    case (step y z)
    then show ?case using rtrancl_trans [OF step.IH assms(2) [OF step.hyps(2)]] by simp
  qed simp
  show "\<not> R d (nkey ns' j)"
  proof (cases "j = p")
    case True
    then show ?thesis using new [of i d] a by simp
  next
    case False
    note o = old [OF a(1,2) False]
    have "i < length ns'" using a(4) by (meson tranclD linksD)
    then have di: "nkey ns (h i) = TDeadKey d" using dead a(5) by blast
    then have "h i \<noteq> h j" using o a(2) by (auto simp: live_def)
    then have "(h i, h j) \<in> (links ns)\<^sup>+" using star [of i j] a(4) by (metis rtranclD trancl_into_rtrancl)
    moreover have "(mp (nkey ns (h j)), h i) \<in> (links ns)\<^sup>*" using star [OF a(3)] o by simp
    ultimately show ?thesis using ok o a(2) di unfolding dead_apart_def by metis
  qed
qed

subsection \<open>Walks\<close>

lemma chain_from_reach: "j \<in> set (chain_from f ns i) \<Longrightarrow> i < length ns \<Longrightarrow> chains_ok ns \<Longrightarrow>
  (i, j) \<in> (links ns)\<^sup>* \<and> j < length ns"
proof (induction f arbitrary: i)
  case (Suc f)
  show ?case
  proof (cases "nnext ns i")
    case (Some k)
    then have l: "(i, k) \<in> links ns" using Suc.prems(2) by (simp add: links_def)
    have "k < length ns" using chains_okD(2) [OF Suc.prems(3) l] .
    then show ?thesis using Suc Some l by (auto intro: converse_rtrancl_into_rtrancl)
  qed (use Suc.prems in auto)
qed simp

lemma chain_from_relpow: "(i, j) \<in> links ns ^^ d \<Longrightarrow> d < f \<Longrightarrow> j \<in> set (chain_from f ns i)"
proof (induction d arbitrary: i f)
  case 0
  then show ?case by (cases f) auto
next
  case (Suc d)
  from Suc.prems(1) obtain k where k: "(i, k) \<in> links ns" "(k, j) \<in> links ns ^^ d"
    by (meson relpow_Suc_D2)
  obtain f' where f: "f = Suc f'" "d < f'" using Suc.prems(2) by (cases f) auto
  then show ?case using Suc.IH [OF k(2) f(2)] k(1) by (auto simp: links_def)
qed

lemma relpow_rank: "ranked r ns \<Longrightarrow> (i, j) \<in> links ns ^^ d \<Longrightarrow> r i + d \<le> r j"
proof (induction d arbitrary: j)
  case (Suc d)
  then obtain k where "(i, k) \<in> links ns ^^ d" "(k, j) \<in> links ns" by auto
  with Suc show ?case by (fastforce simp: ranked_def)
qed simp

text \<open>An acyclic walk is shorter than the vector: its nodes are different.\<close>

lemma chain_from_sorted:
  "ranked r ns \<Longrightarrow> i < length ns \<Longrightarrow> chains_ok ns \<Longrightarrow> sorted_wrt (<) (map r (chain_from f ns i)) \<and>
   set (chain_from f ns i) \<subseteq> {..<length ns}"
proof (induction f arbitrary: i)
  case (Suc f)
  show ?case
  proof (cases "nnext ns i")
    case (Some k)
    then have l: "(i, k) \<in> links ns" using Suc.prems(2) by (simp add: links_def)
    then have k: "k < length ns" using chains_okD(2) [OF Suc.prems(3)] by blast
    note IH = Suc.IH [OF Suc.prems(1) k Suc.prems(3)]
    have "r i < r j" if "j \<in> set (chain_from f ns k)" for j
    proof -
      from chain_from_reach [OF that k Suc.prems(3)] obtain d where "(k, j) \<in> links ns ^^ d"
        by (auto dest: rtrancl_imp_relpow)
      from relpow_rank [OF Suc.prems(1) this] l Suc.prems(1) show ?thesis
        by (fastforce simp: ranked_def)
    qed
    with IH Some Suc.prems(2) show ?thesis by auto
  qed (use Suc.prems in auto)
qed simp

lemma chain_from_length_relpow:
  "(i, j) \<in> links ns ^^ d \<Longrightarrow> length (chain_from (Suc d) ns i) = Suc d"
proof (induction d arbitrary: i)
  case (Suc d)
  from Suc.prems obtain k where "(i, k) \<in> links ns" "(k, j) \<in> links ns ^^ d"
    by (meson relpow_Suc_D2)
  with Suc.IH [of k] show ?case by (simp add: links_def)
qed (simp split: option.splits)

lemma walk_short:
  assumes "chains_ok ns" "i < length ns" "(i, j) \<in> links ns ^^ d"
  shows "d < length ns"
proof -
  from assms(1) obtain r where r: "ranked r ns" by (auto simp: chains_ok_def)
  from chain_from_sorted [OF r assms(2,1), of "Suc d"]
  have s: "sorted_wrt (<) (map r (chain_from (Suc d) ns i))" "set (chain_from (Suc d) ns i) \<subseteq> {..<length ns}"
    by auto
  have "distinct (map r (chain_from (Suc d) ns i))" using s(1) strict_sorted_iff by blast
  then have "distinct (chain_from (Suc d) ns i)" unfolding distinct_map by blast
  then have "length (chain_from (Suc d) ns i) = card (set (chain_from (Suc d) ns i))"
    by (simp add: distinct_card del: chain_from.simps)
  also have "\<dots> \<le> length ns" using card_mono [OF _ s(2)] by simp
  finally show ?thesis using chain_from_length_relpow [OF assms(3)] by simp
qed

lemma chain_complete:
  assumes "chains_ok ns" "i < length ns"
  shows "set (chain_from (length ns) ns i) = {j. (i, j) \<in> (links ns)\<^sup>*}"
proof
  show "set (chain_from (length ns) ns i) \<subseteq> {j. (i, j) \<in> (links ns)\<^sup>*}"
    using chain_from_reach [OF _ assms(2,1)] by blast
  show "{j. (i, j) \<in> (links ns)\<^sup>*} \<subseteq> set (chain_from (length ns) ns i)"
  proof
    fix j assume "j \<in> {j. (i, j) \<in> (links ns)\<^sup>*}"
    then obtain d where d: "(i, j) \<in> links ns ^^ d" by (auto dest: rtrancl_imp_relpow)
    from chain_from_relpow [OF d walk_short [OF assms d]]
    show "j \<in> set (chain_from (length ns) ns i)" .
  qed
qed

lemma links_target_less: "chains_ok ns \<Longrightarrow> (i, j) \<in> (links ns)\<^sup>* \<Longrightarrow> i < length ns \<Longrightarrow> j < length ns"
  by (metis chain_complete chain_from_reach mem_Collect_eq)


subsection \<open>The interface to the hash function\<close>

definition holds :: "Node list \<Rightarrow> TValue \<Rightarrow> nat \<Rightarrow> bool" where
  "holds ns k j \<longleftrightarrow> j < length ns \<and> gafqO_rawequalObj (nkey ns j) k"

lemma holds_live: "holds ns k j \<Longrightarrow> proper k \<Longrightarrow> live (nkey ns j)"
  using rawequal_live [of "nkey ns j" k] proper_live [of k] by (simp add: holds_def)

lemma holds_unique: "keys_ok ns \<Longrightarrow> proper k \<Longrightarrow> holds ns k i \<Longrightarrow> holds ns k j \<Longrightarrow> i = j"
  using rawequal_trans [of "nkey ns i" k "nkey ns j"] rawequal_sym [of "nkey ns j" k] holds_live [of ns k i]
  by (simp add: holds_def keys_ok_def)

locale scatter =
  fixes mp :: "TValue \<Rightarrow> nat" and n :: nat
  assumes mp_less: "mp k < n"
    and mp_cong: "gafqO_rawequalObj k k' \<Longrightarrow> mp k = mp k'"
begin

text \<open>The walk from the main position of a key finds the node that holds it, if there is one.\<close>

lemma search_finds:
  assumes "hash_inv mp ns" "length ns = n" "proper k"
  shows "find (\<lambda>j. gafqO_rawequalObj (nkey ns j) k) (chain_from n ns (mp k)) = Some j \<longleftrightarrow> holds ns k j"
proof -
  have ok: "chains_ok ns" "keys_ok ns" "placed mp ns" using assms(1) by (auto simp: hash_inv_def)
  have cc: "set (chain_from n ns (mp k)) = {j. (mp k, j) \<in> (links ns)\<^sup>*}"
    using chain_complete [OF ok(1), of "mp k"] mp_less assms(2) by simp
  have in_chain: "j \<in> set (chain_from n ns (mp k))" if "holds ns k j" for j
  proof -
    from that have j: "j < length ns" "gafqO_rawequalObj (nkey ns j) k" by (auto simp: holds_def)
    have "live (nkey ns j)" using that assms(3) by (rule holds_live)
    then have "(mp (nkey ns j), j) \<in> (links ns)\<^sup>*" using ok(3) j(1) by (auto simp: placed_def)
    then show ?thesis using cc mp_cong [OF j(2)] by simp
  qed
  have bound: "i < n" if "i \<in> set (chain_from n ns (mp k))" for i
    using chain_from_reach [OF that _ ok(1)] mp_less assms(2) by simp
  show ?thesis
  proof
    assume "find (\<lambda>j. gafqO_rawequalObj (nkey ns j) k) (chain_from n ns (mp k)) = Some j"
    then show "holds ns k j" using bound assms(2) by (auto simp: holds_def find_Some_iff)
  next
    assume h: "holds ns k j"
    then obtain i where i: "find (\<lambda>j. gafqO_rawequalObj (nkey ns j) k) (chain_from n ns (mp k)) = Some i"
      using in_chain [OF h] by (cases "find (\<lambda>j. gafqO_rawequalObj (nkey ns j) k) (chain_from n ns (mp k))")
        (auto simp: find_None_iff holds_def)
    then have "holds ns k i" using bound assms(2) by (auto simp: holds_def find_Some_iff)
    with holds_unique [OF ok(2) assms(3) h this] i show "find (\<lambda>j. gafqO_rawequalObj (nkey ns j) k) (chain_from n ns (mp k)) = Some j"
      by simp
  qed
qed

lemma search_none:
  assumes "hash_inv mp ns" "length ns = n" "proper k"
  shows "find (\<lambda>j. gafqO_rawequalObj (nkey ns j) k) (chain_from n ns (mp k)) = None \<longleftrightarrow> (\<forall>j. \<not> holds ns k j)"
  using search_finds [OF assms] by (metis not_Some_eq)

end

subsection \<open>What an insertion keeps\<close>

definition entries :: "Node list \<Rightarrow> (TValue \<times> TValue) set" where
  "entries ns = {(nkey ns i, nval ns i) | i. i < length ns \<and> nval ns i \<noteq> TNil}"

definition nfree :: "Node list \<Rightarrow> nat" where
  "nfree ns = length (filter (\<lambda>nd. i_key nd = TNil) ns)"

definition absent_key :: "Node list \<Rightarrow> TValue \<Rightarrow> bool" where
  "absent_key ns k \<longleftrightarrow> (\<forall>j. \<not> holds ns k j)"

lemma absent_keyD: "absent_key ns k \<Longrightarrow> i < length ns \<Longrightarrow> \<not> gafqO_rawequalObj (nkey ns i) k"
  by (simp add: absent_key_def holds_def)

lemma absent_keyD2: "absent_key ns k \<Longrightarrow> i < length ns \<Longrightarrow> \<not> gafqO_rawequalObj k (nkey ns i)"
  using absent_keyD rawequal_sym by blast

lemma keys_ok_insert:
  assumes "keys_ok ns" "proper k" "absent_key ns k" "p < length ns" "length ns' = length ns"
    and key: "\<And>i. i < length ns \<Longrightarrow> nkey ns' i = (if i = p then k else nkey ns (g i))"
    and val: "\<And>i. i < length ns \<Longrightarrow> nval ns' i = (if i = p then TNil else nval ns (g i))"
    and g: "\<And>i. i < length ns \<Longrightarrow> i \<noteq> p \<Longrightarrow> g i < length ns" "inj_on g ({..<length ns} - {p})"
  shows "keys_ok ns'"
  unfolding keys_ok_def assms(5)
proof (intro conjI allI impI)
  fix i assume "i < length ns" "live (nkey ns' i)"
  then show "proper (nkey ns' i)" using assms(1,2) g(1) by (auto simp: key keys_ok_def)
next
  fix i assume "i < length ns" "nval ns' i \<noteq> TNil"
  then show "live (nkey ns' i)" using assms(1) g(1) by (auto simp: key val keys_ok_def split: if_splits)
next
  fix i j
  assume i: "i < length ns" and j: "j < length ns"
    and eq: "live (nkey ns' i) \<and> gafqO_rawequalObj (nkey ns' i) (nkey ns' j)"
  show "i = j"
  proof (cases "i = p \<or> j = p")
    case True
    then show ?thesis
      using eq i j absent_keyD [OF assms(3)] absent_keyD2 [OF assms(3)] g(1)
      by (auto simp: key split: if_splits)
  next
    case False
    then have "g i = g j" using eq i j assms(1) g(1) by (auto simp: key keys_ok_def)
    then show ?thesis using False i j g(2) by (auto dest: inj_onD)
  qed
qed

lemma ranked_cong: "(\<And>i j. (i, j) \<in> links ns' \<Longrightarrow> (i, j) \<in> links ns) \<Longrightarrow> ranked r ns \<Longrightarrow> ranked r ns'"
  by (auto simp: ranked_def)

context scatter
begin

text \<open>The main position is free: the key is written there.\<close>

lemma insert_at_main:
  assumes inv: "hash_inv mp ns" "length ns = n" and k: "proper k" "absent_key ns k"
    and val: "nval ns (mp k) = TNil"
  shows "hash_inv mp (ns[mp k := (ns ! mp k)\<lparr>i_key := k\<rparr>])"
    "dead_apart R mp ns \<Longrightarrow> dead_apart R mp (ns[mp k := (ns ! mp k)\<lparr>i_key := k\<rparr>])"
proof -
  let ?m = "mp k" and ?ns' = "ns[mp k := (ns ! mp k)\<lparr>i_key := k\<rparr>]"
  have m: "?m < length ns" using mp_less inv(2) by simp
  have fld: "nkey ?ns' i = (if i = ?m then k else nkey ns i)" "nval ?ns' i = nval ns i"
    "nnext ?ns' i = nnext ns i" if "i < length ns" for i
    using that m by (auto simp: nth_list_update)
  have lk: "links ?ns' = links ns" using fld(3) by (auto simp: links_def)
  have ok: "chains_ok ns" "keys_ok ns" "placed mp ns" using inv(1) by (auto simp: hash_inv_def)
  have "nkey ?ns' i \<noteq> TNil" if "i < length ns" "nkey ns i \<noteq> TNil" for i
    using that fld(1) k(1) by (auto simp: live_not_nil proper_live)
  then have "chains_ok ?ns'"
    using ok(1) chains_okD [OF ok(1)] unfolding chains_ok_def ranked_def lk length_list_update by blast
  moreover have "keys_ok ?ns'"
    by (rule keys_ok_insert [OF ok(2) k m, where g = "\<lambda>i. i"]) (use fld val in \<open>auto simp: inj_on_def\<close>)
  moreover have "placed mp ?ns'"
    unfolding placed_def lk
  proof (intro allI impI)
    fix i assume i: "i < length ?ns'" "live (nkey ?ns' i)"
    show "(mp (nkey ?ns' i), i) \<in> (links ns)\<^sup>* \<and> nkey ?ns' (mp (nkey ?ns' i)) \<noteq> TNil \<and>
      (live (nkey ?ns' (mp (nkey ?ns' i))) \<longrightarrow> mp (nkey ?ns' (mp (nkey ?ns' i))) = mp (nkey ?ns' i))"
    proof (cases "i = ?m")
      case True
      then show ?thesis using fld(1) [OF m] k(1) m by (simp add: live_not_nil proper_live)
    next
      case False
      then have "nkey ?ns' i = nkey ns i" "live (nkey ns i)" using i fld(1) by auto
      moreover have "mp (nkey ns i) < length ns" using mp_less inv(2) by simp
      ultimately show ?thesis using ok(3) i(1) fld(1) k(1)
        by (auto simp: placed_def live_not_nil proper_live)
    qed
  qed
  ultimately show "hash_inv mp ?ns'" by (simp add: hash_inv_def)
  show "dead_apart R mp ?ns'" if apart: "dead_apart R mp ns"
  proof (rule dead_apart_back [OF apart, where h = "\<lambda>x. x" and p = ?m])
    show "nkey ns i = TDeadKey d" if "i < length ?ns'" "nkey ?ns' i = TDeadKey d" for i d
      using that proper_not_dead [OF k(1)] m by (auto simp: nth_list_update split: if_splits)
    show "nkey ?ns' i \<noteq> TDeadKey d" if "(mp (nkey ?ns' ?m), i) \<in> (links ?ns')\<^sup>*" "(i, ?m) \<in> (links ?ns')\<^sup>+" for i d
    proof -
      have "(?m, ?m) \<in> (links ns)\<^sup>+" using rtrancl_trancl_trancl that fld(1) [OF m] unfolding lk by simp
      then show ?thesis using chains_ok_acyclic [OF ok(1)] by blast
    qed
  qed (use fld in \<open>auto simp: lk\<close>)
qed

text \<open>The colliding node is at home: the free node \<open>f\<close> is linked in after it.\<close>

lemma insert_after_main:
  assumes inv: "hash_inv mp ns" "length ns = n" and k: "proper k" "absent_key ns k"
    and m: "live (nkey ns (mp k))" "mp (nkey ns (mp k)) = mp k"
    and f: "f < n" "nkey ns f = TNil"
    and len: "length ns' = n"
    and key: "\<And>i. i < n \<Longrightarrow> nkey ns' i = (if i = f then k else nkey ns i)"
    and val: "\<And>i. i < n \<Longrightarrow> nval ns' i = nval ns i"
    and nxt: "\<And>i. i < n \<Longrightarrow> nnext ns' i = (if i = f then nnext ns (mp k) else if i = mp k then Some f else nnext ns i)"
  shows "hash_inv mp ns'" "dead_apart R mp ns \<Longrightarrow> dead_apart R mp ns'"
proof -
  let ?m = "mp k"
  have ok: "chains_ok ns" "keys_ok ns" "placed mp ns" using inv(1) by (auto simp: hash_inv_def)
  have mn: "?m < n" by (rule mp_less)
  have fm: "f \<noteq> ?m" using m(1) f(2) by (auto simp: live_def)
  have fnone: "nnext ns f = None" using chains_ok_free [OF ok(1)] f inv(2) by simp
  have fval: "nval ns f = TNil" using ok(2) f inv(2) by (auto simp: keys_ok_def live_def)
  have nolink: "(i, f) \<notin> links ns" for i using chains_okD(4) [OF ok(1), of i f] f(2) by auto
  have lk: "(i, j) \<in> links ns' \<longleftrightarrow> (i = f \<and> (?m, j) \<in> links ns) \<or> (i = ?m \<and> j = f) \<or>
      (i \<noteq> f \<and> i \<noteq> ?m \<and> (i, j) \<in> links ns)" for i j
    using nxt f(1) mn len inv(2) fm by (auto simp: links_def split: if_splits)
  from ok(1) obtain r where r: "ranked r ns" by (auto simp: chains_ok_def)
  have "ranked (\<lambda>i. if i = f then 2 * r ?m + 1 else 2 * r i) ns'"
    using r nolink fm by (fastforce simp: ranked_def lk)
  moreover have "j < length ns' \<and> nkey ns' i \<noteq> TNil \<and> nkey ns' j \<noteq> TNil" if "(i, j) \<in> links ns'" for i j
  proof -
    have nn: "nkey ns' x \<noteq> TNil" if "x < n" "nkey ns x \<noteq> TNil \<or> x = f" for x
      using that key k(1) by (auto simp: live_not_nil proper_live)
    show ?thesis
      using that chains_okD [OF ok(1)] nn f(1) mn len inv(2) live_not_nil [OF m(1)]
      by (auto simp: lk)
  qed
  moreover have "i = i'" if "(i, j) \<in> links ns'" "(i', j) \<in> links ns'" for i i' j
    using that chains_ok_inj [OF ok(1)] nolink by (auto simp: lk)
  ultimately have co: "chains_ok ns'" unfolding chains_ok_def by blast
  moreover have "keys_ok ns'"
    by (rule keys_ok_insert [OF ok(2) k, of f ns' "\<lambda>i. i"]) (use f len inv(2) key val fval in \<open>auto simp: inj_on_def\<close>)
  moreover have "placed mp ns'"
  proof -
    have sub: "(links ns)\<^sup>* \<subseteq> (links ns')\<^sup>*"
    proof (rule rtrancl_subset_rtrancl, rule subsetI, clarify)
      fix a b assume ab: "(a, b) \<in> links ns"
      then have "a \<noteq> f" using fnone by (auto simp: links_def)
      then show "(a, b) \<in> (links ns')\<^sup>*"
        using ab lk [of ?m f] lk [of f b] lk [of a b]
        by (cases "a = ?m") (auto intro: r_into_rtrancl rtrancl_into_rtrancl)
    qed
    show ?thesis unfolding placed_def
    proof (intro allI impI)
      fix i assume i: "i < length ns'" "live (nkey ns' i)"
      show "(mp (nkey ns' i), i) \<in> (links ns')\<^sup>* \<and> nkey ns' (mp (nkey ns' i)) \<noteq> TNil \<and>
        (live (nkey ns' (mp (nkey ns' i))) \<longrightarrow> mp (nkey ns' (mp (nkey ns' i))) = mp (nkey ns' i))"
      proof (cases "i = f")
        case True
        then show ?thesis using key [OF f(1)] key [OF mn] m fm lk [of ?m f]
          by (auto simp: live_not_nil)
      next
        case False
        then have ki: "nkey ns' i = nkey ns i" "live (nkey ns i)" using i key len by auto
        then have p: "(mp (nkey ns i), i) \<in> (links ns)\<^sup>*" "nkey ns (mp (nkey ns i)) \<noteq> TNil"
          "live (nkey ns (mp (nkey ns i))) \<longrightarrow> mp (nkey ns (mp (nkey ns i))) = mp (nkey ns i)"
          using ok(3) i(1) len inv(2) by (auto simp: placed_def)
        then have "mp (nkey ns i) \<noteq> f" using f(2) by auto
        then show ?thesis using p sub ki key [OF mp_less] by auto
      qed
    qed
  qed
  ultimately show "hash_inv mp ns'" by (simp add: hash_inv_def)
  show "dead_apart R mp ns'" if apart: "dead_apart R mp ns"
  proof (rule dead_apart_back [OF apart, where h = "\<lambda>x. if x = f then ?m else x" and p = f])
    show "((if x = f then ?m else x), (if y = f then ?m else y)) \<in> (links ns)\<^sup>*" if "(x, y) \<in> links ns'" for x y
      using that nolink by (auto simp: lk)
    show "(if j = f then ?m else j) < length ns \<and> nkey ns (if j = f then ?m else j) = nkey ns' j \<and>
        (if mp (nkey ns' j) = f then ?m else mp (nkey ns' j)) = mp (nkey ns' j)"
      if j: "j < length ns'" "live (nkey ns' j)" "j \<noteq> f" for j
    proof -
      have kj: "nkey ns j = nkey ns' j" using key [of j] j len by simp
      then have "nkey ns (mp (nkey ns' j)) \<noteq> TNil" using ok(3) j len inv(2) by (auto simp: placed_def)
      then have "mp (nkey ns' j) \<noteq> f" using f(2) by auto
      then show ?thesis using kj j len inv(2) by simp
    qed
    show "nkey ns (if i = f then ?m else i) = TDeadKey d" if "i < length ns'" "nkey ns' i = TDeadKey d" for i d
      using that key [of i] len proper_not_dead [OF k(1)] by (auto split: if_splits)
    show "nkey ns' i \<noteq> TDeadKey d" if im: "(mp (nkey ns' f), i) \<in> (links ns')\<^sup>*" "(i, f) \<in> (links ns')\<^sup>+" for i d
    proof -
      obtain x where x: "(i, x) \<in> (links ns')\<^sup>*" "(x, f) \<in> links ns'" using im(2) by (meson tranclD2)
      then have "x = ?m" using nolink lk [of x f] by blast
      then have "i = ?m" using chains_ok_acyclic [OF co, of ?m] x(1) im(1) key [OF f(1)] by (metis rtranclD rtrancl_trancl_trancl)
      then show ?thesis using m(1) key [OF mn] fm by (auto simp: live_def)
    qed
  qed
qed

end

definition rename :: "nat \<Rightarrow> nat \<Rightarrow> nat \<Rightarrow> nat" where
  "rename m f x = (if x = m then f else x)"

lemma rename_inj: "rename m f x = rename m f y \<Longrightarrow> x \<noteq> f \<Longrightarrow> y \<noteq> f \<Longrightarrow> x = y"
  by (auto simp: rename_def split: if_splits)

text \<open>A node moved from \<open>m\<close> to the free position \<open>f\<close>: the links are those of before, renamed.\<close>

lemma moving_links:
  assumes ok: "chains_ok ns" "f < length ns" "nkey ns f = TNil" "(q, m) \<in> links ns" "length ns' = length ns"
    and nxt: "\<And>i. i < length ns \<Longrightarrow> nnext ns' i = (if i = m then None else if i = f then nnext ns m
                 else if i = q then Some f else nnext ns i)"
  shows "(i, j) \<in> links ns' \<longleftrightarrow> (\<exists>x y. (x, y) \<in> links ns \<and> i = rename m f x \<and> j = rename m f y)"
proof -
  note q = chains_okD [OF ok(1,4)]
  have fm: "f \<noteq> m" "q \<noteq> f" using q ok(3) by auto
  show ?thesis
  proof
    assume "(i, j) \<in> links ns'"
    then have ij: "i < length ns" "nnext ns' i = Some j" "i \<noteq> m" using nxt [of i] ok(5) by (auto simp: links_def)
    show "\<exists>x y. (x, y) \<in> links ns \<and> i = rename m f x \<and> j = rename m f y"
    proof (cases "i = f \<or> i = q")
      case True
      then consider "i = f" "(m, j) \<in> links ns" "j \<noteq> m" | "i = q" "j = f"
        using ij nxt [of i] fm q chains_okD(5) [OF ok(1), of m m] by (fastforce simp: links_def)
      then show ?thesis using ok(4) q(5) by cases (auto simp: rename_def)
    next
      case False
      then have l: "(i, j) \<in> links ns" using ij nxt [of i] by (simp add: links_def)
      then have "j \<noteq> m" using chains_ok_inj [OF ok(1) _ ok(4), of i] False by blast
      with l ij show ?thesis by (auto simp: rename_def)
    qed
  next
    assume "\<exists>x y. (x, y) \<in> links ns \<and> i = rename m f x \<and> j = rename m f y"
    then obtain x y where xy: "(x, y) \<in> links ns" "i = rename m f x" "j = rename m f y" by blast
    note c = chains_okD [OF ok(1) xy(1)] linksD [OF xy(1)]
    have "x \<noteq> f" "x = q \<longleftrightarrow> y = m"
      using c ok(3) chains_ok_inj [OF ok(1) _ ok(4), of x] linksD [OF ok(4)] xy(1) by auto
    then show "(i, j) \<in> links ns'"
      using xy(2,3) c nxt [of i] ok(2,5) q fm by (auto simp: links_def rename_def)
  qed
qed

lemma renamed_chains_ok:
  assumes ok: "chains_ok ns" "f < length ns" "nkey ns f = TNil" "nkey ns m \<noteq> TNil" "length ns' = length ns"
    and lk: "\<And>i j. (i, j) \<in> links ns' \<longleftrightarrow> (\<exists>x y. (x, y) \<in> links ns \<and> i = rename m f x \<and> j = rename m f y)"
    and key: "\<And>x. x < length ns \<Longrightarrow> x \<noteq> f \<Longrightarrow> nkey ns' (rename m f x) = nkey ns x"
  shows "chains_ok ns'"
proof -
  have nof: "x \<noteq> f \<and> y \<noteq> f" if "(x, y) \<in> links ns" for x y
    using chains_okD [OF ok(1) that] ok(3) by auto
  from ok(1) obtain r where r: "ranked r ns" by (auto simp: chains_ok_def)
  have unren: "(if rename m f x = f then r m else r (rename m f x)) = r x" if "x \<noteq> f" for x
    using that by (auto simp: rename_def)
  have "(if i = f then r m else r i) < (if j = f then r m else r j)" if l: "(i, j) \<in> links ns'" for i j
  proof -
    from l obtain x y where xy: "(x, y) \<in> links ns" "i = rename m f x" "j = rename m f y" unfolding lk by blast
    then have "r x < r y" "x \<noteq> f" "y \<noteq> f" using r nof by (auto simp: ranked_def)
    then show ?thesis by (simp only: xy(2,3) unren not_False_eq_True)
  qed
  then have "ranked (\<lambda>i. if i = f then r m else r i) ns'" by (simp add: ranked_def)
  moreover have "j < length ns' \<and> nkey ns' i \<noteq> TNil \<and> nkey ns' j \<noteq> TNil" if l: "(i, j) \<in> links ns'" for i j
  proof -
    from lk [of i j] l obtain x y where xy: "(x, y) \<in> links ns" "i = rename m f x" "j = rename m f y" by blast
    have "rename m f y < length ns" using chains_okD [OF ok(1) xy(1)] ok(2) by (simp add: rename_def)
    then show ?thesis using key [of x] key [of y] nof [OF xy(1)] chains_okD [OF ok(1) xy(1)] xy ok(5) by simp
  qed
  moreover have "i = i'" if l: "(i, j) \<in> links ns'" "(i', j) \<in> links ns'" for i i' j
  proof -
    from l obtain x y x' y' where xy: "(x, y) \<in> links ns" "i = rename m f x" "j = rename m f y"
      "(x', y') \<in> links ns" "i' = rename m f x'" "j = rename m f y'" unfolding lk by blast
    have "y = y'" using rename_inj [of m f y y'] xy nof [OF xy(1)] nof [OF xy(4)] by simp
    then show ?thesis using chains_ok_inj [OF ok(1)] xy by blast
  qed
  ultimately show ?thesis unfolding chains_ok_def by blast
qed

context scatter
begin

text \<open>
  The colliding node is a guest in the main position \<open>m\<close>: it moves to the free node \<open>f\<close>, its
  predecessor \<open>q\<close> is redirected, and the key takes the place.
\<close>

lemma insert_moving:
  assumes inv: "hash_inv mp ns" "length ns = n" and k: "proper k" "absent_key ns k"
    and m: "live (nkey ns (mp k))" "mp (nkey ns (mp k)) \<noteq> mp k"
    and f: "f < n" "nkey ns f = TNil" and q: "(q, mp k) \<in> links ns"
    and len: "length ns' = n"
    and key: "\<And>i. i < n \<Longrightarrow> nkey ns' i = (if i = mp k then k else nkey ns (if i = f then mp k else i))"
    and val: "\<And>i. i < n \<Longrightarrow> nval ns' i = (if i = mp k then TNil else nval ns (if i = f then mp k else i))"
    and nxt: "\<And>i. i < n \<Longrightarrow> nnext ns' i = (if i = mp k then None else if i = f then nnext ns (mp k)
                 else if i = q then Some f else nnext ns i)"
  shows "hash_inv mp ns'" "dead_apart R mp ns \<Longrightarrow> dead_apart R mp ns'"
proof -
  let ?m = "mp k"
  have ok: "chains_ok ns" "keys_ok ns" "placed mp ns" using inv(1) by (auto simp: hash_inv_def)
  have mn: "?m < n" by (rule mp_less)
  have fm: "f \<noteq> ?m" using m(1) f(2) by (auto simp: live_def)
  note lk = moving_links [OF ok(1) _ f(2) q, of ns', unfolded inv(2) len, OF f(1) refl nxt]
  have pk: "nkey ns' (rename ?m f x) = nkey ns x" if "x < n" "x \<noteq> f" for x
    using that key fm f(1) by (auto simp: rename_def)
  have "chains_ok ns'"
    by (rule renamed_chains_ok [OF ok(1) _ f(2) live_not_nil [OF m(1)] _ lk]) (use f inv(2) len pk in auto)
  moreover have "keys_ok ns'"
    by (rule keys_ok_insert [OF ok(2) k, of ?m ns' "\<lambda>i. if i = f then ?m else i"])
      (use mn f len inv(2) key val in \<open>auto simp: inj_on_def\<close>)
  moreover have "placed mp ns'"
    unfolding placed_def
  proof (intro allI impI)
    fix i assume i: "i < length ns'" "live (nkey ns' i)"
    have star: "(rename ?m f x, rename ?m f y) \<in> (links ns')\<^sup>*" if "(x, y) \<in> (links ns)\<^sup>*" for x y
      using that by (induction rule: rtrancl_induct) (use lk in \<open>blast intro: rtrancl_into_rtrancl\<close>)+
    show "(mp (nkey ns' i), i) \<in> (links ns')\<^sup>* \<and> nkey ns' (mp (nkey ns' i)) \<noteq> TNil \<and>
      (live (nkey ns' (mp (nkey ns' i))) \<longrightarrow> mp (nkey ns' (mp (nkey ns' i))) = mp (nkey ns' i))"
    proof (cases "i = ?m")
      case True
      then show ?thesis using key [OF mn] live_not_nil [OF proper_live [OF k(1)]] by simp
    next
      case False
      define x where "x = (if i = f then ?m else i)"
      have x: "x < n" "x \<noteq> f" "i = rename ?m f x" using False i len mn fm by (auto simp: x_def rename_def)
      define c where "c = mp (nkey ns x)"
      have ki: "nkey ns' i = nkey ns x" using pk [OF x(1,2)] x(3) by simp
      then have p: "(c, x) \<in> (links ns)\<^sup>*" "nkey ns c \<noteq> TNil" "live (nkey ns c) \<longrightarrow> mp (nkey ns c) = c"
        using ok(3) i(2) x(1) inv(2) by (auto simp: placed_def c_def)
      then have "c \<noteq> f" "c \<noteq> ?m" using f(2) m by auto
      then have "nkey ns' c = nkey ns c" "(c, i) \<in> (links ns')\<^sup>*"
        using pk [of c] mp_less [of "nkey ns x"] star [OF p(1)] x(3) by (auto simp: c_def rename_def)
      then show ?thesis using p ki by (simp add: c_def)
    qed
  qed
  ultimately show "hash_inv mp ns'" by (simp add: hash_inv_def)
  show "dead_apart R mp ns'" if apart: "dead_apart R mp ns"
  proof (rule dead_apart_back [OF apart, where h = "\<lambda>x. if x = f then ?m else x" and p = ?m])
    show "((if x = f then ?m else x), (if y = f then ?m else y)) \<in> (links ns)\<^sup>*" if xy: "(x, y) \<in> links ns'" for x y
    proof -
      obtain u v where uv: "(u, v) \<in> links ns" "x = rename ?m f u" "y = rename ?m f v" using xy lk [of x y] by blast
      then have "u \<noteq> f" "v \<noteq> f" using chains_okD [OF ok(1) uv(1)] f(2) by auto
      then show ?thesis using uv by (auto simp: rename_def)
    qed
    show "(if j = f then ?m else j) < length ns \<and> nkey ns (if j = f then ?m else j) = nkey ns' j \<and>
        (if mp (nkey ns' j) = f then ?m else mp (nkey ns' j)) = mp (nkey ns' j)"
      if j: "j < length ns'" "live (nkey ns' j)" "j \<noteq> ?m" for j
    proof -
      let ?x = "if j = f then ?m else j"
      have x: "?x < length ns" "nkey ns ?x = nkey ns' j" using key [of j] j len inv(2) mn by auto
      then have "nkey ns (mp (nkey ns' j)) \<noteq> TNil" using ok(3) j(2) unfolding placed_def by metis
      then show ?thesis using x f(2) by auto
    qed
    show "nkey ns (if i = f then ?m else i) = TDeadKey d" if "i < length ns'" "nkey ns' i = TDeadKey d" for i d
      using that key [of i] len proper_not_dead [OF k(1)] by (auto split: if_splits)
    show "nkey ns' i \<noteq> TDeadKey d" if im: "(mp (nkey ns' ?m), i) \<in> (links ns')\<^sup>*" "(i, ?m) \<in> (links ns')\<^sup>+" for i d
    proof -
      obtain x where "(x, ?m) \<in> links ns'" using im(2) by (meson tranclD2)
      then have False using lk [of x ?m] fm by (auto simp: rename_def split: if_splits)
      then show ?thesis ..
    qed
  qed
qed

end

subsection \<open>Retired keys\<close>

text \<open>The collector retires the key of an empty entry (\<open>removeentry\<close>).\<close>

lemma retire_inv:
  assumes inv: "hash_inv mp ns" and i: "i < length ns" "nval ns i = TNil" "live (nkey ns i)"
  shows "hash_inv mp (ns[i := (ns ! i)\<lparr>i_key := TDeadKey (nkey ns i)\<rparr>])"
    "dead_apart R mp ns \<Longrightarrow> (\<And>j. j < length ns \<Longrightarrow> live (nkey ns j) \<Longrightarrow> j \<noteq> i \<Longrightarrow> \<not> R (nkey ns i) (nkey ns j)) \<Longrightarrow>
      dead_apart R mp (ns[i := (ns ! i)\<lparr>i_key := TDeadKey (nkey ns i)\<rparr>])"
proof -
  let ?ns = "ns[i := (ns ! i)\<lparr>i_key := TDeadKey (nkey ns i)\<rparr>]"
  have ok: "chains_ok ns" "keys_ok ns" "placed mp ns" using inv by (auto simp: hash_inv_def)
  have key: "nkey ?ns j = (if j = i then TDeadKey (nkey ns i) else nkey ns j)" "nval ?ns j = nval ns j" "nnext ?ns j = nnext ns j" for j
    using i(1) by (cases "j = i"; simp)+
  have lk: "links ?ns = links ns" by (simp add: links_def key)
  have live: "live (nkey ?ns j) \<longleftrightarrow> j \<noteq> i \<and> live (nkey ns j)" for j by (simp add: key live_def)
  have nil: "nkey ?ns j = TNil \<longleftrightarrow> nkey ns j = TNil" for j using i(3) by (simp add: key live_def)
  have "chains_ok ?ns" using ok(1) unfolding chains_ok_def ranked_def lk nil length_list_update .
  moreover have "keys_ok ?ns" unfolding keys_ok_def live length_list_update
  proof (intro conjI allI impI)
    fix x assume "x < length ns" "x \<noteq> i \<and> live (nkey ns x)"
    then show "proper (nkey ?ns x)" using ok(2) by (simp add: key keys_ok_def)
  next
    fix x assume x: "x < length ns" "nval ?ns x \<noteq> TNil"
    then show "x \<noteq> i" "live (nkey ns x)" using ok(2) i(2) by (auto simp: key keys_ok_def)
  next
    fix x y assume xy: "x < length ns" "y < length ns" "(x \<noteq> i \<and> live (nkey ns x)) \<and> gafqO_rawequalObj (nkey ?ns x) (nkey ?ns y)"
    then have "y \<noteq> i" using rawequal_live [of "nkey ns x" "nkey ?ns y"] by (auto simp: key live_def)
    then have "gafqO_rawequalObj (nkey ns x) (nkey ns y)" using xy key(1) [of x] key(1) [of y] by metis
    then show "x = y" using xy ok(2) unfolding keys_ok_def by blast
  qed
  moreover have "placed mp ?ns" unfolding placed_def live lk nil length_list_update
  proof (intro allI impI)
    fix x assume x: "x < length ns" "x \<noteq> i \<and> live (nkey ns x)"
    then have kx: "nkey ?ns x = nkey ns x" by (simp add: key)
    have "(mp (nkey ns x), x) \<in> (links ns)\<^sup>*" "nkey ns (mp (nkey ns x)) \<noteq> TNil"
      "live (nkey ns (mp (nkey ns x))) \<longrightarrow> mp (nkey ns (mp (nkey ns x))) = mp (nkey ns x)" using ok(3) x by (auto simp: placed_def)
    then show "(mp (nkey ?ns x), x) \<in> (links ns)\<^sup>* \<and> nkey ns (mp (nkey ?ns x)) \<noteq> TNil \<and>
      (mp (nkey ?ns x) \<noteq> i \<and> live (nkey ns (mp (nkey ?ns x))) \<longrightarrow> mp (nkey ?ns (mp (nkey ?ns x))) = mp (nkey ?ns x))"
      unfolding kx by (simp add: key(1) [of "mp (nkey ns x)"])
  qed
  ultimately show "hash_inv mp ?ns" by (simp add: hash_inv_def)
  show "dead_apart R mp ?ns" if apart: "dead_apart R mp ns" and alive: "\<And>j. j < length ns \<Longrightarrow> live (nkey ns j) \<Longrightarrow> j \<noteq> i \<Longrightarrow> \<not> R (nkey ns i) (nkey ns j)"
    unfolding dead_apart_def
  proof (intro allI impI, elim conjE)
    fix x j d
    assume a: "j < length ?ns" "live (nkey ?ns j)" "(mp (nkey ?ns j), x) \<in> (links ?ns)\<^sup>*" "(x, j) \<in> (links ?ns)\<^sup>+" "nkey ?ns x = TDeadKey d"
    have j: "j \<noteq> i" "live (nkey ns j)" "nkey ?ns j = nkey ns j" "j < length ns" using a(1,2) live key by auto
    show "\<not> R d (nkey ?ns j)"
    proof (cases "x = i")
      case True
      then show ?thesis using alive [OF j(4,2,1)] a(5) j(3) key(1) [of i] by simp
    next
      case False
      then have "nkey ns x = TDeadKey d" using a(5) key(1) [of x] by simp
      then show ?thesis using apart a(3,4) j unfolding dead_apart_def lk j(3) by blast
    qed
  qed
qed

end
