(* ===== verification/Table_Get.thy ===== *)
theory Table_Get
  imports Table_Inv
begin

text \<open>
  The invariant of a table and what its lookups return.  \<open>table_inv\<close> puts the invariant of the hash
  part together with the bounds of the two parts, the meaning of \<open>lastfree\<close> and the rule that an
  integer key the array part can hold is not in the hash part.  Every lookup of \<open>gtable.c\<close>
  then finds the place of a key exactly when the table has one, and a store through that place changes
  the value of that key only.
\<close>

subsection \<open>The main position is a hash function in the sense of \<open>scatter\<close>\<close>

lemma hashmod_divisor: "0 < s \<Longrightarrow> 0 < (int s - 1) OR 1 \<and> (int s - 1) OR 1 \<le> int s"
  by (auto simp: or_one_eq)

lemma sizenode_pos [simp]: "0 < sizenode t"
  by (simp add: sizenode_def twoto_def)

lemma hashmod_less [simp]: "hashmod t x < sizenode t"
proof -
  have "0 < nat ((int (sizenode t) - 1) OR 1)" "nat ((int (sizenode t) - 1) OR 1) \<le> sizenode t"
    using hashmod_divisor [OF sizenode_pos, of t] by linarith+
  then show ?thesis unfolding hashmod_def by (meson le_trans mod_less_divisor not_le order_less_le_trans)
qed

lemma lmod_pow2_less: "lmod s (2 ^ l) < 2 ^ l"
proof (cases "l \<le> 32")
  case True
  have "(of_nat s :: 32 word) = of_nat (s mod 2 ^ 32)"
    by (simp add: word_of_nat_eq_iff take_bit_eq_mod)
  then have "lmod s (2 ^ l) = lmod (s mod 2 ^ 32) (2 ^ l)" by (simp only: lmod_def)
  then show ?thesis using lmod_pow2 [OF True, of "s mod 2 ^ 32"] by simp
next
  case False
  have "lmod s (2 ^ l) < 2 ^ 32"
    unfolding lmod_def using unsigned_less [where ?'a = nat and ?'b = 32] by simp
  also have "(2::nat) ^ 32 \<le> 2 ^ l" using False by (intro power_increasing) auto
  finally show ?thesis .
qed

lemma hashpow2_less [simp]: "hashpow2 t x < sizenode t"
  by (simp add: hashpow2_def sizenode_def twoto_def lmod_pow2_less)

lemma mainposition_less [simp]: "mainposition t k < sizenode t"
  by (cases k) (auto simp: mainposition_def hashnum_def hashpointer_def)

lemma mainposition_cong: "gafqO_rawequalObj k k' \<Longrightarrow> mainposition t k = mainposition t k'"
  by (cases k; cases k') (auto simp: mainposition_def hashnum_def numeq_zero_iff dest: numeq_cases)

interpretation tab: scatter "mainposition t" "sizenode t" for t
  by unfold_locales (auto intro: mainposition_cong)

lemma mainposition_lsizenode: "lsizenode t = lsizenode t' \<Longrightarrow> mainposition t = mainposition t'"
  by (rule ext) (auto simp: mainposition_def hashnum_def hashpointer_def hashpow2_def hashmod_def sizenode_def
      split: TValue.splits)

subsection \<open>The invariant\<close>

definition in_array :: "Table \<Rightarrow> TValue \<Rightarrow> bool" where
  "in_array t k \<longleftrightarrow> 0 < arrayindex k \<and> arrayindex k \<le> int (sizearray t)"

definition lastfree_ok :: "Table \<Rightarrow> bool" where
  "lastfree_ok t \<longleftrightarrow>
     (if isdummy t then node t = [dummynode] \<and> lsizenode t = 0 \<and> lastfree t \<le> 0
      else lastfree t \<le> int (sizenode t) \<and>
           (\<forall>i < sizenode t. lastfree t \<le> int i \<longrightarrow> nkey (node t) i \<noteq> TNil))"

definition table_inv :: "Table \<Rightarrow> bool" where
  "table_inv t \<longleftrightarrow>
     length (node t) = sizenode t \<and> lsizenode t \<le> MAXBITS \<and> int (sizearray t) \<le> MAXASIZE \<and>
     hash_inv (mainposition t) (node t) \<and> lastfree_ok t \<and>
     (\<forall>i < sizenode t. \<not> in_array t (nkey (node t) i))"

lemma table_invD:
  assumes "table_inv t"
  shows "length (node t) = sizenode t" "lsizenode t \<le> MAXBITS" "int (sizearray t) \<le> MAXASIZE"
    "hash_inv (mainposition t) (node t)" "lastfree_ok t" "chains_ok (node t)" "keys_ok (node t)"
    "placed (mainposition t) (node t)" "\<And>i. i < sizenode t \<Longrightarrow> \<not> in_array t (nkey (node t) i)"
  using assms by (auto simp: table_inv_def hash_inv_def)

lemma arrayindex_cong: "gafqO_rawequalObj k k' \<Longrightarrow> arrayindex k = arrayindex k'"
proof (cases "k = k'")
  case False
  assume "gafqO_rawequalObj k k'"
  then obtain x y where xy: "k = TNumber x" "k' = TNumber y" "nmag x = 0" "nmag y = 0"
    using rawequal_cases False by blast
  then have "gafqi_numeq x 0" "gafqi_numeq y 0" by (simp_all add: numeq_zero_iff)
  moreover have "gafq_number2int x = 0" "gafq_number2int y = 0"
    using xy by (auto simp: gafq_number2int_def nisnan_def nmag_def Let_def split: if_splits)
  ultimately have "gafqi_numeq (cast_num 0) x \<longleftrightarrow> gafqi_numeq (cast_num 0) y"
    using numeq_trans numeq_sym by blast
  then show ?thesis using xy \<open>gafq_number2int x = 0\<close> \<open>gafq_number2int y = 0\<close>
    by (simp add: arrayindex_def Let_def)
qed simp

lemma in_array_cong: "gafqO_rawequalObj k k' \<Longrightarrow> in_array t k = in_array t k'"
  by (simp add: in_array_def arrayindex_cong)

lemma arrayindex_range: "- (2 ^ 31) \<le> arrayindex k \<and> arrayindex k < 2 ^ 31"
  using number2int_range by (cases k) (auto simp: arrayindex_def Let_def)

lemma arrayindex_cast_num:
  assumes "- (2 ^ 31) \<le> i" "i < 2 ^ 31"
  shows "arrayindex (TNumber (cast_num i)) = i"
  using assms cast_num_not_nan [of i] by (simp add: arrayindex_def number2int_cast_num numeq_refl)

lemma arrayindex_positive:
  assumes "0 < arrayindex k"
  shows "\<exists>x. k = TNumber x \<and> gafqi_numeq (cast_num (arrayindex k)) x"
  using assms by (cases k) (auto simp: arrayindex_def Let_def split: if_splits)

subsection \<open>Lookup\<close>

definition get_hash :: "Table \<Rightarrow> TValue \<Rightarrow> nat option" where
  "get_hash t k = find (\<lambda>j. gafqO_rawequalObj (nkey (node t) j) k) (chain t (mainposition t k))"

lemma get_hash_cong: "gafqO_rawequalObj k k' \<Longrightarrow> get_hash t k = get_hash t k'"
proof -
  assume eq: "gafqO_rawequalObj k k'"
  then have "gafqO_rawequalObj x k = gafqO_rawequalObj x k'" for x
    using rawequal_trans rawequal_sym by blast
  then show ?thesis by (simp add: get_hash_def mainposition_cong [OF eq])
qed

lemma get_generic_eq: "get_generic t k = map_option SNode (get_hash t k)"
  by (simp add: get_generic_def get_hash_def search_chain_def)

lemma getstr_eq: "gafqH_getstr t s = map_option SNode (get_hash t (TString s))"
  by (simp add: gafqH_getstr_def get_hash_def search_chain_def rawequal_string_right mainposition_def)

lemma case_number_rawequal:
  "(case v of TNumber n \<Rightarrow> gafqi_numeq n x | _ \<Rightarrow> False) = gafqO_rawequalObj v (TNumber x)"
  by (cases v) auto

lemma in_array_cast_num:
  "- (2 ^ 31) \<le> i \<Longrightarrow> i < 2 ^ 31 \<Longrightarrow> in_array t (TNumber (cast_num i)) \<longleftrightarrow> 0 < i \<and> i \<le> int (sizearray t)"
  by (simp add: in_array_def arrayindex_cast_num)

lemma uint_index:
  assumes "- (2 ^ 31) \<le> i" "i < 2 ^ 31" "int a \<le> MAXASIZE"
  shows "(i - 1) mod 2 ^ 32 < int a \<longleftrightarrow> 0 < i \<and> i \<le> int a"
    and "0 < i \<Longrightarrow> (i - 1) mod 2 ^ 32 = i - 1"
proof -
  show p: "0 < i \<Longrightarrow> (i - 1) mod 2 ^ 32 = i - 1" using assms by simp
  have "(i - 1) mod 2 ^ 32 = i - 1 + 2 ^ 32" if "i \<le> 0"
  proof -
    have "(i - 1) mod 2 ^ 32 = (i - 1 + 2 ^ 32) mod 2 ^ 32" by (simp only: mod_add_self2)
    also have "\<dots> = i - 1 + 2 ^ 32" using that assms by (intro mod_pos_pos_trivial) auto
    finally show ?thesis .
  qed
  then show "(i - 1) mod 2 ^ 32 < int a \<longleftrightarrow> 0 < i \<and> i \<le> int a"
    using p assms by (cases "0 < i") (auto simp: MAXASIZE_def MAXBITS_def)
qed

lemma getnum_eq:
  assumes "table_inv t" "- (2 ^ 31) \<le> i" "i < 2 ^ 31"
  shows "gafqH_getnum t i = (if 0 < i \<and> i \<le> int (sizearray t) then Some (SArray (nat (i - 1)))
           else map_option SNode (get_hash t (TNumber (cast_num i))))"
  using uint_index [OF assms(2,3) table_invD(3) [OF assms(1)]]
  by (auto simp: gafqH_getnum_def get_hash_def search_chain_def case_number_rawequal mainposition_def Let_def)

lemma get_eq:
  assumes "table_inv t" "k \<noteq> TNil"
  shows "gafqH_get t k = (if in_array t k then Some (SArray (nat (arrayindex k - 1)))
           else map_option SNode (get_hash t k))"
proof (cases k)
  case (TNumber x)
  show ?thesis
  proof (cases "gafqi_numeq (cast_num (gafq_number2int x)) x")
    case True
    then have "get_hash t (TNumber (cast_num (gafq_number2int x))) = get_hash t k"
      using TNumber by (intro get_hash_cong) simp
    then show ?thesis
      using True TNumber getnum_eq [OF assms(1)] number2int_range [of x]
      by (simp add: gafqH_get_def in_array_def arrayindex_def Let_def)
  next
    case False
    then show ?thesis using TNumber
      by (simp add: gafqH_get_def in_array_def arrayindex_def get_generic_eq)
  qed
qed (use assms in \<open>auto simp: gafqH_get_def in_array_def arrayindex_def get_generic_eq getstr_eq\<close>)

lemma get_hash_Some:
  assumes "table_inv t" "proper k"
  shows "get_hash t k = Some j \<longleftrightarrow> holds (node t) k j"
  using tab.search_finds [OF table_invD(4,1) [OF assms(1)] assms(2)] table_invD(1) [OF assms(1)]
  by (simp add: get_hash_def chain_def)

lemma get_hash_None: "table_inv t \<Longrightarrow> proper k \<Longrightarrow> get_hash t k = None \<longleftrightarrow> absent_key (node t) k"
  using get_hash_Some [of t k] by (metis absent_key_def not_None_eq)

lemma get_cong:
  assumes "table_inv t" "gafqO_rawequalObj k k'"
  shows "gafqH_get t k = gafqH_get t k'"
proof (cases "k = TNil \<or> k' = TNil")
  case False
  then show ?thesis
    using in_array_cong [OF assms(2), of t] arrayindex_cong [OF assms(2)] get_hash_cong [OF assms(2), of t]
    by (simp add: get_eq [OF assms(1)])
qed (use assms(2) in auto)

lemma get_slot:
  assumes "table_inv t" "proper k" "gafqH_get t k = Some s"
  shows "case s of SArray i \<Rightarrow> i < sizearray t \<and> arrayindex k = int i + 1
         | SNode j \<Rightarrow> holds (node t) k j \<and> \<not> in_array t k"
  using assms(3) live_not_nil [OF proper_live [OF assms(2)]] get_hash_Some [OF assms(1,2)]
  by (auto simp: get_eq [OF assms(1)] in_array_def split: if_splits)

text \<open>Two keys have the same place only when they are raw-equal.\<close>

lemma arrayindex_inj:
  assumes "arrayindex k = i" "arrayindex k' = i" "0 < i"
  shows "gafqO_rawequalObj k k'"
proof -
  obtain x y where "k = TNumber x" "gafqi_numeq (cast_num i) x" "k' = TNumber y" "gafqi_numeq (cast_num i) y"
    using arrayindex_positive [of k] arrayindex_positive [of k'] assms by auto
  then show ?thesis using numeq_sym [of x "cast_num i"] numeq_trans [of x "cast_num i" y] by simp
qed

lemma get_inj:
  assumes "table_inv t" "proper k" "proper k'" "gafqH_get t k = Some s" "gafqH_get t k' = Some s"
  shows "gafqO_rawequalObj k k'"
proof (cases s)
  case (SArray i)
  then show ?thesis using get_slot [OF assms(1,2,4)] get_slot [OF assms(1,3,5)]
    by (auto intro: arrayindex_inj)
next
  case (SNode j)
  then show ?thesis using get_slot [OF assms(1,2,4)] get_slot [OF assms(1,3,5)]
      rawequal_sym [of k "nkey (node t) j"] rawequal_trans [of k "nkey (node t) j" k'] by (auto simp: holds_def)
qed

lemma tget_nil [simp]: "tget t TNil = TNil"
  by (simp add: tget_def gafqH_get_def slotoptval_def)

lemma find_none: "find (\<lambda>x. False) xs = None"
  by (induction xs) auto

lemma get_nan:
  assumes "table_inv t" "isnan_val k"
  shows "gafqH_get t k = None"
proof -
  from assms(2) obtain x where k: "k = TNumber x" "nisnan x"
    by (cases k) (auto simp: isnan_val_def gafqi_numisnan_iff)
  then have "\<not> gafqO_rawequalObj v k" for v by (cases v) (auto simp: gafqi_numeq_def)
  moreover have "\<not> in_array t k" using k by (auto simp: in_array_def arrayindex_def Let_def gafqi_numeq_def)
  ultimately show ?thesis using k(1)
    by (simp add: get_eq [OF assms(1)] get_hash_def find_none)
qed

lemma tget_nan: "table_inv t \<Longrightarrow> isnan_val k \<Longrightarrow> tget t k = TNil"
  by (simp add: tget_def get_nan slotoptval_def)

lemma tget_cong: "table_inv t \<Longrightarrow> gafqO_rawequalObj k k' \<Longrightarrow> tget t k = tget t k'"
  by (simp add: tget_def get_cong)

text \<open>What a table holds is determined by the array part and the entries of the node vector.\<close>

lemma in_array_not_nil: "in_array t k \<Longrightarrow> k \<noteq> TNil"
  by (auto simp: in_array_def arrayindex_def)

lemma tget_array: "table_inv t \<Longrightarrow> in_array t k \<Longrightarrow> tget t k = array t ! nat (arrayindex k - 1)"
  by (simp add: tget_def get_eq in_array_not_nil slotoptval_def)

lemma entries_holds:
  "v \<noteq> TNil \<Longrightarrow> (\<exists>k'. (k', v) \<in> entries ns \<and> gafqO_rawequalObj k' k) \<longleftrightarrow> (\<exists>i. holds ns k i \<and> nval ns i = v)"
  unfolding entries_def holds_def mem_Collect_eq Pair_inject by blast

lemma tget_hash:
  assumes "table_inv t" "proper k" "\<not> in_array t k" "v \<noteq> TNil"
  shows "tget t k = v \<longleftrightarrow> (\<exists>k'. (k', v) \<in> entries (node t) \<and> gafqO_rawequalObj k' k)"
proof (cases "get_hash t k")
  case None
  then have "absent_key (node t) k" using get_hash_None [OF assms(1,2)] by simp
  then have "\<not> (\<exists>k'. (k', v) \<in> entries (node t) \<and> gafqO_rawequalObj k' k)"
    unfolding entries_holds [OF assms(4)] by (simp add: absent_key_def)
  then show ?thesis
    using None assms(3,4) live_not_nil [OF proper_live [OF assms(2)]]
    by (simp add: tget_def get_eq [OF assms(1)] slotoptval_def)
next
  case (Some j)
  then have h: "holds (node t) k j" using get_hash_Some [OF assms(1,2)] by simp
  have u: "i = j" if "holds (node t) k i" for i using holds_unique [OF table_invD(7) [OF assms(1)] assms(2) that h] .
  have "tget t k = nval (node t) j"
    using Some assms(3) live_not_nil [OF proper_live [OF assms(2)]]
    by (simp add: tget_def get_eq [OF assms(1)] slotoptval_def)
  then show ?thesis unfolding entries_holds [OF assms(4)] using h u by metis
qed

subsection \<open>Storing through a slot\<close>

lemma get_hash_same:
  assumes "lsizenode t' = lsizenode t" "length (node t') = length (node t)"
    and "\<And>i. nkey (node t') i = nkey (node t) i" "\<And>i. nnext (node t') i = nnext (node t) i"
  shows "get_hash t' k = get_hash t k"
proof -
  have "chain_from f (node t') i = chain_from f (node t) i" for f i
    by (induction f arbitrary: i) (auto simp: assms(4) split: option.splits)
  then show ?thesis by (simp add: get_hash_def chain_def assms mainposition_lsizenode [OF assms(1)])
qed

lemma node_update_fields:
  "nkey (ns[j := (ns ! j)\<lparr>i_val := v\<rparr>]) i = nkey ns i"
  "nnext (ns[j := (ns ! j)\<lparr>i_val := v\<rparr>]) i = nnext ns i"
proof -
  have "i_key (ns[j := (ns ! j)\<lparr>i_val := v\<rparr>] ! i) = i_key (ns ! i) \<and>
      i_next (ns[j := (ns ! j)\<lparr>i_val := v\<rparr>] ! i) = i_next (ns ! i)"
  proof (cases "i = j \<and> j < length ns")
    case True
    then show ?thesis by simp
  next
    case False
    then have "ns[j := (ns ! j)\<lparr>i_val := v\<rparr>] ! i = ns ! i" by (metis list_update_beyond not_le nth_list_update_neq)
    then show ?thesis by simp
  qed
  then show "nkey (ns[j := (ns ! j)\<lparr>i_val := v\<rparr>]) i = nkey ns i"
    "nnext (ns[j := (ns ! j)\<lparr>i_val := v\<rparr>]) i = nnext ns i" by blast+
qed

lemma hash_inv_same_keys:
  assumes "hash_inv mp ns" "length ns' = length ns" "\<And>i. nkey ns' i = nkey ns i" "\<And>i. nnext ns' i = nnext ns i"
    and "\<And>i. i < length ns \<Longrightarrow> nval ns' i \<noteq> TNil \<Longrightarrow> live (nkey ns i)"
  shows "hash_inv mp ns'"
proof -
  have "links ns' = links ns" by (simp add: links_def assms)
  then show ?thesis using assms
    by (simp add: hash_inv_def chains_ok_def keys_ok_def placed_def ranked_def)
qed

text \<open>
  Retired keys do not stand in the way of live ones (\<open>dead_apart\<close>), whatever the comparison of addresses is; \<open>keeps_apart\<close> says that an
  operation keeps this.
\<close>

definition apart :: "(TValue \<Rightarrow> TValue \<Rightarrow> bool) \<Rightarrow> Table \<Rightarrow> bool" where
  "apart same t \<longleftrightarrow> dead_apart same (mainposition t) (node t)"

definition keeps_apart :: "Table \<Rightarrow> Table \<Rightarrow> bool" where
  "keeps_apart t t' \<longleftrightarrow> (\<forall>same. apart same t \<longrightarrow> apart same t')"

lemma keeps_apart_refl [simp]: "keeps_apart t t"
  by (simp add: keeps_apart_def)

lemma keeps_apart_trans: "keeps_apart t t' \<Longrightarrow> keeps_apart t' t'' \<Longrightarrow> keeps_apart t t''"
  by (simp add: keeps_apart_def)

lemma apart_fields [simp]: "apart same (t\<lparr>flags := x\<rparr>) = apart same t" "apart same (t\<lparr>lastfree := l\<rparr>) = apart same t"
proof -
  have "mainposition (t\<lparr>flags := x\<rparr>) = mainposition t" "mainposition (t\<lparr>lastfree := l\<rparr>) = mainposition t"
    by (rule mainposition_lsizenode, simp)+
  then show "apart same (t\<lparr>flags := x\<rparr>) = apart same t" "apart same (t\<lparr>lastfree := l\<rparr>) = apart same t" by (simp_all add: apart_def)
qed

lemma keeps_apart_fields [simp]: "keeps_apart (t\<lparr>flags := x\<rparr>) t' = keeps_apart t t'" "keeps_apart t (t'\<lparr>flags := x\<rparr>) = keeps_apart t t'"
  "keeps_apart (t\<lparr>lastfree := l\<rparr>) t' = keeps_apart t t'"
  by (simp_all add: keeps_apart_def)

lemma setslot_apart: "keeps_apart t (setslot t s v)"
proof (cases s)
  case (SArray i)
  have "mainposition (t\<lparr>array := a\<rparr>) = mainposition t" for a by (rule mainposition_lsizenode) simp
  then show ?thesis using SArray by (simp add: keeps_apart_def apart_def)
next
  case (SNode j)
  let ?ns = "(node t)[j := (node t ! j)\<lparr>i_val := v\<rparr>]"
  have "mainposition (t\<lparr>node := ?ns\<rparr>) = mainposition t" by (rule mainposition_lsizenode) simp
  moreover have "links ?ns = links (node t)" by (simp add: links_def node_update_fields)
  ultimately show ?thesis using SNode by (simp add: keeps_apart_def apart_def dead_apart_def node_update_fields)
qed

lemma setslot_inv:
  assumes "table_inv t" "proper k" "gafqH_get t k = Some s"
  shows "table_inv (setslot t s v)"
proof (cases s)
  case (SArray i)
  have "mainposition (t\<lparr>array := a\<rparr>) = mainposition t" for a by (rule mainposition_lsizenode) simp
  then show ?thesis using assms(1) SArray by (auto simp: table_inv_def lastfree_ok_def in_array_def sizenode_def)
next
  case (SNode j)
  let ?ns = "(node t)[j := (node t ! j)\<lparr>i_val := v\<rparr>]"
  have j: "j < sizenode t" "live (nkey (node t) j)"
    using get_slot [OF assms] SNode holds_live [OF _ assms(2)] table_invD(1) [OF assms(1)]
    by (auto simp: holds_def)
  have "\<not> isdummy t" using j table_invD(5) [OF assms(1)]
    by (auto simp: lastfree_ok_def live_def dummynode_def sizenode_def twoto_def split: if_splits)
  moreover have "mainposition (t\<lparr>node := ?ns\<rparr>) = mainposition t" by (rule mainposition_lsizenode) simp
  moreover have "hash_inv (mainposition t) ?ns"
    by (rule hash_inv_same_keys [OF table_invD(4) [OF assms(1)]])
      (use node_update_fields j table_invD(1,7) [OF assms(1)] in
        \<open>auto simp: keys_ok_def nth_list_update split: if_splits\<close>)
  ultimately show ?thesis using assms(1) SNode
    by (auto simp: table_inv_def lastfree_ok_def in_array_def sizenode_def node_update_fields)
qed

lemma setslot_get: "table_inv t \<Longrightarrow> proper k \<Longrightarrow> gafqH_get t k = Some s \<Longrightarrow>
  gafqH_get (setslot t s v) k' = gafqH_get t k'"
proof -
  assume a: "table_inv t" "proper k" "gafqH_get t k = Some s"
  note inv' = setslot_inv [OF a, of v]
  have "get_hash (setslot t s v) k' = get_hash t k'"
    by (cases s; rule get_hash_same) (auto simp: node_update_fields)
  moreover have "sizearray (setslot t s v) = sizearray t" by (cases s) auto
  ultimately show ?thesis
    using get_eq [OF a(1), of k'] get_eq [OF inv', of k']
    by (cases "k' = TNil") (simp add: gafqH_get_def, simp add: in_array_def)
qed

lemma slotval_setslot:
  assumes "table_inv t" "proper k" "gafqH_get t k = Some s"
  shows "slotval (setslot t s v) s' = (if s' = s then v else slotval t s')"
  using get_slot [OF assms] table_invD(1) [OF assms(1)]
  by (cases s; cases s') (auto simp: nth_list_update holds_def)

lemma setslot_tget:
  assumes "table_inv t" "proper k" "gafqH_get t k = Some s" "proper k'"
  shows "tget (setslot t s v) k' = (if gafqO_rawequalObj k k' then v else tget t k')"
proof (cases "gafqH_get t k' = Some s")
  case True
  with assms show ?thesis using get_inj [OF assms(1,2,4,3)]
    by (simp add: tget_def setslot_get [OF assms(1-3)] slotoptval_def slotval_setslot [OF assms(1-3)])
next
  case False
  then have "\<not> gafqO_rawequalObj k k'" using get_cong [OF assms(1)] assms(3) by auto
  with False show ?thesis
    by (auto simp: tget_def setslot_get [OF assms(1-3)] slotoptval_def slotval_setslot [OF assms(1-3)] split: option.splits)
qed

end
