(* ===== verification/Table_Set.thy ===== *)
theory Table_Set
  imports Table_Get
begin

text \<open>
  Insertion of a new key, \<open>newkey\<close> of \<open>gtable.c\<close>, in its three cases (the main position is free, the
  colliding node is at home, the colliding node is a guest), and the functions that set a key by it.
  Each case is one of the insertion lemmas of \<open>scatter\<close> at the table's main position.
\<close>

subsection \<open>A free position\<close>

lemma getfreepos_loop_Some:
  "getfreepos_loop ns i = Some f \<Longrightarrow> f < i \<and> nkey ns f = TNil \<and> (\<forall>j. f < j \<and> j < i \<longrightarrow> nkey ns j \<noteq> TNil)"
proof (induction i)
  case (Suc i)
  then show ?case by (auto split: if_splits simp: less_Suc_eq)
qed simp

lemma getfreepos_loop_None: "getfreepos_loop ns i = None \<Longrightarrow> j < i \<Longrightarrow> nkey ns j \<noteq> TNil"
  by (induction i) (auto split: if_splits simp: less_Suc_eq)

lemma nfree_card: "nfree ns = card {i. i < length ns \<and> nkey ns i = TNil}"
  by (simp add: nfree_def length_filter_conv_card)

lemma nfree_drop:
  assumes "length ns' = length ns" "\<And>i. i < length ns \<Longrightarrow> i \<noteq> f \<Longrightarrow> nkey ns i = TNil \<Longrightarrow> nkey ns' i = TNil"
  shows "nfree ns \<le> Suc (nfree ns')"
proof -
  let ?S = "{i. i < length ns \<and> nkey ns' i = TNil}"
  have "nfree ns \<le> card (insert f ?S)"
    unfolding nfree_card by (rule card_mono) (use assms(2) in auto)
  also have "\<dots> \<le> Suc (card ?S)" by (rule card_insert_le_m1) auto
  finally show ?thesis by (simp add: nfree_card assms(1))
qed

lemma getfreepos_Some:
  assumes "table_inv t" "getfreepos t = (t1, Some f)"
  shows "t1 = t\<lparr>lastfree := int f\<rparr>" "f < sizenode t" "nkey (node t) f = TNil" "\<not> isdummy t"
    "\<And>i. f < i \<Longrightarrow> i < sizenode t \<Longrightarrow> nkey (node t) i \<noteq> TNil"
proof -
  have l: "getfreepos_loop (node t) (nat (lastfree t)) = Some f" "t1 = t\<lparr>lastfree := int f\<rparr>"
    using assms(2) by (auto simp: getfreepos_def split: option.splits)
  note f = getfreepos_loop_Some [OF l(1)]
  show "t1 = t\<lparr>lastfree := int f\<rparr>" by (rule l(2))
  show nd: "\<not> isdummy t" using f table_invD(5) [OF assms(1)] by (auto simp: lastfree_ok_def)
  then have lf: "lastfree t \<le> int (sizenode t)" "\<And>i. i < sizenode t \<Longrightarrow> lastfree t \<le> int i \<Longrightarrow> nkey (node t) i \<noteq> TNil"
    using table_invD(5) [OF assms(1)] by (auto simp: lastfree_ok_def)
  show "f < sizenode t" "nkey (node t) f = TNil" using f lf(1) by auto
  show "nkey (node t) i \<noteq> TNil" if "f < i" "i < sizenode t" for i
    using f lf(2) [OF that(2)] that(1) by (cases "i < nat (lastfree t)") auto
qed

lemma getfreepos_None:
  assumes "table_inv t" "getfreepos t = (t1, None)"
  shows "table_inv t1" "\<exists>l. t1 = t\<lparr>lastfree := l\<rparr>" "isdummy t \<or> nfree (node t) = 0"
proof -
  have l: "getfreepos_loop (node t) (nat (lastfree t)) = None" "t1 = t\<lparr>lastfree := min (lastfree t) 0 - 1\<rparr>"
    using assms(2) by (auto simp: getfreepos_def split: option.splits)
  show "\<exists>l. t1 = t\<lparr>lastfree := l\<rparr>" using l(2) by blast
  have all: "nkey (node t) i \<noteq> TNil" if "\<not> isdummy t" "i < sizenode t" for i
    using getfreepos_loop_None [OF l(1), of i] table_invD(5) [OF assms(1)] that
    by (cases "i < nat (lastfree t)") (auto simp: lastfree_ok_def)
  then show "isdummy t \<or> nfree (node t) = 0" using table_invD(1) [OF assms(1)] by (auto simp: nfree_card)
  have "mainposition t1 = mainposition t" by (rule mainposition_lsizenode) (simp add: l(2))
  then show "table_inv t1" using assms(1) all
    by (auto simp: table_inv_def l(2) lastfree_ok_def in_array_def sizenode_def)
qed

subsection \<open>A new key\<close>

lemma entries_same:
  assumes "length ns' = length ns" "\<And>i. i < length ns \<Longrightarrow> nval ns' i = nval ns i"
    and "\<And>i. i < length ns \<Longrightarrow> nval ns i \<noteq> TNil \<Longrightarrow> nkey ns' i = nkey ns i"
  shows "entries ns' = entries ns"
  using assms unfolding entries_def by (auto; metis)

lemma ex_swapped:
  fixes f m l :: nat
  assumes "f < l" "m < l" "f \<noteq> m"
  shows "(\<exists>i. i < l \<and> i \<noteq> m \<and> P (if i = f then m else i) \<and> Q (if i = f then m else i)) \<longleftrightarrow>
         (\<exists>x. x < l \<and> x \<noteq> f \<and> P x \<and> Q x)"
proof
  assume "\<exists>x. x < l \<and> x \<noteq> f \<and> P x \<and> Q x"
  then obtain x where "x < l \<and> x \<noteq> f \<and> P x \<and> Q x" ..
  then show "\<exists>i. i < l \<and> i \<noteq> m \<and> P (if i = f then m else i) \<and> Q (if i = f then m else i)"
    using assms by (intro exI [of _ "if x = m then f else x"]) auto
qed (use assms in \<open>auto split: if_splits\<close>)

lemma entries_moved:
  assumes "length ns' = length ns" "f < length ns" "m < length ns" "f \<noteq> m" "nval ns f = TNil"
    and key: "\<And>i. i < length ns \<Longrightarrow> i \<noteq> m \<Longrightarrow> nkey ns' i = nkey ns (if i = f then m else i)"
    and val: "\<And>i. i < length ns \<Longrightarrow> nval ns' i = (if i = m then TNil else nval ns (if i = f then m else i))"
  shows "entries ns' = entries ns"
proof (rule set_eqI)
  fix e
  have "e \<in> entries ns' \<longleftrightarrow> (\<exists>i. i < length ns \<and> i \<noteq> m \<and> nval ns (if i = f then m else i) \<noteq> TNil \<and>
      e = (nkey ns (if i = f then m else i), nval ns (if i = f then m else i)))"
    using key val assms(1) unfolding entries_def mem_Collect_eq by (metis (no_types, lifting))
  also have "\<dots> \<longleftrightarrow> (\<exists>x. x < length ns \<and> x \<noteq> f \<and> nval ns x \<noteq> TNil \<and> e = (nkey ns x, nval ns x))"
    by (rule ex_swapped [OF assms(2-4)])
  also have "\<dots> \<longleftrightarrow> e \<in> entries ns" using assms(5) unfolding entries_def mem_Collect_eq by metis
  finally show "e \<in> entries ns' \<longleftrightarrow> e \<in> entries ns" .
qed

definition inserted :: "Table \<Rightarrow> TValue \<Rightarrow> Table \<Rightarrow> slot \<Rightarrow> bool" where
  "inserted t k t' s \<longleftrightarrow>
     table_inv t' \<and> gafqH_get t' k = Some s \<and> slotval t' s = TNil \<and>
     entries (node t') = entries (node t) \<and> nfree (node t) \<le> Suc (nfree (node t')) \<and>
     (\<exists>ns l. t' = t\<lparr>node := ns, lastfree := l\<rparr>) \<and> keeps_apart t t'"

lemma insertedI:
  assumes inv: "table_inv t" "proper k" "\<not> in_array t k" "\<not> isdummy t"
    and t': "t' = t\<lparr>node := ns, lastfree := l\<rparr>" "hash_inv (mainposition t) ns" "length ns = sizenode t"
    and ap: "\<And>R. dead_apart R (mainposition t) (node t) \<Longrightarrow> dead_apart R (mainposition t) ns"
    and key: "\<And>i. i < sizenode t \<Longrightarrow> nkey ns i = k \<or> (\<exists>j < sizenode t. nkey ns i = nkey (node t) j)"
    and p: "p < sizenode t" "nkey ns p = k" "nval ns p = TNil"
    and ent: "entries ns = entries (node t)"
    and free: "\<And>i. i < sizenode t \<Longrightarrow> i \<noteq> f \<Longrightarrow> nkey (node t) i = TNil \<Longrightarrow> nkey ns i = TNil"
    and lf: "l \<le> int (sizenode t)" "\<And>i. i < sizenode t \<Longrightarrow> l \<le> int i \<Longrightarrow> nkey ns i \<noteq> TNil"
  shows "inserted t k t' (SNode p)"
proof -
  have mp: "mainposition t' = mainposition t" by (rule mainposition_lsizenode) (simp add: t'(1))
  have arr: "in_array t' x = in_array t x" for x by (simp add: in_array_def t'(1))
  have "\<not> in_array t (nkey ns i)" if "i < sizenode t" for i
    using key [OF that] inv(3) table_invD(9) [OF inv(1)] by auto
  then have inv': "table_inv t'" using inv(1,4) t' lf mp arr
    by (auto simp: table_inv_def lastfree_ok_def sizenode_def)
  have "holds (node t') k p" using p t' proper_refl [OF inv(2)] by (simp add: holds_def)
  then have "gafqH_get t' k = Some (SNode p)"
    using get_eq [OF inv', of k] get_hash_Some [OF inv' inv(2)] arr inv(3) live_not_nil [OF proper_live [OF inv(2)]]
    by simp
  moreover have "nfree (node t) \<le> Suc (nfree ns)"
    by (rule nfree_drop [of _ _ f]) (use free t'(3) table_invD(1) [OF inv(1)] in auto)
  moreover have "keeps_apart t t'" using ap mp t'(1) by (simp add: keeps_apart_def apart_def)
  ultimately show ?thesis using inv' ent p(3) t'(1) by (auto simp: inserted_def)
qed

lemma newkey_at_main:
  assumes inv: "table_inv t" "proper k" "absent_key (node t) k" "\<not> in_array t k" "\<not> isdummy t"
    and val: "nval (node t) (mainposition t k) = TNil"
  shows "inserted t k (set_key t (mainposition t k) k) (SNode (mainposition t k))"
proof -
  let ?m = "mainposition t k"
  let ?ns = "(node t)[?m := (node t ! ?m)\<lparr>i_key := k\<rparr>]"
  note ti = table_invD [OF inv(1)]
  have fld: "nkey ?ns i = (if i = ?m then k else nkey (node t) i)" "nval ?ns i = nval (node t) i"
    if "i < sizenode t" for i using that ti(1) by (auto simp: nth_list_update)
  have lf: "lastfree t \<le> int (sizenode t)" "\<And>i. i < sizenode t \<Longrightarrow> lastfree t \<le> int i \<Longrightarrow> nkey (node t) i \<noteq> TNil"
    using ti(5) inv(5) by (auto simp: lastfree_ok_def)
  show ?thesis
    unfolding set_key_def
  proof (rule insertedI [OF inv(1,2,4,5), where ns = ?ns and l = "lastfree t" and f = ?m])
    show "hash_inv (mainposition t) ?ns"
      using tab.insert_at_main(1) [OF ti(4,1) inv(2,3) val] .
    show "dead_apart R (mainposition t) ?ns" if "dead_apart R (mainposition t) (node t)" for R
      using tab.insert_at_main(2) [OF ti(4,1) inv(2,3) val that] .
    show "entries ?ns = entries (node t)"
      by (rule entries_same) (use fld val ti(1) in auto)
    show "nkey ?ns i \<noteq> TNil" if "i < sizenode t" "lastfree t \<le> int i" for i
      using lf(2) [OF that] fld(1) [OF that(1)] live_not_nil [OF proper_live [OF inv(2)]] by simp
    show "nkey ?ns i = k \<or> (\<exists>j < sizenode t. nkey ?ns i = nkey (node t) j)" if "i < sizenode t" for i
      using fld(1) [OF that] that by auto
  qed (use fld val ti(1) lf in \<open>auto simp: nth_list_update\<close>)
qed

lemma newkey_chain_free:
  assumes inv: "table_inv t" "proper k" "absent_key (node t) k" "\<not> in_array t k"
    and g: "getfreepos t = (t1, Some f)"
    and val: "nval (node t) (mainposition t k) \<noteq> TNil"
    and home: "mainposition t (nkey (node t) (mainposition t k)) = mainposition t k"
  shows "inserted t k (set_key (chain_free t1 (mainposition t k) f) f k) (SNode f)"
proof -
  let ?m = "mainposition t k"
  let ?t' = "set_key (chain_free t1 ?m f) f k"
  note ti = table_invD [OF inv(1)] and fr = getfreepos_Some [OF inv(1) g]
  have lm: "live (nkey (node t) ?m)" using ti(7) val ti(1) by (auto simp: keys_ok_def)
  then have fm: "f \<noteq> ?m" using fr(3) by (auto simp: live_def)
  have fval: "nval (node t) f = TNil" using ti(7) fr(2,3) ti(1) by (auto simp: keys_ok_def live_def)
  have len: "length (node ?t') = sizenode t" by (simp add: set_key_def chain_free_def set_next_def fr(1) ti(1))
  have fld: "nkey (node ?t') i = (if i = f then k else nkey (node t) i)" "nval (node ?t') i = nval (node t) i"
    "nnext (node ?t') i = (if i = f then nnext (node t) ?m else if i = ?m then Some f else nnext (node t) i)"
    if "i < sizenode t" for i
    using that ti(1) fm fr(2) by (auto simp: nth_list_update set_key_def chain_free_def set_next_def fr(1))
  have hi: "hash_inv (mainposition t) (node ?t')"
    by (rule tab.insert_after_main(1) [OF ti(4,1) inv(2,3) lm home fr(2,3) len fld])
  note ap = tab.insert_after_main(2) [OF ti(4,1) inv(2,3) lm home fr(2,3) len fld]
  have up: "?t' = t\<lparr>node := node ?t', lastfree := int f\<rparr>"
    by (simp add: set_key_def chain_free_def set_next_def fr(1))
  show ?thesis
  proof (rule insertedI [OF inv(1,2,4) fr(4) up hi len ap, where f = f])
    show "entries (node ?t') = entries (node t)"
      by (rule entries_same) (use fld fval ti(1) len in \<open>auto split: if_splits\<close>)
    show "nkey (node ?t') i = k \<or> (\<exists>j < sizenode t. nkey (node ?t') i = nkey (node t) j)" if "i < sizenode t" for i
      using fld(1) [OF that] that by auto
    show "nkey (node ?t') i \<noteq> TNil" if "i < sizenode t" "int f \<le> int i" for i
      using fld(1) [OF that(1)] that fr(5) [of i] live_not_nil [OF proper_live [OF inv(2)]] by auto
  qed (use fld fval fr(2) in auto)
qed

lemma find_previous_finds:
  assumes "chains_ok (node t)" "c < length (node t)" "(c, m) \<in> (links (node t))\<^sup>*" "c \<noteq> m"
  obtains q where "find_previous t c m = Some q" "(q, m) \<in> links (node t)"
proof -
  from assms(3,4) obtain q where q: "(c, q) \<in> (links (node t))\<^sup>*" "(q, m) \<in> links (node t)"
    by (meson rtranclE)
  then have "q \<in> set (chain t c)" "nnext (node t) q = Some m"
    using chain_complete [OF assms(1,2)] by (auto simp: chain_def links_def)
  then obtain q' where f: "find_previous t c m = Some q'"
    unfolding find_previous_def by (cases "find (\<lambda>j. nnext (node t) j = Some m) (chain t c)") (auto simp: find_None_iff)
  then have "nnext (node t) q' = Some m" "q' \<in> set (chain t c)"
    by (auto simp: find_previous_def find_Some_iff)
  then have "(q', m) \<in> links (node t)"
    using chain_from_reach [OF _ assms(2,1)] by (auto simp: chain_def links_def)
  with f show ?thesis by (rule that)
qed

lemma newkey_moving:
  assumes inv: "table_inv t" "proper k" "absent_key (node t) k" "\<not> in_array t k"
    and g: "getfreepos t = (t1, Some f)"
    and val: "nval (node t) (mainposition t k) \<noteq> TNil"
    and away: "mainposition t (nkey (node t) (mainposition t k)) \<noteq> mainposition t k"
    and q: "(q, mainposition t k) \<in> links (node t)"
  shows "inserted t k (set_key (move_colliding t1 q (mainposition t k) f) (mainposition t k) k) (SNode (mainposition t k))"
proof -
  let ?m = "mainposition t k"
  let ?t' = "set_key (move_colliding t1 q ?m f) ?m k"
  note ti = table_invD [OF inv(1)] and fr = getfreepos_Some [OF inv(1) g]
  have lm: "live (nkey (node t) ?m)" using ti(7) val ti(1) by (auto simp: keys_ok_def)
  then have fm: "f \<noteq> ?m" using fr(3) by (auto simp: live_def)
  have fval: "nval (node t) f = TNil" using ti(7) fr(2,3) ti(1) by (auto simp: keys_ok_def live_def)
  have qd: "q < sizenode t" "q \<noteq> ?m" "q \<noteq> f" using chains_okD [OF ti(6) q] ti(1) fr(3) by auto
  have len: "length (node ?t') = sizenode t" by (simp add: set_key_def move_colliding_def set_next_def Let_def fr(1) ti(1))
  have fld: "nkey (node ?t') i = (if i = ?m then k else nkey (node t) (if i = f then ?m else i))"
    "nval (node ?t') i = (if i = ?m then TNil else nval (node t) (if i = f then ?m else i))"
    "nnext (node ?t') i = (if i = ?m then None else if i = f then nnext (node t) ?m else if i = q then Some f else nnext (node t) i)"
    if "i < sizenode t" for i
    using that ti(1) fm fr(2) qd by (auto simp: nth_list_update set_key_def move_colliding_def set_next_def Let_def fr(1))
  have hi: "hash_inv (mainposition t) (node ?t')"
    by (rule tab.insert_moving(1) [OF ti(4,1) inv(2,3) lm away fr(2,3) q len fld])
  note ap = tab.insert_moving(2) [OF ti(4,1) inv(2,3) lm away fr(2,3) q len fld]
  have up: "?t' = t\<lparr>node := node ?t', lastfree := int f\<rparr>"
    by (simp add: set_key_def move_colliding_def set_next_def Let_def fr(1))
  show ?thesis
  proof (rule insertedI [OF inv(1,2,4) fr(4) up hi len ap, where f = f])
    show "entries (node ?t') = entries (node t)"
      by (rule entries_moved [of _ _ f ?m]) (use fld fval ti(1) len fm fr(2) in auto)
    show "nkey (node ?t') i = k \<or> (\<exists>j < sizenode t. nkey (node ?t') i = nkey (node t) j)" if "i < sizenode t" for i
      using fld(1) [OF that] that mainposition_less [of t k] by metis
    show "nkey (node ?t') i \<noteq> TNil" if "i < sizenode t" "int f \<le> int i" for i
      using fld(1) [OF that(1)] that fr(5) [of i] live_not_nil [OF proper_live [OF inv(2)]] live_not_nil [OF lm] by auto
    show "nkey (node ?t') i = TNil" if "i < sizenode t" "i \<noteq> f" "nkey (node t) i = TNil" for i
      using fld(1) [OF that(1)] that live_not_nil [OF lm] by auto
  qed (use fld fr(2) in auto)
qed

text \<open>
  \<open>newkey\<close> inserts the key without touching the contents, or it has found no free position and calls
  the growing step on the same table.
\<close>

lemma newkey_cases:
  assumes inv: "table_inv t" "proper k" "gafqH_get t k = None"
  shows "(\<exists>t' s. newkey_with gr t k = Inr (t', s) \<and> inserted t k t' s) \<or>
    (\<exists>t1. newkey_with gr t k = gr t1 k \<and> table_inv t1 \<and> (\<exists>l. t1 = t\<lparr>lastfree := l\<rparr>) \<and>
       (isdummy t \<or> nfree (node t) = 0))"
proof -
  let ?m = "mainposition t k"
  have abs: "absent_key (node t) k" "\<not> in_array t k"
    using inv(3) get_eq [OF inv(1) live_not_nil [OF proper_live [OF inv(2)]]] get_hash_None [OF inv(1,2)]
    by (auto split: if_splits)
  consider (main) "nval (node t) ?m = TNil" "\<not> isdummy t"
    | (full) t1 where "nval (node t) ?m \<noteq> TNil \<or> isdummy t" "getfreepos t = (t1, None)"
    | (free) t1 f where "nval (node t) ?m \<noteq> TNil \<or> isdummy t" "getfreepos t = (t1, Some f)"
    by (metis not_None_eq surj_pair)
  then show ?thesis
  proof cases
    case main
    with newkey_at_main [OF inv(1,2) abs main(2,1)] show ?thesis by (auto simp: newkey_with_def Let_def)
  next
    case full
    with getfreepos_None [OF inv(1) full(2)] show ?thesis by (auto simp: newkey_with_def Let_def)
  next
    case free
    note fr = getfreepos_Some [OF inv(1) free(2)]
    have v: "nval (node t) ?m \<noteq> TNil" using free(1) fr(4) by simp
    have mp1: "mainposition t1 = mainposition t" by (rule mainposition_lsizenode) (simp add: fr(1))
    let ?c = "mainposition t (nkey (node t) ?m)"
    show ?thesis
    proof (cases "?c = ?m")
      case True
      with newkey_chain_free [OF inv(1,2) abs free(2) v] v free(2) fr(1) mp1 show ?thesis
        by (auto simp: newkey_with_def Let_def)
    next
      case False
      note ti = table_invD [OF inv(1)]
      have "live (nkey (node t) ?m)" using ti(7) v ti(1) by (auto simp: keys_ok_def)
      then have "(?c, ?m) \<in> (links (node t))\<^sup>*" using ti(8,1) by (auto simp: placed_def)
      then obtain q where q: "find_previous t ?c ?m = Some q" "(q, ?m) \<in> links (node t)"
        using find_previous_finds [OF ti(6), of ?c ?m] ti(1) False by auto
      moreover have "find_previous t1 ?c ?m = Some q" using q(1) by (simp add: fr(1) find_previous_def chain_def)
      ultimately show ?thesis
        using newkey_moving [OF inv(1,2) abs free(2) v False q(2)] v free(2) fr(1) mp1 False
        by (auto simp: newkey_with_def Let_def)
    qed
  qed
qed

subsection \<open>Setting a key\<close>

lemma tget_entries:
  assumes "table_inv t" "table_inv t'" "array t' = array t" "entries (node t') = entries (node t)" "proper k"
  shows "tget t' k = tget t k"
proof (cases "in_array t k")
  case True
  then have "in_array t' k" using assms(3) by (simp add: in_array_def)
  then show ?thesis using True tget_array assms by simp
next
  case False
  then have n: "\<not> in_array t' k" using assms(3) by (simp add: in_array_def)
  have "tget t' k = v \<longleftrightarrow> tget t k = v" if "v \<noteq> TNil" for v
    using tget_hash [OF assms(1,5) False that] tget_hash [OF assms(2,5) n that] assms(4) by simp
  then show ?thesis by metis
qed

lemma flags_irrelevant [simp]:
  "gafqH_get (t\<lparr>flags := x\<rparr>) k = gafqH_get t k" "table_inv (t\<lparr>flags := x\<rparr>) = table_inv t"
  "tget (t\<lparr>flags := x\<rparr>) k = tget t k"
proof -
  have mp: "mainposition (t\<lparr>flags := x\<rparr>) = mainposition t" by (rule mainposition_lsizenode) simp
  show g: "gafqH_get (t\<lparr>flags := x\<rparr>) k = gafqH_get t k"
    by (cases k) (auto simp: gafqH_get_def get_generic_def gafqH_getstr_def gafqH_getnum_def search_chain_def chain_def
      hashnum_def hashpow2_def hashmod_def sizenode_def mp Let_def)
  show "table_inv (t\<lparr>flags := x\<rparr>) = table_inv t"
    by (simp add: table_inv_def mp lastfree_ok_def in_array_def sizenode_def)
  have "slotval (t\<lparr>flags := x\<rparr>) s = slotval t s" for s by (cases s) auto
  then show "tget (t\<lparr>flags := x\<rparr>) k = tget t k" by (simp add: tget_def g slotoptval_def split: option.split)
qed

definition same_contents :: "Table \<Rightarrow> Table \<Rightarrow> bool" where
  "same_contents t t' \<longleftrightarrow> (\<forall>k. proper k \<longrightarrow> tget t' k = tget t k) \<and> keeps_apart t t'"

text \<open>The hash part's room for new keys; the shared dummy node never takes one.\<close>

definition room :: "Table \<Rightarrow> nat" where
  "room t = (if isdummy t then 0 else nfree (node t))"

definition stored :: "Table \<Rightarrow> TValue \<Rightarrow> Table \<Rightarrow> slot \<Rightarrow> bool" where
  "stored t k t' s \<longleftrightarrow> table_inv t' \<and> gafqH_get t' k = Some s \<and> same_contents t t' \<and> metatable t' = metatable t"

definition stored_in_place :: "Table \<Rightarrow> TValue \<Rightarrow> Table \<Rightarrow> slot \<Rightarrow> bool" where
  "stored_in_place t k t' s \<longleftrightarrow> stored t k t' s \<and> array t' = array t \<and>
     room t \<le> room t' + (if in_array t k then 0 else 1)"

lemma inserted_stored:
  assumes "table_inv t" "inserted t k t' s" "\<not> in_array t k"
  shows "stored_in_place t k t' s"
  using assms tget_entries [OF assms(1), of t']
  by (auto simp: inserted_def stored_in_place_def stored_def room_def same_contents_def)

lemma stored_refl: "table_inv t \<Longrightarrow> gafqH_get t k = Some s \<Longrightarrow> stored_in_place t k (t\<lparr>flags := x\<rparr>) s"
  by (auto simp: stored_in_place_def stored_def same_contents_def room_def)

lemma newkey_stored:
  assumes inv: "table_inv t" "proper k" "gafqH_get t k = None"
  shows "(\<exists>t' s. newkey_with gr t k = Inr (t', s) \<and> stored_in_place t k t' s) \<or>
    (\<exists>t1. newkey_with gr t k = gr t1 k \<and> table_inv t1 \<and> (\<exists>l. t1 = t\<lparr>lastfree := l\<rparr>) \<and> room t = 0)"
proof -
  have "\<not> in_array t k" using inv(3) get_eq [OF inv(1) live_not_nil [OF proper_live [OF inv(2)]]] by auto
  with newkey_cases [OF inv, of gr] inserted_stored [OF inv(1)] show ?thesis
    by (metis room_def)
qed

lemma proper_not_nan: "proper k \<Longrightarrow> \<not> (case k of TNumber n \<Rightarrow> gafqi_numisnan n | _ \<Rightarrow> False)"
  by (simp add: proper_def isnan_val_def)

lemma set_with_cases:
  assumes inv: "table_inv t" "proper k"
  shows "(\<exists>t' s. gafqH_set_with gr t k = Inr (t', s) \<and> stored_in_place t k t' s) \<or>
    (\<exists>t1. gafqH_set_with gr t k = gr t1 k \<and> table_inv t1 \<and> (\<exists>l. t1 = t\<lparr>flags := 0, lastfree := l\<rparr>) \<and>
       room t = 0 \<and> gafqH_get t k = None)"
proof (cases "gafqH_get t k")
  case None
  let ?t = "t\<lparr>flags := 0\<rparr>"
  have sw: "gafqH_set_with gr t k = newkey_with gr ?t k"
    using None live_not_nil [OF proper_live [OF inv(2)]] proper_not_nan [OF inv(2)]
    by (simp add: gafqH_set_with_def Let_def)
  have eq: "room ?t = room t" "in_array ?t k = in_array t k" by (simp_all add: room_def in_array_def)
  have "stored_in_place ?t k t' s = stored_in_place t k t' s" for t' s
    by (simp add: stored_in_place_def stored_def same_contents_def eq)
  with newkey_stored [of ?t k gr] None inv sw eq show ?thesis by auto
next
  case (Some s)
  with stored_refl [OF inv(1) Some, of 0] show ?thesis by (simp add: gafqH_set_with_def Let_def)
qed

lemma set_with_room:
  assumes "table_inv t" "proper k" "in_array t k \<or> 0 < room t"
  obtains t' s where "gafqH_set_with gr t k = Inr (t', s)" "stored_in_place t k t' s"
proof -
  have "gafqH_get t k \<noteq> None" if "in_array t k"
    using that get_eq [OF assms(1) live_not_nil [OF proper_live [OF assms(2)]]] by simp
  with set_with_cases [OF assms(1,2), of gr] assms(3) that show ?thesis by fastforce
qed

text \<open>\<open>gafqH_setnum\<close> and \<open>gafqH_setstr\<close> are \<open>gafqH_set\<close> but for the reset of the flags.\<close>

lemma setnum_with_eq:
  assumes "table_inv t" "- (2 ^ 31) \<le> i" "i < 2 ^ 31"
  shows "gafqH_setnum_with gr t i =
    (case gafqH_get t (TNumber (cast_num i)) of Some s \<Rightarrow> Inr (t, s) | None \<Rightarrow> newkey_with gr t (TNumber (cast_num i)))"
  using get_eq [OF assms(1), of "TNumber (cast_num i)"] getnum_eq [OF assms] in_array_cast_num [OF assms(2,3)]
    arrayindex_cast_num [OF assms(2,3)]
  by (simp add: gafqH_setnum_with_def)

lemma setstr_with_eq:
  assumes "table_inv t"
  shows "gafqH_setstr_with gr t x =
    (case gafqH_get t (TString x) of Some s \<Rightarrow> Inr (t, s) | None \<Rightarrow> newkey_with gr t (TString x))"
  by (simp add: gafqH_setstr_with_def gafqH_get_def)

lemma proper_num: "\<bar>i\<bar> < 2 ^ 53 \<Longrightarrow> proper (TNumber (cast_num i))"
  by (simp add: proper_def live_def isnan_val_def gafqi_numisnan_iff cast_num_not_nan)

lemma proper_string [simp]: "proper (TString x)"
  by (simp add: proper_def live_def isnan_val_def)

lemma setnum_with_cases:
  assumes inv: "table_inv t" and i: "- (2 ^ 31) \<le> i" "i < 2 ^ 31"
  defines "k \<equiv> TNumber (cast_num i)"
  shows "(\<exists>t' s. gafqH_setnum_with gr t i = Inr (t', s) \<and> stored_in_place t k t' s) \<or>
    (\<exists>t1. gafqH_setnum_with gr t i = gr t1 k \<and> table_inv t1 \<and> (\<exists>l. t1 = t\<lparr>lastfree := l\<rparr>) \<and>
       room t = 0 \<and> gafqH_get t k = None)"
proof (cases "gafqH_get t k")
  case None
  have "proper k" unfolding k_def by (rule proper_num) (use i in simp)
  with newkey_stored [OF inv _ None, of gr] None show ?thesis
    by (auto simp: setnum_with_eq [OF inv i] k_def)
next
  case (Some s)
  with stored_refl [OF inv Some, of "flags t"] show ?thesis by (simp add: setnum_with_eq [OF inv i] k_def)
qed

subsection \<open>Storing a value\<close>

text \<open>A key set and a value written through the slot returned.\<close>

lemma store_step:
  assumes "stored t k t' s" "proper k"
  shows "table_inv (setslot t' s v)" "\<And>k'. proper k' \<Longrightarrow> tget (setslot t' s v) k' = (if gafqO_rawequalObj k k' then v else tget t k')"
    "metatable (setslot t' s v) = metatable t" "room (setslot t' s v) = room t'"
    "sizearray (setslot t' s v) = sizearray t'" "keeps_apart t (setslot t' s v)"
proof -
  have a: "table_inv t'" "gafqH_get t' k = Some s" "same_contents t t'" "metatable t' = metatable t"
    using assms(1) by (auto simp: stored_def)
  show "keeps_apart t (setslot t' s v)" using a(3) keeps_apart_trans [OF _ setslot_apart] by (simp add: same_contents_def)
  show "table_inv (setslot t' s v)" by (rule setslot_inv [OF a(1) assms(2) a(2)])
  show "tget (setslot t' s v) k' = (if gafqO_rawequalObj k k' then v else tget t k')" if "proper k'" for k'
    using setslot_tget [OF a(1) assms(2) a(2) that, of v] a(3) that by (simp add: same_contents_def)
  show "metatable (setslot t' s v) = metatable t" "sizearray (setslot t' s v) = sizearray t'" using a(4) by (cases s; simp)+
  have "nfree (ns[j := (ns ! j)\<lparr>i_val := v\<rparr>]) = nfree ns" for ns j
    by (simp add: nfree_card node_update_fields)
  then show "room (setslot t' s v) = room t'" by (cases s) (auto simp: room_def)
qed

subsection \<open>Re-inserting the elements of the old parts\<close>

text \<open>
  The contents \<open>F\<close> the table is to have; \<open>pending\<close> says of which keys the value is still to be
  stored.
\<close>

definition agrees :: "Table \<Rightarrow> (TValue \<Rightarrow> TValue) \<Rightarrow> (TValue \<Rightarrow> bool) \<Rightarrow> bool" where
  "agrees t F pending \<longleftrightarrow> (\<forall>k. proper k \<longrightarrow> tget t k = F k \<or> pending k)"

definition raw_fun :: "(TValue \<Rightarrow> TValue) \<Rightarrow> bool" where
  "raw_fun F \<longleftrightarrow> (\<forall>k k'. gafqO_rawequalObj k k' \<longrightarrow> F k = F k')"

definition pending_nodes :: "Node list \<Rightarrow> TValue \<Rightarrow> bool" where
  "pending_nodes olds k \<longleftrightarrow> (\<exists>old \<in> set olds. i_val old \<noteq> TNil \<and> gafqO_rawequalObj (i_key old) k)"

definition pending_array :: "nat \<Rightarrow> TValue list \<Rightarrow> TValue \<Rightarrow> bool" where
  "pending_array i vs k \<longleftrightarrow>
     (\<exists>j < length vs. vs ! j \<noteq> TNil \<and> gafqO_rawequalObj (TNumber (cast_num (int (i + j) + 1))) k)"

lemma pending_nodes_Cons:
  "pending_nodes (old # olds) k \<longleftrightarrow> i_val old \<noteq> TNil \<and> gafqO_rawequalObj (i_key old) k \<or> pending_nodes olds k"
  by (simp add: pending_nodes_def)

lemma pending_array_Cons:
  "pending_array i (v # vs) k \<longleftrightarrow>
     v \<noteq> TNil \<and> gafqO_rawequalObj (TNumber (cast_num (int i + 1))) k \<or> pending_array (Suc i) vs k"
proof -
  have "(\<exists>j < Suc (length vs). P j) \<longleftrightarrow> P 0 \<or> (\<exists>j < length vs. P (Suc j))" for P :: "nat \<Rightarrow> bool"
    using Ex_less_Suc2 by blast
  then show ?thesis by (simp add: pending_array_def)
qed

lemma pending_Nil [simp]: "\<not> pending_nodes [] k" "\<not> pending_array i [] k"
  by (simp_all add: pending_nodes_def pending_array_def)

text \<open>One store of a pending element.\<close>

lemma agrees_store:
  assumes "agrees t F P" "stored t k t' s" "proper k" "F k = v" "raw_fun F"
    and "\<And>k'. proper k' \<Longrightarrow> P k' \<Longrightarrow> gafqO_rawequalObj k k' \<or> Q k'"
  shows "agrees (setslot t' s v) F Q"
  unfolding agrees_def
proof (intro allI impI)
  fix k' assume k': "proper k'"
  then have "tget t k' = F k' \<or> gafqO_rawequalObj k k' \<or> Q k'" using assms(1,6) by (auto simp: agrees_def)
  then show "tget (setslot t' s v) k' = F k' \<or> Q k'"
    using store_step(2) [OF assms(2,3) k', of v] assms(4,5) by (auto simp: raw_fun_def)
qed

lemma in_array_sizearray: "sizearray t' = sizearray t \<Longrightarrow> in_array t' k = in_array t k"
  by (simp add: in_array_def)

lemma reinsert_nodes_room:
  assumes "table_inv t" "raw_fun F" "agrees t F (pending_nodes olds)"
    and "\<And>old. old \<in> set olds \<Longrightarrow> i_val old \<noteq> TNil \<Longrightarrow> proper (i_key old) \<and> F (i_key old) = i_val old"
    and "length (filter (\<lambda>old. i_val old \<noteq> TNil \<and> \<not> in_array t (i_key old)) olds) + e \<le> room t"
  shows "\<exists>t'. reinsert_nodes gr olds t = Inr t' \<and> table_inv t' \<and> agrees t' F (\<lambda>_. False) \<and>
    metatable t' = metatable t \<and> sizearray t' = sizearray t \<and> e \<le> room t' \<and> keeps_apart t t'"
  using assms
proof (induction olds arbitrary: t)
  case Nil
  then show ?case by (auto simp: agrees_def)
next
  case (Cons old olds)
  show ?case
  proof (cases "i_val old = TNil")
    case True
    then have "agrees t F (pending_nodes olds)" using Cons.prems(3) by (simp add: agrees_def pending_nodes_Cons)
    with Cons True show ?thesis by simp
  next
    case False
    let ?k = "i_key old"
    have k: "proper ?k" "F ?k = i_val old" using Cons.prems(4) [of old] False by auto
    have "in_array t ?k \<or> 0 < room t" using Cons.prems(5) False by (cases "in_array t ?k") auto
    then obtain t' s where ts: "gafqH_set_with gr t ?k = Inr (t', s)" "stored_in_place t ?k t' s"
      using set_with_room [OF Cons.prems(1) k(1)] by blast
    then have st: "stored t ?k t' s" "array t' = array t" "room t \<le> room t' + (if in_array t ?k then 0 else 1)"
      by (auto simp: stored_in_place_def)
    let ?t = "setslot t' s (i_val old)"
    note step = store_step [OF st(1) k(1), of "i_val old"]
    have ag: "agrees ?t F (pending_nodes olds)"
      by (rule agrees_store [OF Cons.prems(3) st(1) k Cons.prems(2)]) (auto simp: pending_nodes_Cons)
    have sz: "sizearray ?t = sizearray t" using step(5) st(2) by simp
    have "\<exists>t''. reinsert_nodes gr olds ?t = Inr t'' \<and> table_inv t'' \<and> agrees t'' F (\<lambda>_. False) \<and>
        metatable t'' = metatable ?t \<and> sizearray t'' = sizearray ?t \<and> e \<le> room t'' \<and> keeps_apart ?t t''"
      by (rule Cons.IH [OF step(1) Cons.prems(2) ag])
        (use Cons.prems(4,5) st(3) step(4) False in \<open>auto simp: in_array_sizearray [OF sz] split: if_splits\<close>)
    then show ?thesis using ts(1) False step(3) sz keeps_apart_trans [OF step(6)] by auto
  qed
qed

lemma reinsert_array_room:
  assumes "table_inv t" "raw_fun F" "agrees t F (\<lambda>k. pending_array i vs k \<or> P k)"
    and "\<And>j. j < length vs \<Longrightarrow> vs ! j \<noteq> TNil \<Longrightarrow> F (TNumber (cast_num (int (i + j) + 1))) = vs ! j"
    and "length (filter (\<lambda>v. v \<noteq> TNil) vs) + e \<le> room t" "int (i + length vs) \<le> MAXASIZE"
  shows "\<exists>t'. reinsert_array gr i vs t = Inr t' \<and> table_inv t' \<and> agrees t' F P \<and>
    metatable t' = metatable t \<and> sizearray t' = sizearray t \<and> e \<le> room t' \<and> keeps_apart t t'"
  using assms
proof (induction vs arbitrary: t i)
  case Nil
  then show ?case by (auto simp: agrees_def)
next
  case (Cons v vs)
  have F: "\<And>j. j < length vs \<Longrightarrow> vs ! j \<noteq> TNil \<Longrightarrow> F (TNumber (cast_num (int (Suc i + j) + 1))) = vs ! j"
    using Cons.prems(4) [of "Suc _"] by fastforce
  show ?case
  proof (cases "v = TNil")
    case True
    then have "agrees t F (\<lambda>k. pending_array (Suc i) vs k \<or> P k)"
      using Cons.prems(3) by (simp add: agrees_def pending_array_Cons)
    with Cons True F show ?thesis by simp
  next
    case False
    let ?i = "int i + 1"
    let ?k = "TNumber (cast_num ?i)"
    have i: "- (2 ^ 31) \<le> ?i" "?i < 2 ^ 31" "\<bar>?i\<bar> < 2 ^ 53" using Cons.prems(6) by (auto simp: MAXASIZE_def MAXBITS_def)
    have k: "proper ?k" "F ?k = v" using Cons.prems(4) [of 0] False proper_num [OF i(3)] by auto
    have "0 < room t" using Cons.prems(5) False by auto
    then obtain t' s where ts: "gafqH_setnum_with gr t ?i = Inr (t', s)" "stored_in_place t ?k t' s"
      using setnum_with_cases [OF Cons.prems(1) i(1,2), of gr] by auto
    then have st: "stored t ?k t' s" "array t' = array t" "room t \<le> Suc (room t')"
      by (auto simp: stored_in_place_def split: if_splits)
    let ?t = "setslot t' s v"
    note step = store_step [OF st(1) k(1), of v]
    have ag: "agrees ?t F (\<lambda>k. pending_array (Suc i) vs k \<or> P k)"
      by (rule agrees_store [OF Cons.prems(3) st(1) k Cons.prems(2)]) (auto simp: pending_array_Cons)
    have "\<exists>t''. reinsert_array gr (Suc i) vs ?t = Inr t'' \<and> table_inv t'' \<and> agrees t'' F P \<and>
        metatable t'' = metatable ?t \<and> sizearray t'' = sizearray ?t \<and> e \<le> room t'' \<and> keeps_apart ?t t''"
      by (rule Cons.IH [OF step(1) Cons.prems(2) ag])
        (use F Cons.prems(5,6) st(3) step(4) False in auto)
    then show ?thesis using ts(1) False step(3,5) st(2) keeps_apart_trans [OF step(6)] by (auto simp: add.commute)
  qed
qed

end
