(* ===== verification/Table_Rehash.thy ===== *)
theory Table_Rehash
  imports Table_Set
begin

text \<open>
  Resizing, rehashing and the theorems about the functions that set keys.  The locale \<open>growing\<close> is
  the contract \<open>newkey\<close> needs of the step that grows a full table; it is interpreted on \<open>grow\<close>, by
  counting: \<open>rehash\<close> makes the new hash part large enough for every element that goes there and for
  the key that is being inserted, so that no re-insertion grows the table again.
\<close>

subsection \<open>Resizing\<close>

lemma fresh_nodes_inv: "hash_inv mp (replicate n \<lparr>i_val = TNil, i_key = TNil, i_next = None\<rparr>)"
  by (auto simp: hash_inv_def chains_ok_def keys_ok_def placed_def links_def ranked_def live_def)

lemma ceillog2_range: "sz \<noteq> 0 \<Longrightarrow> \<not> MAXBITS < nat (ceillog2 sz) \<Longrightarrow> sz \<le> twoto (nat (ceillog2 sz))"
  using ceillog2_upper by (simp add: twoto_def)

lemma setnodevector_cases:
  "setnodevector t sz = Inl (RunError ''table overflow'') \<or>
   (\<exists>ns d l f. setnodevector t sz = Inr (t\<lparr>node := ns, isdummy := d, lsizenode := l, lastfree := f\<rparr>) \<and>
     length ns = twoto l \<and> l \<le> MAXBITS \<and> (\<forall>nd \<in> set ns. nd = dummynode) \<and>
     (if d then ns = [dummynode] \<and> l = 0 \<and> f = 0 else f = int (twoto l)) \<and>
     (if sz = 0 then d else \<not> d \<and> sz \<le> twoto l))"
proof (cases "sz = 0")
  case True
  then show ?thesis
    by (intro disjI2 exI [of _ "[dummynode]"] exI [of _ True] exI [of _ "0::nat"] exI [of _ "0::int"])
      (simp add: setnodevector_def twoto_def)
next
  case False
  let ?l = "nat (ceillog2 sz)"
  show ?thesis
  proof (cases "MAXBITS < ?l")
    case True
    then show ?thesis using False by (simp add: setnodevector_def Let_def)
  next
    case small: False
    show ?thesis
      using False small ceillog2_range [OF False small]
      by (intro disjI2 exI [of _ "replicate (twoto ?l) dummynode"] exI [of _ False] exI [of _ ?l] exI [of _ "int (twoto ?l)"])
        (simp add: setnodevector_def Let_def dummynode_def)
  qed
qed

text \<open>The table between the change of the vectors and the re-insertion.\<close>

lemma setnodevector_inv:
  assumes "setnodevector t sz = Inr t2" "int (length arr) \<le> MAXASIZE"
  shows "table_inv (t2\<lparr>array := arr\<rparr>)" "sz \<le> room (t2\<lparr>array := arr\<rparr>)" "metatable t2 = metatable t" "array t2 = array t"
    "\<And>k. proper k \<Longrightarrow> tget (t2\<lparr>array := arr\<rparr>) k =
       (if in_array (t2\<lparr>array := arr\<rparr>) k then arr ! nat (arrayindex k - 1) else TNil)"
    "keeps_apart t0 (t2\<lparr>array := arr\<rparr>)"
proof -
  let ?t = "t2\<lparr>array := arr\<rparr>"
  from setnodevector_cases [of t sz] assms(1) obtain ns d l f where
    t2: "t2 = t\<lparr>node := ns, isdummy := d, lsizenode := l, lastfree := f\<rparr>" and ns: "length ns = twoto l" "l \<le> MAXBITS"
    "\<forall>nd \<in> set ns. nd = dummynode" and
    d: "if d then ns = [dummynode] \<and> l = 0 \<and> f = 0 else f = int (twoto l)" "if sz = 0 then d else \<not> d \<and> sz \<le> twoto l"
    by auto
  have rep: "ns = replicate (twoto l) \<lparr>i_val = TNil, i_key = TNil, i_next = None\<rparr>"
    using ns by (simp add: replicate_eqI dummynode_def)
  have nil: "\<not> in_array t0 TNil" for t0 by (simp add: in_array_def arrayindex_def)
  show inv: "table_inv ?t"
    unfolding table_inv_def using assms(2) ns d rep fresh_nodes_inv nil
    by (auto simp: t2 sizenode_def lastfree_ok_def)
  show "sz \<le> room ?t"
    using d rep by (auto simp: t2 room_def nfree_def split: if_splits)
  show "metatable t2 = metatable t" "array t2 = array t" by (simp_all add: t2)
  have "\<not> live (nkey (node ?t) j)" if "j < length (node ?t)" for j using that by (simp add: t2 rep live_def)
  then show "keeps_apart t0 ?t" by (auto simp: keeps_apart_def apart_def dead_apart_def)
  show "tget ?t k = (if in_array ?t k then arr ! nat (arrayindex k - 1) else TNil)" if "proper k" for k
  proof (cases "in_array ?t k")
    case True
    then show ?thesis using tget_array [OF inv True] by simp
  next
    case False
    have "entries (node ?t) = {}" by (auto simp: entries_def t2 rep)
    then show ?thesis using False tget_hash [OF inv that False, of "tget ?t k"] by auto
  qed
qed

lemma tget_raw_fun: "table_inv t \<Longrightarrow> raw_fun (tget t)"
  using tget_cong by (auto simp: raw_fun_def)

lemma tget_node:
  assumes "table_inv t" "old \<in> set (node t)" "i_val old \<noteq> TNil"
  shows "proper (i_key old) \<and> \<not> in_array t (i_key old) \<and> tget t (i_key old) = i_val old"
proof -
  note ti = table_invD [OF assms(1)]
  obtain i where i: "i < length (node t)" "old = node t ! i" using assms(2) by (auto simp: in_set_conv_nth)
  then have p: "proper (i_key old)" "\<not> in_array t (i_key old)"
    using ti(7,9) ti(1) assms(3) by (auto simp: keys_ok_def)
  moreover have "(i_key old, i_val old) \<in> entries (node t)" using i assms(3) by (auto simp: entries_def)
  ultimately show ?thesis using tget_hash [OF assms(1) p assms(3)] proper_refl by blast
qed

lemma tget_index:
  assumes "table_inv t" "j < sizearray t"
  shows "tget t (TNumber (cast_num (int j + 1))) = array t ! j"
proof -
  have "- (2 ^ 31) \<le> int j + 1" "int j + 1 < 2 ^ 31"
    using table_invD(3) [OF assms(1)] assms(2) by (auto simp: MAXASIZE_def MAXBITS_def)
  then show ?thesis
    using tget_array [OF assms(1), of "TNumber (cast_num (int j + 1))"] in_array_cast_num [of "int j + 1" t]
      arrayindex_cast_num [of "int j + 1"] assms(2) by simp
qed

lemma pending_arrayI:
  assumes "in_array t k" "int i < arrayindex k" "array t ! nat (arrayindex k - 1) \<noteq> TNil" "int (sizearray t) \<le> MAXASIZE"
  shows "pending_array i (drop i (array t)) k"
proof -
  let ?j = "nat (arrayindex k) - 1 - i"
  have b: "arrayindex k \<le> int (sizearray t)" "0 < arrayindex k" using assms(1) by (auto simp: in_array_def)
  have e: "int (i + ?j) + 1 = arrayindex k" using assms(2) by linarith
  have "arrayindex (TNumber (cast_num (int (i + ?j) + 1))) = arrayindex k"
    using b assms(4) unfolding e by (intro arrayindex_cast_num) (auto simp: MAXASIZE_def MAXBITS_def)
  then have "gafqO_rawequalObj (TNumber (cast_num (int (i + ?j) + 1))) k" using b(2) by (intro arrayindex_inj) auto
  moreover have "?j < length (drop i (array t))" "i + ?j = nat (arrayindex k - 1)" "i + ?j < sizearray t"
    using b assms(2) by (auto simp: nat_less_iff)
  moreover from this have "drop i (array t) ! ?j \<noteq> TNil" using assms(3) by (metis nth_drop less_imp_le_nat length_drop add_leD1 le_add1 le_trans)
  ultimately show ?thesis unfolding pending_array_def by blast
qed

lemma resize_agrees:
  assumes inv: "table_inv t" and t2: "setnodevector t1 sz = Inr t2"
    and arr: "arr = take nasize (array t) @ replicate (nasize - sizearray t) TNil" "int nasize \<le> MAXASIZE"
  shows "agrees (t2\<lparr>array := arr\<rparr>) (tget t)
    (\<lambda>k. pending_array nasize (drop nasize (array t)) k \<or> pending_nodes (rev (node t)) k)"
  unfolding agrees_def
proof (intro allI impI)
  fix k assume k: "proper k"
  have len: "length arr = nasize" using arr(1) by simp
  note new = setnodevector_inv [OF t2, of arr, unfolded len, OF arr(2)]
  let ?t = "t2\<lparr>array := arr\<rparr>"
  show "tget ?t k = tget t k \<or> pending_array nasize (drop nasize (array t)) k \<or> pending_nodes (rev (node t)) k"
  proof (cases "in_array t k")
    case True
    note old = tget_array [OF inv True]
    show ?thesis
    proof (cases "arrayindex k \<le> int nasize")
      case le: True
      then have "in_array ?t k" using True len by (simp add: in_array_def)
      moreover have "nat (arrayindex k - 1) < sizearray t" "nat (arrayindex k - 1) < nasize"
        using True le by (auto simp: in_array_def)
      ultimately show ?thesis using new(5) [OF k] old by (simp add: arr(1) nth_append)
    next
      case False
      then have "tget ?t k = TNil" using new(5) [OF k] len by (simp add: in_array_def)
      then show ?thesis using old pending_arrayI [OF True, of nasize] False table_invD(3) [OF inv] by fastforce
    qed
  next
    case False
    have "tget ?t k = TNil"
    proof (cases "in_array ?t k")
      case True
      then have "sizearray t \<le> nat (arrayindex k - 1)" "nat (arrayindex k - 1) < nasize"
        using False len by (auto simp: in_array_def)
      then show ?thesis using new(5) [OF k] True by (simp add: arr(1) nth_append)
    qed (use new(5) [OF k] in simp)
    moreover have "pending_nodes (rev (node t)) k" if nn: "tget t k \<noteq> TNil"
    proof -
      obtain i where "holds (node t) k i" "nval (node t) i \<noteq> TNil"
        using tget_hash [OF inv k False nn] nn unfolding entries_holds [OF nn] by auto
      then show ?thesis unfolding pending_nodes_def holds_def set_rev by (intro bexI [of _ "node t ! i"]) auto
    qed
    ultimately show ?thesis by auto
  qed
qed

definition overflow_or :: "'a res \<Rightarrow> ('a \<Rightarrow> bool) \<Rightarrow> bool" where
  "overflow_or r P \<longleftrightarrow> r = Inl (RunError ''table overflow'') \<or> (\<exists>x. r = Inr x \<and> P x)"

lemma overflow_orE:
  assumes "overflow_or r P"
  obtains "r = Inl (RunError ''table overflow'')" | x where "r = Inr x" "P x"
  using assms by (auto simp: overflow_or_def)

lemma overflow_or_simps [simp, res_simps]:
  "overflow_or (Inr x) P \<longleftrightarrow> P x" "overflow_or (Inl e) P \<longleftrightarrow> e = RunError ''table overflow''"
  by (auto simp: overflow_or_def)

lemma overflow_or_bind:
  "overflow_or r P \<Longrightarrow> (\<And>x. P x \<Longrightarrow> overflow_or (f x) Q) \<Longrightarrow> overflow_or (rbind r f) Q"
  by (cases r) auto

definition resized_array :: "Table \<Rightarrow> nat \<Rightarrow> TValue list" where
  "resized_array t nasize = take nasize (array t) @ replicate (nasize - sizearray t) TNil"

lemma resize_with_eq:
  "resize_with gr t nasize nhsize =
     rbind (setnodevector (if sizearray t < nasize then setarrayvector t nasize else t) nhsize) (\<lambda>t2.
       rbind (reinsert_array gr nasize (drop nasize (array t)) (t2\<lparr>array := resized_array t nasize\<rparr>))
         (reinsert_nodes gr (rev (node t))))"
proof -
  let ?t1 = "if sizearray t < nasize then setarrayvector t nasize else t"
  have arr: "array t2 = array ?t1" if "setnodevector ?t1 nhsize = Inr t2" for t2
    using setnodevector_inv(4) [OF that, of "[]"] by (simp add: MAXASIZE_def)
  show ?thesis
  proof (cases "setnodevector ?t1 nhsize")
    case (Inr t2)
    note a = arr [OF Inr]
    show ?thesis
    proof (cases "nasize < sizearray t")
      case True
      then show ?thesis using Inr a by (simp add: resize_with_def resized_array_def)
    next
      case False
      then have "t2\<lparr>array := resized_array t nasize\<rparr> = t2" "drop nasize (array t) = []"
        using a by (auto simp: resized_array_def setarrayvector_def split: if_splits)
      then show ?thesis using Inr False by (simp add: resize_with_def)
    qed
  qed (simp add: resize_with_def Let_def)
qed

lemma setnodevector_overflow: "setnodevector t sz = Inl e \<Longrightarrow> e = RunError ''table overflow''"
  using setnodevector_cases [of t sz] by auto

lemma length_resized [simp]: "length (resized_array t nasize) = nasize"
  by (simp add: resized_array_def)

definition to_hash :: "Table \<Rightarrow> nat \<Rightarrow> nat" where
  "to_hash t nasize =
     length (filter (\<lambda>v. v \<noteq> TNil) (drop nasize (array t))) +
     length (filter (\<lambda>old. i_val old \<noteq> TNil \<and> \<not> (0 < arrayindex (i_key old) \<and> arrayindex (i_key old) \<le> int nasize)) (node t))"

lemma filter_rev_length: "length (filter P (rev xs)) = length (filter P xs)"
  by (simp add: rev_filter [symmetric])

text \<open>
  When the new hash part has a node for each element that goes to it, the re-insertion never grows the
  table again.
\<close>

lemma resize_fits:
  assumes inv: "table_inv t" and sz: "int nasize \<le> MAXASIZE" "to_hash t nasize + e \<le> nhsize"
    and Inr: "setnodevector (if sizearray t < nasize then setarrayvector t nasize else t) nhsize = Inr t2"
  shows "\<exists>t'. resize_with gr t nasize nhsize = Inr t' \<and>
    table_inv t' \<and> same_contents t t' \<and> metatable t' = metatable t \<and> sizearray t' = nasize \<and> e \<le> room t'"
proof -
  let ?arr = "resized_array t nasize" and ?vs = "drop nasize (array t)"
  let ?t3 = "t2\<lparr>array := ?arr\<rparr>"
  let ?P = "\<lambda>old. i_val old \<noteq> TNil \<and> \<not> in_array ?t3 (i_key old)"
  note new = setnodevector_inv [OF Inr, of ?arr, unfolded length_resized, OF sz(1)]
  have mt: "metatable t2 = metatable t" using new(3) by (simp add: setarrayvector_def split: if_splits)
  have budget: "length (filter (\<lambda>v. v \<noteq> TNil) ?vs) + (length (filter ?P (node t)) + e) \<le> room ?t3"
    using new(2) sz(2) by (simp add: to_hash_def in_array_def)
  have "\<exists>t4. reinsert_array gr nasize ?vs ?t3 = Inr t4 \<and> table_inv t4 \<and> agrees t4 (tget t) (pending_nodes (rev (node t))) \<and>
      metatable t4 = metatable ?t3 \<and> sizearray t4 = sizearray ?t3 \<and> length (filter ?P (node t)) + e \<le> room t4 \<and> keeps_apart ?t3 t4"
  proof (rule reinsert_array_room [OF new(1) tget_raw_fun [OF inv] _ _ budget])
    show "agrees ?t3 (tget t) (\<lambda>k. pending_array nasize ?vs k \<or> pending_nodes (rev (node t)) k)"
      by (rule resize_agrees [OF inv Inr resized_array_def sz(1)])
    show "tget t (TNumber (cast_num (int (nasize + j) + 1))) = ?vs ! j" if "j < length ?vs" for j
      using tget_index [OF inv, of "nasize + j"] that by (simp add: add.assoc)
    show "int (nasize + length ?vs) \<le> MAXASIZE" using sz(1) table_invD(3) [OF inv] by simp
  qed
  then obtain t4 where t4: "reinsert_array gr nasize ?vs ?t3 = Inr t4" "table_inv t4" "agrees t4 (tget t) (pending_nodes (rev (node t)))"
    "metatable t4 = metatable ?t3" "sizearray t4 = sizearray ?t3" "length (filter ?P (node t)) + e \<le> room t4" "keeps_apart ?t3 t4" by blast
  have "\<exists>t'. reinsert_nodes gr (rev (node t)) t4 = Inr t' \<and> table_inv t' \<and> agrees t' (tget t) (\<lambda>_. False) \<and>
      metatable t' = metatable t4 \<and> sizearray t' = sizearray t4 \<and> e \<le> room t' \<and> keeps_apart t4 t'"
    by (rule reinsert_nodes_room [OF t4(2) tget_raw_fun [OF inv] t4(3)])
      (use t4(6) tget_node [OF inv] in \<open>auto simp: in_array_sizearray [OF t4(5)] filter_rev_length\<close>)
  then obtain t' where t': "reinsert_nodes gr (rev (node t)) t4 = Inr t'" "table_inv t'" "agrees t' (tget t) (\<lambda>_. False)"
    "metatable t' = metatable t4" "sizearray t' = sizearray t4" "e \<le> room t'" "keeps_apart t4 t'" by blast
  have "keeps_apart t t'" by (rule keeps_apart_trans [OF keeps_apart_trans [OF new(6) t4(7)] t'(7)])
  then show ?thesis using Inr t4(1,4,5) t' mt by (auto simp: resize_with_eq agrees_def same_contents_def)
qed

lemma resize_room:
  assumes inv: "table_inv t" and sz: "int nasize \<le> MAXASIZE" "to_hash t nasize + e \<le> nhsize"
  shows "overflow_or (resize_with gr t nasize nhsize) (\<lambda>t'.
    table_inv t' \<and> same_contents t t' \<and> metatable t' = metatable t \<and> sizearray t' = nasize \<and> e \<le> room t')"
proof (cases "setnodevector (if sizearray t < nasize then setarrayvector t nasize else t) nhsize")
  case (Inl err)
  then show ?thesis using setnodevector_overflow [OF Inl] by (simp add: resize_with_eq)
next
  case (Inr t2)
  then show ?thesis using resize_fits [OF inv sz Inr, of gr] by (auto simp: overflow_or_def)
qed

text \<open>The overflow is an overflow: a hash part of at most \<open>2 ^ MAXBITS\<close> nodes is always made.\<close>

lemma setnodevector_total: "sz \<le> 2 ^ MAXBITS \<Longrightarrow> \<exists>t2. setnodevector t sz = Inr t2"
  using ceillog2_le_iff [of sz MAXBITS]
  by (cases "sz = 0") (auto simp: setnodevector_def Let_def zless_nat_eq_int_zless)

lemma resize_no_overflow:
  assumes "table_inv t" "int nasize \<le> MAXASIZE" "to_hash t nasize + e \<le> nhsize" "nhsize \<le> 2 ^ MAXBITS"
  shows "is_ok (resize_with gr t nasize nhsize)"
  using setnodevector_total [OF assms(4)] resize_fits [OF assms(1-3)] by (metis is_ok_def)

subsection \<open>The interface to the growing step\<close>

lemma lastfree_irrelevant [simp]:
  "gafqH_get (t\<lparr>lastfree := x\<rparr>) k = gafqH_get t k" "tget (t\<lparr>lastfree := x\<rparr>) k = tget t k"
proof -
  have mp: "mainposition (t\<lparr>lastfree := x\<rparr>) = mainposition t" by (rule mainposition_lsizenode) simp
  show g: "gafqH_get (t\<lparr>lastfree := x\<rparr>) k = gafqH_get t k"
    by (cases k) (auto simp: gafqH_get_def get_generic_def gafqH_getstr_def gafqH_getnum_def search_chain_def chain_def
      hashnum_def hashpow2_def hashmod_def sizenode_def mp Let_def)
  have "slotval (t\<lparr>lastfree := x\<rparr>) s = slotval t s" for s by (cases s) auto
  then show "tget (t\<lparr>lastfree := x\<rparr>) k = tget t k" by (simp add: tget_def g slotoptval_def split: option.split)
qed

text \<open>
  What \<open>newkey\<close> relies on when it calls \<open>rehash\<close> and sets the key again: the key gets a place, the
  contents stay, or the table has overflowed.  Under this contract every function that sets keys or
  resizes keeps the contents.
\<close>

locale growing =
  fixes gr :: "Table \<Rightarrow> TValue \<Rightarrow> (Table \<times> slot) res"
  assumes grows: "table_inv t \<Longrightarrow> proper k \<Longrightarrow> gafqH_get t k = None \<Longrightarrow>
    overflow_or (gr t k) (\<lambda>(t', s). stored t k t' s)"
begin

lemma set_with_stored:
  assumes "table_inv t" "proper k"
  shows "overflow_or (gafqH_set_with gr t k) (\<lambda>(t', s). stored t k t' s)"
proof -
  consider t' s where "gafqH_set_with gr t k = Inr (t', s)" "stored_in_place t k t' s"
    | t1 l where "gafqH_set_with gr t k = gr t1 k" "table_inv t1" "t1 = t\<lparr>flags := 0, lastfree := l\<rparr>" "gafqH_get t k = None"
    using set_with_cases [OF assms, of gr] by auto
  then show ?thesis
  proof cases
    case 2
    have "stored t1 k t' s = stored t k t' s" for t' s by (simp add: stored_def same_contents_def 2(3))
    then show ?thesis using grows [OF 2(2) assms(2)] 2 by simp
  qed (simp add: stored_in_place_def)
qed

lemma setnum_with_stored:
  assumes "table_inv t" "- (2 ^ 31) \<le> i" "i < 2 ^ 31"
  shows "overflow_or (gafqH_setnum_with gr t i) (\<lambda>(t', s). stored t (TNumber (cast_num i)) t' s)"
proof -
  let ?k = "TNumber (cast_num i)"
  have pk: "proper ?k" by (rule proper_num) (use assms in simp)
  consider t' s where "gafqH_setnum_with gr t i = Inr (t', s)" "stored_in_place t ?k t' s"
    | t1 l where "gafqH_setnum_with gr t i = gr t1 ?k" "table_inv t1" "t1 = t\<lparr>lastfree := l\<rparr>" "gafqH_get t ?k = None"
    using setnum_with_cases [OF assms, of gr] by auto
  then show ?thesis
  proof cases
    case 2
    have "stored t1 ?k t' s = stored t ?k t' s" for t' s by (simp add: stored_def same_contents_def 2(3))
    then show ?thesis using grows [OF 2(2) pk] 2 by simp
  qed (simp add: stored_in_place_def)
qed

lemma setstr_with_stored:
  assumes "table_inv t"
  shows "overflow_or (gafqH_setstr_with gr t x) (\<lambda>(t', s). stored t (TString x) t' s)"
proof (cases "gafqH_get t (TString x)")
  case None
  then consider t' s where "gafqH_setstr_with gr t x = Inr (t', s)" "stored_in_place t (TString x) t' s"
    | t1 l where "gafqH_setstr_with gr t x = gr t1 (TString x)" "table_inv t1" "t1 = t\<lparr>lastfree := l\<rparr>"
    using newkey_stored [OF assms proper_string None, of gr] by (auto simp: setstr_with_eq [OF assms])
  then show ?thesis
  proof cases
    case 2
    have "stored t1 (TString x) t' s = stored t (TString x) t' s" for t' s
      by (simp add: stored_def same_contents_def 2(3))
    then show ?thesis using grows [OF 2(2) proper_string, of x] 2 None by simp
  qed (simp add: stored_in_place_def)
next
  case (Some s)
  with stored_refl [OF assms Some, of "flags t"] show ?thesis
    by (simp add: setstr_with_eq [OF assms] stored_in_place_def)
qed

lemma reinsert_nodes_grows:
  assumes "table_inv t" "raw_fun F" "agrees t F (pending_nodes olds)"
    and "\<And>old. old \<in> set olds \<Longrightarrow> i_val old \<noteq> TNil \<Longrightarrow> proper (i_key old) \<and> F (i_key old) = i_val old"
  shows "overflow_or (reinsert_nodes gr olds t) (\<lambda>t'. table_inv t' \<and> agrees t' F (\<lambda>_. False) \<and> metatable t' = metatable t \<and> keeps_apart t t')"
  using assms
proof (induction olds arbitrary: t)
  case Nil
  then show ?case by (auto simp: agrees_def)
next
  case (Cons old olds)
  show ?case
  proof (cases "i_val old = TNil")
    case True
    then have "agrees t F (pending_nodes olds)" using Cons.prems(3) by (simp add: agrees_def pending_nodes_Cons)
    with Cons True show ?thesis by simp
  next
    case False
    have k: "proper (i_key old)" "F (i_key old) = i_val old" using Cons.prems(4) [of old] False by auto
    have "overflow_or (reinsert_nodes gr olds (setslot t' s (i_val old)))
        (\<lambda>t'. table_inv t' \<and> agrees t' F (\<lambda>_. False) \<and> metatable t' = metatable t \<and> keeps_apart t t')"
      if st: "stored t (i_key old) t' s" for t' s
    proof -
      note step = store_step [OF st k(1), of "i_val old"]
      have "agrees (setslot t' s (i_val old)) F (pending_nodes olds)"
        by (rule agrees_store [OF Cons.prems(3) st k Cons.prems(2)]) (auto simp: pending_nodes_Cons)
      from Cons.IH [OF step(1) Cons.prems(2) this] Cons.prems(4) step(3) keeps_apart_trans [OF step(6)] show ?thesis
        by (auto simp: overflow_or_def)
    qed
    then show ?thesis using False
      by (auto intro!: overflow_or_bind [OF set_with_stored [OF Cons.prems(1) k(1)]])
  qed
qed

lemma resize_grows:
  assumes inv: "table_inv t" and sz: "int nasize \<le> MAXASIZE" "sizearray t \<le> nasize"
  shows "overflow_or (resize_with gr t nasize nhsize) (\<lambda>t'. table_inv t' \<and> same_contents t t' \<and> metatable t' = metatable t)"
proof (cases "setnodevector (if sizearray t < nasize then setarrayvector t nasize else t) nhsize")
  case (Inl err)
  then show ?thesis using setnodevector_overflow [OF Inl] by (simp add: resize_with_eq)
next
  case (Inr t2)
  let ?t3 = "t2\<lparr>array := resized_array t nasize\<rparr>"
  note new = setnodevector_inv [OF Inr, of "resized_array t nasize", unfolded length_resized, OF sz(1)]
  have mt: "metatable ?t3 = metatable t" using new(3) by (simp add: setarrayvector_def split: if_splits)
  have "agrees ?t3 (tget t) (\<lambda>k. pending_array nasize (drop nasize (array t)) k \<or> pending_nodes (rev (node t)) k)"
    by (rule resize_agrees [OF inv Inr resized_array_def sz(1)])
  then have "agrees ?t3 (tget t) (pending_nodes (rev (node t)))" using sz(2) by simp
  then have "overflow_or (reinsert_nodes gr (rev (node t)) ?t3) (\<lambda>t'. table_inv t' \<and> agrees t' (tget t) (\<lambda>_. False) \<and>
      metatable t' = metatable t \<and> keeps_apart ?t3 t')"
    using reinsert_nodes_grows [OF new(1) tget_raw_fun [OF inv], of "rev (node t)"] tget_node [OF inv] mt by simp
  then show ?thesis using Inr sz(2) keeps_apart_trans [OF new(6)] by (auto simp: resize_with_eq agrees_def same_contents_def overflow_or_def)
qed

end

subsection \<open>Counting integer keys\<close>

text \<open>The number of indices of a list in \<open>1 .. n\<close>, and the counts per slice that \<open>nums\<close> holds.\<close>

definition cnt :: "int list \<Rightarrow> nat \<Rightarrow> nat" where
  "cnt ks n = length (filter (\<lambda>k. 0 < k \<and> k \<le> int n) ks)"

definition in_slice :: "nat \<Rightarrow> int \<Rightarrow> bool" where
  "in_slice j k \<longleftrightarrow> 0 < k \<and> k \<le> MAXASIZE \<and> nat (ceillog2 (nat k)) = j"

definition hist :: "int list \<Rightarrow> nat list" where
  "hist ks = map (\<lambda>j. length (filter (in_slice j) ks)) [0..<MAXBITS + 1]"

definition below :: "int list \<Rightarrow> nat \<Rightarrow> nat" where
  "below ks i = length (filter (\<lambda>k. \<exists>j < i. in_slice j k) ks)"

lemma slice_le: "in_slice j k \<Longrightarrow> j \<le> MAXBITS"
  using ceillog2_le_iff [of "nat k" MAXBITS] by (auto simp: in_slice_def MAXASIZE_def nat_le_iff)

lemma slice_below: "i \<le> MAXBITS \<Longrightarrow> (\<exists>j < Suc i. in_slice j k) \<longleftrightarrow> 0 < k \<and> k \<le> int (2 ^ i)"
proof -
  assume i: "i \<le> MAXBITS"
  then have "(2::int) ^ i \<le> MAXASIZE" by (simp add: MAXASIZE_def)
  moreover have "nat (ceillog2 (nat k)) \<le> i \<longleftrightarrow> k \<le> int (2 ^ i)" if "0 < k"
    using ceillog2_le_iff [of "nat k" i] that by (simp add: nat_le_iff)
  ultimately show ?thesis by (auto simp: in_slice_def less_Suc_eq_le)
qed

lemma below_Suc: "i \<le> MAXBITS \<Longrightarrow> below ks (Suc i) = cnt ks (2 ^ i)"
  by (simp add: below_def cnt_def slice_below)

lemma below_0 [simp]: "below ks 0 = 0"
  by (simp add: below_def)

lemma length_filter_disj:
  "(\<And>x. \<not> (P x \<and> Q x)) \<Longrightarrow> length (filter (\<lambda>x. P x \<or> Q x) xs) = length (filter P xs) + length (filter Q xs)"
  by (induction xs) auto

lemma length_hist [simp]: "length (hist ks) = Suc MAXBITS"
  by (simp add: hist_def)

lemma hist_nth: "j \<le> MAXBITS \<Longrightarrow> hist ks ! j = length (filter (in_slice j) ks)"
  by (simp add: hist_def del: upt_Suc)

lemma below_step: "i \<le> MAXBITS \<Longrightarrow> below ks (Suc i) = below ks i + hist ks ! i"
proof -
  assume "i \<le> MAXBITS"
  moreover have "(\<lambda>k. \<exists>j < Suc i. in_slice j k) = (\<lambda>k. (\<exists>j < i. in_slice j k) \<or> in_slice i k)"
    by (auto simp: less_Suc_eq)
  moreover have "\<not> ((\<exists>j < i. in_slice j k) \<and> in_slice i k)" for k by (auto simp: in_slice_def)
  ultimately show ?thesis by (simp add: below_def hist_nth length_filter_disj)
qed

lemma hist_Nil: "hist [] = replicate (MAXBITS + 1) 0"
  by (rule nth_equalityI) (simp_all add: hist_nth del: replicate_Suc)

lemma hist_Cons:
  "hist (k # ks) = (if 0 < k \<and> k \<le> MAXASIZE
     then (hist ks)[nat (ceillog2 (nat k)) := hist ks ! nat (ceillog2 (nat k)) + 1] else hist ks)"
proof (rule nth_equalityI)
  fix j assume "j < length (hist (k # ks))"
  then have j: "j \<le> MAXBITS" by simp
  show "hist (k # ks) ! j = (if 0 < k \<and> k \<le> MAXASIZE
     then (hist ks)[nat (ceillog2 (nat k)) := hist ks ! nat (ceillog2 (nat k)) + 1] else hist ks) ! j"
    using slice_le [of "nat (ceillog2 (nat k))" k] j
    by (auto simp: hist_nth nth_list_update in_slice_def)
qed simp

lemma countint_hist:
  "countint key (hist ks) =
     (hist (arrayindex key # ks), if 0 < arrayindex key \<and> arrayindex key \<le> MAXASIZE then 1 else 0)"
  by (simp add: countint_def Let_def hist_Cons)

definition node_idx :: "Node list \<Rightarrow> int list" where
  "node_idx ns = map (\<lambda>nd. arrayindex (i_key nd)) (filter (\<lambda>nd. i_val nd \<noteq> TNil) ns)"

lemma cnt_append: "cnt (xs @ ys) n = cnt xs n + cnt ys n"
  by (simp add: cnt_def)

lemma cnt_Cons: "cnt (k # ks) n = (if 0 < k \<and> k \<le> int n then 1 else 0) + cnt ks n"
  by (simp add: cnt_def)

lemma MAXASIZE_nat: "int (2 ^ MAXBITS) = MAXASIZE"
  by (simp add: MAXASIZE_def)

lemma numusehash_loop_hist:
  "numusehash_loop ns (hist ks) ause tot =
     (hist (rev (node_idx ns) @ ks), ause + cnt (node_idx ns) (2 ^ MAXBITS), tot + length (node_idx ns))"
  by (induction ns arbitrary: ks ause tot)
    (auto simp: node_idx_def countint_hist cnt_Cons MAXASIZE_def cnt_def)

lemma hist_perm: "mset xs = mset ys \<Longrightarrow> hist xs = hist ys"
proof -
  assume "mset xs = mset ys"
  then have "length (filter P xs) = length (filter P ys)" for P
    by (metis mset_filter size_mset)
  then show ?thesis by (simp add: hist_def)
qed

subsection \<open>The array part\<close>

definition array_idx :: "nat \<Rightarrow> TValue list \<Rightarrow> int list" where
  "array_idx n vs = map (\<lambda>j. int j + 1) (filter (\<lambda>j. vs ! j \<noteq> TNil) [0..<n])"

lemma array_idx_split: "m \<le> n \<Longrightarrow> array_idx n vs = array_idx m vs @ map (\<lambda>j. int j + 1) (filter (\<lambda>j. vs ! j \<noteq> TNil) [m..<n])"
  using upt_add_eq_append [of 0 m "n - m"] by (simp add: array_idx_def)

lemma filter_segment: "m \<le> n \<Longrightarrow> n \<le> length vs \<Longrightarrow>
  length (filter (\<lambda>v. v \<noteq> TNil) (take (n - m) (drop m vs))) = length (filter (\<lambda>j. vs ! j \<noteq> TNil) [m..<n])"
proof -
  assume "m \<le> n" "n \<le> length vs"
  then have "take (n - m) (drop m vs) = map ((!) vs) [m..<n]"
    by (intro nth_equalityI) auto
  then show ?thesis by (simp add: filter_map o_def)
qed

lemma hist_append: "j \<le> MAXBITS \<Longrightarrow> hist (xs @ ys) ! j = hist xs ! j + hist ys ! j"
  by (simp add: hist_nth)

lemma hist_slice:
  assumes "\<And>k. k \<in> set ys \<Longrightarrow> in_slice lg k" "lg \<le> MAXBITS"
  shows "hist (xs @ ys) = (hist xs)[lg := hist xs ! lg + length ys]"
proof (rule nth_equalityI)
  fix j assume "j < length (hist (xs @ ys))"
  then have j: "j \<le> MAXBITS" by simp
  have "filter (in_slice j) ys = (if j = lg then ys else [])"
    using assms(1) by (auto simp: in_slice_def filter_id_conv filter_empty_conv)
  then show "hist (xs @ ys) ! j = (hist xs)[lg := hist xs ! lg + length ys] ! j"
    using j assms(2) by (auto simp: hist_nth nth_list_update)
qed simp

lemma slice_interval:
  assumes "lg \<le> MAXBITS" "(if lg = 0 then 0 else 2 ^ (lg - 1)) \<le> j" "j < 2 ^ lg"
  shows "in_slice lg (int j + 1)"
proof -
  have "\<exists>l < Suc lg. in_slice l (int j + 1)" 
  proof -
    have "int j + 1 \<le> int (2 ^ lg)" using assms(3) by linarith
    then show ?thesis using slice_below [OF assms(1)] by simp
  qed
  moreover have "\<not> (\<exists>l < lg. in_slice l (int j + 1))"
  proof (cases lg)
    case (Suc l)
    then have "2 ^ l \<le> j" using assms(2) by simp
    then have "\<not> int j + 1 \<le> int (2 ^ l)" by linarith
    then show ?thesis using slice_below [of l "int j + 1"] Suc assms(1) by simp
  qed simp
  ultimately show ?thesis by (auto simp: less_Suc_eq)
qed

definition counted :: "nat \<Rightarrow> TValue list \<Rightarrow> nat" where
  "counted lg vs = min (length vs) (if lg = 0 then 0 else 2 ^ (lg - 1))"

lemma numusearray_loop_hist:
  assumes "lg + slices = Suc MAXBITS" "length vs \<le> 2 ^ MAXBITS"
  shows "numusearray_loop slices vs lg (2 ^ lg) (Suc (counted lg vs)) (hist (array_idx (counted lg vs) vs))
      (length (array_idx (counted lg vs) vs)) =
    (hist (array_idx (length vs) vs), length (array_idx (length vs) vs))"
  using assms
proof (induction slices arbitrary: lg)
  case 0
  then have "counted lg vs = length vs" by (simp add: counted_def)
  then show ?case by simp
next
  case (Suc slices)
  let ?c = "counted lg vs" and ?lim = "if length vs < 2 ^ lg then length vs else 2 ^ lg"
  have lg: "lg \<le> MAXBITS" using Suc.prems by simp
  have p: "lg \<noteq> 0 \<Longrightarrow> (2::nat) ^ lg = 2 * 2 ^ (lg - 1)" by (metis power_eq_if)
  show ?case
  proof (cases "length vs < 2 ^ lg \<and> ?lim < Suc ?c")
    case True
    then have "?c = length vs" by (auto simp: counted_def min_def split: if_splits)
    then show ?thesis using True by (simp add: Let_def)
  next
    case False
    have c: "counted (Suc lg) vs = ?lim" by (simp add: counted_def)
    have le: "?c \<le> ?lim" "?lim \<le> length vs" using p by (auto simp: counted_def)
    let ?new = "map (\<lambda>j. int j + 1) (filter (\<lambda>j. vs ! j \<noteq> TNil) [?c..<?lim])"
    have "in_slice lg k" if "k \<in> set ?new" for k
    proof -
      from that obtain j where j: "k = int j + 1" "?c \<le> j" "j < ?lim" by auto
      then have "(if lg = 0 then 0 else 2 ^ (lg - 1)) \<le> j" using le(2) by (auto simp: counted_def min_def split: if_splits)
      then show ?thesis using slice_interval [OF lg] j by (auto split: if_splits)
    qed
    then have h: "hist (array_idx ?lim vs) = (hist (array_idx ?c vs))[lg := hist (array_idx ?c vs) ! lg + length ?new]"
      unfolding array_idx_split [OF le(1)] by (rule hist_slice [OF _ lg])
    have "Suc ?lim - Suc ?c = ?lim - ?c" by simp
    then have "length (filter (\<lambda>v. \<not> ttisnil v) (take (?lim + 1 - Suc ?c) (drop (Suc ?c - 1) vs))) = length ?new"
      using filter_segment [OF le] by simp
    moreover have "length (array_idx ?lim vs) = length (array_idx ?c vs) + length ?new"
      by (simp only: array_idx_split [OF le(1)] length_append)
    moreover have "max (Suc ?c) (?lim + 1) = Suc ?lim" using le(1) by (simp add: max_def)
    moreover have "(2::nat) ^ lg * 2 = 2 ^ Suc lg" by simp
    ultimately show ?thesis
      using Suc.IH [of "Suc lg"] Suc.prems h c False by (simp only: numusearray_loop.simps Let_def if_False) simp
  qed
qed

lemma numusearray_hist:
  assumes "table_inv t"
  shows "numusearray t (replicate (MAXBITS + 1) 0) =
    (hist (array_idx (sizearray t) (array t)), length (array_idx (sizearray t) (array t)))"
proof -
  have "sizearray t \<le> 2 ^ MAXBITS" using table_invD(3) [OF assms] by (simp add: MAXASIZE_def)
  from numusearray_loop_hist [of 0 "Suc MAXBITS" "array t", OF _ this]
  show ?thesis by (simp add: numusearray_def counted_def array_idx_def hist_Nil)
qed

subsection \<open>The size of the array part\<close>

definition pow2_size :: "nat \<Rightarrow> bool" where
  "pow2_size n \<longleftrightarrow> n = 0 \<or> (\<exists>p \<le> MAXBITS. n = 2 ^ p)"

definition half_used :: "int list \<Rightarrow> nat \<Rightarrow> bool" where
  "half_used ks n \<longleftrightarrow> n < 2 * cnt ks n"

text \<open>
  What the loop of \<open>computesizes\<close> has found when it comes to slice \<open>i\<close>: the size \<open>n\<close> is a power of two
  below \<open>2 ^ i\<close> (or 0) with \<open>na\<close> keys.
\<close>

lemma computesizes_loop_count:
  assumes "nums = drop i (hist ks)" "na = cnt ks n" "pow2_size n"
    and "computesizes_loop nums (2 ^ i) narray (below ks i) na n = (n', na')"
  shows "na' = cnt ks n' \<and> pow2_size n'"
  using assms
proof (induction nums arbitrary: i na n)
  case Nil
  then show ?case by auto
next
  case (Cons x nums)
  have i: "i \<le> MAXBITS" using Cons.prems(1) by (metis drop_all length_hist list.distinct(1) not_less_eq_eq)
  then have x: "hist ks ! i = x" and rest: "nums = drop (Suc i) (hist ks)"
    using Cons.prems(1) Cons_nth_drop_Suc [of i "hist ks"] by (metis length_hist less_Suc_eq_le list.inject)+
  have step: "(if 0 < x then below ks i + x else below ks i) = below ks (Suc i)" using below_step [OF i] x by simp
  show ?case
  proof (cases "2 ^ i div 2 < narray")
    case True
    let ?better = "0 < x \<and> 2 ^ i div 2 < below ks (Suc i)"
    let ?n = "if ?better then 2 ^ i else n" and ?na = "if ?better then below ks (Suc i) else na"
    have inv: "?na = cnt ks ?n" "pow2_size ?n"
      using Cons.prems(2,3) below_Suc [OF i] i by (auto simp: pow2_size_def)
    show ?thesis
    proof (cases "below ks (Suc i) = narray")
      case eq: True
      then have "n' = ?n \<and> na' = ?na" using Cons.prems(4) True by (simp only: computesizes_loop.simps step Let_def) auto
      then show ?thesis using inv by simp
    next
      case False
      then have "computesizes_loop nums (2 ^ Suc i) narray (below ks (Suc i)) ?na ?n = (n', na')"
        using Cons.prems(4) True by (simp only: computesizes_loop.simps step Let_def) (simp add: mult.commute)
      then show ?thesis using Cons.IH [OF rest inv] by simp
    qed
  next
    case False
    then show ?thesis using Cons.prems(2-4) by auto
  qed
qed

lemma computesizes_count:
  assumes "computesizes (hist ks) narray = (n, na)"
  shows "na = cnt ks n" "pow2_size n"
  using computesizes_loop_count [of "hist ks" 0 ks 0 0 narray n na] assms
  by (auto simp: computesizes_def cnt_def pow2_size_def)

lemma pow2_size_le: "pow2_size n \<Longrightarrow> int n \<le> MAXASIZE"
  by (auto simp: pow2_size_def MAXASIZE_def intro: power_increasing)

subsection \<open>Rehashing\<close>

definition table_idx :: "Table \<Rightarrow> int list" where
  "table_idx t = array_idx (sizearray t) (array t) @ node_idx (node t)"

lemma cnt_array_idx: "cnt (array_idx (length vs) vs) n + length (filter (\<lambda>v. v \<noteq> TNil) (drop n vs)) = length (array_idx (length vs) vs)"
proof -
  have "length (filter (\<lambda>v. v \<noteq> TNil) (drop n vs)) = length (filter (\<lambda>j. vs ! j \<noteq> TNil) [min n (length vs)..<length vs])"
    using filter_segment [of "min n (length vs)" "length vs" vs] by (cases "n \<le> length vs") (auto simp: min_def)
  moreover have "cnt (array_idx (length vs) vs) n = length (filter (\<lambda>j. vs ! j \<noteq> TNil) [0..<min n (length vs)])"
  proof -
    have "cnt (array_idx (length vs) vs) n = length (filter (\<lambda>j. vs ! j \<noteq> TNil \<and> j < n) [0..<length vs])"
      by (auto simp: cnt_def array_idx_def filter_map o_def intro!: arg_cong [where f = length] filter_cong)
    also have "filter (\<lambda>j. vs ! j \<noteq> TNil \<and> j < n) [0..<length vs] = filter (\<lambda>j. vs ! j \<noteq> TNil) [0..<min n (length vs)]"
    proof -
      have "[0..<length vs] = [0..<min n (length vs)] @ [min n (length vs)..<length vs]"
        using upt_add_eq_append [of 0 "min n (length vs)" "length vs - min n (length vs)"] by simp
      moreover have "filter (\<lambda>j. vs ! j \<noteq> TNil \<and> j < n) [min n (length vs)..<length vs] = []"
        by (auto simp: filter_empty_conv)
      moreover have "filter (\<lambda>j. vs ! j \<noteq> TNil \<and> j < n) [0..<min n (length vs)] = filter (\<lambda>j. vs ! j \<noteq> TNil) [0..<min n (length vs)]"
        by (auto intro: filter_cong)
      ultimately show ?thesis by simp
    qed
    finally show ?thesis .
  qed
  moreover have "length (array_idx (length vs) vs) = length (filter (\<lambda>j. vs ! j \<noteq> TNil) [0..<min n (length vs)]) +
      length (filter (\<lambda>j. vs ! j \<noteq> TNil) [min n (length vs)..<length vs])"
    using array_idx_split [of "min n (length vs)" "length vs" vs] by (simp add: array_idx_def)
  ultimately show ?thesis by simp
qed

lemma cnt_node_idx: "cnt (node_idx ns) n +
    length (filter (\<lambda>old. i_val old \<noteq> TNil \<and> \<not> (0 < arrayindex (i_key old) \<and> arrayindex (i_key old) \<le> int n)) ns) = length (node_idx ns)"
  by (induction ns) (auto simp: cnt_def node_idx_def)

lemma to_hash_count: "cnt (table_idx t) n + to_hash t n = length (table_idx t)"
  using cnt_array_idx [of "array t" n] cnt_node_idx [of "node t" n]
  by (simp add: table_idx_def cnt_append to_hash_def)

lemma rehash_with_eq:
  assumes "table_inv t"
  obtains n narray where "computesizes (hist (arrayindex k # table_idx t)) narray = (n, cnt (arrayindex k # table_idx t) n)"
    and "narray = cnt (arrayindex k # table_idx t) (2 ^ MAXBITS)" and "pow2_size n"
    and "rehash_with gr t k = resize_with gr t n (Suc (length (table_idx t)) - cnt (arrayindex k # table_idx t) n)"
proof -
  let ?A = "array_idx (sizearray t) (array t)" and ?N = "node_idx (node t)" and ?ks = "arrayindex k # table_idx t"
  have rv: "node_idx (rev ns) = rev (node_idx ns)" for ns by (simp add: node_idx_def rev_map rev_filter)
  have all: "cnt ?A (2 ^ MAXBITS) = length ?A"
    using cnt_array_idx [of "array t" "2 ^ MAXBITS"] table_invD(3) [OF assms] by (simp add: MAXASIZE_def)
  have h: "hist (?N @ ?A) = hist (table_idx t)" by (rule hist_perm) (simp add: table_idx_def)
  have c: "cnt (rev xs) m = cnt xs m" for xs m by (simp add: cnt_def filter_rev_length)
  define narray where "narray = cnt ?ks (2 ^ MAXBITS)"
  obtain n na where cs: "computesizes (hist ?ks) narray = (n, na)" by fastforce
  have nu: "numusehash t (hist ?A) (length ?A) = (hist (table_idx t), cnt (table_idx t) (2 ^ MAXBITS), length ?N)"
    using h by (simp add: numusehash_def numusehash_loop_hist rv c table_idx_def cnt_append all)
  have "cnt (table_idx t) (2 ^ MAXBITS) + (if 0 < arrayindex k \<and> arrayindex k \<le> MAXASIZE then 1 else 0) = narray"
    by (simp add: narray_def cnt_Cons MAXASIZE_def)
  then have "rehash_with gr t k = resize_with gr t n (Suc (length (table_idx t)) - na)"
    using cs unfolding rehash_with_def numusearray_hist [OF assms] by (simp add: nu countint_hist table_idx_def)
  then show ?thesis using that [of narray n] cs computesizes_count [OF cs] narray_def by simp
qed

lemma rehash_room:
  assumes inv: "table_inv t"
  shows "overflow_or (rehash_with gr t k) (\<lambda>t'. table_inv t' \<and> same_contents t t' \<and> metatable t' = metatable t \<and>
    (in_array t' k \<or> 0 < room t'))"
proof -
  from rehash_with_eq [OF inv, of k gr] obtain n where n: "pow2_size n"
    "rehash_with gr t k = resize_with gr t n (Suc (length (table_idx t)) - cnt (arrayindex k # table_idx t) n)" by metis
  let ?e = "if 0 < arrayindex k \<and> arrayindex k \<le> int n then 0 else (1::nat)"
  have "to_hash t n + ?e \<le> Suc (length (table_idx t)) - cnt (arrayindex k # table_idx t) n"
    using to_hash_count [of t n] by (auto simp: cnt_Cons)
  from resize_room [OF inv pow2_size_le [OF n(1)] this, of gr]
  show ?thesis unfolding n(2) by (auto simp: overflow_or_def in_array_def split: if_splits)
qed

lemma rehash_no_overflow:
  assumes inv: "table_inv t" and few: "length (table_idx t) < 2 ^ MAXBITS"
  shows "is_ok (rehash_with gr t k)"
proof -
  from rehash_with_eq [OF inv, of k gr] obtain n where n: "pow2_size n"
    "rehash_with gr t k = resize_with gr t n (Suc (length (table_idx t)) - cnt (arrayindex k # table_idx t) n)" by metis
  have "to_hash t n + 0 \<le> Suc (length (table_idx t)) - cnt (arrayindex k # table_idx t) n"
    using to_hash_count [of t n] by (auto simp: cnt_Cons)
  from resize_no_overflow [OF inv pow2_size_le [OF n(1)] this, of gr] few show ?thesis unfolding n(2) by simp
qed

text \<open>One level of growing is enough, whatever the growing step inside it is.\<close>

lemma grow_stored:
  assumes "table_inv t" "proper k"
  shows "overflow_or (grow (Suc d) t k) (\<lambda>(t', s). stored t k t' s)"
proof -
  have "overflow_or (gafqH_set_with (grow d) t' k) (\<lambda>(t', s). stored t k t' s)"
    if t': "table_inv t'" "same_contents t t'" "metatable t' = metatable t" "in_array t' k \<or> 0 < room t'" for t'
  proof -
    obtain t2 s where ts: "gafqH_set_with (grow d) t' k = Inr (t2, s)" "stored_in_place t' k t2 s"
      using set_with_room [OF t'(1) assms(2) t'(4)] by blast
    then have "stored t k t2 s" using t'(2,3) by (auto simp: stored_in_place_def stored_def same_contents_def intro: keeps_apart_trans)
    then show ?thesis using ts(1) by simp
  qed
  then have "overflow_or (rbind (rehash_with (grow d) t k) (\<lambda>t'. gafqH_set_with (grow d) t' k)) (\<lambda>(t', s). stored t k t' s)"
    by (intro overflow_or_bind [OF rehash_room [OF assms(1)]]) blast
  then show ?thesis by simp
qed

interpretation gr: growing "grow (Suc d)" for d
  by unfold_locales (rule grow_stored)

subsection \<open>What the functions of the table promise\<close>

lemma gafqH_new_inv:
  assumes "int narray \<le> MAXASIZE"
  shows "overflow_or (gafqH_new narray nhash) (\<lambda>t. table_inv t \<and> metatable t = None \<and> sizearray t = narray \<and>
    (\<forall>k. proper k \<longrightarrow> tget t k = TNil))"
proof (cases "gafqH_new narray nhash")
  case (Inl e)
  then show ?thesis using setnodevector_overflow by (simp add: gafqH_new_def)
next
  case (Inr t)
  let ?arr = "replicate narray TNil"
  note new = setnodevector_inv [OF Inr [unfolded gafqH_new_def], of ?arr]
  have t: "t\<lparr>array := ?arr\<rparr> = t" using new(4) assms by (simp add: setarrayvector_def)
  have "tget t k = TNil" if "proper k" for k
  proof -
    have "nat (arrayindex k - 1) < narray" if "in_array t k"
      using that arg_cong [OF t, of "\<lambda>x. length (array x)"] by (auto simp: in_array_def nat_less_iff)
    then show ?thesis using new(5) [OF _ that] assms t by auto
  qed
  then show ?thesis using new(1,3) [unfolded t] assms Inr arg_cong [OF t, of "\<lambda>x. length (array x)"]
    by (auto simp: setarrayvector_def)
qed

text \<open>
  The contract of a function that returns the place of a key: it overflows, or it gives a sound table of
  the same contents and metatable and the place of the key there, through which a store changes the value of
  that key and of no other.
\<close>

definition set_contract :: "Table \<Rightarrow> TValue \<Rightarrow> (Table \<times> slot) res \<Rightarrow> bool" where
  "set_contract t k r \<longleftrightarrow> r = Inl (RunError ''table overflow'') \<or>
    (\<exists>t' s. r = Inr (t', s) \<and> table_inv t' \<and> gafqH_get t' k = Some s \<and> metatable t' = metatable t \<and>
      (\<forall>k'. proper k' \<longrightarrow> tget t' k' = tget t k') \<and>
      (\<forall>v. table_inv (setslot t' s v) \<and> metatable (setslot t' s v) = metatable t \<and>
        (\<forall>k'. proper k' \<longrightarrow> tget (setslot t' s v) k' = (if gafqO_rawequalObj k k' then v else tget t k'))))"

lemma set_contractI:
  assumes "overflow_or r (\<lambda>(t', s). stored t k t' s)" "proper k"
  shows "set_contract t k r"
proof -
  consider "r = Inl (RunError ''table overflow'')" | t' s where "r = Inr (t', s)" "stored t k t' s"
    using assms(1) by (auto simp: overflow_or_def)
  then show ?thesis
  proof cases
    case 2
    note st = store_step [OF 2(2) assms(2)]
    show ?thesis unfolding set_contract_def
    proof (intro disjI2 exI conjI allI impI)
      show "r = Inr (t', s)" by (rule 2(1))
      show "table_inv t'" "gafqH_get t' k = Some s" "metatable t' = metatable t"
        using 2(2) by (simp_all add: stored_def)
      show "tget t' k' = tget t k'" if "proper k'" for k' using 2(2) that by (simp add: stored_def same_contents_def)
      show "table_inv (setslot t' s v)" "metatable (setslot t' s v) = metatable t" for v by (fact st(1) st(3))+
      show "tget (setslot t' s v) k' = (if gafqO_rawequalObj k k' then v else tget t k')" if "proper k'" for v k'
        by (rule st(2) [OF that])
    qed
  qed (simp add: set_contract_def)
qed

text \<open>
  C3. Setting a key: \<open>gafqH_set\<close> on a sound table and a key that is neither nil nor NaN either raises
  \<open>table overflow\<close> or returns the place of the key in a sound table of the same contents and
  metatable; a value written through that place is then the value of the key, and of no other key.
  The bound on the depth of growing is never reached.
\<close>

theorem gafqH_set_store:
  assumes "table_inv t" "proper k"
  shows "set_contract t k (gafqH_set t k)"
  using set_contractI [OF gr.set_with_stored [OF assms, of 0] assms(2)]
  by (simp add: gafqH_set_def)

theorem gafqH_set_store_witness:
  "\<exists>t. gafqH_new 0 0 = Inr t \<and>
    (gafqH_set t (TString ''x'') = Inl (RunError ''table overflow'') \<or>
     (\<exists>t' s. gafqH_set t (TString ''x'') = Inr (t', s) \<and> gafqH_get t' (TString ''x'') = Some s \<and>
        tget (setslot t' s (TBoolean True)) (TString ''x'') = TBoolean True))"
proof -
  obtain t where t: "gafqH_new 0 0 = Inr t" "table_inv t"
    using gafqH_new_inv [of 0 0] by (auto simp: gafqH_new_def setnodevector_def MAXASIZE_def)
  from gafqH_set_store [OF t(2) proper_string, of "''x''"] show ?thesis
    using t(1) proper_string [of "''x''"] by (auto simp: set_contract_def)
qed

text \<open>
  C6. Setting a key succeeds on every sound table with fewer than \<open>2 ^ 26\<close> elements: the only
  failure of \<open>gafqH_set\<close> for such a key is the overflow of the hash part.
\<close>

theorem gafqH_set_total:
  assumes "table_inv t" "proper k" "length (table_idx t) < 2 ^ MAXBITS"
  shows "\<exists>t' s. gafqH_set t k = Inr (t', s)"
proof -
  consider t' s where "gafqH_set_with (grow 1) t k = Inr (t', s)"
    | t1 l where "gafqH_set_with (grow 1) t k = grow 1 t1 k" "table_inv t1" "t1 = t\<lparr>flags := 0, lastfree := l\<rparr>"
    using set_with_cases [OF assms(1,2), of "grow 1"] by auto
  then show ?thesis
  proof cases
    case 2
    then have "length (table_idx t1) < 2 ^ MAXBITS" using assms(3) by (simp add: table_idx_def)
    then obtain t' where t': "rehash_with (grow 0) t1 k = Inr t'"
      using rehash_no_overflow [OF 2(2), of "grow 0" k] by (auto simp: is_ok_def)
    then have "table_inv t'" "in_array t' k \<or> 0 < room t'"
      using rehash_room [OF 2(2), of "grow 0" k] by auto
    then obtain t2 s where "gafqH_set_with (grow 0) t' k = Inr (t2, s)"
      using set_with_room [OF _ assms(2)] by blast
    then show ?thesis using t' 2(1) by (simp add: gafqH_set_def)
  qed (simp add: gafqH_set_def)
qed

theorem gafqH_set_total_witness:
  "\<exists>t t' s. gafqH_new 0 0 = Inr t \<and> gafqH_set t (TString ''x'') = Inr (t', s)"
proof -
  obtain t where t: "gafqH_new 0 0 = Inr t" "table_inv t"
    using gafqH_new_inv [of 0 0] by (auto simp: gafqH_new_def setnodevector_def MAXASIZE_def)
  moreover from this(1) have "table_idx t = []"
    by (auto simp: gafqH_new_def setnodevector_def setarrayvector_def table_idx_def array_idx_def node_idx_def dummynode_def)
  ultimately show ?thesis using gafqH_set_total [OF t(2) proper_string, of "''x''"] by auto
qed

text \<open>
  The keys a table refuses: setting nil or NaN raises the error the code names and returns no
  slot.
\<close>

lemma gafqH_set_errors:
  assumes "table_inv t" "isnan_val k"
  shows "gafqH_set t TNil = Inl (RunError ''table index is nil'') \<and>
    gafqH_set t k = Inl (RunError ''table index is NaN'') \<and> tget t k = TNil"
proof -
  from assms(2) obtain x where k: "k = TNumber x" "gafqi_numisnan x" by (cases k) (auto simp: isnan_val_def)
  have "gafqH_get t k = None"
    using get_nan [OF assms] .
  then show ?thesis using k tget_nan [OF assms]
    by (simp add: gafqH_set_def gafqH_set_with_def Let_def gafqH_get_def [of t TNil])
qed

text \<open>
  \<open>gafqH_setnum\<close> and \<open>gafqH_setstr\<close> meet the contract of \<open>gafqH_set\<close> for the number and
  the string they are called with, for every \<open>int\<close> and every string.
\<close>

lemma gafqH_setnum_setstr_store:
  assumes "table_inv t" "- (2 ^ 31) \<le> i" "i < 2 ^ 31"
  shows "set_contract t (TNumber (cast_num i)) (gafqH_setnum t i) \<and> set_contract t (TString x) (gafqH_setstr t x)"
  using set_contractI [OF gr.setnum_with_stored [OF assms, of 0] proper_num] assms(2,3)
    set_contractI [OF gr.setstr_with_stored [OF assms(1), of 0 x] proper_string]
  by (simp add: gafqH_setnum_def gafqH_setstr_def)



subsection \<open>The size chosen is the best one\<close>

definition distinct_pos :: "int list \<Rightarrow> bool" where
  "distinct_pos ks \<longleftrightarrow> distinct (filter (\<lambda>k. 0 < k) ks)"

lemma cnt_le:
  assumes "distinct_pos ks"
  shows "cnt ks n \<le> n"
proof -
  have f: "filter (\<lambda>k. 0 < k \<and> k \<le> int n) ks = filter (\<lambda>k. k \<le> int n) (filter (\<lambda>k. 0 < k) ks)"
    by (simp add: conj_commute)
  have "distinct (filter (\<lambda>k. 0 < k \<and> k \<le> int n) ks)" using assms unfolding f distinct_pos_def by (rule distinct_filter)
  then have "cnt ks n = card (set (filter (\<lambda>k. 0 < k \<and> k \<le> int n) ks))" 
    unfolding cnt_def by (metis distinct_card)
  also have "\<dots> \<le> card {1..int n}" by (rule card_mono) auto
  finally show ?thesis by simp
qed

lemma cnt_mono: "m \<le> n \<Longrightarrow> cnt ks m \<le> cnt ks n"
  by (induction ks) (auto simp: cnt_def)

lemma half_used_bound: "half_used ks (2 ^ p) \<Longrightarrow> cnt ks (2 ^ p) \<le> c \<Longrightarrow> 2 * c \<le> 2 ^ i \<Longrightarrow> p < i"
proof (rule ccontr)
  assume a: "half_used ks (2 ^ p)" "cnt ks (2 ^ p) \<le> c" "2 * c \<le> 2 ^ i" "\<not> p < i"
  then have "(2::nat) ^ i \<le> 2 ^ p" by (intro power_increasing) auto
  with a show False by (simp add: half_used_def)
qed

lemma below_cnt_le: "distinct_pos ks \<Longrightarrow> i \<le> MAXBITS \<Longrightarrow> 2 * below ks i \<le> 2 ^ i"
  using below_Suc [of "i - 1" ks] cnt_le [of ks "2 ^ (i - 1)"] by (cases i) auto

text \<open>The size found so far is the best of the sizes below \<open>2 ^ i\<close>.\<close>

definition best_below :: "int list \<Rightarrow> nat \<Rightarrow> nat \<Rightarrow> bool" where
  "best_below ks i n \<longleftrightarrow> (n = 0 \<or> half_used ks n) \<and> (\<forall>p. p < i \<and> p \<le> MAXBITS \<and> half_used ks (2 ^ p) \<longrightarrow> 2 ^ p \<le> n) \<and> n < 2 ^ i"

lemma best_below_step:
  assumes "distinct_pos ks" "i \<le> MAXBITS" "best_below ks i n"
  shows "best_below ks (Suc i) (if 0 < hist ks ! i \<and> 2 ^ i div 2 < below ks (Suc i) then 2 ^ i else n)"
proof -
  have b: "below ks (Suc i) = below ks i + hist ks ! i" "below ks (Suc i) = cnt ks (2 ^ i)" "2 * below ks i \<le> 2 ^ i"
    using below_step [OF assms(2)] below_Suc [OF assms(2)] below_cnt_le [OF assms(1,2)] by auto
  have even: "(2::nat) ^ i div 2 < c \<longleftrightarrow> 2 ^ i < 2 * c" for c by (cases i) auto
  have better: "half_used ks (2 ^ i) \<longleftrightarrow> 0 < hist ks ! i \<and> 2 ^ i div 2 < below ks (Suc i)"
    using b by (auto simp: half_used_def even)
  have "2 ^ p \<le> (2::nat) ^ i" if "p < Suc i" for p using that by (intro power_increasing) auto
  then show ?thesis using assms(3) unfolding better [symmetric] best_below_def
    by (auto simp: less_Suc_eq intro: less_trans [of n "2 ^ i" "2 * 2 ^ i"])
qed

lemma best_below_all:
  assumes "best_below ks i n" "\<And>p. half_used ks (2 ^ p) \<Longrightarrow> p \<le> MAXBITS \<Longrightarrow> p < i"
  shows "(n = 0 \<or> half_used ks n) \<and> (\<forall>p \<le> MAXBITS. half_used ks (2 ^ p) \<longrightarrow> 2 ^ p \<le> n)"
  using assms by (auto simp: best_below_def)

lemma computesizes_loop_best:
  assumes "distinct_pos ks" "narray = cnt ks (2 ^ MAXBITS)" "nums = drop i (hist ks)" "best_below ks i n"
    and "computesizes_loop nums (2 ^ i) narray (below ks i) na n = (n', na')"
  shows "(n' = 0 \<or> half_used ks n') \<and> (\<forall>p \<le> MAXBITS. half_used ks (2 ^ p) \<longrightarrow> 2 ^ p \<le> n')"
  using assms(3-5)
proof (induction nums arbitrary: i na n)
  case Nil
  then have "Suc MAXBITS \<le> i" by simp
  moreover have "n' = n" using Nil by simp
  ultimately show ?case using best_below_all [OF Nil(2)] by simp
next
  case (Cons x nums)
  have i: "i \<le> MAXBITS" using Cons.prems(1) by (metis drop_all length_hist list.distinct(1) not_less_eq_eq)
  then have x: "hist ks ! i = x" and rest: "nums = drop (Suc i) (hist ks)"
    using Cons.prems(1) Cons_nth_drop_Suc [of i "hist ks"] by (metis length_hist less_Suc_eq_le list.inject)+
  have step: "(if 0 < x then below ks i + x else below ks i) = below ks (Suc i)" using below_step [OF i] x by simp
  have all: "cnt ks (2 ^ p) \<le> narray" if "p \<le> MAXBITS" for p
    unfolding assms(2) using that by (intro cnt_mono power_increasing) auto
  show ?case
  proof (cases "2 ^ i div 2 < narray")
    case True
    let ?n = "if 0 < x \<and> 2 ^ i div 2 < below ks (Suc i) then 2 ^ i else n"
    have inv: "best_below ks (Suc i) ?n" using best_below_step [OF assms(1) i Cons.prems(2)] x by simp
    show ?thesis
    proof (cases "below ks (Suc i) = narray")
      case eq: True
      then have "n' = ?n" using Cons.prems(3) True by (simp only: computesizes_loop.simps step Let_def) auto
      moreover have le: "2 * narray \<le> 2 ^ Suc i"
        using eq below_Suc [OF i, of ks] cnt_le [OF assms(1), of "2 ^ i"] by simp
      moreover have "p < Suc i" if "half_used ks (2 ^ p)" "p \<le> MAXBITS" for p
        using half_used_bound [OF that(1) all [OF that(2)] le] .
      ultimately show ?thesis using best_below_all [OF inv] by simp
    next
      case False
      then have "\<exists>na. computesizes_loop nums (2 ^ Suc i) narray (below ks (Suc i)) na ?n = (n', na')"
        using Cons.prems(3) True by (simp only: computesizes_loop.simps step Let_def) (auto simp: mult.commute)
      then show ?thesis using Cons.IH [OF rest inv] by blast
    qed
  next
    case False
    then have "n' = n" "2 * narray \<le> 2 ^ i" using Cons.prems(3) by (cases i; auto)+
    moreover from this(2) have "p < i" if "half_used ks (2 ^ p)" "p \<le> MAXBITS" for p
      using half_used_bound [OF that(1) all [OF that(2)]] by blast
    ultimately show ?thesis using best_below_all [OF Cons.prems(2)] by simp
  qed
qed

lemma distinct_map_filter:
  assumes "\<And>i j. i < length xs \<Longrightarrow> j < length xs \<Longrightarrow> P (xs ! i) \<Longrightarrow> P (xs ! j) \<Longrightarrow> f (xs ! i) = f (xs ! j) \<Longrightarrow> i = j"
  shows "distinct (map f (filter P xs))"
  using assms
proof (induction xs)
  case (Cons x xs)
  have "distinct (map f (filter P xs))"
    by (rule Cons.IH) (use Cons.prems [of "Suc _" "Suc _"] in auto)
  moreover have "f x \<noteq> f y" if "y \<in> set xs" "P x" "P y" for y
  proof -
    from that(1) obtain j where "j < length xs" "y = xs ! j" by (auto simp: in_set_conv_nth)
    then show ?thesis using Cons.prems [of 0 "Suc j"] that by auto
  qed
  ultimately show ?case by auto
qed simp

lemma table_idx_distinct:
  assumes "table_inv t" "proper k" "gafqH_get t k = None"
  shows "distinct_pos (arrayindex k # table_idx t)"
proof -
  note ti = table_invD [OF assms(1)]
  have abs: "\<not> in_array t k" "absent_key (node t) k"
    using assms(3) get_eq [OF assms(1) live_not_nil [OF proper_live [OF assms(2)]]] get_hash_None [OF assms(1,2)]
    by (auto split: if_splits)
  have arr: "distinct (array_idx (sizearray t) (array t))" "\<forall>i \<in> set (array_idx (sizearray t) (array t)). 0 < i \<and> i \<le> int (sizearray t)"
    by (auto simp: array_idx_def distinct_map inj_on_def)
  have nodes: "nd \<in> set (node t) \<Longrightarrow> i_val nd \<noteq> TNil \<Longrightarrow> proper (i_key nd) \<and> \<not> in_array t (i_key nd)" for nd
    using tget_node [OF assms(1)] by blast
  have "distinct (map (\<lambda>nd. arrayindex (i_key nd)) (filter (\<lambda>nd. i_val nd \<noteq> TNil \<and> 0 < arrayindex (i_key nd)) (node t)))"
    using ti(7) arrayindex_inj by (intro distinct_map_filter) (auto simp: keys_ok_def)
  moreover have "filter (\<lambda>k. 0 < k) (node_idx (node t)) =
      map (\<lambda>nd. arrayindex (i_key nd)) (filter (\<lambda>nd. i_val nd \<noteq> TNil \<and> 0 < arrayindex (i_key nd)) (node t))"
    by (simp add: node_idx_def filter_map o_def conj_commute)
  ultimately have nd: "distinct (filter (\<lambda>k. 0 < k) (node_idx (node t)))" by simp
  have out: "int (sizearray t) < i" if "i \<in> set (node_idx (node t))" "0 < i" for i
    using that nodes by (fastforce simp: node_idx_def in_array_def)
  have "arrayindex k \<notin> set (array_idx (sizearray t) (array t))" using arr(2) abs(1) by (auto simp: in_array_def)
  moreover have "arrayindex k \<notin> set (node_idx (node t))" if "0 < arrayindex k"
    using arrayindex_inj [OF _ refl that] absent_keyD [OF abs(2)]
    by (fastforce simp: node_idx_def in_set_conv_nth)
  ultimately show ?thesis using arr nd out
    by (fastforce simp: distinct_pos_def table_idx_def distinct_filter)
qed

text \<open>
  C22. The sizes a rehash chooses: the new array part is a power of two (or empty) more than half of
  whose indices are in use, counting the key to insert, and it is the largest such size; the new hash
  part has exactly one node for every other element.
\<close>

theorem rehash_sizes_optimal:
  assumes "table_inv t" "proper k" "gafqH_get t k = None"
  shows "\<exists>n. rehash_with gr t k = resize_with gr t n (Suc (length (table_idx t)) - cnt (arrayindex k # table_idx t) n) \<and>
    pow2_size n \<and> (n = 0 \<or> half_used (arrayindex k # table_idx t) n) \<and>
    (\<forall>p \<le> MAXBITS. half_used (arrayindex k # table_idx t) (2 ^ p) \<longrightarrow> 2 ^ p \<le> n)"
proof -
  let ?ks = "arrayindex k # table_idx t"
  from rehash_with_eq [OF assms(1), of k gr] obtain n where n: "pow2_size n"
    "computesizes (hist ?ks) (cnt ?ks (2 ^ MAXBITS)) = (n, cnt ?ks n)"
    "rehash_with gr t k = resize_with gr t n (Suc (length (table_idx t)) - cnt ?ks n)" by metis
  have "best_below ?ks 0 0" by (simp add: best_below_def)
  from computesizes_loop_best [OF table_idx_distinct [OF assms] refl _ this, of "hist ?ks" 0 n] n(2)
  show ?thesis using n(1,3) by (auto simp: computesizes_def)
qed

theorem rehash_sizes_optimal_witness:
  "\<exists>t n. gafqH_new 0 0 = Inr t \<and> pow2_size n \<and>
     rehash_with (grow 0) t (TString ''x'') = resize_with (grow 0) t n (Suc 0 - cnt [-1] n)"
proof -
  obtain t where t: "gafqH_new 0 0 = Inr t" "table_inv t"
    using gafqH_new_inv [of 0 0] by (auto simp: gafqH_new_def setnodevector_def MAXASIZE_def)
  have ti: "table_idx t = []" using t(1)
    by (auto simp: gafqH_new_def setnodevector_def setarrayvector_def table_idx_def array_idx_def node_idx_def dummynode_def)
  have "gafqH_get t (TString ''x'') = None" using t(1)
    by (auto simp: gafqH_new_def setnodevector_def setarrayvector_def gafqH_get_def gafqH_getstr_def
        search_chain_def chain_def dummynode_def hashpow2_def lmod_def twoto_def sizenode_def)
  from rehash_sizes_optimal [OF t(2) proper_string this, of "grow 0"] t(1) show ?thesis
    by (auto simp: ti arrayindex_def)
qed

end
