(* ===== verification/Table_Iter.thy ===== *)
theory Table_Iter
  imports Table_Rehash
begin

text \<open>
  Traversal of a table by \<open>gafqH_next\<close> and the length of a sequence by \<open>gafqH_getn\<close>: the traversal
  visits every element once, and the binary searches end at a border.
\<close>

subsection \<open>Traversal\<close>

text \<open>
  The pairs of a table in the order of its slots, and the loop \<open>for k, v in next, t\<close> over \<open>gafqH_next\<close>.
\<close>

definition slot_pair :: "Table \<Rightarrow> nat \<Rightarrow> TValue \<times> TValue" where
  "slot_pair t i =
     (if i < sizearray t then (TNumber (cast_num (int i + 1)), array t ! i)
      else (nkey (node t) (i - sizearray t), nval (node t) (i - sizearray t)))"

definition nslots :: "Table \<Rightarrow> nat" where
  "nslots t = sizearray t + length (node t)"

definition pairs_from :: "Table \<Rightarrow> nat \<Rightarrow> (TValue \<times> TValue) list" where
  "pairs_from t i = filter (\<lambda>(k, v). v \<noteq> TNil) (map (slot_pair t) [i..<nslots t])"

primrec traverse :: "(TValue \<Rightarrow> TValue \<Rightarrow> bool) \<Rightarrow> nat \<Rightarrow> Table \<Rightarrow> TValue \<Rightarrow> (TValue \<times> TValue) list res" where
  "traverse same 0 t k = Inl OutOfFuel"
| "traverse same (Suc f) t k =
     rbind (gafqH_next same t k) (\<lambda>r. case r of
         None \<Rightarrow> Inr []
       | Some (k', v) \<Rightarrow> rbind (traverse same f t k') (\<lambda>kvs. Inr ((k', v) # kvs)))"

definition head_opt :: "'a list \<Rightarrow> 'a option" where
  "head_opt xs = (case xs of [] \<Rightarrow> None | x # _ \<Rightarrow> Some x)"

lemma head_opt_append: "head_opt (xs @ ys) = (case head_opt xs of None \<Rightarrow> head_opt ys | Some x \<Rightarrow> Some x)"
  by (cases xs) (auto simp: head_opt_def)

lemma next_array_head:
  "next_array i vs = head_opt (filter (\<lambda>(k, v). v \<noteq> TNil) (map (\<lambda>j. (TNumber (cast_num (int (i + j) + 1)), vs ! j)) [0..<length vs]))"
proof (induction vs arbitrary: i)
  case (Cons v vs)
  have u: "[0..<Suc (length vs)] = 0 # map Suc [0..<length vs]" by (simp add: map_Suc_upt upt_conv_Cons del: upt_Suc)
  show ?case using Cons.IH [of "Suc i"]
    by (simp only: next_array.simps list.size u add_0_right add_Suc_right) (simp add: head_opt_def o_def)
qed (simp add: head_opt_def)

lemma next_node_head:
  "next_node ns = head_opt (filter (\<lambda>(k, v). v \<noteq> TNil) (map (\<lambda>nd. (i_key nd, i_val nd)) ns))"
  by (induction ns) (auto simp: head_opt_def)

lemma next_from:
  assumes "findindex same t k = Inr (int i - 1)"
  shows "gafqH_next same t k = Inr (head_opt (pairs_from t i))"
proof -
  let ?s = "sizearray t" and ?P = "\<lambda>(k, v). v \<noteq> TNil"
  have arr: "next_array i (drop i (array t)) = head_opt (filter ?P (map (slot_pair t) [i..<?s]))"
  proof -
    have "map (slot_pair t) [i..<?s] = map (\<lambda>j. (TNumber (cast_num (int (i + j) + 1)), drop i (array t) ! j)) [0..<length (drop i (array t))]"
      by (rule nth_equalityI) (auto simp: slot_pair_def)
    then show ?thesis unfolding next_array_head by (rule arg_cong [where f = "\<lambda>xs. head_opt (filter ?P xs)", OF sym])
  qed
  have nod: "next_node (drop (max i ?s - ?s) (node t)) = head_opt (filter ?P (map (slot_pair t) [max i ?s..<nslots t]))"
  proof -
    have "map (slot_pair t) [max i ?s..<nslots t] = map (\<lambda>nd. (i_key nd, i_val nd)) (drop (max i ?s - ?s) (node t))"
      by (rule nth_equalityI) (auto simp: slot_pair_def nslots_def)
    then show ?thesis by (simp add: next_node_head)
  qed
  have "[i..<nslots t] = [i..<?s] @ [max i ?s..<nslots t]"
  proof (cases "i \<le> ?s")
    case True
    then show ?thesis using upt_add_eq_append [of i ?s "length (node t)"] by (simp add: nslots_def max_absorb2)
  qed simp
  then have "head_opt (pairs_from t i) = (case head_opt (filter ?P (map (slot_pair t) [i..<?s])) of
      None \<Rightarrow> head_opt (filter ?P (map (slot_pair t) [max i ?s..<nslots t])) | Some x \<Rightarrow> Some x)"
    by (simp add: pairs_from_def head_opt_append)
  then show ?thesis using assms by (simp add: gafqH_next_def arr nod split: option.split)
qed

lemma chain_from_order: "p < q \<Longrightarrow> q < length (chain_from f ns i) \<Longrightarrow> i < length ns \<Longrightarrow> chains_ok ns \<Longrightarrow>
  (chain_from f ns i ! p, chain_from f ns i ! q) \<in> (links ns)\<^sup>+"
proof (induction f arbitrary: i p q)
  case (Suc f)
  obtain j where j: "nnext ns i = Some j" using Suc.prems(1,2) by (cases "nnext ns i") auto
  then have l: "(i, j) \<in> links ns" using Suc.prems(3) by (simp add: links_def)
  have jl: "j < length ns" using chains_okD(2) [OF Suc.prems(4) l] .
  obtain q' where q': "q = Suc q'" "q' < length (chain_from f ns j)" using Suc.prems(1,2) j by (cases q) auto
  have reach: "(j, chain_from f ns j ! q') \<in> (links ns)\<^sup>*" using chain_from_reach [OF nth_mem [OF q'(2)] jl Suc.prems(4)] by blast
  show ?case
  proof (cases p)
    case 0
    then show ?thesis using rtrancl_into_trancl2 [OF l reach] q' j by simp
  next
    case (Suc p')
    then show ?thesis using Suc.IH [of p' q' j] Suc.prems(1,4) q' j jl by simp
  qed
qed simp

lemma find_before:
  assumes "find P xs = Some x" "\<And>p q. p < q \<Longrightarrow> q < length xs \<Longrightarrow> xs ! q = x \<Longrightarrow> \<not> Q (xs ! p)"
  shows "find (\<lambda>y. P y \<or> Q y) xs = Some x"
proof -
  obtain q where q: "q < length xs" "P (xs ! q)" "x = xs ! q" "\<forall>p<q. \<not> P (xs ! p)" using assms(1) by (auto simp: find_Some_iff)
  then show ?thesis using assms(2) [of _ q] by (auto simp: find_Some_iff)
qed

lemma findindex_slot:
  assumes "table_inv t" "apart same t" "i < nslots t" "snd (slot_pair t i) \<noteq> TNil"
  shows "findindex same t (fst (slot_pair t i)) = Inr (int i)"
proof (cases "i < sizearray t")
  case True
  then have "- (2 ^ 31) \<le> int i + 1" "int i + 1 < 2 ^ 31"
    using table_invD(3) [OF assms(1)] by (auto simp: MAXASIZE_def MAXBITS_def)
  then show ?thesis using True arrayindex_cast_num [of "int i + 1"] by (simp add: findindex_def slot_pair_def)
next
  case False
  let ?j = "i - sizearray t" and ?s = "sizearray t"
  let ?k = "nkey (node t) ?j"
  have j: "?j < length (node t)" "nval (node t) ?j \<noteq> TNil" using False assms(3,4) by (auto simp: nslots_def slot_pair_def)
  have k: "proper ?k" "\<not> in_array t ?k" using tget_node [OF assms(1), of "node t ! ?j"] j by auto
  have "get_hash t ?k = Some ?j" using get_hash_Some [OF assms(1) k(1)] j(1) proper_refl [OF k(1)] by (simp add: holds_def)
  then have "find (\<lambda>x. gafqO_rawequalObj (nkey (node t) x) ?k \<or> (case nkey (node t) x of TDeadKey d \<Rightarrow> iscollectable ?k \<and> same d ?k | _ \<Rightarrow> False))
      (chain t (mainposition t ?k)) = Some ?j"
    unfolding get_hash_def search_chain_def
  proof (rule find_before)
    fix p q assume pq: "p < q" "q < length (chain t (mainposition t ?k))" "chain t (mainposition t ?k) ! q = ?j"
    let ?x = "chain t (mainposition t ?k) ! p"
    note ti = table_invD [OF assms(1)]
    have m: "mainposition t ?k < length (node t)" using ti(1) by simp
    have x: "(?x, ?j) \<in> (links (node t))\<^sup>+" using chain_from_order [OF pq(1) pq(2) [unfolded chain_def] m ti(6)] pq(3) by (simp add: chain_def)
    have "(mainposition t ?k, ?x) \<in> (links (node t))\<^sup>*"
      using chain_from_reach [of ?x "length (node t)" "node t" "mainposition t ?k"] pq(1,2) m ti(6) by (auto simp: chain_def)
    then have "\<not> same d ?k" if "nkey (node t) ?x = TDeadKey d" for d
      using assms(2) x that j(1) proper_live [OF k(1)] unfolding apart_def dead_apart_def by blast
    then show "\<not> (case nkey (node t) ?x of TDeadKey d \<Rightarrow> iscollectable ?k \<and> same d ?k | _ \<Rightarrow> False)" by (auto split: TValue.splits)
  qed
  then show ?thesis using False k live_not_nil [OF proper_live [OF k(1)]]
    by (auto simp: findindex_def search_chain_def slot_pair_def in_array_def Let_def)
qed

lemma pairs_from_Cons:
  assumes "pairs_from t i = (k, v) # rest"
  obtains i' where "i \<le> i'" "i' < nslots t" "slot_pair t i' = (k, v)" "v \<noteq> TNil" "rest = pairs_from t (Suc i')"
proof -
  from assms obtain us vs where u: "map (slot_pair t) [i..<nslots t] = us @ (k, v) # vs"
    "\<forall>u \<in> set us. \<not> (case u of (k, v) \<Rightarrow> v \<noteq> TNil)" "v \<noteq> TNil" "rest = filter (\<lambda>(k, v). v \<noteq> TNil) vs"
    unfolding pairs_from_def filter_eq_Cons_iff by auto
  let ?i = "i + length us"
  have len: "length us < nslots t - i" using arg_cong [OF u(1), of length] by simp
  then have "slot_pair t ?i = (k, v)"
    using arg_cong [OF u(1), of "\<lambda>xs. xs ! length us"] by (simp add: nth_append)
  moreover have "vs = map (slot_pair t) [Suc ?i..<nslots t]"
    using arg_cong [OF u(1), of "drop (Suc (length us))"] by (simp add: drop_map)
  ultimately show ?thesis using that [of ?i] u len by (simp add: pairs_from_def)
qed

lemma traverse_from:
  assumes "table_inv t" "apart same t" "findindex same t k = Inr (int i - 1)" "nslots t - i < f"
  shows "traverse same f t k = Inr (pairs_from t i)"
  using assms(3,4)
proof (induction f arbitrary: k i)
  case (Suc f)
  show ?case
  proof (cases "pairs_from t i")
    case Nil
    then show ?thesis using next_from [OF Suc.prems(1)] by (simp add: head_opt_def)
  next
    case (Cons kv rest)
    obtain k' v where kv: "kv = (k', v)" by fastforce
    with Cons obtain i' where i': "i \<le> i'" "i' < nslots t" "slot_pair t i' = (k', v)" "v \<noteq> TNil" "rest = pairs_from t (Suc i')"
      using pairs_from_Cons by blast
    then have "findindex same t k' = Inr (int (Suc i') - 1)" using findindex_slot [OF assms(1,2) i'(2)] by simp
    from Suc.IH [OF this] i' Suc.prems(2) have "traverse same f t k' = Inr rest" by simp
    then show ?thesis using next_from [OF Suc.prems(1)] Cons kv by (simp add: head_opt_def)
  qed
qed simp

lemma slot_pair_tget:
  assumes "table_inv t" "i < nslots t" "snd (slot_pair t i) \<noteq> TNil"
  shows "proper (fst (slot_pair t i)) \<and> tget t (fst (slot_pair t i)) = snd (slot_pair t i)"
proof (cases "i < sizearray t")
  case True
  then have "proper (TNumber (cast_num (int i + 1)))"
    using table_invD(3) [OF assms(1)] by (intro proper_num) (auto simp: MAXASIZE_def MAXBITS_def)
  then show ?thesis using True tget_index [OF assms(1) True] by (simp add: slot_pair_def)
next
  case False
  then show ?thesis using tget_node [OF assms(1), of "node t ! (i - sizearray t)"] assms(2,3)
    by (simp add: slot_pair_def nslots_def)
qed

lemma pairs_sound: "table_inv t \<Longrightarrow> (k, v) \<in> set (pairs_from t i) \<Longrightarrow> proper k \<and> v \<noteq> TNil \<and> tget t k = v"
proof -
  assume inv: "table_inv t" and kv: "(k, v) \<in> set (pairs_from t i)"
  then obtain j where "j < nslots t" "slot_pair t j = (k, v)" "v \<noteq> TNil" by (auto simp: pairs_from_def)
  then show ?thesis using slot_pair_tget [OF inv, of j] by simp
qed

lemma pairs_complete:
  assumes "table_inv t" "proper k" "tget t k \<noteq> TNil"
  shows "\<exists>k'. (k', tget t k) \<in> set (pairs_from t 0) \<and> gafqO_rawequalObj k' k"
proof -
  have in_pairs: "slot_pair t i \<in> set (pairs_from t 0)" if "i < nslots t" "snd (slot_pair t i) \<noteq> TNil" for i
    using that by (force simp: pairs_from_def)
  show ?thesis
  proof (cases "in_array t k")
    case True
    let ?i = "nat (arrayindex k - 1)"
    have i: "?i < sizearray t" "int ?i + 1 = arrayindex k" "arrayindex k < 2 ^ 31"
      using True arrayindex_range [of k] by (auto simp: in_array_def)
    then have "gafqO_rawequalObj (TNumber (cast_num (int ?i + 1))) k"
      using True arrayindex_cast_num [of "arrayindex k"] by (intro arrayindex_inj) (auto simp: in_array_def)
    moreover have "slot_pair t ?i = (TNumber (cast_num (int ?i + 1)), tget t k)"
      using i tget_array [OF assms(1) True] by (simp add: slot_pair_def)
    moreover have "?i < nslots t" using i(1) by (simp add: nslots_def)
    ultimately show ?thesis using in_pairs [of ?i] assms(3) by (intro exI [of _ "TNumber (cast_num (int ?i + 1))"]) simp
  next
    case False
    obtain j where j: "holds (node t) k j" "nval (node t) j = tget t k"
      using tget_hash [OF assms(1,2) False assms(3)] unfolding entries_holds [OF assms(3)] by auto
    then have "slot_pair t (sizearray t + j) = (nkey (node t) j, tget t k)" "sizearray t + j < nslots t"
      by (auto simp: slot_pair_def nslots_def holds_def)
    then show ?thesis using in_pairs [of "sizearray t + j"] j assms(3) by (auto simp: holds_def)
  qed
qed

lemma pairs_distinct:
  assumes "table_inv t" "apart same t"
  shows "distinct (map fst (pairs_from t 0))"
proof -
  have "distinct (map (\<lambda>i. fst (slot_pair t i)) (filter (\<lambda>i. snd (slot_pair t i) \<noteq> TNil) [0..<nslots t]))"
  proof (rule distinct_map_filter)
    fix i j assume a: "i < length [0..<nslots t]" "j < length [0..<nslots t]"
      "snd (slot_pair t ([0..<nslots t] ! i)) \<noteq> TNil" "snd (slot_pair t ([0..<nslots t] ! j)) \<noteq> TNil"
      "fst (slot_pair t ([0..<nslots t] ! i)) = fst (slot_pair t ([0..<nslots t] ! j))"
    have ij: "i < nslots t" "j < nslots t" using a(1,2) by simp_all
    then have u: "[0..<nslots t] ! i = i" "[0..<nslots t] ! j = j" by simp_all
    have "Inr (int i) = (Inr (int j) :: int res)"
      using findindex_slot [OF assms ij(1)] findindex_slot [OF assms ij(2)] a(3-5) unfolding u by metis
    then show "i = j" by simp
  qed
  moreover have "map fst (pairs_from t 0) = map (\<lambda>i. fst (slot_pair t i)) (filter (\<lambda>i. snd (slot_pair t i) \<noteq> TNil) [0..<nslots t])"
    by (simp add: pairs_from_def filter_map o_def case_prod_beta)
  ultimately show ?thesis by simp
qed

subsection \<open>Retired keys\<close>

text \<open>
  What the traversal relies on holds of a new table, it is kept by every store and it is kept when the collector retires the key of an empty
  entry, whose object has not the address of another live key of the table.  No condition is on the contents of the keys.
\<close>

lemma gafqH_new_apart:
  assumes "gafqH_new na nh = Inr t" "int na \<le> MAXASIZE"
  shows "table_inv t" "nh \<le> room t" "apart same t"
proof -
  let ?t0 = "\<lparr>flags = NOT 0, lsizenode = 0, metatable = None, array = [], node = [dummynode], isdummy = True, lastfree = 0\<rparr>"
  note new = setnodevector_inv [OF assms(1) [unfolded gafqH_new_def], of "replicate na TNil"]
  have t: "t\<lparr>array := replicate na TNil\<rparr> = t" using new(4) assms(2) by (simp add: setarrayvector_def)
  show "table_inv t" "nh \<le> room t" using new(1,2) assms(2) unfolding t by simp_all
  have "apart same ?t0" by (auto simp: apart_def dead_apart_def dummynode_def live_def)
  then show "apart same t" using new(6) [of ?t0] assms(2) unfolding t by (simp add: keeps_apart_def)
qed

lemma gafqH_set_apart:
  assumes "table_inv t" "proper k" "gafqH_set t k = Inr (t', s)" "apart same t"
  shows "apart same (setslot t' s v)"
proof -
  have "stored t k t' s" using gr.set_with_stored [OF assms(1,2), of 0] assms(3) by (simp add: gafqH_set_def)
  from store_step(6) [OF this assms(2)] show ?thesis using assms(4) by (simp add: keeps_apart_def)
qed

lemma removeentry_inv:
  assumes inv: "table_inv t" and i: "i < length (node t)" "nval (node t) i = TNil"
  shows "table_inv (t\<lparr>node := (node t)[i := removeentry (node t ! i)]\<rparr>)"
    "apart same t \<Longrightarrow> (\<And>j. j < length (node t) \<Longrightarrow> live (nkey (node t) j) \<Longrightarrow> j \<noteq> i \<Longrightarrow> \<not> same (nkey (node t) i) (nkey (node t) j)) \<Longrightarrow>
      apart same (t\<lparr>node := (node t)[i := removeentry (node t ! i)]\<rparr>)"
proof -
  let ?ns = "(node t)[i := removeentry (node t ! i)]"
  note ti = table_invD [OF inv]
  have mp: "mainposition (t\<lparr>node := ns\<rparr>) = mainposition t" for ns by (rule mainposition_lsizenode) simp
  have "table_inv (t\<lparr>node := ?ns\<rparr>) \<and> (apart same t \<longrightarrow>
      (\<forall>j. j < length (node t) \<longrightarrow> live (nkey (node t) j) \<longrightarrow> j \<noteq> i \<longrightarrow> \<not> same (nkey (node t) i) (nkey (node t) j)) \<longrightarrow> apart same (t\<lparr>node := ?ns\<rparr>))"
  proof (cases "live (nkey (node t) i) \<and> iscollectable (nkey (node t) i)")
    case True
    then have r: "removeentry (node t ! i) = (node t ! i)\<lparr>i_key := TDeadKey (nkey (node t) i)\<rparr>"
      by (cases "nkey (node t) i") (simp_all add: removeentry_def live_def)
    have key: "nkey ?ns j = (if j = i then TDeadKey (nkey (node t) i) else nkey (node t) j)" for j using i(1) r by (cases "j = i") simp_all
    have "\<not> isdummy t" using True i(1) ti(5) by (auto simp: lastfree_ok_def live_def dummynode_def split: if_splits)
    then have "lastfree_ok (t\<lparr>node := ?ns\<rparr>)" using ti(5) by (simp add: lastfree_ok_def sizenode_def key)
    moreover have "\<not> in_array (t\<lparr>node := ?ns\<rparr>) (nkey ?ns j)" if "j < sizenode t" for j
      using ti(9) [OF that] by (simp add: in_array_def key arrayindex_def)
    moreover have "hash_inv (mainposition t) ?ns" using retire_inv(1) [OF ti(4) i] True by (simp add: r)
    ultimately have "table_inv (t\<lparr>node := ?ns\<rparr>)" using ti(1-3) by (simp add: table_inv_def mp sizenode_def)
    moreover have "dead_apart same (mainposition t) ?ns" if "dead_apart same (mainposition t) (node t)"
      "\<forall>j. j < length (node t) \<longrightarrow> live (nkey (node t) j) \<longrightarrow> j \<noteq> i \<longrightarrow> \<not> same (nkey (node t) i) (nkey (node t) j)"
      using retire_inv(2) [OF ti(4) i _ that(1)] that(2) True by (simp add: r)
    ultimately show ?thesis by (simp add: apart_def mp)
  next
    case False
    have "removeentry (node t ! i) = node t ! i"
      using False by (cases "nkey (node t) i"; cases "node t ! i") (simp_all add: removeentry_def live_def iscollectable_def)
    then show ?thesis using inv by simp
  qed
  then show "table_inv (t\<lparr>node := ?ns\<rparr>)"
    "apart same t \<Longrightarrow> (\<And>j. j < length (node t) \<Longrightarrow> live (nkey (node t) j) \<Longrightarrow> j \<noteq> i \<Longrightarrow> \<not> same (nkey (node t) i) (nkey (node t) j)) \<Longrightarrow>
      apart same (t\<lparr>node := ?ns\<rparr>)" by blast+
qed

text \<open>
  C10. Traversal: calling \<open>gafqH_next\<close> from nil until it returns nothing visits every element of a sound
  table exactly once, with its value, and nothing else.  \<open>same\<close> compares the address a retired key had with the address of a key.  The table is
  \<open>apart\<close>: no retired key that stands before a live key on the walk from its main position has its address.  A new table is apart, every store
  and every retirement of a key by the collector keeps it (\<open>gafqH_new_apart\<close>, \<open>gafqH_set_apart\<close>, \<open>removeentry_inv\<close>), also when a
  key of the same contents, or an object at the same address, is inserted after the old one was retired.
\<close>

theorem gafqH_next_enumerates:
  assumes "table_inv t" "apart same t"
  shows "\<exists>kvs. traverse same (Suc (nslots t)) t TNil = Inr kvs \<and> distinct (map fst kvs) \<and>
    (\<forall>k v. (k, v) \<in> set kvs \<longrightarrow> proper k \<and> v \<noteq> TNil \<and> tget t k = v) \<and>
    (\<forall>k. proper k \<and> tget t k \<noteq> TNil \<longrightarrow> (\<exists>k'. (k', tget t k) \<in> set kvs \<and> gafqO_rawequalObj k' k))"
proof -
  have "findindex same t TNil = Inr (int 0 - 1)" by (simp add: findindex_def)
  from traverse_from [OF assms this, of "Suc (nslots t)"] show ?thesis
    using pairs_sound [OF assms(1)] pairs_complete [OF assms(1)] pairs_distinct [OF assms] by auto
qed

theorem gafqH_next_enumerates_witness:
  "\<exists>t kvs. traverse (=) (Suc (nslots t)) t TNil = Inr kvs \<and> distinct (map fst kvs) \<and> (TString ''x'', TBoolean True) \<in> set kvs"
proof -
  obtain t where t: "gafqH_new 0 1 = Inr t" using setnodevector_total [of "1 :: nat"] by (auto simp: gafqH_new_def MAXBITS_def)
  have inv: "table_inv t" "0 < room t" "apart (=) t" using gafqH_new_apart(1,2) [OF t] gafqH_new_apart(3) [OF t, of "(=)"] by (simp_all add: MAXASIZE_def)
  obtain t' s where ts: "stored t (TString ''x'') t' s"
    using set_with_room [OF inv(1) proper_string] inv(2) unfolding stored_in_place_def by blast
  let ?u = "setslot t' s (TBoolean True)"
  note st = store_step [OF ts proper_string, where v = "TBoolean True"]
  have ap: "apart (=) ?u" using st(6) inv(3) by (simp add: keeps_apart_def)
  obtain kvs where kvs: "traverse (=) (Suc (nslots ?u)) ?u TNil = Inr kvs" "distinct (map fst kvs)"
    and all: "\<forall>k. proper k \<and> tget ?u k \<noteq> TNil \<longrightarrow> (\<exists>k'. (k', tget ?u k) \<in> set kvs \<and> gafqO_rawequalObj k' k)"
    using gafqH_next_enumerates [OF st(1) ap] by blast
  have "tget ?u (TString ''x'') = TBoolean True" using st(2) [OF proper_string] by simp
  then obtain k' where k': "(k', TBoolean True) \<in> set kvs" "gafqO_rawequalObj k' (TString ''x'')" using all [rule_format, of "TString ''x''"] by auto
  then have "k' = TString ''x''" by (cases k') simp_all
  then show ?thesis using kvs k' by blast
qed

subsection \<open>The border\<close>

abbreviation num :: "nat \<Rightarrow> TValue" where
  "num i \<equiv> TNumber (cast_num (int i))"

definition border :: "(nat \<Rightarrow> bool) \<Rightarrow> nat \<Rightarrow> bool" where
  "border absent n \<longleftrightarrow> (n = 0 \<or> \<not> absent n) \<and> absent (n + 1)"

lemma binsearch_border:
  assumes "i < j" "i = 0 \<or> \<not> absent i" "absent j"
  shows "border absent (binsearch absent i j) \<and> binsearch absent i j < j \<and> i \<le> binsearch absent i j"
  using assms
proof (induction absent i j rule: binsearch.induct)
  case (1 absent i j)
  show ?case
  proof (cases "1 < j - i")
    case True
    let ?m = "(i + j) div 2"
    have "i < ?m" "?m < j" using True by auto
    then show ?thesis using 1 True by (subst (1 2 3) binsearch.simps) (auto simp: Let_def)
  next
    case False
    then have "j = i + 1" using 1(3) by simp
    then show ?thesis using False 1(4,5) by (subst (1 2 3) binsearch.simps) (simp add: border_def)
  qed
qed

lemma double_search_bracket:
  assumes "double_search absent i j = Inr (i', j')" "i < j" "i = 0 \<or> \<not> absent i" "int j \<le> MAX_INT"
  shows "i' < j' \<and> (i' = 0 \<or> \<not> absent i') \<and> absent j' \<and> int j' \<le> MAX_INT"
  using assms
proof (induction absent i j rule: double_search.induct)
  case (1 absent i j)
  show ?case
  proof (cases "absent j")
    case True
    then show ?thesis using 1(2-5) by (simp add: double_search.simps)
  next
    case False
    then have "\<not> (MAX_INT < int (j * 2) \<or> j = 0)" "double_search absent j (j * 2) = Inr (i', j')"
      using 1(2) by (simp_all add: double_search.simps [of absent i j] split: if_splits)
    then show ?thesis using 1(1) [OF False] False by simp
  qed
qed

lemma linear_search_Some:
  assumes "linear_search absent i = Some n" "i = 1 \<or> \<not> absent (i - 1)" "0 < i"
  shows "border absent (n - 1) \<and> 0 < n"
  using assms
proof (induction absent i rule: linear_search.induct)
  case (1 absent i)
  have r: "i < 2 ^ 32" using 1(2) by (simp add: linear_search.simps [of absent i] split: if_splits)
  show ?case
  proof (cases "absent i")
    case True
    then have "n = i" using 1(2) r by (simp add: linear_search.simps [of absent i])
    then show ?thesis using True 1(3,4) by (auto simp: border_def)
  next
    case False
    then have "linear_search absent (i + 1) = Some n" using 1(2) r by (simp add: linear_search.simps [of absent i])
    then show ?thesis using 1(1) [OF _ False] False r by simp
  qed
qed

lemma linear_search_finds:
  assumes "absent m" "i \<le> m" "m < 2 ^ 32"
  shows "\<exists>n. linear_search absent i = Some n \<and> n \<le> m"
  using assms
proof (induction absent i rule: linear_search.induct)
  case (1 absent i)
  show ?case
  proof (cases "absent i")
    case True
    then show ?thesis using 1(3,4) by (simp add: linear_search.simps)
  next
    case False
    then have "i + 1 \<le> m" using 1(2,3) by (metis Suc_eq_plus1 Suc_leI le_neq_implies_less)
    then show ?thesis using 1(1) [OF _ False] 1(2-4) False by (subst linear_search.simps) simp
  qed
qed

lemma num_absent_tget:
  assumes "table_inv t" "j < 2 ^ 31"
  shows "num_absent t j \<longleftrightarrow> tget t (num j) = TNil"
proof -
  have r: "- (2 ^ 31) \<le> int j" "int j < 2 ^ 31" using assms(2) by simp_all
  have "gafqH_getnum t (int j) = gafqH_get t (num j)"
    using getnum_eq [OF assms(1) r] get_eq [OF assms(1), of "num j"] in_array_cast_num [OF r, of t] arrayindex_cast_num [OF r]
    by simp
  then show ?thesis using assms(2) by (simp add: num_absent_def uint2int_def tget_def)
qed

text \<open>A sound table has less than \<open>2 ^ 28\<close> slots, so that an integer key below is absent.\<close>

lemma nslots_bound: "table_inv t \<Longrightarrow> nslots t \<le> 2 ^ 27"
proof -
  assume inv: "table_inv t"
  have "sizearray t \<le> 2 ^ 26" using table_invD(3) [OF inv] by (simp add: MAXASIZE_def MAXBITS_def)
  moreover have "sizenode t \<le> 2 ^ 26"
    unfolding sizenode_def twoto_def using table_invD(2) [OF inv] by (intro power_increasing) (auto simp: MAXBITS_def)
  ultimately show ?thesis using table_invD(1) [OF inv] by (simp add: nslots_def)
qed

definition slot_index :: "Table \<Rightarrow> slot \<Rightarrow> nat" where
  "slot_index t s = (case s of SArray i \<Rightarrow> i | SNode j \<Rightarrow> sizearray t + j)"

lemma some_index_absent:
  assumes "table_inv t"
  shows "\<exists>m. 1 \<le> m \<and> m \<le> 2 ^ 27 + 1 \<and> num_absent t m"
proof (rule ccontr)
  assume none: "\<not> ?thesis"
  let ?I = "{1..2 ^ 27 + 1 :: nat}" and ?f = "\<lambda>m. slot_index t (the (gafqH_get t (num m)))"
  have lt: "m < 2 ^ 31" if "m \<in> ?I" for m :: nat
  proof -
    have "(2::nat) ^ 27 + 1 < 2 ^ 31" by simp
    then show ?thesis using that by (metis atLeastAtMost_iff le_less_trans)
  qed
  have p: "proper (num m)" if "m \<in> ?I" for m using lt [OF that] by (intro proper_num) simp
  have some: "\<exists>s. gafqH_get t (num m) = Some s" if "m \<in> ?I" for m
  proof -
    have "\<not> num_absent t m" using none that by auto
    then have "tget t (num m) \<noteq> TNil" using num_absent_tget [OF assms lt [OF that]] by simp
    then show ?thesis by (auto simp: tget_def slotoptval_def split: option.splits)
  qed
  have idx: "?f m < nslots t" if "m \<in> ?I" for m
    using some [OF that] get_slot [OF assms p [OF that]] by (auto simp: slot_index_def nslots_def holds_def split: slot.splits)
  have "inj_on ?f ?I"
  proof (rule inj_onI)
    fix m n assume mn: "m \<in> ?I" "n \<in> ?I" "?f m = ?f n"
    obtain s s' where s: "gafqH_get t (num m) = Some s" "gafqH_get t (num n) = Some s'" using some mn by blast
    have "s = s'" using mn(3) s get_slot [OF assms p [OF mn(1)] s(1)] get_slot [OF assms p [OF mn(2)] s(2)]
      by (auto simp: slot_index_def split: slot.splits)
    then have "gafqO_rawequalObj (num m) (num n)" using get_inj [OF assms p [OF mn(1)] p [OF mn(2)]] s by simp
    then show "m = n" using lt [OF mn(1)] lt [OF mn(2)] cast_num_eq_iff [of "int m" "int n"] by simp
  qed
  then have "card ?I \<le> card {..<nslots t}" by (rule card_inj_on_le) (use idx in auto)
  then show False using nslots_bound [OF assms] by simp
qed

lemma unbound_search_border:
  assumes "table_inv t" "i = 0 \<or> \<not> num_absent t i" "int i + 1 \<le> MAX_INT"
  shows "\<exists>n. unbound_search t i = Some n \<and> n + 1 < 2 ^ 31 \<and> border (num_absent t) n"
proof (cases "double_search (num_absent t) i (i + 1)")
  case (Inr p)
  obtain i' j' where p: "p = (i', j')" by fastforce
  note b = double_search_bracket [OF Inr [unfolded p] _ assms(2)]
  have "i' < j'" "i' = 0 \<or> \<not> num_absent t i'" "num_absent t j'" "int j' \<le> MAX_INT" using b assms(3) by auto
  note bs = binsearch_border [of i' j' "num_absent t", OF this(1-3)]
  have "unbound_search t i = Some (binsearch (num_absent t) i' j')" using Inr p by (simp add: unbound_search_def)
  moreover have "binsearch (num_absent t) i' j' + 1 < 2 ^ 31" using bs \<open>int j' \<le> MAX_INT\<close> by (simp add: MAX_INT_def)
  ultimately show ?thesis using bs by blast
next
  case (Inl u)
  obtain m where m: "1 \<le> m" "m \<le> 2 ^ 27 + 1" "num_absent t m" using some_index_absent [OF assms(1)] by blast
  then obtain n where n: "linear_search (num_absent t) 1 = Some n" "n \<le> m"
    using linear_search_finds [of "num_absent t" m 1] by auto
  have "n - 1 + 1 < 2 ^ 31" using n(2) m(2) by simp
  moreover have "unbound_search t i = Some (n - 1)" using Inl n(1)
    by (cases u) (simp only: unbound_search_def sum.case unit.case option.map)
  ultimately show ?thesis using linear_search_Some [OF n(1)] by simp
qed

lemma getn_border:
  assumes "table_inv t"
  shows "\<exists>n. gafqH_getn t = Some n \<and> n + 1 < 2 ^ 31 \<and> (n = 0 \<or> tget t (num n) \<noteq> TNil) \<and> tget t (num (n + 1)) = TNil"
proof -
  let ?j = "sizearray t"
  have jb: "int ?j \<le> 2 ^ 26" using table_invD(3) [OF assms] by (simp add: MAXASIZE_def MAXBITS_def)
  have arr: "tget t (num m) = array t ! (m - 1)" if "0 < m" "m \<le> ?j" for m
    using tget_index [OF assms, of "m - 1"] that by (simp add: of_nat_diff)
  consider (arr) "0 < ?j" "array t ! (?j - 1) = TNil" | (dummy) "\<not> (0 < ?j \<and> array t ! (?j - 1) = TNil)" "isdummy t"
    | (hash) "\<not> (0 < ?j \<and> array t ! (?j - 1) = TNil)" "\<not> isdummy t" by blast
  then show ?thesis
  proof cases
    case arr
    let ?n = "binsearch (\<lambda>m. ttisnil (array t ! (m - 1))) 0 ?j"
    have n: "border (\<lambda>m. ttisnil (array t ! (m - 1))) ?n" "?n < ?j"
      using binsearch_border [of 0 ?j "\<lambda>m. ttisnil (array t ! (m - 1))"] arr by auto
    then show ?thesis using arr \<open>\<And>m. 0 < m \<Longrightarrow> m \<le> ?j \<Longrightarrow> tget t (num m) = array t ! (m - 1)\<close> [of ?n]
        \<open>\<And>m. 0 < m \<Longrightarrow> m \<le> ?j \<Longrightarrow> tget t (num m) = array t ! (m - 1)\<close> [of "?n + 1"] jb
      by (auto simp: gafqH_getn_def border_def)
  next
    case dummy
    have "\<not> in_array t (num (?j + 1))" 
    by (subst in_array_cast_num) (use jb in auto)
    moreover have "entries (node t) = {}"
      using table_invD(5) [OF assms] dummy(2) by (auto simp: lastfree_ok_def entries_def dummynode_def)
    moreover have "proper (num (?j + 1))" using jb by (intro proper_num) simp
    ultimately have "tget t (num (?j + 1)) = TNil" using tget_hash [OF assms] by auto
    then show ?thesis using dummy arr [of ?j] jb by (auto simp: gafqH_getn_def)
  next
    case hash
    have "?j = 0 \<or> \<not> num_absent t ?j" using hash(1) arr [of ?j] num_absent_tget [OF assms, of ?j] jb by auto
    then obtain n where n: "unbound_search t ?j = Some n" "n + 1 < 2 ^ 31" "border (num_absent t) n"
      using unbound_search_border [OF assms, of ?j] jb by (auto simp: MAX_INT_def)
    then show ?thesis using hash num_absent_tget [OF assms, of n] num_absent_tget [OF assms, of "n + 1"]
      by (auto simp: gafqH_getn_def border_def)
  qed
qed

text \<open>
  C12. The length of a sequence: \<open>gafqH_getn\<close> always returns, and what it returns is a border, a non-negative
  \<open>n\<close> such that the element \<open>n\<close> is present (or \<open>n\<close> is zero) and the element \<open>n + 1\<close> is
  absent; both tests are within the \<open>int\<close> range.
\<close>

theorem gafqH_getn_border:
  assumes "table_inv t"
  shows "\<exists>n. gafqH_getn t = Some n \<and> n + 1 < 2 ^ 31 \<and> (n = 0 \<or> tget t (num n) \<noteq> TNil) \<and> tget t (num (n + 1)) = TNil"
  by (rule getn_border [OF assms])

theorem gafqH_getn_border_witness:
  "\<exists>t n. gafqH_new 3 0 = Inr t \<and> gafqH_getn t = Some n \<and> tget t (num (n + 1)) = TNil"
proof -
  obtain t where t: "gafqH_new 3 0 = Inr t" "table_inv t"
    using gafqH_new_inv [of 3 0] by (auto simp: gafqH_new_def setnodevector_def MAXASIZE_def MAXBITS_def)
  then show ?thesis using gafqH_getn_border [OF t(2)] by blast
qed

end
