(* ===== verification/Debug.thy ===== *)
theory Debug
  imports Objects
begin

text \<open>
  The code checker of \<open>gdebug.c\<close>: \<open>precheck\<close>, \<open>gafqG_checkopenop\<close>, \<open>checkArgMode\<close>, \<open>symbexec\<close> and
  \<open>gafqG_checkcode\<close>, which every precompiled function must pass before it may run.  The checker
  itself reads the code, the constants and the nested functions by index: the model writes out
  each read, \<open>Undefined\<close> when it is out of range.  A failed check is \<open>Inr None\<close>, the \<open>return 0\<close> of the
  macro \<open>check\<close>.  The loop of \<open>symbexec\<close> is cut into the check of the operands (\<open>symb_args\<close>), the
  checks that depend on the opcode (\<open>symb_op\<close>) and their composition for one instruction
  (\<open>symb_step\<close>).
\<close>

definition MAXSTACK :: int where "MAXSTACK = 250"

definition GAFQ_MULTRET :: int where "GAFQ_MULTRET = -1"

abbreviation sizecode :: "Proto \<Rightarrow> int" where "sizecode pt \<equiv> int (length (p_code pt))"
abbreviation sizek :: "Proto \<Rightarrow> int" where "sizek pt \<equiv> int (length (p_k pt))"
abbreviation sizep :: "Proto \<Rightarrow> int" where "sizep pt \<equiv> int (length (p_p pt))"

definition at :: "'a list \<Rightarrow> int \<Rightarrow> 'a res" where
  "at xs i = (if 0 \<le> i \<and> i < int (length xs) then Inr (xs ! nat i) else Inl (Undefined ''index''))"

subsection \<open>Checks with an early return\<close>

definition chk :: "bool \<Rightarrow> 'a option res \<Rightarrow> 'a option res" where
  "chk x k = (if x then k else Inr None)"

definition obind :: "'a option res \<Rightarrow> ('a \<Rightarrow> 'b option res) \<Rightarrow> 'b option res" where
  "obind r f = rbind r (\<lambda>x. case x of None \<Rightarrow> Inr None | Some y \<Rightarrow> f y)"

definition checkreg :: "Proto \<Rightarrow> int \<Rightarrow> bool" where
  "checkreg pt reg \<longleftrightarrow> reg < uint (p_maxstacksize pt)"

definition is_op :: "Instruction \<Rightarrow> OpCode \<Rightarrow> bool" where
  "is_op i op \<longleftrightarrow> GET_OPCODE i = opnum op"

definition precheck :: "Proto \<Rightarrow> bool res" where
  "precheck pt =
     (if \<not> uint (p_maxstacksize pt) \<le> MAXSTACK then Inr False
      else if \<not> uint (p_numparams pt) + uint (p_is_vararg pt AND VARARG_HASARG) \<le> uint (p_maxstacksize pt) then Inr False
      else if \<not> (p_is_vararg pt AND VARARG_NEEDSARG = 0 \<or> p_is_vararg pt AND VARARG_HASARG \<noteq> 0) then Inr False
      else if \<not> int (length (p_upvalues pt)) \<le> uint (p_nups pt) then Inr False
      else if \<not> (length (p_lineinfo pt) = length (p_code pt) \<or> length (p_lineinfo pt) = 0) then Inr False
      else if \<not> 0 < sizecode pt then Inr False
      else rbind (at (p_code pt) (sizecode pt - 1)) (\<lambda>i. Inr (is_op i OP_RETURN)))"

definition gafqG_checkopenop :: "Instruction \<Rightarrow> bool" where
  "gafqG_checkopenop i =
     (if is_op i OP_CALL \<or> is_op i OP_TAILCALL \<or> is_op i OP_RETURN \<or> is_op i OP_SETLIST
      then GETARG_B i = 0 else False)"

definition checkArgMode :: "Proto \<Rightarrow> int \<Rightarrow> OpArgMask \<Rightarrow> bool" where
  "checkArgMode pt r mode =
     (case mode of
        OpArgN \<Rightarrow> r = 0
      | OpArgU \<Rightarrow> True
      | OpArgR \<Rightarrow> checkreg pt r
      | OpArgK \<Rightarrow> if ISK r then INDEXK r < sizek pt else r < uint (p_maxstacksize pt))"

subsection \<open>The operands of an instruction\<close>

definition setlist0 :: "Instruction \<Rightarrow> bool" where
  "setlist0 d \<longleftrightarrow> is_op d OP_SETLIST \<and> GETARG_C d = 0"

text \<open>The number of instructions just before \<open>dest\<close> that look like a \<open>SETLIST\<close> with a count.\<close>

primrec setlist_run :: "Proto \<Rightarrow> nat \<Rightarrow> nat res" where
  "setlist_run pt 0 = Inr 0"
| "setlist_run pt (Suc n) =
     rbind (at (p_code pt) (int n)) (\<lambda>d.
       if setlist0 d then rbind (setlist_run pt n) (\<lambda>j. Inr (Suc j)) else Inr 0)"

definition symb_args :: "Proto \<Rightarrow> int \<Rightarrow> nat \<Rightarrow> Instruction \<Rightarrow> (int \<times> int) option res" where
  "symb_args pt pc op i =
     (case getOpMode op of
        iABC \<Rightarrow>
          (let b = GETARG_B i; c = GETARG_C i
           in chk (checkArgMode pt b (getBMode op))
                (chk (checkArgMode pt c (getCMode op)) (Inr (Some (b, c)))))
      | iABx \<Rightarrow>
          (let b = GETARG_Bx i
           in chk (getBMode op \<noteq> OpArgK \<or> b < sizek pt) (Inr (Some (b, 0))))
      | iAsBx \<Rightarrow>
          (let b = GETARG_sBx i; dest = pc + 1 + b
           in if getBMode op = OpArgR
              then chk (0 \<le> dest \<and> dest < sizecode pt)
                     (if 0 < dest
                      then rbind (setlist_run pt (nat dest)) (\<lambda>j. chk (even j) (Inr (Some (b, 0))))
                      else Inr (Some (b, 0)))
              else Inr (Some (b, 0))))"

subsection \<open>The checks of each opcode\<close>

definition checkopenop :: "Proto \<Rightarrow> int \<Rightarrow> bool res" where
  "checkopenop pt pc = rbind (at (p_code pt) (pc + 1)) (\<lambda>i. Inr (gafqG_checkopenop i))"

text \<open>The loop over the pseudo-instructions of \<open>OP_CLOSURE\<close>, from \<open>pc\<close> on.\<close>

primrec check_pseudo :: "Proto \<Rightarrow> int \<Rightarrow> nat \<Rightarrow> bool res" where
  "check_pseudo pt pc 0 = Inr True"
| "check_pseudo pt pc (Suc nup) =
     rbind (at (p_code pt) (pc + 1)) (\<lambda>i.
       if is_op i OP_GETUPVAL \<or> is_op i OP_MOVE then check_pseudo pt (pc + 1) nup else Inr False)"

text \<open>The second \<open>switch\<close> of \<open>symbexec\<close>: the new \<open>pc\<close> and \<open>last\<close>.\<close>

definition symb_op ::
  "Proto \<Rightarrow> int \<Rightarrow> int \<Rightarrow> int \<Rightarrow> int \<Rightarrow> OpCode \<Rightarrow> int \<Rightarrow> int \<Rightarrow> int \<Rightarrow> (int \<times> int) option res" where
  "symb_op pt lastpc reg pc lst op a b c =
     (let ok = Inr (Some (pc, lst));
          jump = (let dest = pc + 1 + b
                  in if reg \<noteq> NO_REG \<and> pc < dest \<and> dest \<le> lastpc then Inr (Some (pc + b, lst)) else ok);
          call = (let ok' = Inr (Some (pc, if a \<le> reg then pc else lst)); c' = c - 1
                  in chk (b = 0 \<or> checkreg pt (a + b - 1))
                       (if c' = GAFQ_MULTRET then rbind (checkopenop pt pc) (\<lambda>x. chk x ok')
                        else if c' \<noteq> 0 then chk (checkreg pt (a + c' - 1)) ok'
                        else ok'))
      in case op of
        OP_LOADBOOL \<Rightarrow>
          if c = 1 then chk (pc + 2 < sizecode pt)
                          (rbind (at (p_code pt) (pc + 1)) (\<lambda>i. chk (\<not> setlist0 i) ok))
          else ok
      | OP_LOADNIL \<Rightarrow> Inr (Some (pc, if a \<le> reg \<and> reg \<le> b then pc else lst))
      | OP_GETUPVAL \<Rightarrow> chk (b < uint (p_nups pt)) ok
      | OP_SETUPVAL \<Rightarrow> chk (b < uint (p_nups pt)) ok
      | OP_GETGLOBAL \<Rightarrow> rbind (at (p_k pt) b) (\<lambda>v. chk (ttype v = 4) ok)
      | OP_SETGLOBAL \<Rightarrow> rbind (at (p_k pt) b) (\<lambda>v. chk (ttype v = 4) ok)
      | OP_SELF \<Rightarrow> chk (checkreg pt (a + 1)) (Inr (Some (pc, if reg = a + 1 then pc else lst)))
      | OP_CONCAT \<Rightarrow> chk (b < c) ok
      | OP_TFORLOOP \<Rightarrow>
          chk (1 \<le> c) (chk (checkreg pt (a + 2 + c)) (Inr (Some (pc, if a + 2 \<le> reg then pc else lst))))
      | OP_FORLOOP \<Rightarrow> chk (checkreg pt (a + 3)) jump
      | OP_FORPREP \<Rightarrow> chk (checkreg pt (a + 3)) jump
      | OP_JMP \<Rightarrow> jump
      | OP_CALL \<Rightarrow> call
      | OP_TAILCALL \<Rightarrow> call
      | OP_RETURN \<Rightarrow> chk (b - 1 \<le> 0 \<or> checkreg pt (a + (b - 1) - 1)) ok
      | OP_SETLIST \<Rightarrow>
          chk (b \<le> 0 \<or> checkreg pt (a + b))
            (if c = 0 then chk (pc + 1 < sizecode pt - 1) (Inr (Some (pc + 1, lst))) else ok)
      | OP_CLOSURE \<Rightarrow>
          chk (b < sizep pt)
            (rbind (at (p_p pt) b) (\<lambda>p.
               let nup = uint (p_nups p)
               in chk (pc + nup < sizecode pt)
                    (rbind (check_pseudo pt pc (nat nup)) (\<lambda>x.
                       chk x (if reg \<noteq> NO_REG then Inr (Some (pc + nup, lst)) else ok)))))
      | OP_VARARG \<Rightarrow>
          chk (p_is_vararg pt AND VARARG_ISVARARG \<noteq> 0 \<and> p_is_vararg pt AND VARARG_NEEDSARG = 0)
            (let b' = b - 1
             in rbind (if b' = GAFQ_MULTRET then checkopenop pt pc else Inr True)
                  (\<lambda>x. chk x (chk (checkreg pt (a + b' - 1)) ok)))
      | _ \<Rightarrow> ok)"

definition symb_step :: "Proto \<Rightarrow> int \<Rightarrow> int \<Rightarrow> int \<Rightarrow> int \<Rightarrow> (int \<times> int) option res" where
  "symb_step pt lastpc reg pc lst =
     rbind (at (p_code pt) pc) (\<lambda>i.
       let op = GET_OPCODE i; a = GETARG_A i
       in case opcode_of op of
            None \<Rightarrow> Inr None
          | Some opc \<Rightarrow>
              chk (checkreg pt a)
                (obind (symb_args pt pc op i) (\<lambda>(b, c).
                   let last1 = (if testAMode op \<and> a = reg then pc else lst)
                   in obind (if testTMode op
                             then chk (pc + 2 < sizecode pt)
                                    (rbind (at (p_code pt) (pc + 1)) (\<lambda>n. chk (is_op n OP_JMP) (Inr (Some ()))))
                             else Inr (Some ()))
                        (\<lambda>_. symb_op pt lastpc reg pc last1 opc a b c))))"

lemma obind_cong [fundef_cong]:
  "r = r' \<Longrightarrow> (\<And>x. r' = Inr (Some x) \<Longrightarrow> f x = g x) \<Longrightarrow> obind r f = obind r' g"
  unfolding obind_def by (cases r') (auto split: option.splits)

lemma obind_Some [res_simps]: "obind r f = Inr (Some y) \<longleftrightarrow> (\<exists>x. r = Inr (Some x) \<and> f x = Inr (Some y))"
  by (cases r) (auto simp: obind_def split: option.splits)

lemma obind_Inl [res_simps]: "obind r f = Inl e \<longleftrightarrow> r = Inl e \<or> (\<exists>x. r = Inr (Some x) \<and> f x = Inl e)"
  by (cases r) (auto simp: obind_def split: option.splits)

lemma chk_Some [res_simps]: "chk b k = Inr (Some y) \<longleftrightarrow> b \<and> k = Inr (Some y)"
  by (simp add: chk_def)

lemma chk_Inl [res_simps]: "chk b k = Inl e \<longleftrightarrow> b \<and> k = Inl e"
  by (simp add: chk_def)

text \<open>Every turn of the loop moves forward.\<close>

lemma symb_op_forward: "symb_op pt lastpc reg pc lst op a b c = Inr (Some (pc', lst')) \<Longrightarrow> pc \<le> pc'"
  by (cases op) (auto simp: symb_op_def Let_def res_simps split: if_splits)

lemma symb_step_forward: "symb_step pt lastpc reg pc lst = Inr (Some (pc', lst')) \<Longrightarrow> pc \<le> pc'"
  by (auto simp: symb_step_def Let_def res_simps split: option.splits dest: symb_op_forward)

text \<open>The loop \<open>for (pc = 0; pc < lastpc; pc++)\<close>.\<close>

function symbexec_loop :: "Proto \<Rightarrow> int \<Rightarrow> int \<Rightarrow> int \<Rightarrow> int \<Rightarrow> int option res" where
  "symbexec_loop pt lastpc reg pc lst =
     (if pc < lastpc
      then obind (symb_step pt lastpc reg pc lst) (\<lambda>(pc', lst'). symbexec_loop pt lastpc reg (pc' + 1) lst')
      else Inr (Some lst))"
  by pat_completeness auto
termination
  by (relation "measure (\<lambda>(pt, lastpc, reg, pc, lst). nat (lastpc - pc))")
    (auto dest: symb_step_forward)

declare symbexec_loop.simps [simp del]

definition symbexec :: "Proto \<Rightarrow> int \<Rightarrow> int \<Rightarrow> Instruction res" where
  "symbexec pt lastpc reg =
     rbind (precheck pt) (\<lambda>ok.
       if \<not> ok then Inr 0
       else rbind (symbexec_loop pt lastpc reg 0 (sizecode pt - 1)) (\<lambda>r.
              case r of None \<Rightarrow> Inr 0 | Some lst \<Rightarrow> at (p_code pt) lst))"

definition gafqG_checkcode :: "Proto \<Rightarrow> bool res" where
  "gafqG_checkcode pt = rbind (symbexec pt (sizecode pt) NO_REG) (\<lambda>i. Inr (i \<noteq> 0))"

definition kname :: "Proto \<Rightarrow> int \<Rightarrow> string res" where
  "kname p c =
     (if ISK c then rbind (at (p_k p) (INDEXK c)) (\<lambda>v. case v of TString s \<Rightarrow> Inr s | _ \<Rightarrow> Inr ''?'')
      else Inr ''?'')"

end
