(* ===== verification/Debug_Check.thy ===== *)
theory Debug_Check
  imports Debug
begin

text \<open>
  What the code checker guarantees.  The positions it visits are exactly the instructions (the parity
  of the run of \<open>SETLIST\<close>-like words decides which words are counts), the checks it makes of each give the
  operands the virtual machine uses, and the successors of a checked instruction are checked
  instructions again.
\<close>

subsection \<open>The property table, opcode by opcode\<close>

lemma opmodes_all:
  "map getOpMode [0..<38] = [iABC, iABx, iABC, iABC, iABC, iABx, iABC, iABx, iABC, iABC, iABC, iABC, iABC, iABC, iABC,
     iABC, iABC, iABC, iABC, iABC, iABC, iABC, iAsBx, iABC, iABC, iABC, iABC, iABC, iABC, iABC, iABC, iAsBx, iAsBx,
     iABC, iABC, iABC, iABx, iABC]"
  by code_simp

lemma bmodes_all:
  "map getBMode [0..<38] = [OpArgR, OpArgK, OpArgU, OpArgR, OpArgU, OpArgK, OpArgR, OpArgK, OpArgU, OpArgK, OpArgU, OpArgR,
     OpArgK, OpArgK, OpArgK, OpArgK, OpArgK, OpArgK, OpArgR, OpArgR, OpArgR, OpArgR, OpArgR, OpArgK, OpArgK, OpArgK,
     OpArgR, OpArgR, OpArgU, OpArgU, OpArgU, OpArgR, OpArgR, OpArgN, OpArgU, OpArgN, OpArgU, OpArgU]"
  by code_simp

lemma cmodes_all:
  "map getCMode [0..<38] = [OpArgN, OpArgN, OpArgU, OpArgN, OpArgN, OpArgN, OpArgK, OpArgN, OpArgN, OpArgK, OpArgU, OpArgK,
     OpArgK, OpArgK, OpArgK, OpArgK, OpArgK, OpArgK, OpArgN, OpArgN, OpArgN, OpArgR, OpArgN, OpArgK, OpArgK, OpArgK,
     OpArgU, OpArgU, OpArgU, OpArgU, OpArgN, OpArgN, OpArgN, OpArgU, OpArgU, OpArgN, OpArgN, OpArgN]"
  by code_simp

lemma tmodes_all:
  "map testTMode [0..<38] = map (\<lambda>n. n \<in> {23, 24, 25, 26, 27, 33}) [0..<38]"
  by code_simp

lemma nth_from_map: "map f [0..<n] = xs \<Longrightarrow> i < n \<Longrightarrow> f i = xs ! i"
  by auto

lemmas mode_tables = nth_from_map [OF opmodes_all] nth_from_map [OF bmodes_all] nth_from_map [OF cmodes_all]

lemma testTMode_iff: "n < 38 \<Longrightarrow> testTMode n \<longleftrightarrow> n \<in> {23, 24, 25, 26, 27, 33}"
  using nth_from_map [OF tmodes_all, of n] by simp

subsection \<open>Instruction positions\<close>

text \<open>
  A position of the code is an instruction unless it holds the count of a \<open>SETLIST\<close>, the word after a
  \<open>SETLIST\<close> instruction whose field \<open>C\<close> is zero.
\<close>

primrec instr_start :: "Proto \<Rightarrow> nat \<Rightarrow> bool" where
  "instr_start pt 0 = True"
| "instr_start pt (Suc n) = (\<not> (instr_start pt n \<and> setlist0 (p_code pt ! n)))"

lemma at_Inr [simp]: "at xs i = Inr x \<longleftrightarrow> 0 \<le> i \<and> i < int (length xs) \<and> x = xs ! nat i"
  by (auto simp: at_def)

lemma at_Inl: "at xs i = Inl e \<longleftrightarrow> \<not> (0 \<le> i \<and> i < int (length xs)) \<and> e = Undefined ''index''"
  by (auto simp: at_def)

lemma setlist_run_ok: "n \<le> length (p_code pt) \<Longrightarrow> \<exists>j. setlist_run pt n = Inr j \<and> j \<le> n"
  by (induction n) (auto simp: at_def)

text \<open>The parity of the run of would-be \<open>SETLIST\<close> words decides whether a position is an instruction.\<close>

lemma setlist_run_parity:
  "n \<le> length (p_code pt) \<Longrightarrow> setlist_run pt n = Inr j \<Longrightarrow> even j \<longleftrightarrow> instr_start pt n"
proof (induction n arbitrary: j)
  case (Suc n)
  then have a: "at (p_code pt) (int n) = Inr (p_code pt ! n)" by (simp add: at_def)
  obtain j' where j': "setlist_run pt n = Inr j'" using setlist_run_ok [of n pt] Suc.prems(1) by auto
  with Suc a show ?case by (auto split: if_splits)
qed simp

lemma is_op_unique: "is_op i op \<Longrightarrow> is_op i op' \<Longrightarrow> op = op'"
  using opcode_of_opnum by (metis is_op_def option.inject)

lemma opcode_of_is_op: "opcode_of (GET_OPCODE i) = Some op \<longleftrightarrow> is_op i op"
  using opcode_of_Some [of "GET_OPCODE i" op] opcode_of_opnum [of op] by (auto simp: is_op_def)

lemma symb_step_Some:
  assumes "symb_step pt lastpc reg pc lst = Inr (Some (pc', lst'))"
  obtains i op b c lst1 where "0 \<le> pc" "pc < sizecode pt" "i = p_code pt ! nat pc" "is_op i op"
    "checkreg pt (GETARG_A i)" "symb_args pt pc (opnum op) i = Inr (Some (b, c))"
    "testTMode (opnum op) \<longrightarrow> pc + 2 < sizecode pt \<and> is_op (p_code pt ! nat (pc + 1)) OP_JMP"
    "symb_op pt lastpc reg pc lst1 op (GETARG_A i) b c = Inr (Some (pc', lst'))"
  using assms
  by (auto simp: symb_step_def Let_def res_simps opcode_of_is_op is_op_def split: option.splits if_splits prod.splits)

subsection \<open>The checker reads nothing out of range\<close>

lemma rbind_at: "0 \<le> i \<Longrightarrow> i < int (length xs) \<Longrightarrow> rbind (at xs i) f = f (xs ! nat i)"
  by (simp add: at_def)

lemma check_pseudo_safe: "0 \<le> pc \<Longrightarrow> pc + int n < sizecode pt \<Longrightarrow> check_pseudo pt pc n \<noteq> Inl e"
  by (induction n arbitrary: pc) (auto simp: rbind_at res_simps at_Inl)

lemma symb_args_safe:
  assumes "symb_args pt pc op i = Inl e"
  shows False
proof -
  have "setlist_run pt (nat d) \<noteq> Inl e'" if "d < sizecode pt" for d e'
    using setlist_run_ok [of "nat d" pt] that by force
  then show ?thesis using assms
    by (auto simp: symb_args_def Let_def res_simps split: OpMode.splits if_splits)
qed

text \<open>An index into the constants was compared with their number by \<open>symb_args\<close>.\<close>

lemma GETARG_bounds:
  "0 \<le> GETARG_A i" "GETARG_A i < 2 ^ 8" "0 \<le> GETARG_B i" "GETARG_B i < 2 ^ 9"
  "0 \<le> GETARG_C i" "GETARG_C i < 2 ^ 9" "0 \<le> GETARG_Bx i"
  using fA.getf_bounds [of i] fB.getf_bounds [of i] fC.getf_bounds [of i] fBx.getf_bounds [of i]
  by (auto simp: size_defs)

lemma symb_op_safe:
  assumes "symb_op pt lastpc reg pc lst op a b c = Inl e" "0 \<le> pc" "pc + 1 < sizecode pt" "op \<noteq> OP_RETURN"
    and "op = OP_GETGLOBAL \<or> op = OP_SETGLOBAL \<longrightarrow> 0 \<le> b \<and> b < sizek pt" "op = OP_CLOSURE \<longrightarrow> 0 \<le> b"
  shows False
  using assms check_pseudo_safe [OF assms(2)]
  by (cases op) (auto simp: symb_op_def Let_def res_simps checkopenop_def at_Inl rbind_at split: if_splits)

lemma symb_op_RETURN_safe: "symb_op pt lastpc reg pc lst OP_RETURN a b c \<noteq> Inl e"
  by (auto simp: symb_op_def Let_def res_simps)

lemma symb_args_K:
  assumes "symb_args pt pc (opnum op) i = Inr (Some (b, c))"
  shows "op = OP_GETGLOBAL \<or> op = OP_SETGLOBAL \<or> op = OP_LOADK \<longrightarrow> b = GETARG_Bx i \<and> 0 \<le> b \<and> b < sizek pt"
    and "op = OP_CLOSURE \<longrightarrow> b = GETARG_Bx i \<and> 0 \<le> b"
  using assms GETARG_bounds [of i]
  by (auto simp: symb_args_def mode_tables Let_def res_simps)

definition skip_check :: "Proto \<Rightarrow> int \<Rightarrow> OpCode \<Rightarrow> unit option res" where
  "skip_check pt pc op =
     (if testTMode (opnum op)
      then chk (pc + 2 < sizecode pt) (rbind (at (p_code pt) (pc + 1)) (\<lambda>n. chk (is_op n OP_JMP) (Inr (Some ()))))
      else Inr (Some ()))"

lemma symb_step_eq:
  assumes "0 \<le> pc" "pc < sizecode pt" "is_op (p_code pt ! nat pc) op"
  shows "symb_step pt lastpc reg pc lst =
    (let i = p_code pt ! nat pc; a = GETARG_A i
     in chk (checkreg pt a) (obind (symb_args pt pc (opnum op) i) (\<lambda>(b, c).
          obind (skip_check pt pc op) (\<lambda>_.
            symb_op pt lastpc reg pc (if testAMode (opnum op) \<and> a = reg then pc else lst) op a b c))))"
proof -
  have "GET_OPCODE (p_code pt ! nat pc) = opnum op" "opcode_of (opnum op) = Some op"
    using assms(3) opcode_of_opnum by (simp_all add: is_op_def)
  then show ?thesis using assms(1,2) by (simp add: symb_step_def rbind_at Let_def skip_check_def)
qed

lemma last_index: "nat pc = length xs - 1 \<Longrightarrow> 0 \<le> pc \<Longrightarrow> pc < int (length xs) \<Longrightarrow> xs ! nat pc = last xs"
  by (cases xs rule: rev_cases) auto

lemma symb_step_safe:
  assumes "0 \<le> pc" "pc < sizecode pt" "is_op (last (p_code pt)) OP_RETURN"
  shows "symb_step pt lastpc reg pc lst \<noteq> Inl e"
proof
  assume e: "symb_step pt lastpc reg pc lst = Inl e"
  let ?i = "p_code pt ! nat pc"
  have "opcode_of (GET_OPCODE ?i) \<noteq> None" 
  proof
    assume "opcode_of (GET_OPCODE ?i) = None"
    then show False using e assms(1,2) by (simp add: symb_step_def rbind_at Let_def)
  qed
  then obtain op where op: "is_op ?i op" by (auto simp: opcode_of_is_op)
  have T: "skip_check pt pc op \<noteq> Inl e" using assms(1) by (auto simp: skip_check_def rbind_at res_simps at_Inl)
  obtain b c where bc: "symb_args pt pc (opnum op) ?i = Inr (Some (b, c))"
    and "obind (skip_check pt pc op) (\<lambda>_. symb_op pt lastpc reg pc
        (if testAMode (opnum op) \<and> GETARG_A ?i = reg then pc else lst) op (GETARG_A ?i) b c) = Inl e"
    using e symb_args_safe [of pt pc "opnum op" ?i e]
    unfolding symb_step_eq [OF assms(1,2) op] Let_def chk_Inl obind_Inl by (auto simp: obind_Inl)
  then obtain lst1 where err: "symb_op pt lastpc reg pc lst1 op (GETARG_A ?i) b c = Inl e"
    using T unfolding obind_Inl by blast
  have nr: "op \<noteq> OP_RETURN" using err symb_op_RETURN_safe by blast
  have "nat pc \<noteq> length (p_code pt) - 1"
    using last_index [of pc "p_code pt"] is_op_unique [OF op] assms nr by metis
  then have "pc + 1 < sizecode pt" using assms(1,2) by linarith
  then show False using symb_op_safe [OF err assms(1) _ nr] symb_args_K [OF bc] by blast
qed

lemma symb_op_last: "symb_op pt lastpc reg pc lst op a b c = Inr (Some (pc', lst')) \<Longrightarrow> lst' = pc \<or> lst' = lst"
  by (cases op) (auto simp: symb_op_def Let_def res_simps split: if_splits)

lemma symb_step_last: "symb_step pt lastpc reg pc lst = Inr (Some (pc', lst')) \<Longrightarrow> lst' = pc \<or> lst' = lst"
  by (auto simp: symb_step_def Let_def res_simps split: option.splits if_splits dest!: symb_op_last)

lemma symbexec_loop_safe:
  assumes "0 \<le> pc" "lastpc \<le> sizecode pt" "is_op (last (p_code pt)) OP_RETURN" "0 \<le> lst" "lst < sizecode pt"
  shows "\<exists>r. symbexec_loop pt lastpc reg pc lst = Inr r \<and> (\<forall>l. r = Some l \<longrightarrow> 0 \<le> l \<and> l < sizecode pt)"
  using assms
proof (induction pt lastpc reg pc lst rule: symbexec_loop.induct)
  case (1 pt lastpc reg pc lst)
  show ?case
  proof (cases "pc < lastpc")
    case True
    show ?thesis
    proof (cases "symb_step pt lastpc reg pc lst")
      case (Inl e)
      then show ?thesis using symb_step_safe [of pc pt lastpc reg lst e] 1(2-4) True by simp
    next
      case (Inr r)
      show ?thesis
      proof (cases r)
        case None
        then show ?thesis using Inr True by (subst symbexec_loop.simps) (simp add: obind_def)
      next
        case (Some p)
        obtain pc' lst' where p: "p = (pc', lst')" by fastforce
        then have st: "symb_step pt lastpc reg pc lst = Inr (Some (pc', lst'))" using Inr Some by simp
        have "0 \<le> pc' + 1" "0 \<le> lst'" "lst' < sizecode pt"
          using symb_step_forward [OF st] symb_step_last [OF st] 1(2-6) True by auto
        then have "\<exists>r. symbexec_loop pt lastpc reg (pc' + 1) lst' = Inr r \<and> (\<forall>l. r = Some l \<longrightarrow> 0 \<le> l \<and> l < sizecode pt)"
          using 1(1) [OF True st] 1(3,4) by simp
        then show ?thesis using True st by (subst symbexec_loop.simps) (simp add: obind_def)
      qed
    qed
  next
    case False
    then show ?thesis using 1(5,6) by (subst symbexec_loop.simps) simp
  qed
qed

lemma precheck_cases:
  obtains "precheck pt = Inr False" | "precheck pt = Inr True" "0 < sizecode pt" "is_op (last (p_code pt)) OP_RETURN"
proof (cases "precheck pt")
  case (Inl e)
  then show ?thesis by (auto simp: precheck_def res_simps at_Inl split: if_splits)
next
  case (Inr b)
  show ?thesis
  proof (cases b)
    case True
    then have "0 < sizecode pt" "is_op (p_code pt ! nat (sizecode pt - 1)) OP_RETURN"
      using Inr by (auto simp: precheck_def res_simps split: if_splits)
    moreover have "nat (sizecode pt - 1) = length (p_code pt) - 1" by simp
    moreover have "p_code pt \<noteq> []" using \<open>0 < sizecode pt\<close> by auto
    ultimately have "is_op (last (p_code pt)) OP_RETURN" by (simp add: last_conv_nth)
    then show ?thesis using that(2) Inr True \<open>0 < sizecode pt\<close> by simp
  qed (use Inr that(1) in simp)
qed

lemma symb_args_SETLIST: "symb_args pt pc (opnum OP_SETLIST) i = Inr (Some (b, c)) \<Longrightarrow> c = GETARG_C i"
  by (simp add: symb_args_def mode_tables Let_def res_simps)

lemma symb_step_next:
  assumes "symb_step pt lastpc NO_REG pc lst = Inr (Some (pc', lst'))"
  shows "pc' = (if setlist0 (p_code pt ! nat pc) then pc + 1 else pc)"
proof -
  from assms obtain i op b c lst1 where s: "i = p_code pt ! nat pc" "is_op i op"
    "symb_args pt pc (opnum op) i = Inr (Some (b, c))"
    "symb_op pt lastpc NO_REG pc lst1 op (GETARG_A i) b c = Inr (Some (pc', lst'))"
    by (rule symb_step_Some)
  have "setlist0 i \<longleftrightarrow> op = OP_SETLIST \<and> c = 0"
    using s(2,3) is_op_unique [OF s(2), of OP_SETLIST] symb_args_SETLIST [of pt pc i b c]
    by (cases "op = OP_SETLIST") (auto simp: setlist0_def)
  then show ?thesis using s(1,4)
    by (cases op) (auto simp: symb_op_def Let_def res_simps split: if_splits)
qed

lemma symbexec_loop_visits:
  assumes "symbexec_loop pt l NO_REG (int p) lst = Inr (Some x)" "instr_start pt p"
    and "p \<le> q" "int q < l" "instr_start pt q"
  shows "\<exists>lst r. symb_step pt l NO_REG (int q) lst = Inr (Some r)"
  using assms
proof (induction "nat (l - int p)" arbitrary: p lst rule: less_induct)
  case less
  then have lt: "int p < l" by linarith
  obtain pc' lst' where st: "symb_step pt l NO_REG (int p) lst = Inr (Some (pc', lst'))"
    and rest: "symbexec_loop pt l NO_REG (pc' + 1) lst' = Inr (Some x)"
    using less.prems(1) lt by (subst (asm) symbexec_loop.simps) (auto simp: obind_Some)
  show ?case
  proof (cases "q = p")
    case True
    then show ?thesis using st by blast
  next
    case False
    define p' where "p' = (if setlist0 (p_code pt ! p) then p + 2 else p + 1)"
    have p': "pc' + 1 = int p'" using symb_step_next [OF st] by (simp add: p'_def)
    have "instr_start pt p'" using less.prems(2) by (simp add: p'_def)
    moreover have "p' \<le> q"
    proof (rule ccontr)
      assume "\<not> p' \<le> q"
      then have "setlist0 (p_code pt ! p)" "q = Suc p" using False less.prems(3) by (auto simp: p'_def split: if_splits)
      then show False using less.prems(2,5) by simp
    qed
    moreover have "nat (l - int p') < nat (l - int p)" using lt by (simp add: p'_def)
    ultimately show ?thesis using less.hyps rest p' less.prems(4,5) by metis
  qed
qed

lemma checkcode_steps:
  assumes "gafqG_checkcode pt = Inr True" "instr_start pt q" "q < length (p_code pt)"
  shows "\<exists>lst r. symb_step pt (sizecode pt) NO_REG (int q) lst = Inr (Some r)"
proof -
  from assms(1) obtain i where i: "symbexec pt (sizecode pt) NO_REG = Inr i" "i \<noteq> 0"
    by (auto simp: gafqG_checkcode_def res_simps)
  then obtain x where "symbexec_loop pt (sizecode pt) NO_REG (int 0) (sizecode pt - 1) = Inr (Some x)"
    by (auto simp: symbexec_def res_simps split: if_splits option.splits)
  from symbexec_loop_visits [OF this, of q] assms(2,3) show ?thesis by simp
qed

subsection \<open>What the virtual machine may rely on\<close>

text \<open>Every register, constant, upvalue and nested function an instruction uses exists.\<close>

definition rk_ok :: "Proto \<Rightarrow> int \<Rightarrow> bool" where
  "rk_ok pt r \<longleftrightarrow> (if ISK r then INDEXK r < sizek pt else r < uint (p_maxstacksize pt))"

definition operands_ok :: "Proto \<Rightarrow> nat \<Rightarrow> bool" where
  "operands_ok pt pc =
     (let i = p_code pt ! pc; m = uint (p_maxstacksize pt); a = GETARG_A i; b = GETARG_B i; c = GETARG_C i
      in m \<le> MAXSTACK \<and> a < m \<and>
         (case opcode_of (GET_OPCODE i) of
            None \<Rightarrow> False
          | Some op \<Rightarrow>
              (if op \<in> {OP_MOVE, OP_LOADNIL, OP_UNM, OP_NOT, OP_LEN, OP_TESTSET, OP_GETTABLE, OP_SELF, OP_CONCAT} then b < m else True) \<and>
              (if op \<in> {OP_SETTABLE, OP_ADD, OP_SUB, OP_MUL, OP_DIV, OP_MOD, OP_POW, OP_EQ, OP_LT, OP_LE} then rk_ok pt b else True) \<and>
              (if op \<in> {OP_GETTABLE, OP_SELF, OP_SETTABLE, OP_ADD, OP_SUB, OP_MUL, OP_DIV, OP_MOD, OP_POW, OP_EQ, OP_LT, OP_LE} then rk_ok pt c else True) \<and>
              (case op of
                 OP_LOADK \<Rightarrow> GETARG_Bx i < sizek pt
               | OP_GETGLOBAL \<Rightarrow> GETARG_Bx i < sizek pt \<and> (\<exists>s. p_k pt ! nat (GETARG_Bx i) = TString s)
               | OP_SETGLOBAL \<Rightarrow> GETARG_Bx i < sizek pt \<and> (\<exists>s. p_k pt ! nat (GETARG_Bx i) = TString s)
               | OP_GETUPVAL \<Rightarrow> b < uint (p_nups pt)
               | OP_SETUPVAL \<Rightarrow> b < uint (p_nups pt)
               | OP_SELF \<Rightarrow> a + 1 < m
               | OP_CONCAT \<Rightarrow> b < c \<and> c < m
               | OP_FORLOOP \<Rightarrow> a + 3 < m
               | OP_FORPREP \<Rightarrow> a + 3 < m
               | OP_TFORLOOP \<Rightarrow> 1 \<le> c \<and> a + 2 + c < m
               | OP_CALL \<Rightarrow> a + b - 1 < m \<and> a + c - 2 < m
               | OP_TAILCALL \<Rightarrow> a + b - 1 < m
               | OP_RETURN \<Rightarrow> a + b - 2 < m
               | OP_SETLIST \<Rightarrow> a + b < m
               | OP_VARARG \<Rightarrow> a + b - 2 < m
               | OP_CLOSURE \<Rightarrow> GETARG_Bx i < sizep pt
               | _ \<Rightarrow> True)))"

lemma symb_args_modes:
  assumes "symb_args pt pc (opnum op) i = Inr (Some (b, c))"
  shows "getOpMode (opnum op) = iABC \<Longrightarrow> b = GETARG_B i \<and> c = GETARG_C i \<and>
      checkArgMode pt b (getBMode (opnum op)) \<and> checkArgMode pt c (getCMode (opnum op))"
    and "getOpMode (opnum op) = iABx \<Longrightarrow> b = GETARG_Bx i \<and> (getBMode (opnum op) = OpArgK \<longrightarrow> b < sizek pt)"
    and "getOpMode (opnum op) = iAsBx \<Longrightarrow> b = GETARG_sBx i"
  using assms by (auto simp: symb_args_def Let_def res_simps split: if_splits)

lemma symb_step_operands:
  assumes "symb_step pt lastpc reg (int pc) lst = Inr (Some r)" "uint (p_maxstacksize pt) \<le> MAXSTACK"
  shows "operands_ok pt pc"
proof -
  obtain pc' lst' where r: "r = (pc', lst')" by fastforce
  from assms(1) [unfolded r] obtain i op b c lst1 where s: "int pc < sizecode pt" "i = p_code pt ! nat (int pc)" "is_op i op"
    "checkreg pt (GETARG_A i)" "symb_args pt (int pc) (opnum op) i = Inr (Some (b, c))"
    "symb_op pt lastpc reg (int pc) lst1 op (GETARG_A i) b c = Inr (Some (pc', lst'))"
    by (rule symb_step_Some)
  have oo: "opcode_of (GET_OPCODE (p_code pt ! pc)) = Some op" using s(2,3) by (simp add: opcode_of_is_op)
  have str: "ttype v = 4 \<Longrightarrow> \<exists>x. v = TString x" for v by (cases v) auto
  note m = symb_args_modes [OF s(5)]
  show ?thesis
    using s m assms(2) str
    unfolding operands_ok_def Let_def oo option.case
    by (cases op)
      (auto simp: symb_op_def Let_def res_simps mode_tables checkArgMode_def rk_ok_def checkreg_def GAFQ_MULTRET_def split: if_splits)
qed

lemma checkcode_precheck:
  assumes "gafqG_checkcode pt = Inr True"
  shows "0 < sizecode pt" "is_op (last (p_code pt)) OP_RETURN" "uint (p_maxstacksize pt) \<le> MAXSTACK"
proof -
  have t: "precheck pt = Inr True"
    using assms by (auto simp: gafqG_checkcode_def symbexec_def res_simps split: if_splits)
  then show "0 < sizecode pt" "is_op (last (p_code pt)) OP_RETURN"
    using precheck_cases [of pt "0 < sizecode pt"] precheck_cases [of pt "is_op (last (p_code pt)) OP_RETURN"] by auto
  show "uint (p_maxstacksize pt) \<le> MAXSTACK" using t by (auto simp: precheck_def split: if_splits)
qed

text \<open>The positions \<open>gafqV_execute\<close> may go to from the instruction at \<open>pc\<close>.\<close>

definition vm_next :: "Proto \<Rightarrow> nat \<Rightarrow> int list" where
  "vm_next pt pc =
     (let i = p_code pt ! pc; n = int pc + 1
      in case opcode_of (GET_OPCODE i) of
           None \<Rightarrow> []
         | Some op \<Rightarrow>
             (case op of
                OP_JMP \<Rightarrow> [n + GETARG_sBx i]
              | OP_FORPREP \<Rightarrow> [n + GETARG_sBx i]
              | OP_FORLOOP \<Rightarrow> [n, n + GETARG_sBx i]
              | OP_LOADBOOL \<Rightarrow> [if GETARG_C i \<noteq> 0 then n + 1 else n]
              | OP_SETLIST \<Rightarrow> [if GETARG_C i = 0 then n + 1 else n]
              | OP_CLOSURE \<Rightarrow> [n + uint (p_nups (p_p pt ! nat (GETARG_Bx i)))]
              | OP_RETURN \<Rightarrow> []
              | _ \<Rightarrow> if testTMode (opnum op) then [n + 1, n + 1 + GETARG_sBx (p_code pt ! (pc + 1))] else [n]))"

definition pc_ok :: "Proto \<Rightarrow> int \<Rightarrow> bool" where
  "pc_ok pt q \<longleftrightarrow> 0 \<le> q \<and> q < sizecode pt \<and> instr_start pt (nat q)"

lemma jump_target_ok:
  assumes "symb_args pt (int pc) (opnum op) i = Inr (Some (b, c))" "op \<in> {OP_JMP, OP_FORLOOP, OP_FORPREP}"
  shows "pc_ok pt (int pc + 1 + GETARG_sBx i)"
proof -
  let ?d = "int pc + 1 + GETARG_sBx i"
  have "getOpMode (opnum op) = iAsBx \<and> getBMode (opnum op) = OpArgR" using assms(2) by (auto simp: mode_tables)
  then have d: "0 \<le> ?d" "?d < sizecode pt" "0 < ?d \<longrightarrow> (\<exists>j. setlist_run pt (nat ?d) = Inr j \<and> even j)"
    using assms(1) by (auto simp: symb_args_def Let_def res_simps split: if_splits)
  then have "instr_start pt (nat ?d)" using setlist_run_parity [of "nat ?d" pt] by (cases "?d = 0") auto
  then show ?thesis using d by (simp add: pc_ok_def)
qed

lemma check_pseudo_start:
  assumes "check_pseudo pt (int pc) n = Inr True" "instr_start pt (Suc pc)" "pc + n < length (p_code pt)"
  shows "instr_start pt (Suc (pc + n)) \<and> (0 < n \<longrightarrow> \<not> is_op (p_code pt ! (pc + n)) OP_RETURN)"
  using assms
proof (induction n arbitrary: pc)
  case (Suc n)
  let ?i = "p_code pt ! Suc pc"
  have i: "is_op ?i OP_GETUPVAL \<or> is_op ?i OP_MOVE" "check_pseudo pt (int (Suc pc)) n = Inr True"
    using Suc.prems(1,3) by (auto simp: res_simps nat_add_distrib add.commute split: if_splits)
  then have "\<not> setlist0 ?i" "\<not> is_op ?i OP_RETURN" using is_op_unique by (auto simp: setlist0_def)
  then show ?case using Suc.IH [OF i(2)] Suc.prems(2,3) by (cases n) auto
qed simp

lemma not_last:
  assumes "gafqG_checkcode pt = Inr True" "q < length (p_code pt)" "\<not> is_op (p_code pt ! q) OP_RETURN"
  shows "int q + 1 < sizecode pt"
proof -
  have "q \<noteq> length (p_code pt) - 1"
    using checkcode_precheck(2) [OF assms(1)] assms(2,3)
    by (metis last_conv_nth list.size(3) not_less_zero)
  then show ?thesis using assms(2) by linarith
qed

lemma checked_instr:
  assumes cc: "gafqG_checkcode pt = Inr True" and pc: "pc < length (p_code pt)" "instr_start pt pc"
  obtains op b c pc' lst lst' where "is_op (p_code pt ! pc) op"
    "symb_args pt (int pc) (opnum op) (p_code pt ! pc) = Inr (Some (b, c))"
    "testTMode (opnum op) \<longrightarrow> pc + 2 < length (p_code pt) \<and> is_op (p_code pt ! Suc pc) OP_JMP"
    "symb_op pt (sizecode pt) NO_REG (int pc) lst op (GETARG_A (p_code pt ! pc)) b c = Inr (Some (pc', lst'))"
proof -
  obtain l pc' lst' where st: "symb_step pt (sizecode pt) NO_REG (int pc) l = Inr (Some (pc', lst'))"
    using checkcode_steps [OF cc pc(2,1)] by (metis surj_pair)
  have t: "nat (int pc + 1) = Suc pc" by simp
  from st show ?thesis
    by (rule symb_step_Some) (rule that, auto simp: t)
qed

lemma instr_next:
  "instr_start pt pc \<Longrightarrow> is_op (p_code pt ! pc) op \<Longrightarrow> op \<noteq> OP_SETLIST \<Longrightarrow> instr_start pt (Suc pc)"
  using is_op_unique by (auto simp: setlist0_def)

text \<open>After a test comes a jump, whose target is checked as its own instruction.\<close>

lemma skip_flow:
  assumes cc: "gafqG_checkcode pt = Inr True" and pc: "pc + 2 < length (p_code pt)" "instr_start pt (Suc pc)"
    and j: "is_op (p_code pt ! Suc pc) OP_JMP"
  shows "pc_ok pt (int pc + 2)" "pc_ok pt (int pc + 2 + GETARG_sBx (p_code pt ! Suc pc))"
proof -
  have "instr_start pt (Suc (Suc pc))" using instr_next [OF pc(2) j] by simp
  then show "pc_ok pt (int pc + 2)" using pc(1) by (simp add: pc_ok_def nat_add_distrib)
  have lt: "Suc pc < length (p_code pt)" using pc(1) by simp
  obtain op b c where op: "is_op (p_code pt ! Suc pc) op"
    "symb_args pt (int (Suc pc)) (opnum op) (p_code pt ! Suc pc) = Inr (Some (b, c))"
    by (rule checked_instr [OF cc lt pc(2)])
  then have "op = OP_JMP" using is_op_unique j by blast
  then have "pc_ok pt (int (Suc pc) + 1 + GETARG_sBx (p_code pt ! Suc pc))" using jump_target_ok [OF op(2)] by simp
  then show "pc_ok pt (int pc + 2 + GETARG_sBx (p_code pt ! Suc pc))" by (simp add: algebra_simps)
qed

lemma closure_flow:
  assumes cc: "gafqG_checkcode pt = Inr True" and pc: "instr_start pt (Suc pc)" "Suc pc < length (p_code pt)"
    and n: "check_pseudo pt (int pc) n = Inr True" "int pc + int n < sizecode pt"
  shows "pc_ok pt (int pc + 1 + int n)"
proof -
  have lt: "pc + n < length (p_code pt)" using n(2) by linarith
  note ps = check_pseudo_start [OF n(1) pc(1) lt]
  have "int (pc + n) + 1 < sizecode pt" using not_last [OF cc lt] ps pc(2) by (cases n) auto
  moreover have "nat (int pc + 1 + int n) = Suc (pc + n)" by simp
  ultimately show ?thesis using ps by (simp add: pc_ok_def)
qed

lemma step_flow:
  assumes cc: "gafqG_checkcode pt = Inr True" and pc: "pc < length (p_code pt)" "instr_start pt pc"
    and lb: "is_op (p_code pt ! pc) OP_LOADBOOL \<longrightarrow> GETARG_C (p_code pt ! pc) \<le> 1" and q: "q \<in> set (vm_next pt pc)"
  shows "pc_ok pt q"
proof -
  let ?i = "p_code pt ! pc"
  obtain op b c pc' lst lst' where s: "is_op ?i op" "symb_args pt (int pc) (opnum op) ?i = Inr (Some (b, c))"
    "testTMode (opnum op) \<longrightarrow> pc + 2 < length (p_code pt) \<and> is_op (p_code pt ! Suc pc) OP_JMP"
    "symb_op pt (sizecode pt) NO_REG (int pc) lst op (GETARG_A ?i) b c = Inr (Some (pc', lst'))"
    by (rule checked_instr [OF cc pc])
  have oo: "opcode_of (GET_OPCODE ?i) = Some op" using s(1) by (simp add: opcode_of_is_op)
  have one: "nat (int pc + 1) = Suc pc" "nat (int pc + 2) = Suc (Suc pc)" by simp_all
  have lt1: "int pc + 1 < sizecode pt" if "op \<noteq> OP_RETURN"
    using that not_last [OF cc pc(1)] is_op_unique [OF s(1), of OP_RETURN] by blast
  have next1: "pc_ok pt (int pc + 1)" "Suc pc < length (p_code pt)" if "op \<noteq> OP_RETURN" "instr_start pt (Suc pc)"
    using that lt1 by (simp_all add: pc_ok_def one)
  note start = instr_next [OF pc(2) s(1)]
  consider (T) "testTMode (opnum op)" | (J) "op \<in> {OP_JMP, OP_FORLOOP, OP_FORPREP}" | (L) "op = OP_LOADBOOL"
    | (S) "op = OP_SETLIST" | (C) "op = OP_CLOSURE" | (R) "op = OP_RETURN"
    | (N) "\<not> testTMode (opnum op)" "op \<notin> {OP_JMP, OP_FORLOOP, OP_FORPREP, OP_LOADBOOL, OP_SETLIST, OP_CLOSURE, OP_RETURN}"
    by blast
  then show ?thesis
  proof cases
    case T
    then have "op \<in> {OP_EQ, OP_LT, OP_LE, OP_TEST, OP_TESTSET, OP_TFORLOOP}" by (cases op) (auto simp: testTMode_iff)
    then show ?thesis using q T s(3) skip_flow [OF cc, of pc] start by (auto simp: vm_next_def oo Let_def algebra_simps)
  next
    case J
    then show ?thesis using q jump_target_ok [OF s(2) J] next1 start by (auto simp: vm_next_def oo Let_def)
  next
    case L
    have bc: "c = GETARG_C ?i" using symb_args_modes(1) [OF s(2)] L by (simp add: mode_tables)
    show ?thesis
    proof (cases "c = 0")
      case True
      then show ?thesis using q L bc next1 start by (auto simp: vm_next_def oo Let_def)
    next
      case False
      then have "c = 1" using lb s(1) L bc GETARG_bounds(5) [of ?i] by auto
      then have "int pc + 2 < sizecode pt" "\<not> setlist0 (p_code pt ! Suc pc)"
        using s(4) L by (auto simp: symb_op_def Let_def res_simps one)
      then have "pc_ok pt (int pc + 2)" using start L by (simp add: pc_ok_def one)
      then show ?thesis using q L bc False by (simp add: vm_next_def oo Let_def add.assoc)
    qed
  next
    case S
    have bc: "c = GETARG_C ?i" using symb_args_modes(1) [OF s(2)] S by (simp add: mode_tables)
    show ?thesis
    proof (cases "c = 0")
      case True
      then have "int pc + 2 < sizecode pt" using s(4) S by (auto simp: symb_op_def Let_def res_simps)
      moreover have "setlist0 ?i" using True bc S s(1) by (simp add: setlist0_def)
      ultimately have "pc_ok pt (int pc + 2)" using pc(2) by (simp add: pc_ok_def one)
      then show ?thesis using q S bc True by (simp add: vm_next_def oo Let_def add.assoc)
    next
      case False
      then have "instr_start pt (Suc pc)" using bc by (simp add: setlist0_def)
      then show ?thesis using q S bc False next1 by (simp add: vm_next_def oo Let_def)
    qed
  next
    case C
    have bc: "b = GETARG_Bx ?i" using symb_args_K(2) [OF s(2)] C by simp
    let ?n = "uint (p_nups (p_p pt ! nat b))"
    have n: "check_pseudo pt (int pc) (nat ?n) = Inr True" "int pc + ?n < sizecode pt"
      using s(4) C by (auto simp: symb_op_def Let_def res_simps)
    have "pc_ok pt (int pc + 1 + int (nat ?n))"
      by (rule closure_flow [OF cc]) (use start C next1 n in auto)
    then show ?thesis using q C bc by (simp add: vm_next_def oo Let_def)
  next
    case R
    then show ?thesis using q by (simp add: vm_next_def oo)
  next
    case N
    then have "vm_next pt pc = [int pc + 1]" by (cases op) (auto simp: vm_next_def oo Let_def testTMode_iff)
    then show ?thesis using q next1 start N by auto
  qed
qed

subsection \<open>The guarantees of the checker\<close>

text \<open>The positions a run of a function can come to.\<close>

inductive vm_reach :: "Proto \<Rightarrow> nat \<Rightarrow> bool" for pt where
  start: "vm_reach pt 0"
| step: "vm_reach pt pc \<Longrightarrow> q \<in> set (vm_next pt pc) \<Longrightarrow> vm_reach pt (nat q)"

definition loadbool_ok :: "Proto \<Rightarrow> bool" where
  "loadbool_ok pt \<longleftrightarrow> (\<forall>i \<in> set (p_code pt). is_op i OP_LOADBOOL \<longrightarrow> GETARG_C i \<le> 1)"

text \<open>
  C8. The checker itself is safe and total: \<open>symbexec\<close> returns on every prototype, every register and every
  \<open>lastpc\<close> up to the size of the code, and never reads the code, the constants or the nested functions out
  of range, whatever the bytes are.
\<close>

theorem symbexec_safe:
  assumes "lastpc \<le> sizecode pt"
  shows "\<exists>i. symbexec pt lastpc reg = Inr i"
proof (rule precheck_cases [of pt])
  assume "precheck pt = Inr False"
  then show ?thesis by (simp add: symbexec_def)
next
  assume pre: "precheck pt = Inr True" "0 < sizecode pt" "is_op (last (p_code pt)) OP_RETURN"
  then obtain r where r: "symbexec_loop pt lastpc reg 0 (sizecode pt - 1) = Inr r" "\<forall>l. r = Some l \<longrightarrow> 0 \<le> l \<and> l < sizecode pt"
    using symbexec_loop_safe [of 0 lastpc pt "sizecode pt - 1" reg] assms by auto
  show ?thesis
  proof (cases r)
    case None
    then show ?thesis using pre r by (simp add: symbexec_def)
  next
    case (Some l)
    then show ?thesis using pre r by (auto simp: symbexec_def at_def)
  qed
qed

definition example_proto :: "Instruction list \<Rightarrow> Proto" where
  "example_proto code = Proto [] code [] [] [] [] (Some ''=x'') 0 0 0 0 0 2"

theorem symbexec_safe_witness:
  "\<exists>i. symbexec (example_proto [CREATE_ABC 30 0 1 0]) 1 0 = Inr i"
  by (rule symbexec_safe) (simp add: example_proto_def)

text \<open>
  C1. Accepted code runs safely: in a function that \<open>gafqG_checkcode\<close> accepts and whose \<open>LOADBOOL\<close>
  instructions have a field \<open>C\<close> of 0 or 1, every position a run can come to is within the code, is an
  instruction and not the count word of a \<open>SETLIST\<close>, and all its operands (registers, constants, upvalues,
  nested functions) exist.
\<close>

theorem checkcode_sound:
  assumes "gafqG_checkcode pt = Inr True" "loadbool_ok pt" "vm_reach pt pc"
  shows "pc < length (p_code pt) \<and> instr_start pt pc \<and> operands_ok pt pc"
  using assms(3)
proof (induction rule: vm_reach.induct)
  case start
  have "0 < length (p_code pt)" using checkcode_precheck(1) [OF assms(1)] by simp
  then show ?case
    using checkcode_steps [OF assms(1), of 0] symb_step_operands checkcode_precheck(3) [OF assms(1)] by auto
next
  case (step pc q)
  then have "is_op (p_code pt ! pc) OP_LOADBOOL \<longrightarrow> GETARG_C (p_code pt ! pc) \<le> 1"
    using assms(2) by (simp add: loadbool_ok_def)
  then have ok: "pc_ok pt q" using step_flow [OF assms(1)] step by blast
  then have q: "nat q < length (p_code pt)" "instr_start pt (nat q)" by (auto simp: pc_ok_def)
  then show ?case
    using checkcode_steps [OF assms(1) q(2,1)] symb_step_operands checkcode_precheck(3) [OF assms(1)] by blast
qed

theorem checkcode_sound_witness:
  "gafqG_checkcode (example_proto [CREATE_ABC 2 0 1 0, CREATE_ABC 30 0 2 0]) = Inr True \<and>
   operands_ok (example_proto [CREATE_ABC 2 0 1 0, CREATE_ABC 30 0 2 0]) 0"
proof -
  have c: "gafqG_checkcode (example_proto [CREATE_ABC 2 0 1 0, CREATE_ABC 30 0 2 0]) = Inr True" by code_simp
  have "loadbool_ok (example_proto [CREATE_ABC 2 0 1 0, CREATE_ABC 30 0 2 0])" by code_simp
  from checkcode_sound [OF c this vm_reach.start] c show ?thesis by blast
qed

text \<open>
  The one hole in the checker: it looks at the instruction a \<open>LOADBOOL\<close> skips only when \<open>C\<close> is 1, but the
  virtual machine skips for every \<open>C\<close> that is not 0.  The checker accepts a function whose first
  instruction, \<open>LOADBOOL\<close> with \<open>C = 2\<close>, sends the machine past the end of the code.
\<close>

lemma loadbool_skip_unchecked:
  "\<exists>pt. gafqG_checkcode pt = Inr True \<and> is_op (p_code pt ! 0) OP_LOADBOOL \<and> GETARG_C (p_code pt ! 0) = 2 \<and>
     vm_next pt 0 = [sizecode pt]"
  by (rule exI [of _ "example_proto [CREATE_ABC 2 0 0 2, CREATE_ABC 30 0 1 0]"]) code_simp

end
