(* ===== verification/Zio.thy ===== *)
theory Zio
  imports Objects
begin

text \<open>
  Buffered input streams: \<open>gzio.c\<close> and the macros of \<open>gzio.h\<close>.  The reader is a callback of the host: a function
  from the state of its data to a block (\<open>None\<close> for a null pointer) and the next state.  \<open>z_n\<close> is the
  count of unread bytes the code keeps, \<open>z_p\<close> the bytes from the current position on; \<open>zgetc\<close> decrements
  the count before it knows that the stream has ended, so that it wraps there, and reading on is
  \<open>Undefined\<close>.  The locale \<open>chunk_reader\<close> states what a reader promises (gafq_Reader in the manual:
  pieces of the input, then nothing); that the cut into pieces is invisible is proved from it, and
  it is interpreted on the string reader \<open>getS\<close> of \<open>gauxlib.c\<close>.
\<close>

record 'd ZIO =
  z_n :: nat
  z_p :: string
  z_data :: 'd

type_synonym 'd reader = "'d \<Rightarrow> string option \<times> 'd"

subsection \<open>The operations\<close>

definition gafqZ_init :: "'d \<Rightarrow> 'd ZIO" where
  "gafqZ_init d = \<lparr>z_n = 0, z_p = [], z_data = d\<rparr>"

definition gafqZ_fill :: "'d reader \<Rightarrow> 'd ZIO \<Rightarrow> char option \<times> 'd ZIO" where
  "gafqZ_fill reader z =
     (let (buff, d) = reader (z_data z); z' = z\<lparr>z_data := d\<rparr>
      in case buff of
           None \<Rightarrow> (None, z')
         | Some [] \<Rightarrow> (None, z')
         | Some (c # cs) \<Rightarrow> (Some c, z'\<lparr>z_n := length cs, z_p := cs\<rparr>))"

definition deref :: "string \<Rightarrow> char res" where
  "deref p = (case p of [] \<Rightarrow> Inl (Undefined ''read past the buffer'') | c # _ \<Rightarrow> Inr c)"

definition zgetc :: "'d reader \<Rightarrow> 'd ZIO \<Rightarrow> (char option \<times> 'd ZIO) res" where
  "zgetc reader z =
     (let z1 = z\<lparr>z_n := if z_n z = 0 then 2 ^ 64 - 1 else z_n z - 1\<rparr>
      in if 0 < z_n z then rbind (deref (z_p z)) (\<lambda>c. Inr (Some c, z1\<lparr>z_p := tl (z_p z)\<rparr>))
         else Inr (gafqZ_fill reader z1))"

definition gafqZ_lookahead :: "'d reader \<Rightarrow> 'd ZIO \<Rightarrow> (char option \<times> 'd ZIO) res" where
  "gafqZ_lookahead reader z =
     (if z_n z = 0
      then (case gafqZ_fill reader z of
              (None, z') \<Rightarrow> Inr (None, z')
            | (Some c, z') \<Rightarrow> Inr (Some c, z'\<lparr>z_n := z_n z' + 1, z_p := c # z_p z'\<rparr>))
      else rbind (deref (z_p z)) (\<lambda>c. Inr (Some c, z)))"

text \<open>\<open>gafqZ_read\<close> returns the bytes copied, the number of missing bytes and the stream.\<close>

function gafqZ_read :: "'d reader \<Rightarrow> 'd ZIO \<Rightarrow> nat \<Rightarrow> (string \<times> nat \<times> 'd ZIO) res" where
  "gafqZ_read reader z n =
     (if n = 0 then Inr ([], 0, z)
      else case gafqZ_lookahead reader z of
             Inl e \<Rightarrow> Inl e
           | Inr (None, z1) \<Rightarrow> Inr ([], n, z1)
           | Inr (Some _, z1) \<Rightarrow>
               (let m = (if n \<le> z_n z1 then n else z_n z1)
                in if m = 0 \<or> length (z_p z1) < m then Inl (Undefined ''read past the buffer'')
                   else case gafqZ_read reader (z1\<lparr>z_n := z_n z1 - m, z_p := drop m (z_p z1)\<rparr>) (n - m) of
                          Inl e \<Rightarrow> Inl e
                        | Inr (bs, r, z2) \<Rightarrow> Inr (take m (z_p z1) @ bs, r, z2)))"
  by pat_completeness auto
termination
  by (relation "measure (\<lambda>(reader, z, n). n)") auto

declare gafqZ_read.simps [simp del]

subsection \<open>The buffer of the scanner\<close>

record Mbuffer =
  mb_buffer :: string
  mb_n :: nat
  mb_buffsize :: nat

definition GAFQ_MINBUFFER :: nat where "GAFQ_MINBUFFER = 32"

definition gafqZ_resizebuffer :: "Mbuffer \<Rightarrow> nat \<Rightarrow> Mbuffer" where
  "gafqZ_resizebuffer b sz = b\<lparr>mb_buffer := take sz (mb_buffer b), mb_buffsize := sz\<rparr>"

definition gafqZ_openspace :: "Mbuffer \<Rightarrow> nat \<Rightarrow> Mbuffer" where
  "gafqZ_openspace buff n =
     (if mb_buffsize buff < n
      then gafqZ_resizebuffer buff (if n < GAFQ_MINBUFFER then GAFQ_MINBUFFER else n)
      else buff)"

subsection \<open>The string reader\<close>

record LoadS =
  ls_s :: string
  ls_size :: nat

definition getS :: "LoadS reader" where
  "getS ls = (if ls_size ls = 0 then (None, ls) else (Some (take (ls_size ls) (ls_s ls)), ls\<lparr>ls_size := 0\<rparr>))"

subsection \<open>What a reader promises and what the stream makes of it\<close>

definition z_ok :: "'d ZIO \<Rightarrow> bool" where
  "z_ok z \<longleftrightarrow> z_n z = length (z_p z)"

locale chunk_reader =
  fixes reader :: "'d reader" and contents :: "'d \<Rightarrow> string"
  assumes reader_some: "reader d = (Some c, d') \<Longrightarrow> contents d = c @ (if c = [] then [] else contents d')"
    and reader_none: "reader d = (None, d') \<Longrightarrow> contents d = []"
    and reader_end: "reader d = (b, d') \<Longrightarrow> b = None \<or> b = Some [] \<Longrightarrow> contents d' = []"
begin

definition zbytes :: "'d ZIO \<Rightarrow> string" where
  "zbytes z = z_p z @ contents (z_data z)"

lemma fill_cases:
  assumes "z_p z = []"
  shows "(\<exists>z'. gafqZ_fill reader z = (None, z') \<and> zbytes z = [] \<and> zbytes z' = [] \<and> z_n z' = z_n z \<and> z_p z' = []) \<or>
    (\<exists>c z'. gafqZ_fill reader z = (Some c, z') \<and> zbytes z = c # zbytes z' \<and> z_ok z')"
proof -
  obtain b d where r: "reader (z_data z) = (b, d)" by fastforce
  consider "b = None \<or> b = Some []" | c cs where "b = Some (c # cs)" by (metis list.exhaust option.exhaust)
  then show ?thesis
  proof cases
    case 1
    then have "contents d = []" "contents (z_data z) = []"
      using reader_end [OF r] reader_none [of "z_data z" d] reader_some [of "z_data z" "[]" d] r by auto
    then show ?thesis using 1 r assms by (auto simp: gafqZ_fill_def zbytes_def Let_def)
  next
    case 2
    then have "contents (z_data z) = c # cs @ contents d"
      using reader_some [of "z_data z" "c # cs" d] r by auto
    then show ?thesis using 2 r assms by (auto simp: gafqZ_fill_def zbytes_def Let_def z_ok_def)
  qed
qed

lemma lookahead_cases:
  assumes "z_ok z"
  shows "(\<exists>z'. gafqZ_lookahead reader z = Inr (None, z') \<and> z_ok z' \<and> zbytes z = [] \<and> zbytes z' = []) \<or>
    (\<exists>c z'. gafqZ_lookahead reader z = Inr (Some c, z') \<and> z_ok z' \<and> zbytes z' = zbytes z \<and> z_p z' \<noteq> [] \<and> c = hd (zbytes z))"
proof (cases "z_n z = 0")
  case True
  then have e: "z_p z = []" using assms by (simp add: z_ok_def)
  from fill_cases [OF e] show ?thesis
    using True by (auto simp: gafqZ_lookahead_def z_ok_def zbytes_def)
next
  case False
  then obtain c cs where "z_p z = c # cs" using assms by (cases "z_p z") (auto simp: z_ok_def)
  then show ?thesis using False assms by (auto simp: gafqZ_lookahead_def deref_def zbytes_def)
qed

lemma zgetc_char:
  assumes "z_ok z" "zbytes z = c # cs"
  shows "\<exists>z'. zgetc reader z = Inr (Some c, z') \<and> z_ok z' \<and> zbytes z' = cs"
proof (cases "z_n z = 0")
  case True
  then have e: "z_p (z\<lparr>z_n := 2 ^ 64 - 1\<rparr>) = []" "zbytes (z\<lparr>z_n := 2 ^ 64 - 1\<rparr>) = c # cs"
    using assms by (auto simp: z_ok_def zbytes_def)
  from fill_cases [OF e(1)] e(2) True show ?thesis by (auto simp: zgetc_def)
next
  case False
  then obtain x xs where "z_p z = x # xs" using assms(1) by (cases "z_p z") (auto simp: z_ok_def)
  then show ?thesis using False assms by (auto simp: zgetc_def deref_def z_ok_def zbytes_def)
qed

lemma zgetc_end: "z_ok z \<Longrightarrow> zbytes z = [] \<Longrightarrow> \<exists>z'. zgetc reader z = Inr (None, z')"
  using fill_cases [of "z\<lparr>z_n := 2 ^ 64 - 1\<rparr>"] by (auto simp: zgetc_def zbytes_def z_ok_def)

text \<open>Reading \<open>n\<close> bytes gives the next \<open>n\<close> bytes of the input, or all that is left and the number missing.\<close>

lemma read_spec:
  assumes "z_ok z"
  shows "\<exists>z'. gafqZ_read reader z n = Inr (take n (zbytes z), n - length (zbytes z), z') \<and>
    z_ok z' \<and> zbytes z' = drop n (zbytes z)"
  using assms
proof (induction n arbitrary: z rule: less_induct)
  case (less n)
  show ?case
  proof (cases "n = 0")
    case True
    then show ?thesis using less.prems by (simp add: gafqZ_read.simps)
  next
    case False
    from lookahead_cases [OF less.prems] show ?thesis
    proof (elim disjE exE conjE)
      fix z1 assume "gafqZ_lookahead reader z = Inr (None, z1)" "z_ok z1" "zbytes z = []" "zbytes z1 = []"
      then show ?thesis using False by (simp add: gafqZ_read.simps [of reader z n])
    next
      fix c z1 assume z1: "gafqZ_lookahead reader z = Inr (Some c, z1)" "z_ok z1" "zbytes z1 = zbytes z" "z_p z1 \<noteq> []"
      define m where "m = (if n \<le> z_n z1 then n else z_n z1)"
      define z2 where "z2 = z1\<lparr>z_n := z_n z1 - m, z_p := drop m (z_p z1)\<rparr>"
      have m: "m \<noteq> 0" "m \<le> n" "m \<le> length (z_p z1)" using z1(2,4) False by (auto simp: m_def z_ok_def)
      have z2: "z_ok z2" "zbytes z2 = drop m (zbytes z)"
        using z1(2) m unfolding z1(3) [symmetric] by (auto simp: z2_def z_ok_def zbytes_def)
      obtain z3 where z3: "gafqZ_read reader z2 (n - m) = Inr (take (n - m) (zbytes z2), n - m - length (zbytes z2), z3)"
        "z_ok z3" "zbytes z3 = drop (n - m) (zbytes z2)" using less.IH [of "n - m" z2] m z2(1) by auto
      have "gafqZ_read reader z n = Inr (take m (z_p z1) @ take (n - m) (zbytes z2), n - m - length (zbytes z2), z3)"
        using False z1(1) z3(1) m by (simp add: gafqZ_read.simps [of reader z n] m_def [symmetric] z2_def [symmetric] Let_def)
      moreover have "take m (z_p z1) = take m (zbytes z)" 
        using m(3) unfolding z1(3) [symmetric] by (simp add: zbytes_def)
      moreover have "take m (zbytes z) @ take (n - m) (drop m (zbytes z)) = take n (zbytes z)"
        using m(2) by (metis le_add_diff_inverse take_add)
      moreover have "n - m - length (zbytes z2) = n - length (zbytes z)"
      proof -
        have "m \<le> length (zbytes z)" using m(3) unfolding z1(3) [symmetric] by (simp add: zbytes_def)
        then show ?thesis using z2(2) by simp
      qed
      ultimately show ?thesis using z2 z3(2,3) m(2) by (simp add: add.commute)
    qed
  qed
qed

end

text \<open>The string reader keeps the promise: one block, then the end.\<close>

interpretation str: chunk_reader getS "\<lambda>ls. take (ls_size ls) (ls_s ls)"
  by unfold_locales (auto simp: getS_def split: if_splits)

end
