(* ===== verification/Undump.thy ===== *)
theory Undump
  imports Zio Debug
begin

text \<open>
  Saving and loading of precompiled functions: \<open>gdump.c\<close> and \<open>gundump.c\<close>.  The writer is a callback of
  the host, a function from a block and the state of its data to a status and the next state; the
  loader reads a stream of \<open>Zio\<close>.  An \<open>int\<close> is four bytes, a \<open>size_t\<close> and a number eight, the least
  significant first.  Two places where the C code leaves its own contract are kept visible: a
  string constant of size zero is loaded as a null pointer, and \<open>gafqU_header\<close> writes one byte
  more than the buffer of both its callers has; both are \<open>Undefined\<close>.
\<close>

subsection \<open>Bytes\<close>

primrec to_le :: "nat \<Rightarrow> nat \<Rightarrow> string" where
  "to_le 0 n = []"
| "to_le (Suc k) n = char_of (n mod 256) # to_le k (n div 256)"

primrec of_le :: "string \<Rightarrow> nat" where
  "of_le [] = 0"
| "of_le (c # cs) = of_char c + 256 * of_le cs"

definition int_bytes :: "int \<Rightarrow> string" where
  "int_bytes x = to_le 4 (nat (x mod 2 ^ 32))"

definition sint32 :: "nat \<Rightarrow> int" where
  "sint32 v = (if 2 ^ 31 \<le> v then int v - 2 ^ 32 else int v)"

subsection \<open>The header\<close>

definition GAFQ_SIGNATURE :: string where "GAFQ_SIGNATURE = CHR 0x1B # ''Gafq''"
definition GAFQC_VERSION :: nat where "GAFQC_VERSION = 0x51"
definition GAFQC_FORMAT :: nat where "GAFQC_FORMAT = 0"
definition GAFQC_HEADERSIZE :: nat where "GAFQC_HEADERSIZE = 12"

text \<open>\<open>gafqU_header\<close> on an array of \<open>sz\<close> bytes: it writes the bytes below from the address it is given on.\<close>

definition header_bytes :: string where
  "header_bytes = GAFQ_SIGNATURE @
     [char_of GAFQC_VERSION, char_of GAFQC_FORMAT, char_of (1::nat), char_of (4::nat), char_of (8::nat),
      char_of (4::nat), char_of (8::nat), char_of (0::nat)]"

definition gafqU_header :: "nat \<Rightarrow> string res" where
  "gafqU_header sz = (if sz < length header_bytes then Inl (Undefined ''write past the header buffer'') else Inr header_bytes)"

subsection \<open>Saving\<close>

record 'w DumpState =
  d_strip :: bool
  d_status :: int
  d_data :: 'w

type_synonym 'w dwriter = "string \<Rightarrow> 'w \<Rightarrow> int \<times> 'w"

definition DumpBlock :: "'w dwriter \<Rightarrow> string \<Rightarrow> 'w DumpState \<Rightarrow> 'w DumpState" where
  "DumpBlock writer b D =
     (if d_status D = 0 then (let (s, w) = writer b (d_data D) in D\<lparr>d_status := s, d_data := w\<rparr>) else D)"

definition DumpChar :: "'w dwriter \<Rightarrow> nat \<Rightarrow> 'w DumpState \<Rightarrow> 'w DumpState" where
  "DumpChar writer y = DumpBlock writer [char_of y]"

definition DumpInt :: "'w dwriter \<Rightarrow> int \<Rightarrow> 'w DumpState \<Rightarrow> 'w DumpState" where
  "DumpInt writer x = DumpBlock writer (int_bytes x)"

definition DumpNumber :: "'w dwriter \<Rightarrow> gafq_Number \<Rightarrow> 'w DumpState \<Rightarrow> 'w DumpState" where
  "DumpNumber writer x = DumpBlock writer (to_le 8 (unat x))"

definition DumpVector :: "'w dwriter \<Rightarrow> string \<Rightarrow> nat \<Rightarrow> 'w DumpState \<Rightarrow> 'w DumpState" where
  "DumpVector writer b n D = DumpBlock writer b (DumpInt writer (int n) D)"

definition DumpString :: "'w dwriter \<Rightarrow> string option \<Rightarrow> 'w DumpState \<Rightarrow> 'w DumpState" where
  "DumpString writer so D =
     (case so of
        None \<Rightarrow> DumpBlock writer (to_le 8 0) D
      | Some s \<Rightarrow> DumpBlock writer (s @ [CHR 0x00]) (DumpBlock writer (to_le 8 (length s + 1)) D))"

definition DumpCode :: "'w dwriter \<Rightarrow> Proto \<Rightarrow> 'w DumpState \<Rightarrow> 'w DumpState" where
  "DumpCode writer f = DumpVector writer (concat (map (\<lambda>i. to_le 4 (unat i)) (p_code f))) (length (p_code f))"

definition DumpConstant :: "'w dwriter \<Rightarrow> TValue \<Rightarrow> 'w DumpState \<Rightarrow> 'w DumpState" where
  "DumpConstant writer v D =
     (let D1 = DumpChar writer (ttype v) D
      in case v of
           TBoolean b \<Rightarrow> DumpChar writer (if b then 1 else 0) D1
         | TNumber n \<Rightarrow> DumpNumber writer n D1
         | TString s \<Rightarrow> DumpString writer (Some s) D1
         | _ \<Rightarrow> D1)"

definition DumpLocVar :: "'w dwriter \<Rightarrow> LocVar \<Rightarrow> 'w DumpState \<Rightarrow> 'w DumpState" where
  "DumpLocVar writer v D =
     DumpInt writer (endpc v) (DumpInt writer (startpc v) (DumpString writer (varname v) D))"

definition DumpDebug :: "'w dwriter \<Rightarrow> Proto \<Rightarrow> 'w DumpState \<Rightarrow> 'w DumpState" where
  "DumpDebug writer f D =
     (let li = (if d_strip D then [] else p_lineinfo f);
          D1 = DumpVector writer (concat (map int_bytes li)) (length li) D;
          lv = (if d_strip D then [] else p_locvars f);
          D2 = fold (DumpLocVar writer) lv (DumpInt writer (int (length lv)) D1);
          uv = (if d_strip D then [] else p_upvalues f)
      in fold (DumpString writer) uv (DumpInt writer (int (length uv)) D2))"

lemma size_nested_proto [termination_simp]: "c \<in> set (p_p f) \<Longrightarrow> size c < size f"
  by (cases f) (auto dest: size_list_estimation' [OF _ order_refl, of _ _ size] simp: less_Suc_eq_le trans_le_add1 trans_le_add2)

text \<open>\<open>DumpConstants\<close> and \<open>DumpFunction\<close> call each other.\<close>

function DumpFunction :: "'w dwriter \<Rightarrow> Proto \<Rightarrow> string option \<Rightarrow> 'w DumpState \<Rightarrow> 'w DumpState"
  and DumpConstants :: "'w dwriter \<Rightarrow> Proto \<Rightarrow> 'w DumpState \<Rightarrow> 'w DumpState" where
  "DumpFunction writer f p D =
     (let D1 = DumpString writer (if p_source f = p \<or> d_strip D then None else p_source f) D;
          D2 = DumpInt writer (p_lastlinedefined f) (DumpInt writer (p_linedefined f) D1);
          D3 = DumpChar writer (unat (p_maxstacksize f)) (DumpChar writer (unat (p_is_vararg f))
                 (DumpChar writer (unat (p_numparams f)) (DumpChar writer (unat (p_nups f)) D2)))
      in DumpDebug writer f (DumpConstants writer f (DumpCode writer f D3)))"
| "DumpConstants writer f D =
     (let D1 = fold (DumpConstant writer) (p_k f) (DumpInt writer (int (length (p_k f))) D)
      in fold (\<lambda>c. DumpFunction writer c (p_source f)) (p_p f) (DumpInt writer (int (length (p_p f))) D1))"
  by pat_completeness auto
termination
  by (relation "measure (\<lambda>x. case x of Inl (w, f, p, D) \<Rightarrow> 2 * size f + 1 | Inr (w, f, D) \<Rightarrow> 2 * size f)")
    (auto dest: size_nested_proto)

declare DumpFunction.simps [simp del] DumpConstants.simps [simp del]

definition DumpHeader :: "'w dwriter \<Rightarrow> 'w DumpState \<Rightarrow> 'w DumpState res" where
  "DumpHeader writer D =
     rbind (gafqU_header GAFQC_HEADERSIZE) (\<lambda>h. Inr (DumpBlock writer (take GAFQC_HEADERSIZE h) D))"

definition gafqU_dump :: "'w dwriter \<Rightarrow> Proto \<Rightarrow> 'w \<Rightarrow> bool \<Rightarrow> (int \<times> 'w) res" where
  "gafqU_dump writer f data strip =
     rbind (DumpHeader writer \<lparr>d_strip = strip, d_status = 0, d_data = data\<rparr>) (\<lambda>D.
       let D = DumpFunction writer f None D in Inr (d_status D, d_data D))"

subsection \<open>Loading\<close>

type_synonym ('d, 'a) loader = "'d ZIO \<Rightarrow> ('a \<times> 'd ZIO) res"

definition lbind :: "('d, 'a) loader \<Rightarrow> ('a \<Rightarrow> ('d, 'b) loader) \<Rightarrow> ('d, 'b) loader" where
  "lbind m f z = rbind (m z) (\<lambda>(x, z'). f x z')"

definition lreturn :: "'a \<Rightarrow> ('d, 'a) loader" where
  "lreturn x z = Inr (x, z)"

primrec lrepeat :: "nat \<Rightarrow> ('d, 'a) loader \<Rightarrow> ('d, 'a list) loader" where
  "lrepeat 0 m = lreturn []"
| "lrepeat (Suc n) m = lbind m (\<lambda>x. lbind (lrepeat n m) (\<lambda>xs. lreturn (x # xs)))"

definition load_error :: "string \<Rightarrow> string \<Rightarrow> gerr" where
  "load_error name why = SyntaxError (name @ '': '' @ why @ '' in precompiled chunk'')"

definition LoadBlock :: "'d reader \<Rightarrow> string \<Rightarrow> nat \<Rightarrow> ('d, string) loader" where
  "LoadBlock reader name sz z =
     rbind (gafqZ_read reader z sz) (\<lambda>(bs, r, z').
       if r \<noteq> 0 then Inl (load_error name ''unexpected end'') else Inr (bs, z'))"

definition LoadChar :: "'d reader \<Rightarrow> string \<Rightarrow> ('d, int) loader" where
  "LoadChar reader name =
     lbind (LoadBlock reader name 1) (\<lambda>bs. let v = int (of_le bs) in lreturn (if 128 \<le> v then v - 256 else v))"

definition LoadByte :: "'d reader \<Rightarrow> string \<Rightarrow> ('d, 8 word) loader" where
  "LoadByte reader name = lbind (LoadChar reader name) (\<lambda>x. lreturn (word_of_int x))"

definition LoadInt :: "'d reader \<Rightarrow> string \<Rightarrow> ('d, int) loader" where
  "LoadInt reader name =
     lbind (LoadBlock reader name 4) (\<lambda>bs. let x = sint32 (of_le bs)
       in if x < 0 then (\<lambda>z. Inl (load_error name ''bad integer'')) else lreturn x)"

definition LoadNumber :: "'d reader \<Rightarrow> string \<Rightarrow> ('d, gafq_Number) loader" where
  "LoadNumber reader name = lbind (LoadBlock reader name 8) (\<lambda>bs. lreturn (of_nat (of_le bs)))"

definition LoadString :: "'d reader \<Rightarrow> string \<Rightarrow> ('d, string option) loader" where
  "LoadString reader name =
     lbind (LoadBlock reader name 8) (\<lambda>sb. let sz = of_le sb
       in if sz = 0 then lreturn None
          else lbind (LoadBlock reader name sz) (\<lambda>s. lreturn (Some (take (sz - 1) s))))"

definition LoadCode :: "'d reader \<Rightarrow> string \<Rightarrow> ('d, Instruction list) loader" where
  "LoadCode reader name =
     lbind (LoadInt reader name) (\<lambda>n.
       lrepeat (nat n) (lbind (LoadBlock reader name 4) (\<lambda>bs. lreturn (of_nat (of_le bs)))))"

definition LoadConstant :: "'d reader \<Rightarrow> string \<Rightarrow> ('d, TValue) loader" where
  "LoadConstant reader name =
     lbind (LoadChar reader name) (\<lambda>t.
       if t = 0 then lreturn TNil
       else if t = 1 then lbind (LoadChar reader name) (\<lambda>b. lreturn (TBoolean (b \<noteq> 0)))
       else if t = 3 then lbind (LoadNumber reader name) (\<lambda>n. lreturn (TNumber n))
       else if t = 4 then lbind (LoadString reader name) (\<lambda>so. case so of
              Some s \<Rightarrow> lreturn (TString s)
            | None \<Rightarrow> (\<lambda>z. Inl (Undefined ''null string constant'')))
       else (\<lambda>z. Inl (load_error name ''bad constant'')))"

definition LoadLocVar :: "'d reader \<Rightarrow> string \<Rightarrow> ('d, LocVar) loader" where
  "LoadLocVar reader name =
     lbind (LoadString reader name) (\<lambda>v. lbind (LoadInt reader name) (\<lambda>s. lbind (LoadInt reader name) (\<lambda>e.
       lreturn \<lparr>varname = v, startpc = s, endpc = e\<rparr>)))"

definition LoadDebug :: "'d reader \<Rightarrow> string \<Rightarrow> ('d, int list \<times> LocVar list \<times> string option list) loader" where
  "LoadDebug reader name =
     lbind (LoadInt reader name) (\<lambda>n.
     lbind (lrepeat (nat n) (lbind (LoadBlock reader name 4) (\<lambda>bs. lreturn (sint32 (of_le bs))))) (\<lambda>li.
     lbind (LoadInt reader name) (\<lambda>n.
     lbind (lrepeat (nat n) (LoadLocVar reader name)) (\<lambda>lv.
     lbind (LoadInt reader name) (\<lambda>n.
     lbind (lrepeat (nat n) (LoadString reader name)) (\<lambda>uv. lreturn (li, lv, uv)))))))"

text \<open>
  \<open>LoadFunction d\<close> is the function with \<open>nCcalls\<close> at \<open>GAFQI_MAXCCALLS - d\<close>, \<open>LoadConstants\<close> is
  given the loader of the nested functions.
\<close>

definition GAFQI_MAXCCALLS :: nat where "GAFQI_MAXCCALLS = 200"

definition LoadConstants ::
  "('d, Proto) loader \<Rightarrow> 'd reader \<Rightarrow> string \<Rightarrow> ('d, TValue list \<times> Proto list) loader" where
  "LoadConstants load_nested reader name =
     lbind (LoadInt reader name) (\<lambda>n.
     lbind (lrepeat (nat n) (LoadConstant reader name)) (\<lambda>k.
     lbind (LoadInt reader name) (\<lambda>n.
     lbind (lrepeat (nat n) load_nested) (\<lambda>p. lreturn (k, p)))))"

primrec LoadFunction :: "nat \<Rightarrow> 'd reader \<Rightarrow> string \<Rightarrow> string option \<Rightarrow> ('d, Proto) loader" where
  "LoadFunction 0 reader name p = (\<lambda>z. Inl (load_error name ''code too deep''))"
| "LoadFunction (Suc d) reader name p =
     lbind (LoadString reader name) (\<lambda>src0. let src = (if src0 = None then p else src0) in
     lbind (LoadInt reader name) (\<lambda>linedefined.
     lbind (LoadInt reader name) (\<lambda>lastlinedefined.
     lbind (LoadByte reader name) (\<lambda>nups.
     lbind (LoadByte reader name) (\<lambda>numparams.
     lbind (LoadByte reader name) (\<lambda>is_vararg.
     lbind (LoadByte reader name) (\<lambda>maxstacksize.
     lbind (LoadCode reader name) (\<lambda>code.
     lbind (LoadConstants (LoadFunction d reader name src) reader name) (\<lambda>(k, ps).
     lbind (LoadDebug reader name) (\<lambda>(li, lv, uv).
     let f = Proto k code ps li lv uv src linedefined lastlinedefined nups numparams is_vararg maxstacksize in
     (\<lambda>z. rbind (gafqG_checkcode f) (\<lambda>ok. if ok then Inr (f, z) else Inl (load_error name ''bad code'')))))))))))))"

definition LoadHeader :: "'d reader \<Rightarrow> string \<Rightarrow> ('d, unit) loader" where
  "LoadHeader reader name =
     lbind (\<lambda>z. rbind (gafqU_header GAFQC_HEADERSIZE) (\<lambda>h. Inr (h, z))) (\<lambda>h.
     lbind (LoadBlock reader name GAFQC_HEADERSIZE) (\<lambda>s.
       if take GAFQC_HEADERSIZE h \<noteq> s then (\<lambda>z. Inl (load_error name ''bad header'')) else lreturn ()))"

definition chunk_name :: "string \<Rightarrow> string" where
  "chunk_name name =
     (if take 1 name = ''@'' \<or> take 1 name = ''='' then tl name
      else if take 1 name = take 1 GAFQ_SIGNATURE then ''binary string'' else name)"

definition gafqU_undump :: "nat \<Rightarrow> 'd reader \<Rightarrow> string \<Rightarrow> ('d, Proto) loader" where
  "gafqU_undump nCcalls reader name0 =
     (let name = chunk_name name0
      in lbind (LoadHeader reader name) (\<lambda>_.
           LoadFunction (GAFQI_MAXCCALLS - nCcalls) reader name (Some ''=?'')))"

subsection \<open>The writer of \<open>string.dump\<close>\<close>

text \<open>\<open>writer\<close> of \<open>gstrlib.c\<close> appends the block to a buffer, known by its contents.\<close>

definition str_writer :: "string dwriter" where
  "str_writer b B = (0, B @ b)"

end
