(* ===== verification/Undump_Round.thy ===== *)
theory Undump_Round
  imports Undump
begin

text \<open>
  The round trip between \<open>gdump.c\<close> and \<open>gundump.c\<close>.  The locale \<open>byte_writer\<close> is the promise of a writer that keeps
  all it is given, interpreted on the writer of \<open>string.dump\<close>: under it every \<open>Dump\<close> operation
  appends a byte string computed from the function alone (the \<open>b_\<close> functions).  In the locale \<open>chunk_reader\<close> of the
  input streams, \<open>loads\<close> says that a loader reads exactly such a byte string, and that it ends with
  ``unexpected end'' on every proper prefix; it is composed along the loaders.
\<close>

subsection \<open>Bytes\<close>

lemma length_to_le [simp]: "length (to_le k n) = k"
  by (induction k arbitrary: n) auto

lemma of_le_to_le: "of_le (to_le k n) = n mod 256 ^ k"
proof (induction k arbitrary: n)
  case (Suc k)
  have "of_le (to_le (Suc k) n) = n mod 256 + 256 * (n div 256 mod 256 ^ k)" using Suc by simp
  also have "\<dots> = n mod 256 ^ Suc k" by (simp add: mod_mult2_eq add.commute)
  finally show ?case .
qed simp

lemma of_le_to_le_id: "n < 256 ^ k \<Longrightarrow> of_le (to_le k n) = n"
  by (simp add: of_le_to_le)

lemma word_le_id [simp]:
  "of_nat (of_le (to_le 4 (unat (i :: Instruction)))) = i" "of_nat (of_le (to_le 8 (unat (x :: gafq_Number)))) = x"
  using unsigned_less [of i, where ?'a = nat] unsigned_less [of x, where ?'a = nat]
  by (simp_all add: of_le_to_le_id)

definition int_range :: "int \<Rightarrow> bool" where
  "int_range x \<longleftrightarrow> - (2 ^ 31) \<le> x \<and> x < 2 ^ 31"

lemma int_bytes_id: "int_range x \<Longrightarrow> sint32 (of_le (int_bytes x)) = x"
proof -
  assume x: "int_range x"
  have "nat (x mod 2 ^ 32) < 256 ^ 4" by (simp add: nat_less_iff)
  then have v: "of_le (int_bytes x) = nat (x mod 2 ^ 32)" unfolding int_bytes_def by (rule of_le_to_le_id)
  show ?thesis
  proof (cases "0 \<le> x")
    case True
    then have "x mod 2 ^ 32 = x" using x by (intro mod_pos_pos_trivial) (auto simp: int_range_def)
    then show ?thesis using v x True by (simp add: sint32_def int_range_def)
  next
    case False
    then have "x mod 2 ^ 32 = x + 2 ^ 32"
      using x mod_add_self2 [of x "2 ^ 32"] mod_pos_pos_trivial [of "x + 2 ^ 32" "2 ^ 32"] by (simp add: int_range_def)
    then show ?thesis using v x False by (simp add: sint32_def int_range_def)
  qed
qed

subsection \<open>The bytes of a function\<close>

definition b_string :: "string option \<Rightarrow> string" where
  "b_string so = (case so of None \<Rightarrow> to_le 8 0 | Some s \<Rightarrow> to_le 8 (length s + 1) @ s @ [CHR 0x00])"

definition b_const :: "TValue \<Rightarrow> string" where
  "b_const v = [char_of (ttype v)] @
     (case v of
        TBoolean b \<Rightarrow> [char_of (if b then 1 else 0 :: nat)]
      | TNumber n \<Rightarrow> to_le 8 (unat n)
      | TString s \<Rightarrow> b_string (Some s)
      | _ \<Rightarrow> [])"

definition b_locvar :: "LocVar \<Rightarrow> string" where
  "b_locvar v = b_string (varname v) @ int_bytes (startpc v) @ int_bytes (endpc v)"

definition b_list :: "('a \<Rightarrow> string) \<Rightarrow> 'a list \<Rightarrow> string" where
  "b_list b xs = int_bytes (int (length xs)) @ concat (map b xs)"

definition b_debug :: "bool \<Rightarrow> Proto \<Rightarrow> string" where
  "b_debug strip f =
     b_list int_bytes (if strip then [] else p_lineinfo f) @
     b_list b_locvar (if strip then [] else p_locvars f) @
     b_list b_string (if strip then [] else p_upvalues f)"

definition b_byte :: "8 word \<Rightarrow> string" where
  "b_byte w = [char_of (unat w)]"

fun b_function :: "bool \<Rightarrow> string option \<Rightarrow> Proto \<Rightarrow> string" where
  "b_function strip p (Proto k code ps li lv uv src ld lld nups np va ms) =
     b_string (if src = p \<or> strip then None else src) @ int_bytes ld @ int_bytes lld @
     b_byte nups @ b_byte np @ b_byte va @ b_byte ms @
     b_list (\<lambda>i. to_le 4 (unat i)) code @ b_list b_const k @
     int_bytes (int (length ps)) @ concat (map (b_function strip src) ps) @
     b_debug strip (Proto k code ps li lv uv src ld lld nups np va ms)"

subsection \<open>Writers that keep what they are given\<close>

locale byte_writer =
  fixes writer :: "'w dwriter" and out :: "'w \<Rightarrow> string"
  assumes writes: "fst (writer b w) = 0" "out (snd (writer b w)) = out w @ b"
begin

definition emits :: "('w DumpState \<Rightarrow> 'w DumpState) \<Rightarrow> (bool \<Rightarrow> string) \<Rightarrow> bool" where
  "emits g bs \<longleftrightarrow> (\<forall>D. d_status D = 0 \<longrightarrow> d_status (g D) = 0 \<and> d_strip (g D) = d_strip D \<and>
     out (d_data (g D)) = out (d_data D) @ bs (d_strip D))"

lemma emitsD: "emits g bs \<Longrightarrow> d_status D = 0 \<Longrightarrow>
  d_status (g D) = 0 \<and> d_strip (g D) = d_strip D \<and> out (d_data (g D)) = out (d_data D) @ bs (d_strip D)"
  by (simp add: emits_def)

lemma emits_block: "emits (DumpBlock writer b) (\<lambda>_. b)"
  using writes by (auto simp: emits_def DumpBlock_def split: prod.splits) (metis fst_conv, metis snd_conv)

lemma emits_comp: "emits g bs \<Longrightarrow> emits h cs \<Longrightarrow> emits (\<lambda>D. h (g D)) (\<lambda>s. bs s @ cs s)"
  by (auto simp: emits_def)

lemma emits_id: "emits (\<lambda>D. D) (\<lambda>_. [])"
  by (simp add: emits_def)

lemma emits_fold:
  assumes "\<And>x. x \<in> set xs \<Longrightarrow> emits (g x) (\<lambda>s. b s x)"
  shows "emits (fold g xs) (\<lambda>s. concat (map (b s) xs))"
  using assms
proof (induction xs)
  case (Cons x xs)
  have "emits (g x) (\<lambda>s. b s x)" "emits (fold g xs) (\<lambda>s. concat (map (b s) xs))" using Cons by auto
  from emits_comp [OF this] show ?case by (simp add: o_def)
qed (simp add: emits_id id_def)

lemma emits_int: "emits (DumpInt writer x) (\<lambda>_. int_bytes x)"
  unfolding DumpInt_def by (rule emits_block)

lemma emits_char: "emits (DumpChar writer y) (\<lambda>_. [char_of y])"
  unfolding DumpChar_def by (rule emits_block)

lemma emits_string: "emits (DumpString writer so) (\<lambda>_. b_string so)"
  unfolding DumpString_def b_string_def
  by (cases so) (use emits_block emits_comp [OF emits_block emits_block] in auto)

lemma emits_vector: "emits (DumpVector writer (concat (map b xs)) (length xs)) (\<lambda>_. b_list b xs)"
  unfolding DumpVector_def b_list_def by (rule emits_comp [OF emits_int emits_block])

lemma emits_const: "emits (DumpConstant writer v) (\<lambda>_. b_const v)"
  unfolding DumpConstant_def b_const_def Let_def DumpNumber_def
  using emits_comp [OF emits_char emits_char] emits_comp [OF emits_char emits_block]
    emits_comp [OF emits_char emits_string] emits_char by (cases v) fastforce+

lemma emits_locvar: "emits (DumpLocVar writer v) (\<lambda>_. b_locvar v)"
  unfolding DumpLocVar_def b_locvar_def
  using emits_comp [OF emits_comp [OF emits_string emits_int] emits_int] by simp

lemma emits_list:
  assumes "\<And>x. x \<in> set xs \<Longrightarrow> emits (g x) (\<lambda>_. b x)"
  shows "emits (\<lambda>D. fold g xs (DumpInt writer (int (length xs)) D)) (\<lambda>_. b_list b xs)"
  unfolding b_list_def by (rule emits_comp [OF emits_int emits_fold]) (rule assms)

lemma emits_debug: "emits (DumpDebug writer f) (\<lambda>s. b_debug s f)"
  unfolding emits_def
proof (intro allI impI)
  fix D :: "'w DumpState" assume D: "d_status D = 0"
  let ?x = "\<lambda>xs. if d_strip D then [] else xs"
  note all = emits_comp [OF emits_comp [OF emits_vector [of int_bytes "?x (p_lineinfo f)"]
      emits_list [of "?x (p_locvars f)" "DumpLocVar writer" b_locvar, OF emits_locvar]]
      emits_list [of "?x (p_upvalues f)" "DumpString writer" b_string, OF emits_string]]
  from emitsD [OF all D]
  show "d_status (DumpDebug writer f D) = 0 \<and> d_strip (DumpDebug writer f D) = d_strip D \<and>
      out (d_data (DumpDebug writer f D)) = out (d_data D) @ b_debug (d_strip D) f"
    by (simp add: DumpDebug_def Let_def b_debug_def o_def cong: if_cong)
qed

end

context byte_writer
begin

lemma emits_function: "emits (DumpFunction writer f p) (\<lambda>s. b_function s p f)"
proof (induction "size f" arbitrary: f p rule: less_induct)
  case less
  have code: "emits (DumpCode writer f) (\<lambda>s. b_list (\<lambda>i. to_le 4 (unat i)) (p_code f))"
    unfolding DumpCode_def by (rule emits_vector)
  have kons: "emits (\<lambda>D. fold (DumpConstant writer) (p_k f) (DumpInt writer (int (length (p_k f))) D)) (\<lambda>_. b_list b_const (p_k f))"
    by (rule emits_list [OF emits_const])
  have nested: "emits (fold (\<lambda>c. DumpFunction writer c (p_source f)) (p_p f)) (\<lambda>s. concat (map (b_function s (p_source f)) (p_p f)))"
    by (rule emits_fold) (auto intro: less dest: size_nested_proto)
  have constants: "emits (DumpConstants writer f)
      (\<lambda>s. (b_list b_const (p_k f) @ int_bytes (int (length (p_p f)))) @ concat (map (b_function s (p_source f)) (p_p f)))"
    using emits_comp [OF emits_comp [OF kons emits_int [of "int (length (p_p f))"]] nested]
    unfolding DumpConstants.simps [abs_def] Let_def by simp
  show ?case unfolding emits_def
  proof (intro allI impI)
    fix D :: "'w DumpState" assume D: "d_status D = 0"
    note line = emits_int [of "p_linedefined f"] and lastline = emits_int [of "p_lastlinedefined f"]
    note bytes = emits_char [of "unat (p_nups f)"] emits_char [of "unat (p_numparams f)"]
      emits_char [of "unat (p_is_vararg f)"] emits_char [of "unat (p_maxstacksize f)"]
    note source = emits_string [of "if p_source f = p \<or> d_strip D then None else p_source f"]
    note fixed = emits_comp [OF emits_comp [OF emits_comp [OF emits_comp [OF emits_comp [OF emits_comp [OF source line] lastline]
      bytes(1)] bytes(2)] bytes(3)] bytes(4)]
    from emitsD [OF emits_comp [OF emits_comp [OF emits_comp [OF fixed code] constants] emits_debug [of f]] D]
    show "d_status (DumpFunction writer f p D) = 0 \<and> d_strip (DumpFunction writer f p D) = d_strip D \<and>
        out (d_data (DumpFunction writer f p D)) = out (d_data D) @ b_function (d_strip D) p f"
      by (cases f) (simp add: DumpFunction.simps Let_def b_byte_def cong: if_cong)
  qed
qed

lemma dump_bytes:
  "d_status (DumpFunction writer f p \<lparr>d_strip = strip, d_status = 0, d_data = w\<rparr>) = 0 \<and>
   out (d_data (DumpFunction writer f p \<lparr>d_strip = strip, d_status = 0, d_data = w\<rparr>)) = out w @ b_function strip p f"
  using emitsD [OF emits_function [of f p], of "\<lparr>d_strip = strip, d_status = 0, d_data = w\<rparr>"] by simp

end

interpretation strw: byte_writer str_writer "\<lambda>w. w"
  by unfold_locales (auto simp: str_writer_def)

subsection \<open>What is read back\<close>

text \<open>
  The source a function without a source of its own takes from its parent is lost where the
  parent had none: \<open>norm\<close> is the function a loader with the parent's source \<open>pl\<close> gets from a function
  saved under a parent with source \<open>pd\<close>.
\<close>

fun norm_proto :: "bool \<Rightarrow> string option \<Rightarrow> string option \<Rightarrow> Proto \<Rightarrow> Proto" where
  "norm_proto strip pd pl (Proto k code ps li lv uv src ld lld nups np va ms) =
     (let src' = (if src = None \<or> src = pd \<or> strip then pl else src)
      in Proto k code (map (norm_proto strip src src') ps)
           (if strip then [] else li) (if strip then [] else lv) (if strip then [] else uv)
           src' ld lld nups np va ms)"

definition fits_string :: "string option \<Rightarrow> bool" where
  "fits_string so = (case so of None \<Rightarrow> True | Some s \<Rightarrow> length s + 1 < 2 ^ 64)"

definition nonneg_int :: "int \<Rightarrow> bool" where
  "nonneg_int x \<longleftrightarrow> 0 \<le> x \<and> x < 2 ^ 31"

definition saved_const :: "TValue \<Rightarrow> bool" where
  "saved_const v = (case v of TNil \<Rightarrow> True | TBoolean b \<Rightarrow> True | TNumber n \<Rightarrow> True | TString s \<Rightarrow> fits_string (Some s) | _ \<Rightarrow> False)"

definition fits_list :: "('a \<Rightarrow> bool) \<Rightarrow> 'a list \<Rightarrow> bool" where
  "fits_list P xs \<longleftrightarrow> nonneg_int (int (length xs)) \<and> list_all P xs"

definition fits_locvar :: "LocVar \<Rightarrow> bool" where
  "fits_locvar v \<longleftrightarrow> fits_string (varname v) \<and> nonneg_int (startpc v) \<and> nonneg_int (endpc v)"

text \<open>
  A function fits the format when its counts are C \<open>int\<close>s and its strings have a \<open>size_t\<close> size, its
  constants are of the four types the format has, its nesting is below \<open>d\<close> and the checker accepts it
  and each nested function.
\<close>

fun loadable :: "nat \<Rightarrow> bool \<Rightarrow> string option \<Rightarrow> string option \<Rightarrow> Proto \<Rightarrow> bool" where
  "loadable d strip pd pl (Proto k code ps li lv uv src ld lld nups np va ms) \<longleftrightarrow>
     0 < d \<and> fits_string src \<and> nonneg_int ld \<and> nonneg_int lld \<and>
     fits_list (\<lambda>_. True) code \<and> fits_list saved_const k \<and>
     fits_list int_range li \<and> fits_list fits_locvar lv \<and> fits_list fits_string uv \<and>
     nonneg_int (int (length ps)) \<and>
     (let src' = (if src = None \<or> src = pd \<or> strip then pl else src)
      in (\<forall>c\<in>set ps. loadable (d - 1) strip src src' c)) \<and>
     gafqG_checkcode (norm_proto strip pd pl (Proto k code ps li lv uv src ld lld nups np va ms)) = Inr True"

context chunk_reader
begin

definition loads :: "string \<Rightarrow> ('d, 'a) loader \<Rightarrow> string \<Rightarrow> 'a \<Rightarrow> bool" where
  "loads name L bs x \<longleftrightarrow> (\<forall>z. z_ok z \<longrightarrow>
     (\<forall>rest. zbytes z = bs @ rest \<longrightarrow> (\<exists>z'. L z = Inr (x, z') \<and> z_ok z' \<and> zbytes z' = rest)) \<and>
     (\<forall>t. zbytes z @ t = bs \<longrightarrow> t \<noteq> [] \<longrightarrow> L z = Inl (load_error name ''unexpected end'')))"

lemma loads_read: "loads name L bs x \<Longrightarrow> z_ok z \<Longrightarrow> zbytes z = bs @ rest \<Longrightarrow> \<exists>z'. L z = Inr (x, z') \<and> z_ok z' \<and> zbytes z' = rest"
  by (simp add: loads_def)

lemma loads_cut: "loads name L bs x \<Longrightarrow> z_ok z \<Longrightarrow> zbytes z @ t = bs \<Longrightarrow> t \<noteq> [] \<Longrightarrow> L z = Inl (load_error name ''unexpected end'')"
  by (simp add: loads_def)

lemma loads_return: "loads name (lreturn x) [] x"
  by (simp add: loads_def lreturn_def)

lemma loads_bind:
  assumes m: "loads name m bs x" and f: "loads name (f x) cs y"
  shows "loads name (lbind m f) (bs @ cs) y"
  unfolding loads_def
proof (intro allI impI conjI)
  fix z rest assume "z_ok z" "zbytes z = (bs @ cs) @ rest"
  then show "\<exists>z'. lbind m f z = Inr (y, z') \<and> z_ok z' \<and> zbytes z' = rest"
    using loads_read [OF m, of z "cs @ rest"] loads_read [OF f, of _ rest] by (force simp: lbind_def)
next
  fix z t assume z: "z_ok z" "zbytes z @ t = bs @ cs" "t \<noteq> []"
  then consider us where "zbytes z = bs @ us" "us @ t = cs" | us where "zbytes z @ us = bs" "us \<noteq> []"
    by (metis append_eq_append_conv2 append_Nil append_Nil2)
  then show "lbind m f z = Inl (load_error name ''unexpected end'')"
  proof cases
    case 1
    then show ?thesis using loads_read [OF m z(1), of us] loads_cut [OF f, of _ t] z(3) by (force simp: lbind_def)
  next
    case 2
    then show ?thesis using loads_cut [OF m z(1)] by (simp add: lbind_def)
  qed
qed

lemma loads_bind0: "loads name m bs x \<Longrightarrow> loads name (f x) [] y \<Longrightarrow> loads name (lbind m f) bs y"
  using loads_bind [of name m bs x f "[]" y] by simp

lemma loads_map: "loads name m bs x \<Longrightarrow> loads name (lbind m (\<lambda>x. lreturn (f x))) bs (f x)"
  by (erule loads_bind0) (rule loads_return)

lemma loads_repeat:
  assumes "\<And>x. x \<in> set xs \<Longrightarrow> loads name m (b x) (g x)"
  shows "loads name (lrepeat (length xs) m) (concat (map b xs)) (map g xs)"
  using assms
proof (induction xs)
  case (Cons x xs)
  have "loads name m (b x) (g x)" and rest: "loads name (lrepeat (length xs) m) (concat (map b xs)) (map g xs)" using Cons by auto
  from loads_bind [of name m "b x" "g x", OF this(1) loads_map [OF rest]]
  show ?case by simp
qed (simp add: loads_return)

lemma loads_block: "length bs = n \<Longrightarrow> loads name (LoadBlock reader name n) bs bs"
  unfolding loads_def
proof (intro allI impI conjI)
  fix z rest assume n: "length bs = n" and z: "z_ok z" "zbytes z = bs @ rest"
  then show "\<exists>z'. LoadBlock reader name n z = Inr (bs, z') \<and> z_ok z' \<and> zbytes z' = rest"
    using read_spec [OF z(1), of n] by (auto simp: LoadBlock_def)
next
  fix z t assume z: "length bs = n" "z_ok z" "zbytes z @ t = bs" "t \<noteq> []"
  then have "length (zbytes z) < n" by auto
  then show "LoadBlock reader name n z = Inl (load_error name ''unexpected end'')"
    using read_spec [OF z(2), of n] by (auto simp: LoadBlock_def)
qed

lemma loads_int:
  assumes "nonneg_int x" shows "loads name (LoadInt reader name) (int_bytes x) x"
proof -
  have i: "int_range x" "\<not> x < 0" using assms by (auto simp: nonneg_int_def int_range_def)
  show ?thesis unfolding LoadInt_def
    by (rule loads_bind0 [OF loads_block]) (simp add: int_bytes_def, simp add: int_bytes_id [OF i(1)] i(2) loads_return)
qed

lemma loads_list:
  assumes "nonneg_int (int (length xs))" "\<And>x. x \<in> set xs \<Longrightarrow> loads name m (b x) (g x)"
  shows "loads name (lbind (LoadInt reader name) (\<lambda>n. lrepeat (nat n) m)) (b_list b xs) (map g xs)"
  unfolding b_list_def by (rule loads_bind [OF loads_int [OF assms(1)]]) (use loads_repeat [OF assms(2)] in simp)

lemma loads_list_bind:
  assumes "nonneg_int (int (length xs))" "\<And>x. x \<in> set xs \<Longrightarrow> loads name m (b x) (g x)" "loads name (f (map g xs)) cs y"
  shows "loads name (lbind (LoadInt reader name) (\<lambda>n. lbind (lrepeat (nat n) m) f)) (b_list b xs @ cs) y"
  unfolding b_list_def append.assoc
proof (rule loads_bind [OF loads_int [OF assms(1)]], rule loads_bind [of _ _ _ "map g xs"])
  show "loads name (lrepeat (nat (int (length xs))) m) (concat (map b xs)) (map g xs)" using loads_repeat [OF assms(2)] by simp
qed (rule assms(3))

lemmas loads_same_bind = loads_list_bind [where g = "\<lambda>x. x", unfolded list.map_ident]

lemma loads_char: "n < 256 \<Longrightarrow> loads name (LoadChar reader name) [char_of n] (if 128 \<le> n then int n - 256 else int n)"
  unfolding LoadChar_def
  by (rule loads_bind0 [OF loads_block]) (auto simp: Let_def loads_return)

lemma loads_byte: "loads name (LoadByte reader name) (b_byte w) w"
proof -
  have u: "unat w < 256" using unsigned_less [of w, where ?'a = nat] by simp
  have w: "word_of_int (if 128 \<le> unat w then int (unat w) - 256 else int (unat w)) = w"
    by (auto simp: word_eq_iff_unsigned)
  show ?thesis unfolding LoadByte_def b_byte_def
    by (rule loads_bind0 [OF loads_char [OF u]]) (simp only: w loads_return)
qed

lemma loads_number: "loads name (LoadNumber reader name) (to_le 8 (unat x)) x"
  unfolding LoadNumber_def by (rule loads_bind0 [OF loads_block]) (simp_all add: loads_return)

lemma loads_string: "fits_string so \<Longrightarrow> loads name (LoadString reader name) (b_string so) so"
proof (cases so)
  case None
  show ?thesis unfolding LoadString_def None b_string_def option.case
    by (rule loads_bind0 [OF loads_block]) (simp_all add: loads_return of_le_to_le)
next
  case (Some s)
  assume "fits_string so"
  then have n: "of_le (to_le 8 (length s + 1)) = length s + 1" by (intro of_le_to_le_id) (simp add: Some fits_string_def)
  have b: "loads name (LoadBlock reader name (length s + 1)) (s @ [CHR 0x00]) (s @ [CHR 0x00])" by (rule loads_block) simp
  show ?thesis unfolding LoadString_def Some b_string_def option.case
    by (rule loads_bind [OF loads_block], simp, simp only: n Let_def)
      (use loads_map [OF b, of "\<lambda>s'. Some (take (length s) s')"] in simp)
qed

lemma loads_code:
  "nonneg_int (int (length code)) \<Longrightarrow> loads name (LoadCode reader name) (b_list (\<lambda>i. to_le 4 (unat i)) code) code"
  using loads_list [of code name _ "\<lambda>i. to_le 4 (unat i)" "\<lambda>i. i"] unfolding LoadCode_def
  by (simp add: loads_bind0 [OF loads_block] loads_return)

lemma loads_const: "saved_const v \<Longrightarrow> loads name (LoadConstant reader name) (b_const v) v"
  unfolding LoadConstant_def b_const_def
proof (rule loads_bind [OF loads_char])
  assume v: "saved_const v"
  show "ttype v < 256" by (cases v) simp_all
  show "loads name
     ((\<lambda>t. if t = 0 then lreturn TNil
       else if t = 1 then lbind (LoadChar reader name) (\<lambda>b. lreturn (TBoolean (b \<noteq> 0)))
       else if t = 3 then lbind (LoadNumber reader name) (\<lambda>n. lreturn (TNumber n))
       else if t = 4 then lbind (LoadString reader name) (\<lambda>so. case so of
              Some s \<Rightarrow> lreturn (TString s)
            | None \<Rightarrow> (\<lambda>z. Inl (Undefined ''null string constant'')))
       else (\<lambda>z. Inl (load_error name ''bad constant'')))
      (if 128 \<le> ttype v then int (ttype v) - 256 else int (ttype v)))
     (case v of TBoolean b \<Rightarrow> [char_of (if b then 1 else 0 :: nat)] | TNumber n \<Rightarrow> to_le 8 (unat n)
      | TString s \<Rightarrow> b_string (Some s) | _ \<Rightarrow> []) v"
    using v
  proof (cases v)
    case (TBoolean b)
    then show ?thesis using loads_map [OF loads_char [of "if b then 1 else 0" name], of "\<lambda>b. TBoolean (b \<noteq> 0)"] by (cases b) simp_all
  next
    case (TNumber n)
    then show ?thesis using loads_map [OF loads_number [of name n], of TNumber] by simp
  next
    case (TString s)
    then have "fits_string (Some s)" using v by (simp add: saved_const_def)
    from loads_string [OF this] show ?thesis using TString by (auto intro!: loads_bind0 loads_return)
  qed (simp_all add: saved_const_def loads_return)
qed

lemma loads_locvar: "fits_locvar v \<Longrightarrow> loads name (LoadLocVar reader name) (b_locvar v) v"
proof -
  assume v: "fits_locvar v"
  then have "loads name (LoadLocVar reader name) (b_locvar v) \<lparr>varname = varname v, startpc = startpc v, endpc = endpc v\<rparr>"
    unfolding LoadLocVar_def b_locvar_def fits_locvar_def
    by (intro loads_bind [OF loads_string] loads_bind [OF loads_int] loads_bind0 [OF loads_int]) (simp_all add: loads_return)
  then show ?thesis by (cases v) simp
qed

lemma loads_debug:
  assumes "fits_list int_range (if strip then [] else p_lineinfo f)"
    "fits_list fits_locvar (if strip then [] else p_locvars f)" "fits_list fits_string (if strip then [] else p_upvalues f)"
  shows "loads name (LoadDebug reader name) (b_debug strip f)
    (if strip then [] else p_lineinfo f, if strip then [] else p_locvars f, if strip then [] else p_upvalues f)"
proof -
  define li lv uv where "li = (if strip then [] else p_lineinfo f)" and "lv = (if strip then [] else p_locvars f)"
    and "uv = (if strip then [] else p_upvalues f)"
  have n: "nonneg_int (int (length li))" "nonneg_int (int (length lv))" "nonneg_int (int (length uv))"
    and e: "\<And>x. x \<in> set li \<Longrightarrow> int_range x" "\<And>x. x \<in> set lv \<Longrightarrow> fits_locvar x" "\<And>x. x \<in> set uv \<Longrightarrow> fits_string x"
    using assms by (auto simp: fits_list_def li_def lv_def uv_def list_all_iff)
  have "loads name (lbind (LoadBlock reader name 4) (\<lambda>bs. lreturn (sint32 (of_le bs)))) (int_bytes x) x" if "x \<in> set li" for x
    by (rule loads_bind0 [OF loads_block]) (simp add: int_bytes_def, simp add: int_bytes_id e(1) that loads_return)
  from loads_same_bind [OF n(1) this loads_same_bind [OF n(2) loads_locvar [OF e(2)]
      loads_same_bind [OF n(3) loads_string [OF e(3)] loads_return]]]
  show ?thesis unfolding b_debug_def LoadDebug_def li_def [symmetric] lv_def [symmetric] uv_def [symmetric] by simp
qed

end

context chunk_reader
begin

lemma loads_check:
  "gafqG_checkcode f = Inr True \<Longrightarrow>
   loads name (\<lambda>z. rbind (gafqG_checkcode f) (\<lambda>ok. if ok then Inr (f, z) else Inl e)) [] f"
  by (simp add: loads_def)

lemma loads_function:
  "loadable d strip pd pl f \<Longrightarrow>
   loads name (LoadFunction d reader name pl) (b_function strip pd f) (norm_proto strip pd pl f)"
proof (induction d strip pd pl f rule: loadable.induct)
  case (1 d strip pd pl k code ps li lv uv src ld lld nups np va ms)
  let ?f = "Proto k code ps li lv uv src ld lld nups np va ms"
  define s where "s = (if src = pd \<or> strip then None else src)"
  define src' where "src' = (if src = None \<or> src = pd \<or> strip then pl else src)"
  have s: "fits_string s" "(if s = None then pl else s) = src'"
    using 1(2) by (auto simp: s_def src'_def fits_string_def)
  obtain d' where d: "d = Suc d'" using 1(2) by (cases d) auto
  have ints: "nonneg_int ld" "nonneg_int lld" "nonneg_int (int (length code))" "nonneg_int (int (length k))"
    "nonneg_int (int (length ps))" using 1(2) by (auto simp: fits_list_def)
  have consts': "\<And>v. v \<in> set k \<Longrightarrow> saved_const v" using 1(2) by (auto simp: fits_list_def list_all_iff)
  have dbg: "fits_list int_range (if strip then [] else p_lineinfo ?f)"
    "fits_list fits_locvar (if strip then [] else p_locvars ?f)" "fits_list fits_string (if strip then [] else p_upvalues ?f)"
    using 1(2) by (auto simp: fits_list_def nonneg_int_def)
  have check: "gafqG_checkcode (norm_proto strip pd pl ?f) = Inr True" using 1(2) by (simp del: norm_proto.simps)
  have nested: "loads name (LoadFunction d' reader name src') (b_function strip src c) (norm_proto strip src src' c)"
    if "c \<in> set ps" for c
    using 1(1) [OF src'_def that] 1(2) that d by (simp add: src'_def [symmetric] Let_def)
  have nest: "loads name (LoadConstants (LoadFunction d' reader name src') reader name)
      (b_list b_const k @ b_list (b_function strip src) ps) (k, map (norm_proto strip src src') ps)"
    unfolding LoadConstants_def
  proof (rule loads_same_bind [OF ints(4) loads_const [OF consts']], assumption)
    show "loads name (lbind (LoadInt reader name) (\<lambda>n. lbind (lrepeat (nat n) (LoadFunction d' reader name src')) (\<lambda>p. lreturn (k, p))))
      (b_list (b_function strip src) ps) (k, map (norm_proto strip src src') ps)"
      using loads_list_bind [of ps name _ "b_function strip src" "norm_proto strip src src'" "\<lambda>p. lreturn (k, p)" "[]",
        OF ints(5) nested loads_return] by simp
  qed
  note rules = loads_bind [OF loads_int [OF ints(1)]] loads_bind [OF loads_int [OF ints(2)]] loads_bind [OF loads_byte]
    loads_bind [OF loads_code [OF ints(3)]] loads_bind [OF nest] loads_bind0 [OF loads_debug [OF dbg]]
  have "loads name (LoadFunction d reader name pl) (b_string s @ int_bytes ld @ int_bytes lld @
     b_byte nups @ b_byte np @ b_byte va @ b_byte ms @ b_list (\<lambda>i. to_le 4 (unat i)) code @
     (b_list b_const k @ b_list (b_function strip src) ps) @ b_debug strip ?f) (norm_proto strip pd pl ?f)"
    unfolding d LoadFunction.simps
    apply (rule loads_bind [OF loads_string [OF s(1)]])
    unfolding s(2) Let_def
    apply (rule rules)+
    unfolding prod.case
    apply (rule rules)
    unfolding prod.case 
    using loads_check [OF check, of name "load_error name ''bad code''"] by (simp add: src'_def Let_def cong: if_cong)
  then show ?case by (simp add: s_def b_list_def cong: if_cong)
qed

lemma init_bytes: "z_ok (gafqZ_init d)" "zbytes (gafqZ_init d) = contents d"
  by (simp_all add: gafqZ_init_def z_ok_def zbytes_def)

lemma load_read:
  assumes "loadable n strip pd pl f" "contents d = b_function strip pd f"
  shows "\<exists>z. LoadFunction n reader name pl (gafqZ_init d) = Inr (norm_proto strip pd pl f, z) \<and> zbytes z = []"
  using loads_read [OF loads_function [OF assms(1)] init_bytes(1), of d "[]"] assms(2) init_bytes(2) by auto

lemma load_cut:
  assumes "loadable n strip pd pl f" "contents d @ t = b_function strip pd f" "t \<noteq> []"
  shows "LoadFunction n reader name pl (gafqZ_init d) = Inl (load_error name ''unexpected end'')"
  using loads_cut [OF loads_function [OF assms(1)] init_bytes(1), of d t] assms(2,3) init_bytes(2) by auto

end

text \<open>Every function has a source and nested functions one of their own or their parent's.\<close>

fun sourced :: "Proto \<Rightarrow> bool" where
  "sourced (Proto k code ps li lv uv src ld lld nups np va ms) \<longleftrightarrow> src \<noteq> None \<and> (\<forall>c\<in>set ps. sourced c)"

lemma norm_sourced: "sourced f \<Longrightarrow> p_source f = pd \<longrightarrow> pl = pd \<Longrightarrow> norm_proto False pd pl f = f"
  by (induction False pd pl f rule: norm_proto.induct) (auto simp: Let_def intro!: map_idI split: if_splits)

subsection \<open>Saving and loading\<close>

abbreviation saved :: "bool \<Rightarrow> string option \<Rightarrow> Proto \<Rightarrow> string" where
  "saved strip p f \<equiv> d_data (DumpFunction str_writer f p \<lparr>d_strip = strip, d_status = 0, d_data = []\<rparr>)"

lemma dump_output: "saved strip p f = b_function strip p f"
  using strw.dump_bytes [of f p strip "[]"] by simp

text \<open>
  C17. Saving a function and loading it again, from the end of the header on: let \<open>f\<close> be a function that fits the format (\<open>loadable\<close>: counts and
  lines that are non-negative \<open>int\<close>s, strings whose size is a \<open>size_t\<close>, constants of the four types the format has, a nesting below the bound on C calls, and
  each function, as it is loaded, is accepted by \<open>gafqG_checkcode\<close>).  Whatever reader delivers the bytes that \<open>DumpFunction\<close> wrote and however it cuts
  them into pieces, \<open>LoadFunction\<close> returns the function that was saved, with a missing
  source replaced by the parent's and, after stripping, without its debug information.
\<close>

theorem dump_undump:
  assumes "chunk_reader reader contents"
    and "contents d = d_data (DumpFunction str_writer f pd \<lparr>d_strip = strip, d_status = 0, d_data = []\<rparr>)"
    and "loadable n strip pd pl f"
  shows "\<exists>z. LoadFunction n reader name pl (gafqZ_init d) = Inr (norm_proto strip pd pl f, z)"
  using chunk_reader.load_read [OF assms(1,3), of d name] assms(2) unfolding dump_output by blast

definition example_nested :: Proto where
  "example_nested = Proto [TNumber 5, TString ''f'', TNil, TBoolean True] [CREATE_ABx 36 0 0, CREATE_ABC 30 0 2 0, CREATE_ABC 30 0 1 0]
     [Proto [TString ''x''] [CREATE_ABC 30 0 1 0] [] [2] [] [] (Some ''=x'') 2 2 0 0 0 2]
     [1, 2, 3] [\<lparr>varname = Some ''v'', startpc = 0, endpc = 2\<rparr>] [] (Some ''=x'') 0 3 0 0 2 2"

definition example_input :: "bool \<Rightarrow> nat \<Rightarrow> LoadS" where
  "example_input strip n = (let b = saved strip None example_nested in \<lparr>ls_s = b, ls_size = length b - n\<rparr>)"

lemma example_checked:
  "gafqG_checkcode (norm_proto True None (Some ''=?'') example_nested) = Inr True"
  "gafqG_checkcode (norm_proto True (Some ''=x'') (Some ''=?'') (p_p example_nested ! 0)) = Inr True"
  "gafqG_checkcode (norm_proto False None (Some ''=?'') example_nested) = Inr True"
  "gafqG_checkcode (norm_proto False (Some ''=x'') (Some ''=x'') (p_p example_nested ! 0)) = Inr True"
  by code_simp+

lemma example_loadable: "loadable GAFQI_MAXCCALLS strip None (Some ''=?'') example_nested"
  using example_checked
  by (cases strip) (simp_all add: example_nested_def fits_list_def nonneg_int_def fits_string_def saved_const_def int_range_def
    fits_locvar_def GAFQI_MAXCCALLS_def)

lemma example_input_bytes:
  "take (ls_size (example_input strip 0)) (ls_s (example_input strip 0)) = saved strip None example_nested"
  by (simp add: example_input_def Let_def)

theorem dump_undump_witness:
  "\<exists>z. LoadFunction GAFQI_MAXCCALLS getS ''x'' (Some ''=?'') (gafqZ_init (example_input True 0)) =
     Inr (norm_proto True None (Some ''=?'') example_nested, z)"
  by (rule dump_undump [OF str.chunk_reader_axioms example_input_bytes example_loadable])

text \<open>
  C4. The exact round trip, from the end of the header on: a function that fits the format (\<open>loadable\<close>, as in the property before), in which every function
  has a source (\<open>sourced\<close>), saved with its debug information, is loaded as it was, through any reader.
\<close>

theorem dump_undump_exact:
  assumes "chunk_reader reader contents"
    and "contents d = d_data (DumpFunction str_writer f None \<lparr>d_strip = False, d_status = 0, d_data = []\<rparr>)"
    and "loadable n False None pl f" and "sourced f"
  shows "\<exists>z. LoadFunction n reader name pl (gafqZ_init d) = Inr (f, z)"
proof -
  have "p_source f \<noteq> None" using assms(4) by (cases f) simp
  then have "norm_proto False None pl f = f" using norm_sourced [OF assms(4), of None pl] by fastforce
  then show ?thesis
    using chunk_reader.load_read [OF assms(1,3), of d name] assms(2) unfolding dump_output by auto
qed

theorem dump_undump_exact_witness:
  "\<exists>z. LoadFunction GAFQI_MAXCCALLS getS ''x'' (Some ''=?'') (gafqZ_init (example_input False 0)) = Inr (example_nested, z)"
  by (rule dump_undump_exact [OF str.chunk_reader_axioms example_input_bytes example_loadable]) code_simp

text \<open>
  C15. A truncated function is refused: when the reader delivers only a part of what \<open>DumpFunction\<close> wrote for a function that fits the format
  (\<open>loadable\<close>), cut at any place, \<open>LoadFunction\<close> ends with the syntax error ``unexpected end''.
\<close>

theorem undump_truncated:
  assumes "chunk_reader reader contents"
    and "contents d @ t = d_data (DumpFunction str_writer f pd \<lparr>d_strip = strip, d_status = 0, d_data = []\<rparr>)" and "t \<noteq> []"
    and "loadable n strip pd pl f"
  shows "LoadFunction n reader name pl (gafqZ_init d) = Inl (load_error name ''unexpected end'')"
  using chunk_reader.load_cut [OF assms(1,4) assms(2) [unfolded dump_output] assms(3)] .

theorem undump_truncated_witness:
  "LoadFunction GAFQI_MAXCCALLS getS ''x'' (Some ''=?'') (gafqZ_init (example_input False 1)) = Inl (load_error ''x'' ''unexpected end'')"
proof (rule undump_truncated [OF str.chunk_reader_axioms _ _ example_loadable])
  show "take (ls_size (example_input False 1)) (ls_s (example_input False 1)) @
      drop (ls_size (example_input False 1)) (saved False None example_nested) = saved False None example_nested"
    by (simp add: example_input_def Let_def)
  have "saved False None example_nested \<noteq> []" by (simp add: dump_output example_nested_def b_string_def)
  then have "length (saved False None example_nested) - 1 < length (saved False None example_nested)" by (intro diff_less) simp_all
  then show "drop (ls_size (example_input False 1)) (saved False None example_nested) \<noteq> []" by (simp add: example_input_def Let_def)
qed

subsection \<open>Where the code leaves its own bounds\<close>

text \<open>
  \<open>gafqU_header\<close> writes thirteen bytes, one for each of the five characters of the signature and eight more;
  both callers give it an array of \<open>GAFQC_HEADERSIZE\<close>, twelve.  Every call of \<open>gafqU_dump\<close> and of \<open>gafqU_undump\<close> writes past it.
\<close>

lemma header_overflow:
  "gafqU_dump writer f w strip = Inl (Undefined ''write past the header buffer'')"
  "gafqU_undump nCcalls reader name z = Inl (Undefined ''write past the header buffer'')"
proof -
  have "gafqU_header GAFQC_HEADERSIZE = Inl (Undefined ''write past the header buffer'')" by code_simp
  then show "gafqU_dump writer f w strip = Inl (Undefined ''write past the header buffer'')"
    "gafqU_undump nCcalls reader name z = Inl (Undefined ''write past the header buffer'')"
    by (simp_all add: gafqU_dump_def DumpHeader_def gafqU_undump_def LoadHeader_def lbind_def Let_def)
qed

text \<open>A string constant whose size field is zero, which no saved function has, is used as a null string.\<close>

lemma null_constant:
  "LoadConstant getS ''x'' (gafqZ_init \<lparr>ls_s = CHR 0x04 # to_le 8 0, ls_size = 9\<rparr>) = Inl (Undefined ''null string constant'')"
  by code_simp

end
