(* ===== verification/Ctype.thy ===== *)
theory Ctype
  imports Prelude
begin

text \<open>
  The character functions of \<open>ctype.h\<close> in the C locale, which is the one a program starts in and the
  interpreter itself leaves alone, and zero-terminated strings: a string of length \<open>n\<close> may be
  read at the positions \<open>0\<close> to \<open>n\<close>, at \<open>n\<close> the terminating zero; any other read is \<open>Undefined\<close>.
\<close>

abbreviation uchar :: "char \<Rightarrow> nat" where "uchar c \<equiv> of_char c"
abbreviation NUL :: char where "NUL \<equiv> CHR 0x00"

definition isdigit :: "char \<Rightarrow> bool" where "isdigit c \<longleftrightarrow> 48 \<le> uchar c \<and> uchar c \<le> 57"
definition islower :: "char \<Rightarrow> bool" where "islower c \<longleftrightarrow> 97 \<le> uchar c \<and> uchar c \<le> 122"
definition isupper :: "char \<Rightarrow> bool" where "isupper c \<longleftrightarrow> 65 \<le> uchar c \<and> uchar c \<le> 90"
definition isalpha :: "char \<Rightarrow> bool" where "isalpha c \<longleftrightarrow> islower c \<or> isupper c"
definition isalnum :: "char \<Rightarrow> bool" where "isalnum c \<longleftrightarrow> isalpha c \<or> isdigit c"
definition isspace :: "char \<Rightarrow> bool" where "isspace c \<longleftrightarrow> uchar c = 32 \<or> 9 \<le> uchar c \<and> uchar c \<le> 13"
definition iscntrl :: "char \<Rightarrow> bool" where "iscntrl c \<longleftrightarrow> uchar c < 32 \<or> uchar c = 127"
definition ispunct :: "char \<Rightarrow> bool" where "ispunct c \<longleftrightarrow> 33 \<le> uchar c \<and> uchar c \<le> 126 \<and> \<not> isalnum c"
definition isxdigit :: "char \<Rightarrow> bool" where
  "isxdigit c \<longleftrightarrow> isdigit c \<or> 97 \<le> uchar c \<and> uchar c \<le> 102 \<or> 65 \<le> uchar c \<and> uchar c \<le> 70"
definition tolower :: "char \<Rightarrow> char" where "tolower c = (if isupper c then char_of (uchar c + 32) else c)"
definition toupper :: "char \<Rightarrow> char" where "toupper c = (if islower c then char_of (uchar c - 32) else c)"

definition cread :: "string \<Rightarrow> nat \<Rightarrow> char res" where
  "cread p i = (if i < length p then Inr (p ! i) else if i = length p then Inr NUL else Inl (Undefined ''read past a string''))"

lemma cread_ok: "i \<le> length p \<Longrightarrow> \<exists>c. cread p i = Inr c"
  by (auto simp: cread_def)

lemma cread_Inr: "cread p i = Inr c \<Longrightarrow> i \<le> length p \<and> (c \<noteq> NUL \<longrightarrow> i < length p \<and> c = p ! i)"
  by (auto simp: cread_def split: if_splits)

lemma cread_Inl [simp]: "cread p i = Inl e \<longleftrightarrow> length p < i \<and> e = Undefined ''read past a string''"
  by (auto simp: cread_def)

text \<open>The decimal digits of a number, as \<open>%d\<close> prints them.\<close>

function digits :: "nat \<Rightarrow> string" where
  "digits n = (if n < 10 then [char_of (48 + n)] else digits (n div 10) @ [char_of (48 + n mod 10)])"
  by pat_completeness auto
termination
  by (relation "measure id") auto

declare digits.simps [simp del]

text \<open>The result is one the program defines: a value or an error it raises.\<close>

definition defined :: "'a res \<Rightarrow> bool" where
  "defined r = (case r of Inr _ \<Rightarrow> True | Inl (Undefined _) \<Rightarrow> False | Inl OutOfFuel \<Rightarrow> False | Inl _ \<Rightarrow> True)"

lemma defined_simps [simp]:
  "defined (Inr x)" "defined (Inl (RunError e))" "defined (Inl (SyntaxError e))" "defined (Inl MemError)"
  "\<not> defined (Inl (Undefined e))" "\<not> defined (Inl OutOfFuel)"
  by (simp_all add: defined_def)

lemma defined_rbind: "defined r \<Longrightarrow> (\<And>x. r = Inr x \<Longrightarrow> defined (f x)) \<Longrightarrow> defined (rbind r f)"
  by (cases r) (auto simp: defined_def)

end
