(* ===== verification/Lex.thy ===== *)
theory Lex
  imports Zio Ctype Strings
begin

text \<open>
  The lexical analyser \<open>glex.c\<close>.  The current character is \<open>None\<close> at the end of the stream
  (\<open>EOZ\<close>), tokens are the numbers of the C enumeration.  The input is a stream of \<open>Zio\<close> with any reader,
  so the loops of the scanner are bounded by a fuel; \<open>Lex_Props\<close> shows that the number of characters left is
  enough.  \<open>gafqO_str2d\<close> is a parameter (it is the \<open>strtod\<close> of the C library), and a string token is its
  contents: that \<open>gafqX_newstring\<close> also enters it in a table to keep it from being collected is not modelled.
  The locale is the C locale, whose decimal point is a dot.
\<close>

subsection \<open>Tokens\<close>

definition gafqX_tokens :: "string list" where
  "gafqX_tokens =
     [''and'', ''break'', ''do'', ''else'', ''elseif'', ''end'', ''false'', ''for'', ''function'', ''if'', ''in'', ''local'', ''nil'',
      ''not'', ''or'', ''repeat'', ''return'', ''then'', ''true'', ''until'', ''while'', ''..'', ''...'', ''=='', ''>='', ''<='',
      ''~='', ''<number>'', ''<name>'', ''<string>'', ''<eof>'']"

definition FIRST_RESERVED :: nat where "FIRST_RESERVED = 257"
definition NUM_RESERVED :: nat where "NUM_RESERVED = 21"

definition TK_CONCAT :: nat where "TK_CONCAT = 278"
definition TK_DOTS :: nat where "TK_DOTS = 279"
definition TK_EQ :: nat where "TK_EQ = 280"
definition TK_GE :: nat where "TK_GE = 281"
definition TK_LE :: nat where "TK_LE = 282"
definition TK_NE :: nat where "TK_NE = 283"
definition TK_NUMBER :: nat where "TK_NUMBER = 284"
definition TK_NAME :: nat where "TK_NAME = 285"
definition TK_STRING :: nat where "TK_STRING = 286"
definition TK_EOS :: nat where "TK_EOS = 287"

datatype SemInfo = SNone | SNum gafq_Number | SStr string

record Token =
  tk_token :: nat
  tk_seminfo :: SemInfo

record 'd LexState =
  current :: "char option"
  linenumber :: int
  lastline :: int
  lx_t :: Token
  lx_lookahead :: Token
  lx_z :: "'d ZIO"
  buff :: Mbuffer
  lx_source :: string
  decpoint :: char

subsection \<open>Characters, the buffer and errors\<close>

definition lx_next :: "'d reader \<Rightarrow> 'd LexState \<Rightarrow> 'd LexState res" where
  "lx_next reader ls = rbind (zgetc reader (lx_z ls)) (\<lambda>(c, z). Inr (ls\<lparr>current := c, lx_z := z\<rparr>))"

definition currIsNewline :: "'d LexState \<Rightarrow> bool" where
  "currIsNewline ls \<longleftrightarrow> current ls = Some CHR 0x0A \<or> current ls = Some CHR 0x0D"

definition bufftext :: "'d LexState \<Rightarrow> string" where
  "bufftext ls = take (mb_n (buff ls)) (mb_buffer (buff ls))"

definition gafqX_token2str :: "nat \<Rightarrow> string res" where
  "gafqX_token2str token =
     (if token < FIRST_RESERVED
      then Inr (if iscntrl (char_of token) then ''char('' @ digits token @ '')'' else [char_of token])
      else if token - FIRST_RESERVED < length gafqX_tokens then Inr (gafqX_tokens ! (token - FIRST_RESERVED))
      else Inl (Undefined ''token''))"

definition MAXSRC :: nat where "MAXSRC = 80"

definition error_at :: "'d LexState \<Rightarrow> string \<Rightarrow> string" where
  "error_at ls msg = gafqO_chunkid (lx_source ls) MAXSRC @ '':'' @ digits (nat (linenumber ls)) @ '': '' @ msg"

definition save :: "'d LexState \<Rightarrow> char \<Rightarrow> 'd LexState res" where
  "save ls c =
     (let b = buff ls
      in rbind (if mb_buffsize b < mb_n b + 1
                then (if MAX_SIZET div 2 \<le> mb_buffsize b then Inl (SyntaxError (error_at ls ''lexical element too long''))
                      else Inr (gafqZ_resizebuffer b (mb_buffsize b * 2)))
                else Inr b) (\<lambda>b.
           if mb_n b < mb_buffsize b
           then Inr (ls\<lparr>buff := b\<lparr>mb_buffer := take (mb_n b) (mb_buffer b) @ [c], mb_n := mb_n b + 1\<rparr>\<rparr>)
           else Inl (Undefined ''write past the buffer'')))"

definition save_and_next :: "'d reader \<Rightarrow> 'd LexState \<Rightarrow> 'd LexState res" where
  "save_and_next reader ls =
     (case current ls of
        None \<Rightarrow> rbind (save ls (char_of (255 :: nat))) (lx_next reader)
      | Some c \<Rightarrow> rbind (save ls c) (lx_next reader))"

definition txtToken :: "'d LexState \<Rightarrow> nat \<Rightarrow> string res" where
  "txtToken ls token =
     (if token = TK_NAME \<or> token = TK_STRING \<or> token = TK_NUMBER
      then rbind (save ls NUL) (\<lambda>ls'. Inr (cstr (bufftext ls')))
      else gafqX_token2str token)"

text \<open>\<open>gafqX_lexerror\<close> does not return: its result is the error it throws.\<close>

definition gafqX_lexerror :: "'d LexState \<Rightarrow> string \<Rightarrow> nat \<Rightarrow> 'a res" where
  "gafqX_lexerror ls msg token =
     (if token \<noteq> 0
      then rbind (txtToken ls token) (\<lambda>t. Inl (SyntaxError (error_at ls msg @ '' near '' @ [CHR 0x27] @ t @ [CHR 0x27])))
      else Inl (SyntaxError (error_at ls msg)))"

definition gafqX_syntaxerror :: "'d LexState \<Rightarrow> string \<Rightarrow> 'a res" where
  "gafqX_syntaxerror ls msg = gafqX_lexerror ls msg (tk_token (lx_t ls))"

definition inclinenumber :: "'d reader \<Rightarrow> 'd LexState \<Rightarrow> 'd LexState res" where
  "inclinenumber reader ls =
     rbind (lx_next reader ls) (\<lambda>ls1.
       rbind (if currIsNewline ls1 \<and> current ls1 \<noteq> current ls then lx_next reader ls1 else Inr ls1) (\<lambda>ls2.
         let ls3 = ls2\<lparr>linenumber := linenumber ls2 + 1\<rparr>
         in if MAX_INT \<le> linenumber ls3 then gafqX_syntaxerror ls3 ''chunk has too many lines'' else Inr ls3))"

definition resetbuffer :: "'d LexState \<Rightarrow> 'd LexState" where
  "resetbuffer ls = ls\<lparr>buff := (buff ls)\<lparr>mb_n := 0\<rparr>\<rparr>"

definition gafqX_setinput :: "'d reader \<Rightarrow> Token \<Rightarrow> 'd ZIO \<Rightarrow> Mbuffer \<Rightarrow> string \<Rightarrow> 'd LexState res" where
  "gafqX_setinput reader t z b source =
     lx_next reader
       \<lparr>current = None, linenumber = 1, lastline = 1, lx_t = t,
        lx_lookahead = \<lparr>tk_token = TK_EOS, tk_seminfo = SNone\<rparr>, lx_z = z,
        buff = gafqZ_resizebuffer b GAFQ_MINBUFFER, lx_source = source, decpoint = CHR ''.''\<rparr>"

subsection \<open>Loops over characters\<close>

text \<open>\<open>strchr\<close> also finds the zero that ends the set.\<close>

definition in_cset :: "string \<Rightarrow> char option \<Rightarrow> bool" where
  "in_cset cs c = (case c of None \<Rightarrow> False | Some x \<Rightarrow> x = NUL \<or> x \<in> set cs)"

definition check_next :: "'d reader \<Rightarrow> 'd LexState \<Rightarrow> string \<Rightarrow> (bool \<times> 'd LexState) res" where
  "check_next reader ls cs =
     (if in_cset cs (current ls) then rbind (save_and_next reader ls) (\<lambda>ls'. Inr (True, ls')) else Inr (False, ls))"

definition is_cur :: "(char \<Rightarrow> bool) \<Rightarrow> 'd LexState \<Rightarrow> bool" where
  "is_cur P ls = (case current ls of None \<Rightarrow> False | Some c \<Rightarrow> P c)"

primrec save_while :: "nat \<Rightarrow> (char \<Rightarrow> bool) \<Rightarrow> 'd reader \<Rightarrow> 'd LexState \<Rightarrow> 'd LexState res" where
  "save_while 0 P reader ls = Inl OutOfFuel"
| "save_while (Suc n) P reader ls =
     (if is_cur P ls then rbind (save_and_next reader ls) (save_while n P reader) else Inr ls)"

primrec skip_while :: "nat \<Rightarrow> (char \<Rightarrow> bool) \<Rightarrow> 'd reader \<Rightarrow> 'd LexState \<Rightarrow> 'd LexState res" where
  "skip_while 0 P reader ls = Inl OutOfFuel"
| "skip_while (Suc n) P reader ls =
     (if is_cur P ls then rbind (lx_next reader ls) (skip_while n P reader) else Inr ls)"

subsection \<open>Numbers\<close>

definition buffreplace :: "'d LexState \<Rightarrow> char \<Rightarrow> char \<Rightarrow> 'd LexState" where
  "buffreplace ls from to =
     ls\<lparr>buff := (buff ls)\<lparr>mb_buffer := map (\<lambda>c. if c = from then to else c) (bufftext ls) @ drop (mb_n (buff ls)) (mb_buffer (buff ls))\<rparr>\<rparr>"

definition trydecpoint :: "(string \<Rightarrow> gafq_Number option) \<Rightarrow> 'd LexState \<Rightarrow> (gafq_Number \<times> 'd LexState) res" where
  "trydecpoint str2d ls =
     (let old = decpoint ls; ls1 = buffreplace (ls\<lparr>decpoint := CHR ''.''\<rparr>) old CHR ''.''
      in case str2d (cstr (bufftext ls1)) of
           Some r \<Rightarrow> Inr (r, ls1)
         | None \<Rightarrow> gafqX_lexerror (buffreplace ls1 (decpoint ls1) CHR ''.'') ''malformed number'' TK_NUMBER)"

definition read_numeral ::
  "nat \<Rightarrow> (string \<Rightarrow> gafq_Number option) \<Rightarrow> 'd reader \<Rightarrow> 'd LexState \<Rightarrow> (gafq_Number \<times> 'd LexState) res" where
  "read_numeral n str2d reader ls =
     rbind (save_and_next reader ls) (\<lambda>ls.
     rbind (save_while n (\<lambda>c. isdigit c \<or> c = CHR ''.'') reader ls) (\<lambda>ls.
     rbind (check_next reader ls ''Ee'') (\<lambda>(e, ls).
     rbind (if e then rbind (check_next reader ls ''+-'') (\<lambda>(_, ls). Inr ls) else Inr ls) (\<lambda>ls.
     rbind (save_while n (\<lambda>c. isalnum c \<or> c = CHR ''_'') reader ls) (\<lambda>ls.
     rbind (save ls NUL) (\<lambda>ls.
       let ls = buffreplace ls CHR ''.'' (decpoint ls)
       in case str2d (cstr (bufftext ls)) of Some r \<Rightarrow> Inr (r, ls) | None \<Rightarrow> trydecpoint str2d ls))))))"

subsection \<open>Strings\<close>

primrec skip_sep_loop :: "nat \<Rightarrow> 'd reader \<Rightarrow> 'd LexState \<Rightarrow> int \<Rightarrow> (int \<times> 'd LexState) res" where
  "skip_sep_loop 0 reader ls cnt = Inl OutOfFuel"
| "skip_sep_loop (Suc n) reader ls cnt =
     (if current ls = Some CHR ''='' then rbind (save_and_next reader ls) (\<lambda>ls. skip_sep_loop n reader ls (cnt + 1))
      else Inr (cnt, ls))"

definition skip_sep :: "nat \<Rightarrow> 'd reader \<Rightarrow> 'd LexState \<Rightarrow> (int \<times> 'd LexState) res" where
  "skip_sep n reader ls =
     (let s = current ls
      in rbind (save_and_next reader ls) (\<lambda>ls.
         rbind (skip_sep_loop n reader ls 0) (\<lambda>(cnt, ls).
           Inr (if current ls = s then cnt else - cnt - 1, ls))))"

text \<open>One turn of the loop of \<open>read_long_string\<close>: whether the string has ended, and the state.\<close>

definition long_turn :: "nat \<Rightarrow> 'd reader \<Rightarrow> bool \<Rightarrow> int \<Rightarrow> 'd LexState \<Rightarrow> (bool \<times> 'd LexState) res" where
  "long_turn n reader seminfo sep ls =
     (case current ls of
        None \<Rightarrow> gafqX_lexerror ls (if seminfo then ''unfinished long string'' else ''unfinished long comment'') TK_EOS
      | Some c \<Rightarrow>
          if c = CHR ''[''
          then rbind (skip_sep n reader ls) (\<lambda>(k, ls).
                 if k = sep
                 then rbind (save_and_next reader ls) (\<lambda>ls.
                        if sep = 0 then gafqX_lexerror ls ''nesting of [[...]] is deprecated'' 91 else Inr (False, ls))
                 else Inr (False, ls))
          else if c = CHR '']''
          then rbind (skip_sep n reader ls) (\<lambda>(k, ls).
                 if k = sep then rbind (save_and_next reader ls) (\<lambda>ls. Inr (True, ls)) else Inr (False, ls))
          else if c = CHR 0x0A \<or> c = CHR 0x0D
          then rbind (save ls CHR 0x0A) (\<lambda>ls. rbind (inclinenumber reader ls) (\<lambda>ls.
                 Inr (False, if seminfo then ls else resetbuffer ls)))
          else rbind (if seminfo then save_and_next reader ls else lx_next reader ls) (\<lambda>ls. Inr (False, ls)))"

primrec long_loop :: "nat \<Rightarrow> nat \<Rightarrow> 'd reader \<Rightarrow> bool \<Rightarrow> int \<Rightarrow> 'd LexState \<Rightarrow> 'd LexState res" where
  "long_loop n 0 reader seminfo sep ls = Inl OutOfFuel"
| "long_loop n (Suc k) reader seminfo sep ls =
     rbind (long_turn n reader seminfo sep ls) (\<lambda>(done, ls). if done then Inr ls else long_loop n k reader seminfo sep ls)"

definition read_long_string :: "nat \<Rightarrow> 'd reader \<Rightarrow> bool \<Rightarrow> int \<Rightarrow> 'd LexState \<Rightarrow> (string \<times> 'd LexState) res" where
  "read_long_string n reader seminfo sep ls =
     rbind (save_and_next reader ls) (\<lambda>ls.
     rbind (if currIsNewline ls then inclinenumber reader ls else Inr ls) (\<lambda>ls.
     rbind (long_loop n n reader seminfo sep ls) (\<lambda>ls.
       let d = nat (2 + sep) in Inr (take (length (bufftext ls) - 2 * d) (drop d (bufftext ls)), ls))))"

text \<open>The digits of an escape sequence, up to three in all: the value of those read is \<open>c\<close>, \<open>i\<close> of them.\<close>

primrec escape_digits :: "nat \<Rightarrow> 'd reader \<Rightarrow> 'd LexState \<Rightarrow> nat \<Rightarrow> (nat \<times> 'd LexState) res" where
  "escape_digits 0 reader ls c = Inr (c, ls)"
| "escape_digits (Suc k) reader ls c =
     (case current ls of
        Some x \<Rightarrow> if isdigit x then rbind (lx_next reader ls) (\<lambda>ls. escape_digits k reader ls (10 * c + (uchar x - 48))) else Inr (c, ls)
      | None \<Rightarrow> Inr (c, ls))"

definition simple_escape :: "char \<Rightarrow> char option" where
  "simple_escape x =
     (if x = CHR ''a'' then Some CHR 0x07 else if x = CHR ''b'' then Some CHR 0x08 else if x = CHR ''f'' then Some CHR 0x0C
      else if x = CHR ''n'' then Some CHR 0x0A else if x = CHR ''r'' then Some CHR 0x0D else if x = CHR ''t'' then Some CHR 0x09
      else if x = CHR ''v'' then Some CHR 0x0B else None)"

definition read_escape :: "'d reader \<Rightarrow> 'd LexState \<Rightarrow> 'd LexState res" where
  "read_escape reader ls0 =
     rbind (lx_next reader ls0) (\<lambda>ls.
       case current ls of
         None \<Rightarrow> Inr ls
       | Some x \<Rightarrow>
           (case simple_escape x of
              Some c \<Rightarrow> rbind (save ls c) (lx_next reader)
            | None \<Rightarrow>
                if x = CHR 0x0A \<or> x = CHR 0x0D then rbind (save ls CHR 0x0A) (inclinenumber reader)
                else if \<not> isdigit x then save_and_next reader ls
                else rbind (escape_digits 3 reader ls 0) (\<lambda>(c, ls).
                       if 255 < c then gafqX_lexerror ls ''escape sequence too large'' TK_STRING else save ls (char_of c))))"

primrec string_loop :: "nat \<Rightarrow> 'd reader \<Rightarrow> char \<Rightarrow> 'd LexState \<Rightarrow> 'd LexState res" where
  "string_loop 0 reader del ls = Inl OutOfFuel"
| "string_loop (Suc n) reader del ls =
     (case current ls of
        None \<Rightarrow> gafqX_lexerror ls ''unfinished string'' TK_EOS
      | Some c \<Rightarrow>
          if c = del then Inr ls
          else if c = CHR 0x0A \<or> c = CHR 0x0D then gafqX_lexerror ls ''unfinished string'' TK_STRING
          else if c = CHR 0x5C then rbind (read_escape reader ls) (string_loop n reader del)
          else rbind (save_and_next reader ls) (string_loop n reader del))"

definition read_string :: "nat \<Rightarrow> 'd reader \<Rightarrow> char \<Rightarrow> 'd LexState \<Rightarrow> (string \<times> 'd LexState) res" where
  "read_string n reader del ls =
     rbind (save_and_next reader ls) (\<lambda>ls.
     rbind (string_loop n reader del ls) (\<lambda>ls.
     rbind (save_and_next reader ls) (\<lambda>ls.
       Inr (take (length (bufftext ls) - 2) (drop 1 (bufftext ls)), ls))))"

subsection \<open>The scanner\<close>

definition reserved_index :: "string \<Rightarrow> nat" where
  "reserved_index w = length (takeWhile (\<lambda>x. x \<noteq> w) (take NUM_RESERVED gafqX_tokens))"

text \<open>One turn of the loop of \<open>glex\<close>: a token with its value, or none to go on.\<close>

type_synonym 'd turn = "((nat \<times> SemInfo) option \<times> 'd LexState) res"

definition token_if_equals :: "'d reader \<Rightarrow> 'd LexState \<Rightarrow> char \<Rightarrow> nat \<Rightarrow> 'd turn" where
  "token_if_equals reader ls c tk =
     rbind (lx_next reader ls) (\<lambda>ls.
       if current ls \<noteq> Some CHR ''='' then Inr (Some (uchar c, SNone), ls)
       else rbind (lx_next reader ls) (\<lambda>ls. Inr (Some (tk, SNone), ls)))"

definition lex_dash :: "nat \<Rightarrow> 'd reader \<Rightarrow> 'd LexState \<Rightarrow> 'd turn" where
  "lex_dash n reader ls =
     rbind (lx_next reader ls) (\<lambda>ls.
       if current ls \<noteq> Some CHR ''-'' then Inr (Some (45, SNone), ls)
       else rbind (lx_next reader ls) (\<lambda>ls.
         let short = (\<lambda>ls. rbind (skip_while n (\<lambda>c. c \<noteq> CHR 0x0A \<and> c \<noteq> CHR 0x0D) reader ls) (\<lambda>ls. Inr (None, ls)))
         in if current ls = Some CHR ''[''
            then rbind (skip_sep n reader ls) (\<lambda>(sep, ls).
                   let ls = resetbuffer ls
                   in if 0 \<le> sep
                      then rbind (read_long_string n reader False sep ls) (\<lambda>(_, ls). Inr (None, resetbuffer ls))
                      else short ls)
            else short ls))"

definition lex_bracket :: "nat \<Rightarrow> 'd reader \<Rightarrow> 'd LexState \<Rightarrow> 'd turn" where
  "lex_bracket n reader ls =
     rbind (skip_sep n reader ls) (\<lambda>(sep, ls).
       if 0 \<le> sep then rbind (read_long_string n reader True sep ls) (\<lambda>(s, ls). Inr (Some (TK_STRING, SStr s), ls))
       else if sep = -1 then Inr (Some (91, SNone), ls)
       else gafqX_lexerror ls ''invalid long string delimiter'' TK_STRING)"

definition lex_dot :: "nat \<Rightarrow> (string \<Rightarrow> gafq_Number option) \<Rightarrow> 'd reader \<Rightarrow> 'd LexState \<Rightarrow> 'd turn" where
  "lex_dot n str2d reader ls =
     rbind (save_and_next reader ls) (\<lambda>ls.
     rbind (check_next reader ls ''.'') (\<lambda>(b, ls).
       if b then rbind (check_next reader ls ''.'') (\<lambda>(b, ls). Inr (Some (if b then TK_DOTS else TK_CONCAT, SNone), ls))
       else if \<not> is_cur isdigit ls then Inr (Some (46, SNone), ls)
       else rbind (read_numeral n str2d reader ls) (\<lambda>(r, ls). Inr (Some (TK_NUMBER, SNum r), ls))))"

definition lex_name :: "nat \<Rightarrow> 'd reader \<Rightarrow> 'd LexState \<Rightarrow> 'd turn" where
  "lex_name n reader ls =
     rbind (save_and_next reader ls) (\<lambda>ls.
     rbind (save_while n (\<lambda>c. isalnum c \<or> c = CHR ''_'') reader ls) (\<lambda>ls.
       let ts = bufftext ls; i = reserved_index ts
       in Inr (Some (if i < NUM_RESERVED then (i + FIRST_RESERVED, SNone) else (TK_NAME, SStr ts)), ls)))"

definition glex_turn :: "nat \<Rightarrow> (string \<Rightarrow> gafq_Number option) \<Rightarrow> 'd reader \<Rightarrow> 'd LexState \<Rightarrow> 'd turn" where
  "glex_turn n str2d reader ls =
     (case current ls of
        None \<Rightarrow> Inr (Some (TK_EOS, SNone), ls)
      | Some c \<Rightarrow>
          if c = CHR 0x0A \<or> c = CHR 0x0D then rbind (inclinenumber reader ls) (\<lambda>ls. Inr (None, ls))
          else if c = CHR ''-'' then lex_dash n reader ls
          else if c = CHR ''['' then lex_bracket n reader ls
          else if c = CHR ''='' then token_if_equals reader ls c TK_EQ
          else if c = CHR ''<'' then token_if_equals reader ls c TK_LE
          else if c = CHR ''>'' then token_if_equals reader ls c TK_GE
          else if c = CHR ''~'' then token_if_equals reader ls c TK_NE
          else if c = CHR 0x22 \<or> c = CHR 0x27 then rbind (read_string n reader c ls) (\<lambda>(s, ls). Inr (Some (TK_STRING, SStr s), ls))
          else if c = CHR ''.'' then lex_dot n str2d reader ls
          else if isspace c then rbind (lx_next reader ls) (\<lambda>ls. Inr (None, ls))
          else if isdigit c then rbind (read_numeral n str2d reader ls) (\<lambda>(r, ls). Inr (Some (TK_NUMBER, SNum r), ls))
          else if isalpha c \<or> c = CHR ''_'' then lex_name n reader ls
          else rbind (lx_next reader ls) (\<lambda>ls. Inr (Some (uchar c, SNone), ls)))"

primrec glex_loop :: "nat \<Rightarrow> nat \<Rightarrow> (string \<Rightarrow> gafq_Number option) \<Rightarrow> 'd reader \<Rightarrow> 'd LexState \<Rightarrow> ((nat \<times> SemInfo) \<times> 'd LexState) res" where
  "glex_loop n 0 str2d reader ls = Inl OutOfFuel"
| "glex_loop n (Suc k) str2d reader ls =
     rbind (glex_turn n str2d reader ls) (\<lambda>(r, ls). case r of Some t \<Rightarrow> Inr (t, ls) | None \<Rightarrow> glex_loop n k str2d reader ls)"

definition glex :: "nat \<Rightarrow> (string \<Rightarrow> gafq_Number option) \<Rightarrow> 'd reader \<Rightarrow> 'd LexState \<Rightarrow> ((nat \<times> SemInfo) \<times> 'd LexState) res" where
  "glex n str2d reader ls = glex_loop n n str2d reader (resetbuffer ls)"

definition gafqX_next :: "nat \<Rightarrow> (string \<Rightarrow> gafq_Number option) \<Rightarrow> 'd reader \<Rightarrow> 'd LexState \<Rightarrow> 'd LexState res" where
  "gafqX_next n str2d reader ls0 =
     (let ls = ls0\<lparr>lastline := linenumber ls0\<rparr>
      in if tk_token (lx_lookahead ls) \<noteq> TK_EOS
         then Inr (ls\<lparr>lx_t := lx_lookahead ls, lx_lookahead := (lx_lookahead ls)\<lparr>tk_token := TK_EOS\<rparr>\<rparr>)
         else rbind (glex n str2d reader ls) (\<lambda>((tk, sem), ls). Inr (ls\<lparr>lx_t := \<lparr>tk_token = tk, tk_seminfo = sem\<rparr>\<rparr>)))"

definition gafqX_lookahead :: "nat \<Rightarrow> (string \<Rightarrow> gafq_Number option) \<Rightarrow> 'd reader \<Rightarrow> 'd LexState \<Rightarrow> 'd LexState res" where
  "gafqX_lookahead n str2d reader ls =
     rbind (glex n str2d reader ls) (\<lambda>((tk, sem), ls). Inr (ls\<lparr>lx_lookahead := \<lparr>tk_token = tk, tk_seminfo = sem\<rparr>\<rparr>))"

end
