(* ===== verification/Lex_Props.thy ===== *)
theory Lex_Props
  imports Lex
begin

text \<open>
  The scanner in the locale \<open>chunk_reader\<close> of the input streams: every operation either raises a defined error
  or leaves a sound state with no more text than before, and \<open>glex\<close> with less, from which totality follows
  by induction on the text left.
\<close>

subsection \<open>Results that are values with a property or defined errors\<close>

definition ensures :: "('a \<Rightarrow> bool) \<Rightarrow> 'a res \<Rightarrow> bool" where
  "ensures P r = (case r of Inl e \<Rightarrow> defined (Inl e :: unit res) | Inr x \<Rightarrow> P x)"

lemma ensures_Inr [simp]: "ensures P (Inr x) \<longleftrightarrow> P x"
  by (simp add: ensures_def)

lemma ensures_Inl [simp]: "ensures P (Inl (SyntaxError e))" "ensures P (Inl (RunError e))"
  by (simp_all add: ensures_def)

lemma ensures_rbind: "ensures P r \<Longrightarrow> (\<And>x. P x \<Longrightarrow> ensures Q (f x)) \<Longrightarrow> ensures Q (rbind r f)"
  by (cases r) (auto simp: ensures_def)

lemma ensures_weaken: "ensures P r \<Longrightarrow> (\<And>x. P x \<Longrightarrow> Q x) \<Longrightarrow> ensures Q r"
  by (cases r) (auto simp: ensures_def)

lemma ensures_defined: "ensures P r \<Longrightarrow> defined r"
  by (cases r) (auto simp: ensures_def defined_def split: gerr.splits)

subsection \<open>The text left\<close>

definition lex_ok :: "'d LexState \<Rightarrow> bool" where
  "lex_ok ls \<longleftrightarrow> (current ls \<noteq> None \<longrightarrow> z_ok (lx_z ls)) \<and> mb_n (buff ls) \<le> length (mb_buffer (buff ls)) \<and>
     mb_n (buff ls) \<le> mb_buffsize (buff ls) \<and> 0 < mb_buffsize (buff ls) \<and> tk_token (lx_t ls) \<le> TK_EOS"

definition text_of :: "('d \<Rightarrow> string) \<Rightarrow> 'd LexState \<Rightarrow> string" where
  "text_of contents ls = (case current ls of None \<Rightarrow> [] | Some c \<Rightarrow> c # z_p (lx_z ls) @ contents (z_data (lx_z ls)))"

lemma text_of_update [simp]:
  "text_of C (ls\<lparr>buff := b\<rparr>) = text_of C ls" "text_of C (ls\<lparr>linenumber := l\<rparr>) = text_of C ls"
  "text_of C (ls\<lparr>decpoint := d\<rparr>) = text_of C ls" "text_of C (ls\<lparr>lastline := l\<rparr>) = text_of C ls"
  by (simp_all add: text_of_def cong: option.case_cong)

definition lex_at :: "('d \<Rightarrow> string) \<Rightarrow> nat \<Rightarrow> 'd LexState \<Rightarrow> bool" where
  "lex_at contents n ls \<longleftrightarrow> lex_ok ls \<and> length (text_of contents ls) \<le> n"

lemma lex_at_mono: "lex_at contents n ls \<Longrightarrow> n \<le> m \<Longrightarrow> lex_at contents m ls"
  by (auto simp: lex_at_def)

lemma ensures_at_mono: "ensures (lex_at C m) r \<Longrightarrow> m \<le> n \<Longrightarrow> ensures (lex_at C n) r"
  by (erule ensures_weaken) (erule lex_at_mono)

lemma lex_at_pos: "lex_at contents n ls \<Longrightarrow> current ls \<noteq> None \<Longrightarrow> \<exists>m. n = Suc m"
  by (cases n) (auto simp: lex_at_def text_of_def)

lemma token2str_ok: "token \<le> TK_EOS \<Longrightarrow> \<exists>t. gafqX_token2str token = Inr t"
  by (auto simp: gafqX_token2str_def TK_EOS_def FIRST_RESERVED_def gafqX_tokens_def)

lemma save_ok:
  assumes "lex_ok ls"
  shows "(\<exists>e. save ls c = Inl (SyntaxError e)) \<or>
    (\<exists>b. save ls c = Inr (ls\<lparr>buff := b\<rparr>) \<and> lex_ok (ls\<lparr>buff := b\<rparr>) \<and> bufftext (ls\<lparr>buff := b\<rparr>) = bufftext ls @ [c])"
proof -
  let ?b = "buff ls"
  define b' where "b' = (if mb_buffsize ?b < mb_n ?b + 1 then gafqZ_resizebuffer ?b (mb_buffsize ?b * 2) else ?b)"
  have l: "mb_n ?b \<le> length (mb_buffer ?b)" "mb_n ?b \<le> mb_buffsize ?b" "0 < mb_buffsize ?b" using assms by (auto simp: lex_ok_def)
  have b': "mb_n b' = mb_n ?b" "mb_n b' < mb_buffsize b'" "take (mb_n ?b) (mb_buffer b') = take (mb_n ?b) (mb_buffer ?b)"
      "mb_n ?b \<le> length (mb_buffer b')"
    using l by (auto simp: b'_def gafqZ_resizebuffer_def min_def)
  let ?b2 = "b'\<lparr>mb_buffer := take (mb_n b') (mb_buffer b') @ [c], mb_n := mb_n b' + 1\<rparr>"
  have "save ls c = (if mb_buffsize ?b < mb_n ?b + 1 \<and> MAX_SIZET div 2 \<le> mb_buffsize ?b
      then Inl (SyntaxError (error_at ls ''lexical element too long'')) else Inr (ls\<lparr>buff := ?b2\<rparr>))"
    using b'(2) by (auto simp: save_def Let_def b'_def)
  moreover have "lex_ok (ls\<lparr>buff := ?b2\<rparr>)" using assms b' l by (auto simp: lex_ok_def)
  moreover have "bufftext (ls\<lparr>buff := ?b2\<rparr>) = bufftext ls @ [c]" using b' l by (simp add: bufftext_def min_def)
  ultimately show ?thesis by auto
qed

lemma save_ensures: "lex_at C n ls \<Longrightarrow> ensures (\<lambda>ls'. lex_at C n ls' \<and> current ls' = current ls) (save ls c)"
  using save_ok [of ls c] by (auto simp: lex_at_def)

lemma lexerror_ensures: "lex_at C n ls \<Longrightarrow> token \<le> TK_EOS \<Longrightarrow> ensures P (gafqX_lexerror ls msg token)"
proof -
  assume a: "lex_at C n ls" "token \<le> TK_EOS"
  have "ensures (\<lambda>_. True) (txtToken ls token)"
    using token2str_ok [OF a(2)] save_ok [of ls NUL] a(1) by (auto simp: txtToken_def lex_at_def)
  then show ?thesis unfolding gafqX_lexerror_def by (auto intro: ensures_rbind)
qed

lemma syntaxerror_ensures: "lex_at C n ls \<Longrightarrow> ensures P (gafqX_syntaxerror ls msg)"
  unfolding gafqX_syntaxerror_def by (rule lexerror_ensures) (auto simp: lex_at_def lex_ok_def)

lemma resetbuffer_at: "lex_at C n ls \<Longrightarrow> lex_at C n (resetbuffer ls)"
  by (auto simp: lex_at_def lex_ok_def resetbuffer_def)

lemma buffreplace_at: "lex_at C n ls \<Longrightarrow> lex_at C n (buffreplace ls a b)"
  by (auto simp: lex_at_def lex_ok_def buffreplace_def bufftext_def)

lemma trydecpoint_ensures: "lex_at C n ls \<Longrightarrow> ensures (\<lambda>(r, ls). lex_at C n ls) (trydecpoint str2d ls)"
proof -
  assume a: "lex_at C n ls"
  then have "lex_at C n (ls\<lparr>decpoint := CHR ''.''\<rparr>)" by (auto simp: lex_at_def lex_ok_def)
  note b = buffreplace_at [OF this]
  show ?thesis unfolding trydecpoint_def Let_def
    by (auto split: option.splits intro!: lexerror_ensures [OF buffreplace_at [OF b]] b simp: TK_NUMBER_def TK_EOS_def)
qed

context chunk_reader
begin

lemma next_exact:
  assumes "lex_ok ls" "text_of contents ls = c # cs"
  shows "\<exists>c' z. lx_next reader ls = Inr (ls\<lparr>current := c', lx_z := z\<rparr>) \<and> lex_ok (ls\<lparr>current := c', lx_z := z\<rparr>) \<and>
    text_of contents (ls\<lparr>current := c', lx_z := z\<rparr>) = cs"
proof -
  have z: "z_ok (lx_z ls)" "zbytes (lx_z ls) = cs" using assms by (auto simp: lex_ok_def text_of_def zbytes_def split: option.splits)
  show ?thesis
  proof (cases cs)
    case Nil
    then obtain z' where "zgetc reader (lx_z ls) = Inr (None, z')" using zgetc_end z by blast
    then show ?thesis using Nil assms(1) by (auto simp: lx_next_def lex_ok_def text_of_def intro!: exI)
  next
    case (Cons d ds)
    then obtain z' where "zgetc reader (lx_z ls) = Inr (Some d, z')" "z_ok z'" "zbytes z' = ds" using zgetc_char z by blast
    then show ?thesis using Cons assms(1) by (auto simp: lx_next_def lex_ok_def text_of_def zbytes_def intro!: exI)
  qed
qed

lemma next_ensures: "lex_at contents (Suc n) ls \<Longrightarrow> current ls \<noteq> None \<Longrightarrow> ensures (lex_at contents n) (lx_next reader ls)"
proof -
  assume a: "lex_at contents (Suc n) ls" "current ls \<noteq> None"
  then obtain c cs where t: "text_of contents ls = c # cs" by (auto simp: text_of_def)
  from next_exact [of ls c cs] a t show ?thesis by (auto simp: lex_at_def)
qed

lemma save_next_ensures: "lex_at contents (Suc n) ls \<Longrightarrow> current ls \<noteq> None \<Longrightarrow> ensures (lex_at contents n) (save_and_next reader ls)"
  unfolding save_and_next_def by (auto intro!: ensures_rbind [OF save_ensures] next_ensures split: option.splits)

lemma inclinenumber_ensures:
  "lex_at contents (Suc n) ls \<Longrightarrow> current ls \<noteq> None \<Longrightarrow> ensures (lex_at contents n) (inclinenumber reader ls)"
  unfolding inclinenumber_def
proof (rule ensures_rbind [OF next_ensures], assumption+, rule ensures_rbind [of "lex_at contents n"])
  fix ls1 assume l: "lex_at contents n ls1"
  show "ensures (lex_at contents n) (if currIsNewline ls1 \<and> current ls1 \<noteq> current ls then lx_next reader ls1 else Inr ls1)"
  proof (cases "currIsNewline ls1")
    case True
    then have c: "current ls1 \<noteq> None" by (auto simp: currIsNewline_def)
    obtain m where m: "n = Suc m" using lex_at_pos [OF l c] by blast
    have "ensures (lex_at contents n) (lx_next reader ls1)"
      by (rule ensures_weaken [OF next_ensures [of m]]) (use l c m in \<open>auto intro: lex_at_mono\<close>)
    then show ?thesis using l by simp
  qed (use l in simp)
next
  fix ls2 assume l: "lex_at contents n ls2"
  then have "lex_at contents n (ls2\<lparr>linenumber := linenumber ls2 + 1\<rparr>)" by (auto simp: lex_at_def lex_ok_def)
  then show "ensures (lex_at contents n) (let ls3 = ls2\<lparr>linenumber := linenumber ls2 + 1\<rparr>
      in if MAX_INT \<le> linenumber ls3 then gafqX_syntaxerror ls3 ''chunk has too many lines'' else Inr ls3)"
    by (auto simp: Let_def intro: syntaxerror_ensures)
qed

text \<open>The same where the bound need not go down.\<close>

lemma save_next_keeps: "lex_at contents n ls \<Longrightarrow> current ls \<noteq> None \<Longrightarrow> ensures (lex_at contents n) (save_and_next reader ls)"
  using lex_at_pos [of contents n ls] ensures_at_mono [OF save_next_ensures, of "n - 1" ls n] by fastforce

lemma check_next_ensures: "lex_at contents n ls \<Longrightarrow> ensures (\<lambda>(b, ls). lex_at contents n ls) (check_next reader ls cs)"
  unfolding check_next_def by (auto simp: in_cset_def intro!: ensures_rbind [OF save_next_keeps] split: option.splits)

lemma save_while_ensures: "lex_at contents n ls \<Longrightarrow> n < k \<Longrightarrow> ensures (lex_at contents n) (save_while k P reader ls)"
proof (induction k arbitrary: n ls)
  case (Suc k)
  show ?case
  proof (cases "is_cur P ls")
    case True
    then have c: "current ls \<noteq> None" by (auto simp: is_cur_def split: option.splits)
    obtain m where m: "n = Suc m" using lex_at_pos [OF Suc.prems(1) c] by blast
    have "ensures (lex_at contents m) (rbind (save_and_next reader ls) (save_while k P reader))"
      by (rule ensures_rbind [OF save_next_ensures [OF Suc.prems(1) [unfolded m] c]]) (use Suc.IH Suc.prems(2) m in auto)
    from ensures_at_mono [OF this, of n] show ?thesis using True m by simp
  qed (use Suc.prems in simp)
qed simp

lemma skip_while_ensures: "lex_at contents n ls \<Longrightarrow> n < k \<Longrightarrow> ensures (lex_at contents n) (skip_while k P reader ls)"
proof (induction k arbitrary: n ls)
  case (Suc k)
  show ?case
  proof (cases "is_cur P ls")
    case True
    then have c: "current ls \<noteq> None" by (auto simp: is_cur_def split: option.splits)
    obtain m where m: "n = Suc m" using lex_at_pos [OF Suc.prems(1) c] by blast
    have "ensures (lex_at contents m) (rbind (lx_next reader ls) (skip_while k P reader))"
      by (rule ensures_rbind [OF next_ensures [OF Suc.prems(1) [unfolded m] c]]) (use Suc.IH Suc.prems(2) m in auto)
    from ensures_at_mono [OF this, of n] show ?thesis using True m by simp
  qed (use Suc.prems in simp)
qed simp

end

lemma TK_STRING_le: "TK_STRING \<le> TK_EOS"
  by (simp add: TK_STRING_def TK_EOS_def)

context chunk_reader
begin

lemma read_numeral_ensures:
  assumes "lex_at contents (Suc n) ls" "current ls \<noteq> None" "n < k"
  shows "ensures (\<lambda>(r, ls). lex_at contents n ls) (read_numeral k str2d reader ls)"
  unfolding read_numeral_def
proof (rule ensures_rbind [OF save_next_ensures [OF assms(1,2)]], rule ensures_rbind [OF save_while_ensures [OF _ assms(3)]], assumption,
    rule ensures_rbind [OF check_next_ensures], assumption, clarify)
  fix e ls assume l: "lex_at contents n ls"
  show "ensures (\<lambda>(r, ls). lex_at contents n ls)
    (rbind (if e then rbind (check_next reader ls ''+-'') (\<lambda>(_, ls). Inr ls) else Inr ls) (\<lambda>ls.
     rbind (save_while k (\<lambda>c. isalnum c \<or> c = CHR ''_'') reader ls) (\<lambda>ls. rbind (save ls NUL) (\<lambda>ls.
       let ls = buffreplace ls CHR ''.'' (decpoint ls)
       in case str2d (cstr (bufftext ls)) of Some r \<Rightarrow> Inr (r, ls) | None \<Rightarrow> trydecpoint str2d ls))))"
  proof (rule ensures_rbind [of "lex_at contents n"])
    show "ensures (lex_at contents n) (if e then rbind (check_next reader ls ''+-'') (\<lambda>(_, ls). Inr ls) else Inr ls)"
      using l ensures_rbind [OF check_next_ensures [OF l], of "lex_at contents n" "\<lambda>(_, ls). Inr ls"] by auto
    fix ls assume l: "lex_at contents n ls"
    show "ensures (\<lambda>(r, ls). lex_at contents n ls)
      (rbind (save_while k (\<lambda>c. isalnum c \<or> c = CHR ''_'') reader ls) (\<lambda>ls. rbind (save ls NUL) (\<lambda>ls.
       let ls = buffreplace ls CHR ''.'' (decpoint ls)
       in case str2d (cstr (bufftext ls)) of Some r \<Rightarrow> Inr (r, ls) | None \<Rightarrow> trydecpoint str2d ls)))"
      by (rule ensures_rbind [OF save_while_ensures [OF l assms(3)]], rule ensures_rbind [OF save_ensures], assumption)
        (auto simp: Let_def intro: buffreplace_at trydecpoint_ensures split: option.splits)
  qed
qed

lemma skip_sep_loop_ensures:
  "lex_at contents n ls \<Longrightarrow> n < k \<Longrightarrow> 0 \<le> cnt \<Longrightarrow> ensures (\<lambda>(c, ls). lex_at contents n ls \<and> 0 \<le> c) (skip_sep_loop k reader ls cnt)"
proof (induction k arbitrary: n ls cnt)
  case (Suc k)
  show ?case
  proof (cases "current ls = Some CHR ''=''")
    case True
    then have c: "current ls \<noteq> None" by simp
    obtain m where m: "n = Suc m" using lex_at_pos [OF Suc.prems(1) c] by blast
    have "ensures (\<lambda>(c, ls). lex_at contents m ls \<and> 0 \<le> c) (rbind (save_and_next reader ls) (\<lambda>ls. skip_sep_loop k reader ls (cnt + 1)))"
      by (rule ensures_rbind [OF save_next_ensures [OF Suc.prems(1) [unfolded m] c]]) (use Suc.IH Suc.prems(2,3) m in auto)
    then have "ensures (\<lambda>(c, ls). lex_at contents n ls \<and> 0 \<le> c) (rbind (save_and_next reader ls) (\<lambda>ls. skip_sep_loop k reader ls (cnt + 1)))"
      by (rule ensures_weaken) (use m in \<open>auto intro: lex_at_mono\<close>)
    then show ?thesis using True by simp
  qed (use Suc.prems in simp)
qed simp

lemma skip_sep_ensures:
  assumes "lex_at contents (Suc n) ls" "current ls \<noteq> None" "n < k"
  shows "ensures (\<lambda>(c, ls'). lex_at contents n ls' \<and> (0 \<le> c \<longrightarrow> current ls' \<noteq> None)) (skip_sep k reader ls)"
  unfolding skip_sep_def Let_def
  by (rule ensures_rbind [OF save_next_ensures [OF assms(1,2)]], rule ensures_rbind [OF skip_sep_loop_ensures [OF _ assms(3)]], assumption)
    (use assms(2) in auto)

lemma long_turn_ensures:
  assumes "lex_at contents n ls" "n < k" "0 \<le> sep"
  shows "ensures (\<lambda>(d, ls'). \<exists>m. n = Suc m \<and> lex_at contents m ls') (long_turn k reader seminfo sep ls)"
proof (cases "current ls")
  case None
  then show ?thesis by (simp add: long_turn_def lexerror_ensures [OF assms(1)])
next
  case (Some c)
  then have c: "current ls \<noteq> None" by simp
  obtain m where m: "n = Suc m" using lex_at_pos [OF assms(1) c] by blast
  note at = assms(1) [unfolded m]
  have k: "m < k" using assms(2) m by simp
  let ?P = "\<lambda>(d, ls'). \<exists>m. n = Suc m \<and> lex_at contents m ls'"
  have ret: "ensures ?P (rbind r (\<lambda>ls. Inr (b, ls)))" if "ensures (lex_at contents m) r" for r and b :: bool
    by (rule ensures_rbind [OF that]) (use m in auto)
  have close: "ensures ?P (rbind (skip_sep k reader ls) (\<lambda>(j, ls). if j = sep then rbind (save_and_next reader ls) (\<lambda>ls. Inr (True, ls)) else Inr (False, ls)))"
    by (rule ensures_rbind [OF skip_sep_ensures [OF at c k]]) (use assms(3) m in \<open>auto intro!: ensures_rbind [OF save_next_keeps]\<close>)
  have open': "ensures ?P (rbind (skip_sep k reader ls) (\<lambda>(j, ls). if j = sep then rbind (save_and_next reader ls) (\<lambda>ls.
        if sep = 0 then gafqX_lexerror ls ''nesting of [[...]] is deprecated'' 91 else Inr (False, ls)) else Inr (False, ls)))"
    by (rule ensures_rbind [OF skip_sep_ensures [OF at c k]])
      (use assms(3) m in \<open>auto intro!: ensures_rbind [OF save_next_keeps] lexerror_ensures simp: TK_EOS_def\<close>)
  have newline: "ensures ?P (rbind (save ls CHR 0x0A) (\<lambda>ls. rbind (inclinenumber reader ls) (\<lambda>ls. Inr (False, if seminfo then ls else resetbuffer ls))))"
    by (rule ensures_rbind [OF save_ensures [OF at]], rule ensures_rbind [OF inclinenumber_ensures])
      (use c m in \<open>auto intro: resetbuffer_at\<close>)
  have other: "ensures ?P (rbind (if seminfo then save_and_next reader ls else lx_next reader ls) (\<lambda>ls. Inr (False, ls)))"
    by (rule ret) (use save_next_ensures [OF at c] next_ensures [OF at c] in simp)
  show ?thesis unfolding long_turn_def Some option.case using close open' newline other by simp
qed

lemma long_loop_ensures:
  "lex_at contents n ls \<Longrightarrow> n < k \<Longrightarrow> n < j \<Longrightarrow> 0 \<le> sep \<Longrightarrow> ensures (lex_at contents n) (long_loop k j reader seminfo sep ls)"
proof (induction j arbitrary: n ls)
  case (Suc j)
  show ?case unfolding long_loop.simps
  proof (rule ensures_rbind [OF long_turn_ensures [OF Suc.prems(1,2,4)]], clarify)
    fix d ls' m assume l: "n = Suc m" "lex_at contents m ls'"
    then have "ensures (lex_at contents m) (long_loop k j reader seminfo sep ls')" using Suc.IH [of m ls'] Suc.prems by simp
    from ensures_at_mono [OF this, of "Suc m"] lex_at_mono [OF l(2), of "Suc m"]
    show "ensures (lex_at contents (Suc m)) (if d then Inr ls' else long_loop k j reader seminfo sep ls')" by simp
  qed
qed simp

lemma read_long_string_ensures:
  assumes "lex_at contents n ls" "current ls \<noteq> None" "n < k" "0 \<le> sep"
  shows "ensures (\<lambda>(s, ls). lex_at contents n ls) (read_long_string k reader seminfo sep ls)"
  unfolding read_long_string_def Let_def
proof (rule ensures_rbind [OF save_next_keeps [OF assms(1,2)]], rule ensures_rbind [of "lex_at contents n"])
  fix ls assume l: "lex_at contents n ls"
  have "ensures (lex_at contents n) (inclinenumber reader ls)" if "currIsNewline ls"
  proof -
    have c: "current ls \<noteq> None" using that by (auto simp: currIsNewline_def)
    obtain m where m: "n = Suc m" using lex_at_pos [OF l c] by blast
    show ?thesis by (rule ensures_at_mono [OF inclinenumber_ensures [OF l [unfolded m] c]]) (simp add: m)
  qed
  then show "ensures (lex_at contents n) (if currIsNewline ls then inclinenumber reader ls else Inr ls)" using l by simp
next
  fix ls assume "lex_at contents n ls"
  then show "ensures (\<lambda>(s, ls). lex_at contents n ls) (rbind (long_loop k k reader seminfo sep ls) (\<lambda>ls.
      Inr (take (length (bufftext ls) - 2 * nat (2 + sep)) (drop (nat (2 + sep)) (bufftext ls)), ls)))"
    by (intro ensures_rbind [OF long_loop_ensures]) (use assms in auto)
qed

lemma escape_digits_ensures: "lex_at contents n ls \<Longrightarrow> ensures (\<lambda>(c, ls). lex_at contents n ls) (escape_digits k reader ls c)"
proof (induction k arbitrary: n ls c)
  case (Suc k)
  show ?case
  proof (cases "current ls")
    case (Some x)
    then have c: "current ls \<noteq> None" by simp
    obtain m where m: "n = Suc m" using lex_at_pos [OF Suc.prems c] by blast
    have "ensures (lex_at contents n) (lx_next reader ls)"
      by (rule ensures_at_mono [OF next_ensures [OF Suc.prems [unfolded m] c]]) (simp add: m)
    from ensures_rbind [OF this Suc.IH] show ?thesis using Some Suc.prems by simp
  qed (use Suc.prems in simp)
qed simp

lemma read_escape_ensures:
  assumes "lex_at contents (Suc n) ls" "current ls \<noteq> None"
  shows "ensures (lex_at contents n) (read_escape reader ls)"
  unfolding read_escape_def
proof (rule ensures_rbind [OF next_ensures [OF assms]])
  fix ls assume l: "lex_at contents n ls"
  show "ensures (lex_at contents n) (case current ls of None \<Rightarrow> Inr ls
       | Some x \<Rightarrow>
           (case simple_escape x of
              Some c \<Rightarrow> rbind (save ls c) (lx_next reader)
            | None \<Rightarrow>
                if x = CHR 0x0A \<or> x = CHR 0x0D then rbind (save ls CHR 0x0A) (inclinenumber reader)
                else if \<not> isdigit x then save_and_next reader ls
                else rbind (escape_digits 3 reader ls 0) (\<lambda>(c, ls).
                       if 255 < c then gafqX_lexerror ls ''escape sequence too large'' TK_STRING else save ls (char_of c))))"
  proof (cases "current ls")
    case (Some x)
    then have c: "current ls \<noteq> None" by simp
    obtain m where m: "n = Suc m" using lex_at_pos [OF l c] by blast
    have keep: "ensures (lex_at contents n) r" if "ensures (lex_at contents m) r" for r using ensures_at_mono [OF that] m by simp
    note l' = l [unfolded m]
    have 1: "ensures (lex_at contents n) (rbind (save ls c) (lx_next reader))" for c
      by (rule ensures_rbind [OF save_ensures [OF l]], rule keep, rule next_ensures) (use c m in auto)
    have 2: "ensures (lex_at contents n) (rbind (save ls CHR 0x0A) (inclinenumber reader))"
      by (rule ensures_rbind [OF save_ensures [OF l]], rule keep, rule inclinenumber_ensures) (use c m in auto)
    have 3: "ensures (lex_at contents n) (save_and_next reader ls)" by (rule keep [OF save_next_ensures [OF l' c]])
    have 4: "ensures (lex_at contents n) (rbind (escape_digits 3 reader ls 0) (\<lambda>(c, ls).
        if 255 < c then gafqX_lexerror ls ''escape sequence too large'' TK_STRING else save ls (char_of c)))"
      by (rule ensures_rbind [OF escape_digits_ensures [OF l]])
        (auto intro!: lexerror_ensures [OF _ TK_STRING_le] ensures_weaken [OF save_ensures])
    show ?thesis using Some 1 2 3 4 by (simp split: option.split)
  qed (use l in simp)
qed

lemma string_loop_ensures:
  "lex_at contents n ls \<Longrightarrow> n < k \<Longrightarrow> ensures (\<lambda>ls. lex_at contents n ls \<and> current ls \<noteq> None) (string_loop k reader del ls)"
proof (induction k arbitrary: n ls)
  case (Suc k)
  show ?case
  proof (cases "current ls")
    case None
    then show ?thesis by (simp add: lexerror_ensures [OF Suc.prems(1)])
  next
    case (Some x)
    then have c: "current ls \<noteq> None" by simp
    obtain m where m: "n = Suc m" using lex_at_pos [OF Suc.prems(1) c] by blast
    note at = Suc.prems(1) [unfolded m]
    let ?P = "\<lambda>ls. lex_at contents n ls \<and> current ls \<noteq> None"
    have IH: "ensures ?P (string_loop k reader del ls')" if "lex_at contents m ls'" for ls'
      by (rule ensures_weaken [OF Suc.IH [OF that]]) (use Suc.prems(2) m in \<open>auto intro: lex_at_mono\<close>)
    have "ensures ?P (rbind (read_escape reader ls) (string_loop k reader del))" "ensures ?P (rbind (save_and_next reader ls) (string_loop k reader del))"
      by (rule ensures_rbind [OF read_escape_ensures [OF at c] IH], assumption, rule ensures_rbind [OF save_next_ensures [OF at c] IH], assumption)
    then show ?thesis using Some Suc.prems(1) by (simp add: lexerror_ensures [OF Suc.prems(1)] TK_STRING_def TK_EOS_def)
  qed
qed simp

lemma read_string_ensures:
  assumes "lex_at contents (Suc n) ls" "current ls \<noteq> None" "n < k"
  shows "ensures (\<lambda>(s, ls). lex_at contents n ls) (read_string k reader del ls)"
  unfolding read_string_def
  by (rule ensures_rbind [OF save_next_ensures [OF assms(1,2)]], rule ensures_rbind [OF string_loop_ensures [OF _ assms(3)]], assumption,
      rule ensures_rbind [OF save_next_keeps]) auto

end

definition not_eos :: "(nat \<times> SemInfo) option \<Rightarrow> bool" where
  "not_eos r \<longleftrightarrow> (\<forall>t s. r = Some (t, s) \<longrightarrow> t \<noteq> TK_EOS)"

lemma not_eos_simps [simp]: "not_eos None" "not_eos (Some (t, s)) \<longleftrightarrow> t \<noteq> TK_EOS"
  by (auto simp: not_eos_def)

lemma uchar_not_eos: "uchar c \<noteq> TK_EOS"
proof -
  have "uchar c < 256" by (metis of_char_mod_256 mod_less_divisor zero_less_numeral)
  then show ?thesis unfolding TK_EOS_def by linarith
qed

lemma tk_not_eos: "TK_STRING \<noteq> TK_EOS" "TK_NUMBER \<noteq> TK_EOS"
  by (simp_all add: TK_STRING_def TK_NUMBER_def TK_EOS_def)

context chunk_reader
begin

abbreviation turned :: "nat \<Rightarrow> (nat \<times> SemInfo) option \<times> 'd LexState \<Rightarrow> bool" where
  "turned n \<equiv> \<lambda>(r, ls). lex_at contents n ls \<and> not_eos r"

lemma next_keeps: "lex_at contents n ls \<Longrightarrow> current ls \<noteq> None \<Longrightarrow> ensures (lex_at contents n) (lx_next reader ls)"
  using lex_at_pos [of contents n ls] ensures_at_mono [OF next_ensures, of "n - 1" ls n] by fastforce

lemma token_if_equals_ensures:
  assumes "lex_at contents (Suc n) ls" "current ls \<noteq> None" "tk \<noteq> TK_EOS"
  shows "ensures (turned n) (token_if_equals reader ls c tk)"
  unfolding token_if_equals_def
  by (rule ensures_rbind [OF next_ensures [OF assms(1,2)]])
    (use assms(3) uchar_not_eos in \<open>auto intro!: ensures_rbind [OF next_keeps]\<close>)

lemma lex_dash_ensures:
  assumes "lex_at contents (Suc n) ls" "current ls \<noteq> None" "n < k"
  shows "ensures (turned n) (lex_dash k reader ls)"
  unfolding lex_dash_def
proof (rule ensures_rbind [OF next_ensures [OF assms(1,2)]])
  fix ls1 assume l1: "lex_at contents n ls1"
  let ?short = "\<lambda>ls. rbind (skip_while k (\<lambda>c. c \<noteq> CHR 0x0A \<and> c \<noteq> CHR 0x0D) reader ls) (\<lambda>ls. Inr (None, ls))"
  have short: "ensures (turned n) (?short ls)" if "lex_at contents n ls" for ls
    by (rule ensures_rbind [OF skip_while_ensures [OF that assms(3)]]) simp
  have long: "ensures (turned n) (rbind (read_long_string k reader False sep ls) (\<lambda>(_, ls). Inr (None, resetbuffer ls)))"
    if "lex_at contents n ls" "current ls \<noteq> None" "0 \<le> sep" for ls sep
    by (rule ensures_rbind [OF read_long_string_ensures [OF that(1,2) assms(3) that(3)]]) (auto intro: resetbuffer_at)
  have sep: "ensures (turned n) (rbind (skip_sep k reader ls2) (\<lambda>(sep, ls). let ls = resetbuffer ls
       in if 0 \<le> sep then rbind (read_long_string k reader False sep ls) (\<lambda>(_, ls). Inr (None, resetbuffer ls)) else ?short ls))"
    if l2: "lex_at contents n ls2" "current ls2 = Some CHR ''[''" for ls2
  proof -
    have c: "current ls2 \<noteq> None" using that by simp
    obtain m where m: "n = Suc m" using lex_at_pos [OF l2(1) c] by blast
    have "m < k" using m assms(3) by simp
    then show ?thesis
    proof (intro ensures_rbind [OF skip_sep_ensures [OF l2(1) [unfolded m] c]], assumption, clarify)
      fix sp :: int and ls3 assume l3: "lex_at contents m ls3" "0 \<le> sp \<longrightarrow> current ls3 \<noteq> None"
      have "lex_at contents n (resetbuffer ls3)" by (rule resetbuffer_at [OF lex_at_mono [OF l3(1)]]) (simp add: m)
      moreover have "0 \<le> sp \<Longrightarrow> current (resetbuffer ls3) \<noteq> None" using l3(2) by (simp add: resetbuffer_def)
      ultimately show "ensures (turned n) (let ls = resetbuffer ls3
         in if 0 \<le> sp then rbind (read_long_string k reader False sp ls) (\<lambda>(_, ls). Inr (None, resetbuffer ls)) else ?short ls)"
        using long short by (simp add: Let_def)
    qed
  qed
  show "ensures (turned n) (if current ls1 \<noteq> Some CHR ''-'' then Inr (Some (45, SNone), ls1)
       else rbind (lx_next reader ls1) (\<lambda>ls.
         let short = ?short
         in if current ls = Some CHR ''[''
            then rbind (skip_sep k reader ls) (\<lambda>(sep, ls).
                   let ls = resetbuffer ls
                   in if 0 \<le> sep
                      then rbind (read_long_string k reader False sep ls) (\<lambda>(_, ls). Inr (None, resetbuffer ls))
                      else short ls)
            else short ls))"
  proof (cases "current ls1 = Some CHR ''-''")
    case True
    then have c: "current ls1 \<noteq> None" by simp
    show ?thesis unfolding Let_def using True
      by (simp, intro ensures_rbind [OF next_keeps [OF l1 c]]) (use sep [unfolded Let_def] short in auto)
  qed (use l1 in \<open>simp add: TK_EOS_def\<close>)
qed

lemma lex_bracket_ensures:
  assumes "lex_at contents (Suc n) ls" "current ls \<noteq> None" "n < k"
  shows "ensures (turned n) (lex_bracket k reader ls)"
  unfolding lex_bracket_def
  by (rule ensures_rbind [OF skip_sep_ensures [OF assms]])
    (auto intro!: ensures_rbind [OF read_long_string_ensures [OF _ _ assms(3)]] lexerror_ensures [OF _ TK_STRING_le] simp: tk_not_eos, (simp add: TK_EOS_def)+)

lemma lex_dot_ensures:
  assumes "lex_at contents (Suc n) ls" "current ls \<noteq> None" "n < k"
  shows "ensures (turned n) (lex_dot k str2d reader ls)"
  unfolding lex_dot_def
proof (rule ensures_rbind [OF save_next_ensures [OF assms(1,2)]], rule ensures_rbind [OF check_next_ensures], assumption, clarify)
  fix b ls assume l: "lex_at contents n ls"
  have dots: "ensures (turned n) (rbind (check_next reader ls ''.'') (\<lambda>(b, ls). Inr (Some (if b then TK_DOTS else TK_CONCAT, SNone), ls)))"
    by (rule ensures_rbind [OF check_next_ensures [OF l]]) (auto simp: TK_DOTS_def TK_CONCAT_def TK_EOS_def)
  have num: "ensures (turned n) (rbind (read_numeral k str2d reader ls) (\<lambda>(r, ls). Inr (Some (TK_NUMBER, SNum r), ls)))" if "is_cur isdigit ls"
  proof -
    have c: "current ls \<noteq> None" using that by (auto simp: is_cur_def split: option.splits)
    obtain m where m: "n = Suc m" using lex_at_pos [OF l c] by blast
    have "m < k" using m assms(3) by simp
    show ?thesis by (rule ensures_rbind [OF read_numeral_ensures [OF l [unfolded m] c \<open>m < k\<close>]])
        (auto simp: tk_not_eos m elim!: lex_at_mono)
  qed
  show "ensures (turned n)
      (if b then rbind (check_next reader ls ''.'') (\<lambda>(b, ls). Inr (Some (if b then TK_DOTS else TK_CONCAT, SNone), ls))
       else if \<not> is_cur isdigit ls then Inr (Some (46, SNone), ls)
       else rbind (read_numeral k str2d reader ls) (\<lambda>(r, ls). Inr (Some (TK_NUMBER, SNum r), ls)))"
    using dots num l by (simp add: TK_EOS_def)
qed

lemma lex_name_ensures:
  assumes "lex_at contents (Suc n) ls" "current ls \<noteq> None" "n < k"
  shows "ensures (turned n) (lex_name k reader ls)"
  unfolding lex_name_def Let_def
  by (rule ensures_rbind [OF save_next_ensures [OF assms(1,2)]], rule ensures_rbind [OF save_while_ensures [OF _ assms(3)]])
    (auto simp: TK_NAME_def TK_EOS_def NUM_RESERVED_def FIRST_RESERVED_def)

lemma glex_turn_ensures:
  assumes "lex_at contents (Suc n) ls" "current ls = Some c" "n < k"
  shows "ensures (turned n) (glex_turn k str2d reader ls)"
proof -
  have c: "current ls \<noteq> None" using assms(2) by simp
  note at = assms(1) c assms(3)
  have skip: "ensures (turned n) (rbind r (\<lambda>ls. Inr (None, ls)))" if "ensures (lex_at contents n) r" for r
    by (rule ensures_rbind [OF that]) simp
  have chr: "ensures (turned n) (rbind (lx_next reader ls) (\<lambda>ls. Inr (Some (uchar c, SNone), ls)))"
    by (rule ensures_rbind [OF next_ensures [OF at(1,2)]]) (simp add: uchar_not_eos)
  have str: "ensures (turned n) (rbind (read_string k reader c ls) (\<lambda>(s, ls). Inr (Some (TK_STRING, SStr s), ls)))"
    by (rule ensures_rbind [OF read_string_ensures [OF at]]) (auto simp: TK_STRING_def TK_EOS_def)
  have num: "ensures (turned n) (rbind (read_numeral k str2d reader ls) (\<lambda>(r, ls). Inr (Some (TK_NUMBER, SNum r), ls)))"
    by (rule ensures_rbind [OF read_numeral_ensures [OF at]]) (auto simp: TK_NUMBER_def TK_EOS_def)
  have eqs: "ensures (turned n) (token_if_equals reader ls c TK_EQ)" "ensures (turned n) (token_if_equals reader ls c TK_LE)"
    "ensures (turned n) (token_if_equals reader ls c TK_GE)" "ensures (turned n) (token_if_equals reader ls c TK_NE)"
    by (rule token_if_equals_ensures [OF at(1,2)], simp add: TK_EQ_def TK_LE_def TK_GE_def TK_NE_def TK_EOS_def)+
  note all = skip [OF inclinenumber_ensures [OF at(1,2)]] skip [OF next_ensures [OF at(1,2)]] chr str num eqs
    lex_dash_ensures [OF at] lex_bracket_ensures [OF at] lex_dot_ensures [OF at] lex_name_ensures [OF at]
  show ?thesis unfolding glex_turn_def assms(2) option.case by (simp only: all split: if_split) simp
qed

lemma glex_loop_ensures:
  "lex_at contents n ls \<Longrightarrow> n < k \<Longrightarrow> n < j \<Longrightarrow>
   ensures (\<lambda>((t, s), ls'). lex_ok ls' \<and> (if t = TK_EOS then text_of contents ls' = [] else length (text_of contents ls') < n))
     (glex_loop k j str2d reader ls)"
proof (induction j arbitrary: n ls)
  case (Suc j)
  show ?case
  proof (cases "current ls")
    case None
    then show ?thesis using Suc.prems(1) by (simp add: glex_turn_def lex_at_def text_of_def)
  next
    case (Some c)
    obtain m where m: "n = Suc m" using lex_at_pos [OF Suc.prems(1)] Some by auto
    have k: "m < k" "m < j" using m Suc.prems by auto
    show ?thesis unfolding glex_loop.simps
    proof (rule ensures_rbind [OF glex_turn_ensures [OF Suc.prems(1) [unfolded m] Some k(1)]], clarify)
      fix r ls1 assume l: "lex_at contents m ls1" "not_eos r"
      show "ensures (\<lambda>((t, s), ls'). lex_ok ls' \<and> (if t = TK_EOS then text_of contents ls' = [] else length (text_of contents ls') < n))
        (case r of Some t \<Rightarrow> Inr (t, ls1) | None \<Rightarrow> glex_loop k j str2d reader ls1)"
      proof (cases r)
        case None
        then show ?thesis using ensures_weaken [OF Suc.IH [OF l(1) k]] m by (force simp: less_Suc_eq)
      next
        case (Some t)
        then show ?thesis using l m by (cases t) (auto simp: lex_at_def)
      qed
    qed
  qed
qed simp

end

text \<open>
  C7. The scanner is total: on every input that a reader delivers, however cut into pieces, and with as much
  fuel as characters are left, \<open>glex\<close> returns a token or raises a syntax error; it never asks the
  stream for a character after its end, never writes outside its buffer, and every token but the one for the end of the
  input consumes at least one character, which comes only when nothing is left.
\<close>

theorem glex_total:
  assumes "chunk_reader reader contents" "lex_ok ls" "length (text_of contents ls) < n"
  shows "case glex n str2d reader ls of
     Inl e \<Rightarrow> defined (Inl e :: unit res)
   | Inr ((t, s), ls') \<Rightarrow> lex_ok ls' \<and>
       (if t = TK_EOS then text_of contents ls' = [] else length (text_of contents ls') < length (text_of contents ls))"
proof -
  have "lex_at contents (length (text_of contents ls)) (resetbuffer ls)"
    by (rule resetbuffer_at) (simp add: lex_at_def assms(2))
  from chunk_reader.glex_loop_ensures [OF assms(1) this assms(3,3), of str2d] show ?thesis
    unfolding glex_def by (auto simp: ensures_def split: sum.splits prod.splits if_splits)
qed

definition example_lex :: "string \<Rightarrow> LoadS LexState" where
  "example_lex s =
     \<lparr>current = (case s of [] \<Rightarrow> None | c # _ \<Rightarrow> Some c), linenumber = 1, lastline = 1, lx_t = \<lparr>tk_token = TK_EOS, tk_seminfo = SNone\<rparr>,
      lx_lookahead = \<lparr>tk_token = TK_EOS, tk_seminfo = SNone\<rparr>,
      lx_z = \<lparr>z_n = length (tl s), z_p = tl s, z_data = \<lparr>ls_s = s, ls_size = 0\<rparr>\<rparr>,
      buff = \<lparr>mb_buffer = [], mb_n = 0, mb_buffsize = GAFQ_MINBUFFER\<rparr>, lx_source = ''=x'', decpoint = CHR ''.''\<rparr>"

lemma example_lex_ok:
  "lex_ok (example_lex s)" "text_of (\<lambda>ls. take (ls_size ls) (ls_s ls)) (example_lex s) = s"
  by (auto simp: example_lex_def lex_ok_def text_of_def z_ok_def GAFQ_MINBUFFER_def split: list.splits)

theorem glex_total_witness:
  "case glex 20 (\<lambda>_. None) getS (example_lex ''-- note'') of
     Inl e \<Rightarrow> defined (Inl e :: unit res)
   | Inr ((t, s), ls') \<Rightarrow> lex_ok ls' \<and>
       (if t = TK_EOS then text_of (\<lambda>ls. take (ls_size ls) (ls_s ls)) ls' = []
        else length (text_of (\<lambda>ls. take (ls_size ls) (ls_s ls)) ls') < length ''-- note'')"
proof -
  have "length (text_of (\<lambda>ls. take (ls_size ls) (ls_s ls)) (example_lex ''-- note'')) < 20" by (simp add: example_lex_ok(2))
  from glex_total [OF str.chunk_reader_axioms example_lex_ok(1) this, of "\<lambda>_. None"]
  show ?thesis unfolding example_lex_ok(2) .
qed

end
