(* ===== verification/Match.thy ===== *)
theory Match
  imports Ctype
begin

text \<open>
  Pattern matching of \<open>gstrlib.c\<close>.  Pointers into the subject and the pattern are offsets; both are
  zero-terminated strings.  The functions of the C code that call \<open>match\<close> back are given it as an argument;
  \<open>match_body\<close> is its body.  The capture array has slots that were never written (\<open>None\<close>).  The text of an
  error is given without the position that \<open>gafqL_error\<close> puts before it.
\<close>

definition GAFQ_MAXCAPTURES :: nat where "GAFQ_MAXCAPTURES = 32"
definition CAP_UNFINISHED :: int where "CAP_UNFINISHED = -1"
definition CAP_POSITION :: int where "CAP_POSITION = -2"
definition L_ESC :: char where "L_ESC = CHR ''%''"
definition SPECIALS :: string where "SPECIALS = ''^$*+?.([%-''"

record MatchState =
  src :: string
  level :: nat
  capture :: "(nat \<times> int) option list"

definition read_capture :: "MatchState \<Rightarrow> nat \<Rightarrow> (nat \<times> int) res" where
  "read_capture ms l =
     (if l < length (capture ms) then case capture ms ! l of None \<Rightarrow> Inl (Undefined ''capture'') | Some c \<Rightarrow> Inr c
      else Inl (Undefined ''capture''))"

definition write_capture :: "MatchState \<Rightarrow> nat \<Rightarrow> nat \<times> int \<Rightarrow> MatchState res" where
  "write_capture ms l c =
     (if l < length (capture ms) then Inr (ms\<lparr>capture := (capture ms)[l := Some c]\<rparr>) else Inl (Undefined ''capture''))"

definition check_capture :: "MatchState \<Rightarrow> char \<Rightarrow> nat res" where
  "check_capture ms c =
     (let l = int (uchar c) - 49; e = Inl (RunError ''invalid capture index'')
      in if l < 0 \<or> int (level ms) \<le> l then e
         else rbind (read_capture ms (nat l)) (\<lambda>(_, len). if len = CAP_UNFINISHED then e else Inr (nat l)))"

primrec capture_to_close_loop :: "MatchState \<Rightarrow> nat \<Rightarrow> nat res" where
  "capture_to_close_loop ms 0 = Inl (RunError ''invalid pattern capture'')"
| "capture_to_close_loop ms (Suc l) =
     rbind (read_capture ms l) (\<lambda>(_, len). if len = CAP_UNFINISHED then Inr l else capture_to_close_loop ms l)"

definition capture_to_close :: "MatchState \<Rightarrow> nat res" where
  "capture_to_close ms = capture_to_close_loop ms (level ms)"

subsection \<open>Single characters\<close>

function classend_loop :: "string \<Rightarrow> nat \<Rightarrow> nat res" where
  "classend_loop pat p =
     (case cread pat p of
        Inl e \<Rightarrow> Inl e
      | Inr c \<Rightarrow>
          if c = NUL then Inl (RunError ''malformed pattern (missing ']')'')
          else rbind (cread pat (p + 1)) (\<lambda>c1.
                 let p' = (if c = L_ESC \<and> c1 \<noteq> NUL then p + 2 else p + 1)
                 in rbind (cread pat p') (\<lambda>c2. if c2 \<noteq> CHR '']'' then classend_loop pat p' else Inr (p' + 1))))"
  by pat_completeness auto
termination
  by (relation "measure (\<lambda>(pat, p). length pat - p)") (auto dest!: cread_Inr)

declare classend_loop.simps [simp del]

definition classend :: "string \<Rightarrow> nat \<Rightarrow> nat res" where
  "classend pat p =
     rbind (cread pat p) (\<lambda>c.
       if c = L_ESC
       then rbind (cread pat (p + 1)) (\<lambda>c1.
              if c1 = NUL then Inl (RunError ''malformed pattern (ends with '%')'') else Inr (p + 2))
       else if c = CHR ''[''
       then rbind (cread pat (p + 1)) (\<lambda>c1. classend_loop pat (if c1 = CHR ''^'' then p + 2 else p + 1))
       else Inr (p + 1))"

definition match_class :: "char \<Rightarrow> char \<Rightarrow> bool" where
  "match_class c cl =
     (let k = tolower cl; res = (\<lambda>r. if islower cl then r else \<not> r)
      in if k = CHR ''a'' then res (isalpha c)
         else if k = CHR ''c'' then res (iscntrl c)
         else if k = CHR ''d'' then res (isdigit c)
         else if k = CHR ''l'' then res (islower c)
         else if k = CHR ''p'' then res (ispunct c)
         else if k = CHR ''s'' then res (isspace c)
         else if k = CHR ''u'' then res (isupper c)
         else if k = CHR ''w'' then res (isalnum c)
         else if k = CHR ''x'' then res (isxdigit c)
         else if k = CHR ''z'' then res (c = NUL)
         else cl = c)"

function bracket_loop :: "string \<Rightarrow> char \<Rightarrow> bool \<Rightarrow> nat \<Rightarrow> nat \<Rightarrow> bool res" where
  "bracket_loop pat c sig ec p0 =
     (let p = p0 + 1
      in if p < ec
         then rbind (cread pat p) (\<lambda>c0.
                rbind (cread pat (p + 1)) (\<lambda>c1.
                  if c0 = L_ESC
                  then (if match_class c c1 then Inr sig else bracket_loop pat c sig ec (p + 1))
                  else if c1 = CHR ''-'' \<and> p + 2 < ec
                  then rbind (cread pat (p + 2)) (\<lambda>c2.
                         if uchar c0 \<le> uchar c \<and> uchar c \<le> uchar c2 then Inr sig else bracket_loop pat c sig ec (p + 2))
                  else if c0 = c then Inr sig
                  else bracket_loop pat c sig ec p))
         else Inr (\<not> sig))"
  by pat_completeness auto
termination
  by (relation "measure (\<lambda>(pat, c, sig, ec, p). ec - p)") auto

declare bracket_loop.simps [simp del]

definition matchbracketclass :: "string \<Rightarrow> char \<Rightarrow> nat \<Rightarrow> nat \<Rightarrow> bool res" where
  "matchbracketclass pat c p ec =
     rbind (cread pat (p + 1)) (\<lambda>c1.
       if c1 = CHR ''^'' then bracket_loop pat c False ec (p + 1) else bracket_loop pat c True ec p)"

definition singlematch :: "string \<Rightarrow> char \<Rightarrow> nat \<Rightarrow> nat \<Rightarrow> bool res" where
  "singlematch pat c p ep =
     rbind (cread pat p) (\<lambda>c0.
       if c0 = CHR ''.'' then Inr True
       else if c0 = L_ESC then rbind (cread pat (p + 1)) (\<lambda>c1. Inr (match_class c c1))
       else if c0 = CHR ''['' then matchbracketclass pat c p (ep - 1)
       else Inr (c0 = c))"

subsection \<open>Items\<close>

type_synonym match_result = "(nat option \<times> MatchState) res"
type_synonym matcher = "MatchState \<Rightarrow> nat \<Rightarrow> nat \<Rightarrow> match_result"

function balance_loop :: "string \<Rightarrow> char \<Rightarrow> char \<Rightarrow> nat \<Rightarrow> nat \<Rightarrow> nat option res" where
  "balance_loop sr b e s0 cont =
     (let s = s0 + 1
      in if s < length sr
         then rbind (cread sr s) (\<lambda>c.
                if c = e then (if cont - 1 = 0 then Inr (Some (s + 1)) else balance_loop sr b e s (cont - 1))
                else if c = b then balance_loop sr b e s (cont + 1)
                else balance_loop sr b e s cont)
         else Inr None)"
  by pat_completeness auto
termination
  by (relation "measure (\<lambda>(sr, b, e, s, cont). length sr - s)") auto

declare balance_loop.simps [simp del]

definition matchbalance :: "string \<Rightarrow> MatchState \<Rightarrow> nat \<Rightarrow> nat \<Rightarrow> nat option res" where
  "matchbalance pat ms s p =
     rbind (cread pat p) (\<lambda>b.
       if b = NUL then Inl (RunError ''unbalanced pattern'')
       else rbind (cread pat (p + 1)) (\<lambda>e.
         if e = NUL then Inl (RunError ''unbalanced pattern'')
         else rbind (cread (src ms) s) (\<lambda>c. if c \<noteq> b then Inr None else balance_loop (src ms) b e s 1)))"

text \<open>The test \<open>s < ms->src_end && singlematch(uchar( *s), p, ep)\<close>.\<close>

definition single_at :: "string \<Rightarrow> MatchState \<Rightarrow> nat \<Rightarrow> nat \<Rightarrow> nat \<Rightarrow> bool res" where
  "single_at pat ms s p ep =
     (if s < length (src ms) then rbind (cread (src ms) s) (\<lambda>c. singlematch pat c p ep) else Inr False)"

lemma single_at_less: "single_at pat ms s p ep = Inr True \<Longrightarrow> s < length (src ms)"
  by (simp add: single_at_def split: if_splits)

function max_count :: "string \<Rightarrow> MatchState \<Rightarrow> nat \<Rightarrow> nat \<Rightarrow> nat \<Rightarrow> nat \<Rightarrow> nat res" where
  "max_count pat ms s p ep i =
     (case single_at pat ms (s + i) p ep of
        Inl e \<Rightarrow> Inl e
      | Inr m \<Rightarrow> if m then max_count pat ms s p ep (i + 1) else Inr i)"
  by pat_completeness auto
termination
  by (relation "measure (\<lambda>(pat, ms, s, p, ep, i). length (src ms) - (s + i))") (auto dest!: single_at_less)

declare max_count.simps [simp del]

primrec max_try :: "(MatchState \<Rightarrow> nat \<Rightarrow> match_result) \<Rightarrow> nat \<Rightarrow> nat \<Rightarrow> MatchState \<Rightarrow> match_result" where
  "max_try m s 0 ms = m ms s"
| "max_try m s (Suc i) ms =
     rbind (m ms (s + Suc i)) (\<lambda>(r, ms'). if r \<noteq> None then Inr (r, ms') else max_try m s i ms')"

definition max_expand :: "matcher \<Rightarrow> string \<Rightarrow> MatchState \<Rightarrow> nat \<Rightarrow> nat \<Rightarrow> nat \<Rightarrow> match_result" where
  "max_expand M pat ms s p ep =
     rbind (max_count pat ms s p ep 0) (\<lambda>i. max_try (\<lambda>ms s. M ms s (ep + 1)) s i ms)"

text \<open>The loop of \<open>min_expand\<close>, at most \<open>n\<close> more turns than characters are left.\<close>

primrec min_try :: "(MatchState \<Rightarrow> nat \<Rightarrow> match_result) \<Rightarrow> string \<Rightarrow> nat \<Rightarrow> nat \<Rightarrow> nat \<Rightarrow> nat \<Rightarrow> MatchState \<Rightarrow> match_result" where
  "min_try m pat p ep 0 s ms = Inl OutOfFuel"
| "min_try m pat p ep (Suc n) s ms =
     rbind (m ms s) (\<lambda>(r, ms').
       if r \<noteq> None then Inr (r, ms')
       else rbind (single_at pat ms' s p ep) (\<lambda>b.
              if b then min_try m pat p ep n (s + 1) ms' else Inr (None, ms')))"

definition min_expand :: "matcher \<Rightarrow> string \<Rightarrow> MatchState \<Rightarrow> nat \<Rightarrow> nat \<Rightarrow> nat \<Rightarrow> match_result" where
  "min_expand M pat ms s p ep =
     min_try (\<lambda>ms s. M ms s (ep + 1)) pat p ep (length (src ms) + 1 - s) s ms"

definition start_capture :: "matcher \<Rightarrow> MatchState \<Rightarrow> nat \<Rightarrow> nat \<Rightarrow> int \<Rightarrow> match_result" where
  "start_capture M ms s p what =
     (let lv = level ms
      in if GAFQ_MAXCAPTURES \<le> lv then Inl (RunError ''too many captures'')
         else rbind (write_capture ms lv (s, what)) (\<lambda>ms1.
                rbind (M (ms1\<lparr>level := lv + 1\<rparr>) s p) (\<lambda>(r, ms2).
                  Inr (r, if r = None then ms2\<lparr>level := level ms2 - 1\<rparr> else ms2))))"

definition end_capture :: "matcher \<Rightarrow> MatchState \<Rightarrow> nat \<Rightarrow> nat \<Rightarrow> match_result" where
  "end_capture M ms s p =
     rbind (capture_to_close ms) (\<lambda>l.
       rbind (read_capture ms l) (\<lambda>(ini, _).
         rbind (write_capture ms l (ini, int s - int ini)) (\<lambda>ms1.
           rbind (M ms1 s p) (\<lambda>(r, ms2).
             if r = None
             then rbind (read_capture ms2 l) (\<lambda>(ini2, _). rbind (write_capture ms2 l (ini2, CAP_UNFINISHED)) (\<lambda>ms3. Inr (r, ms3)))
             else Inr (r, ms2)))))"

definition memory_equal :: "string \<Rightarrow> nat \<Rightarrow> nat \<Rightarrow> nat \<Rightarrow> bool res" where
  "memory_equal sr a b len =
     (if a + len \<le> length sr + 1 \<and> b + len \<le> length sr + 1
      then Inr (take len (drop a (sr @ [NUL])) = take len (drop b (sr @ [NUL])))
      else Inl (Undefined ''memcmp''))"

definition match_capture :: "MatchState \<Rightarrow> nat \<Rightarrow> char \<Rightarrow> nat option res" where
  "match_capture ms s c =
     rbind (check_capture ms c) (\<lambda>l.
       rbind (read_capture ms l) (\<lambda>(ini, l0).
         let len = nat (l0 mod 2 ^ 64)
         in if len \<le> length (src ms) - s
            then rbind (memory_equal (src ms) ini s len) (\<lambda>eq. Inr (if eq then Some (s + len) else None))
            else Inr None))"

subsection \<open>The matcher\<close>

definition match_dflt :: "matcher \<Rightarrow> string \<Rightarrow> MatchState \<Rightarrow> nat \<Rightarrow> nat \<Rightarrow> match_result" where
  "match_dflt M pat ms s p =
     rbind (classend pat p) (\<lambda>ep.
       rbind (single_at pat ms s p ep) (\<lambda>m.
         rbind (cread pat ep) (\<lambda>c.
           if c = CHR ''?''
           then (if m then rbind (M ms (s + 1) (ep + 1)) (\<lambda>(r, ms1). if r \<noteq> None then Inr (r, ms1) else M ms1 s (ep + 1))
                 else M ms s (ep + 1))
           else if c = CHR ''*'' then max_expand M pat ms s p ep
           else if c = CHR ''+'' then (if m then max_expand M pat ms (s + 1) p ep else Inr (None, ms))
           else if c = CHR ''-'' then min_expand M pat ms s p ep
           else if \<not> m then Inr (None, ms)
           else M ms (s + 1) ep)))"

definition match_body :: "matcher \<Rightarrow> string \<Rightarrow> MatchState \<Rightarrow> nat \<Rightarrow> nat \<Rightarrow> match_result" where
  "match_body M pat ms s p =
     rbind (cread pat p) (\<lambda>c.
       if c = CHR ''(''
       then rbind (cread pat (p + 1)) (\<lambda>c1.
              if c1 = CHR '')'' then start_capture M ms s (p + 2) CAP_POSITION
              else start_capture M ms s (p + 1) CAP_UNFINISHED)
       else if c = CHR '')'' then end_capture M ms s (p + 1)
       else if c = L_ESC
       then rbind (cread pat (p + 1)) (\<lambda>c1.
              if c1 = CHR ''b''
              then rbind (matchbalance pat ms s (p + 2)) (\<lambda>r. case r of None \<Rightarrow> Inr (None, ms) | Some s' \<Rightarrow> M ms s' (p + 4))
              else if c1 = CHR ''f''
              then rbind (cread pat (p + 2)) (\<lambda>c2.
                     if c2 \<noteq> CHR ''['' then Inl (RunError ''missing '[' after '%f' in pattern'')
                     else rbind (classend pat (p + 2)) (\<lambda>ep.
                            rbind (if s = 0 then Inr NUL else cread (src ms) (s - 1)) (\<lambda>previous.
                              rbind (matchbracketclass pat previous (p + 2) (ep - 1)) (\<lambda>b1.
                                if b1 then Inr (None, ms)
                                else rbind (cread (src ms) s) (\<lambda>cs.
                                  rbind (matchbracketclass pat cs (p + 2) (ep - 1)) (\<lambda>b2.
                                    if \<not> b2 then Inr (None, ms) else M ms s ep))))))
              else if isdigit c1
              then rbind (match_capture ms s c1) (\<lambda>r. case r of None \<Rightarrow> Inr (None, ms) | Some s' \<Rightarrow> M ms s' (p + 2))
              else match_dflt M pat ms s p)
       else if c = NUL then Inr (Some s, ms)
       else if c = CHR ''$''
       then rbind (cread pat (p + 1)) (\<lambda>c1.
              if c1 = NUL then Inr (if s = length (src ms) then Some s else None, ms)
              else match_dflt M pat ms s p)
       else match_dflt M pat ms s p)"

lemma classend_loopE:
  assumes "classend_loop pat p = Inr ep"
  obtains q c where "p < length pat" "q = p + 1 \<or> q = p + 2" "cread pat q = Inr c"
    "c = CHR '']'' \<Longrightarrow> ep = q + 1" "c \<noteq> CHR '']'' \<Longrightarrow> classend_loop pat q = Inr ep"
proof -
  obtain c where c: "cread pat p = Inr c" "c \<noteq> NUL" "p < length pat"
    using assms cread_Inr by (subst (asm) classend_loop.simps) (fastforce split: sum.splits if_splits)
  obtain c1 where c1: "cread pat (p + 1) = Inr c1" using c cread_ok [of "p + 1" pat] by auto
  define q where "q = (if c = L_ESC \<and> c1 \<noteq> NUL then p + 2 else p + 1)"
  have "rbind (cread pat q) (\<lambda>c2. if c2 \<noteq> CHR '']'' then classend_loop pat q else Inr (q + 1)) = Inr ep"
    using assms c c1 by (subst (asm) classend_loop.simps) (simp only: q_def [symmetric] Let_def sum.case rbind.simps if_False)
  then obtain c2 where "cread pat q = Inr c2" "(if c2 \<noteq> CHR '']'' then classend_loop pat q else Inr (q + 1)) = Inr ep"
    by (auto simp: res_simps)
  then show thesis using c(3) by (intro that [of q c2]) (auto simp: q_def)
qed

lemma classend_loop_gt: "classend_loop pat p = Inr ep \<Longrightarrow> p + 1 < ep \<and> ep \<le> length pat"
proof (induction "length pat - p" arbitrary: p rule: less_induct)
  case less
  from less.prems show ?case
  proof (cases rule: classend_loopE)
    case (1 q c)
    show ?thesis
    proof (cases "c = CHR '']''")
      case True
      then show ?thesis using 1 cread_Inr [OF 1(3)] by auto
    next
      case False
      then show ?thesis using less.hyps [of q] 1 by fastforce
    qed
  qed
qed

lemma classend_gt: "classend pat p = Inr ep \<Longrightarrow> p < ep \<and> (cread pat p \<noteq> Inr NUL \<longrightarrow> ep \<le> length pat)"
proof -
  assume a: "classend pat p = Inr ep"
  then obtain c where c: "cread pat p = Inr c" by (auto simp: classend_def res_simps)
  consider "c = L_ESC" | "c = CHR ''[''" | "c \<noteq> L_ESC" "c \<noteq> CHR ''[''" by blast
  then show ?thesis
  proof cases
    case 1
    then show ?thesis using a c by (auto simp: classend_def res_simps split: if_splits dest!: cread_Inr)
  next
    case 2
    then have "\<exists>q. (q = p + 1 \<or> q = p + 2) \<and> classend_loop pat q = Inr ep"
      using a c by (auto simp: classend_def res_simps L_ESC_def split: if_splits)
    then show ?thesis using classend_loop_gt by fastforce
  next
    case 3
    then show ?thesis using a c cread_Inr [OF c] by (auto simp: classend_def)
  qed
qed

lemma match_dflt_cong:
  assumes "\<And>ms s p'. p < p' \<Longrightarrow> M ms s p' = N ms s p'"
  shows "match_dflt M pat ms s p = match_dflt N pat ms s p"
proof -
  have "M ms s ep = N ms s ep" "M ms s (ep + 1) = N ms s (ep + 1)" if "classend pat p = Inr ep" for ms s ep
    using assms classend_gt [OF that] by auto
  then show ?thesis unfolding match_dflt_def max_expand_def min_expand_def
    by (cases "classend pat p") (simp_all cong: if_cong)
qed

lemma match_body_cong [fundef_cong]:
  assumes "pat = pat'" "ms = ms'" "s = s'" "p = p'"
    and M: "\<And>ms s q. p' < q \<Longrightarrow> p' \<le> length pat' \<Longrightarrow> M ms s q = N ms s q"
  shows "match_body M pat ms s p = match_body N pat' ms' s' p'"
proof (cases "cread pat' p'")
  case (Inr c)
  then have p: "p' \<le> length pat'" by (auto dest: cread_Inr)
  have "classend pat' (p' + 2) = Inr ep \<Longrightarrow> p' < ep" for ep using classend_gt [of pat' "p' + 2" ep] by auto
  then have f: "rbind (classend pat' (p' + 2)) (\<lambda>ep. g ep (M ms' s' ep)) = rbind (classend pat' (p' + 2)) (\<lambda>ep. g ep (N ms' s' ep))"
    for g :: "nat \<Rightarrow> match_result \<Rightarrow> match_result"
    using M p by (cases "classend pat' (p' + 2)") auto
  note f = f [of "\<lambda>ep r. rbind (if s' = 0 then Inr NUL else cread (src ms') (s' - 1)) (\<lambda>previous.
    rbind (matchbracketclass pat' previous (p' + 2) (ep - 1)) (\<lambda>b1. if b1 then Inr (None, ms')
      else rbind (cread (src ms') s') (\<lambda>cs. rbind (matchbracketclass pat' cs (p' + 2) (ep - 1)) (\<lambda>b2.
        if \<not> b2 then Inr (None, ms') else r))))"]
  show ?thesis using M p match_dflt_cong [of p' M N] unfolding match_body_def assms(1-4) f start_capture_def end_capture_def
    by (simp cong: if_cong option.case_cong)
qed (simp del: cread_Inl add: match_body_def assms)

function match :: "string \<Rightarrow> matcher" where
  "match pat ms s p = match_body (match pat) pat ms s p"
  by pat_completeness auto
termination
  by (relation "measure (\<lambda>(pat, ms, s, p). Suc (length pat) - p)") auto

declare match.simps [simp del]

end
