(* ===== verification/Match_Ref.thy ===== *)
theory Match_Ref
  imports Match
begin

text \<open>
  What the pattern matcher computes.  The reference \<open>all_matches\<close> lists every match in the order of
  preference, with captures as values; the matcher, which keeps captures in one array, writes them ahead
  and undoes them after a failed attempt, is shown to return the first of that list or to raise one of
  its errors, and to read nothing outside the subject, the pattern and the captures written.
\<close>

subsection \<open>A reference: all matches in the order of preference\<close>

text \<open>
  \<open>all_matches\<close> is the list of all ways in which the pattern from position \<open>p\<close> on matches the subject from
  \<open>s\<close> on, the preferred one first, each with its end and its captures.  It has no state to undo: the
  captures are a value.
\<close>

type_synonym caps = "(nat \<times> int) list"
type_synonym all_matcher = "caps \<Rightarrow> nat \<Rightarrow> nat \<Rightarrow> (nat \<times> caps) list"

definition reps :: "string \<Rightarrow> string \<Rightarrow> nat \<Rightarrow> nat \<Rightarrow> nat \<Rightarrow> nat" where
  "reps pat sr s p ep = length (takeWhile (\<lambda>c. singlematch pat c p ep = Inr True) (drop s sr))"

definition last_open :: "caps \<Rightarrow> nat option" where
  "last_open cs = find (\<lambda>l. snd (cs ! l) = CAP_UNFINISHED) (rev [0..<length cs])"

definition all_dflt :: "all_matcher \<Rightarrow> string \<Rightarrow> string \<Rightarrow> all_matcher" where
  "all_dflt N pat sr cs s p =
     (case classend pat p of
        Inl _ \<Rightarrow> []
      | Inr ep \<Rightarrow>
          (let n = reps pat sr s p ep; c = (pat @ [NUL]) ! ep; rep = (\<lambda>i. N cs (s + i) (ep + 1))
           in if c = CHR ''?'' then (if 0 < n then rep 1 else []) @ rep 0
              else if c = CHR ''*'' then concat (map rep (rev [0..<Suc n]))
              else if c = CHR ''+'' then concat (map rep (rev [1..<Suc n]))
              else if c = CHR ''-'' then concat (map rep [0..<Suc n])
              else if 0 < n then N cs (s + 1) ep
              else []))"

definition all_balance :: "all_matcher \<Rightarrow> string \<Rightarrow> string \<Rightarrow> all_matcher" where
  "all_balance N pat sr cs s p =
     (case matchbalance pat \<lparr>src = sr, level = 0, capture = []\<rparr> s (p + 2) of
        Inl _ \<Rightarrow> []
      | Inr r \<Rightarrow> (case r of None \<Rightarrow> [] | Some s' \<Rightarrow> N cs s' (p + 4)))"

definition all_frontier :: "all_matcher \<Rightarrow> string \<Rightarrow> string \<Rightarrow> all_matcher" where
  "all_frontier N pat sr cs s p =
     (case classend pat (p + 2) of
        Inl _ \<Rightarrow> []
      | Inr ep \<Rightarrow>
          if matchbracketclass pat (if s = 0 then NUL else sr ! (s - 1)) (p + 2) (ep - 1) = Inr False \<and>
             matchbracketclass pat ((sr @ [NUL]) ! s) (p + 2) (ep - 1) = Inr True
          then N cs s ep else [])"

definition all_backref :: "all_matcher \<Rightarrow> string \<Rightarrow> caps \<Rightarrow> nat \<Rightarrow> nat \<Rightarrow> char \<Rightarrow> (nat \<times> caps) list" where
  "all_backref N sr cs s p c1 =
     (let l = uchar c1 - 49
      in if 49 \<le> uchar c1 \<and> l < length cs \<and> 0 \<le> snd (cs ! l)
         then (let t = take (nat (snd (cs ! l))) (drop (fst (cs ! l)) sr)
               in if take (length t) (drop s sr) = t then N cs (s + length t) (p + 2) else [])
         else [])"

definition all_body :: "all_matcher \<Rightarrow> string \<Rightarrow> string \<Rightarrow> all_matcher" where
  "all_body N pat sr cs s p =
     (let c = (pat @ [NUL]) ! p; c1 = (pat @ [NUL]) ! (p + 1)
      in if c = CHR ''('' then
           (if length cs < GAFQ_MAXCAPTURES
            then (if c1 = CHR '')'' then N (cs @ [(s, CAP_POSITION)]) s (p + 2) else N (cs @ [(s, CAP_UNFINISHED)]) s (p + 1))
            else [])
         else if c = CHR '')'' then
           (case last_open cs of
              None \<Rightarrow> []
            | Some l \<Rightarrow> N (cs[l := (fst (cs ! l), int s - int (fst (cs ! l)))]) s (p + 1))
         else if c = L_ESC \<and> c1 = CHR ''b'' then all_balance N pat sr cs s p
         else if c = L_ESC \<and> c1 = CHR ''f'' then all_frontier N pat sr cs s p
         else if c = L_ESC \<and> isdigit c1 then all_backref N sr cs s p c1
         else if c = NUL then [(s, cs)]
         else if c = CHR ''$'' \<and> c1 = NUL then (if s = length sr then [(s, cs)] else [])
         else all_dflt N pat sr cs s p)"

lemma all_dflt_cong:
  assumes "\<And>cs s p'. p < p' \<Longrightarrow> M cs s p' = N cs s p'"
  shows "all_dflt M pat sr cs s p = all_dflt N pat sr cs s p"
proof (cases "classend pat p")
  case (Inr ep)
  then have "M cs s ep = N cs s ep" "M cs s (ep + 1) = N cs s (ep + 1)" for s
    using assms classend_gt [OF Inr] by auto
  then show ?thesis unfolding all_dflt_def Inr sum.case Let_def by presburger
qed (simp add: all_dflt_def)

lemma all_frontier_cong:
  assumes "\<And>cs s p'. p < p' \<Longrightarrow> M cs s p' = N cs s p'"
  shows "all_frontier M pat sr cs s p = all_frontier N pat sr cs s p"
proof (cases "classend pat (p + 2)")
  case (Inr ep)
  then show ?thesis using assms classend_gt [OF Inr] by (simp add: all_frontier_def cong: if_cong)
qed (simp add: all_frontier_def)

lemma all_balance_cong:
  assumes "\<And>cs s p'. p < p' \<Longrightarrow> M cs s p' = N cs s p'"
  shows "all_balance M pat sr cs s p = all_balance N pat sr cs s p"
  using assms [of "p + 4"] unfolding all_balance_def by (simp split: sum.split option.split)

lemma all_backref_cong:
  assumes "\<And>cs s p'. p < p' \<Longrightarrow> M cs s p' = N cs s p'"
  shows "all_backref M sr cs s p c = all_backref N sr cs s p c"
  using assms [of "p + 2"] unfolding all_backref_def Let_def by simp

lemma all_body_cong [fundef_cong]:
  assumes "pat = pat'" "sr = sr'" "cs = cs'" "s = s'" "p = p'"
    and M: "\<And>cs s q. p' < q \<Longrightarrow> M cs s q = N cs s q"
  shows "all_body M pat sr cs s p = all_body N pat' sr' cs' s' p'"
proof -
  have a: "M (cs' @ x) s' (p' + 2) = N (cs' @ x) s' (p' + 2)" "M (cs' @ x) s' (p' + 1) = N (cs' @ x) s' (p' + 1)" for x
    using M by simp_all
  have b: "(\<lambda>l. M (cs'[l := f l]) s' (p' + 1)) = (\<lambda>l. N (cs'[l := f l]) s' (p' + 1))" for f
    using M by simp
  note c = all_dflt_cong [of p' M N, OF M] all_frontier_cong [of p' M N, OF M]
    all_balance_cong [of p' M N, OF M] all_backref_cong [of p' M N, OF M]
  show ?thesis unfolding all_body_def assms(1-5) Let_def by (simp only: a b c)
qed

function all_matches :: "string \<Rightarrow> string \<Rightarrow> caps \<Rightarrow> nat \<Rightarrow> nat \<Rightarrow> (nat \<times> caps) list" where
  "all_matches pat sr cs s p = (if p \<le> length pat then all_body (all_matches pat sr) pat sr cs s p else [])"
  by pat_completeness auto
termination
  by (relation "measure (\<lambda>(pat, sr, cs, s, p). Suc (length pat) - p)") auto

declare all_matches.simps [simp del]

subsection \<open>Reads stay within the strings\<close>

lemma bracket_loop_ok:
  assumes "ec \<le> length pat" shows "\<exists>b. bracket_loop pat c sig ec p = Inr b"
proof (induction "ec - p" arbitrary: p rule: less_induct)
  case less
  show ?case
  proof (cases "p + 1 < ec")
    case True
    obtain c0 where c0: "cread pat (p + 1) = Inr c0" using cread_ok [of "p + 1" pat] True assms by auto
    obtain c1 where c1: "cread pat (p + 1 + 1) = Inr c1" using cread_ok [of "p + 1 + 1" pat] True assms by auto
    obtain c2 where c2: "p + 1 + 2 < ec \<Longrightarrow> cread pat (p + 1 + 2) = Inr c2"
      using cread_ok [of "p + 1 + 2" pat] assms by (cases "p + 1 + 2 < ec") auto
    have d: "ec - (p + 1) < ec - p" "ec - (p + 1 + 1) < ec - p" "ec - (p + 1 + 2) < ec - p" using True by auto
    obtain b1 where b1: "bracket_loop pat c sig ec (p + 1 + 1) = Inr b1" using less [OF d(2)] by blast
    obtain b2 where b2: "bracket_loop pat c sig ec (p + 1 + 2) = Inr b2" using less [OF d(3)] by blast
    obtain b3 where b3: "bracket_loop pat c sig ec (p + 1) = Inr b3" using less [OF d(1)] by blast
    show ?thesis
      unfolding bracket_loop.simps [of pat c sig ec p] Let_def c0 c1 rbind.simps b1 b2 b3 using c2 True by (auto split: if_split)
  next
    case False
    then show ?thesis by (subst bracket_loop.simps) simp
  qed
qed

lemma matchbracketclass_ok: "p < length pat \<Longrightarrow> ec \<le> length pat \<Longrightarrow> \<exists>b. matchbracketclass pat c p ec = Inr b"
  using cread_ok [of "p + 1" pat] bracket_loop_ok [of ec pat] by (auto simp: matchbracketclass_def split: if_split)

lemma singlematch_ok:
  assumes "p < length pat" "classend pat p = Inr ep"
  shows "\<exists>b. singlematch pat c p ep = Inr b"
proof -
  obtain c0 where c0: "cread pat p = Inr c0" using cread_ok [of p pat] assms(1) by auto
  obtain c1 where c1: "cread pat (p + 1) = Inr c1" using cread_ok [of "p + 1" pat] assms(1) by auto
  have "ep - 1 \<le> length pat" if "c0 = CHR ''[''" using classend_gt [OF assms(2)] c0 that by auto
  then have "\<exists>b. matchbracketclass pat c p (ep - 1) = Inr b" if "c0 = CHR ''[''" using matchbracketclass_ok assms(1) that by blast
  then show ?thesis using c0 c1 by (auto simp: singlematch_def split: if_split)
qed

lemma balance_loop_ok: "\<exists>r. balance_loop sr b e s cont = Inr r \<and> (\<forall>t. r = Some t \<longrightarrow> s < t \<and> t \<le> length sr)"
proof (induction "length sr - s" arbitrary: s cont rule: less_induct)
  case less
  show ?case
  proof (cases "s + 1 < length sr")
    case True
    then obtain c where c: "cread sr (s + 1) = Inr c" using cread_ok [of "s + 1" sr] by auto
    have IH: "\<exists>r. balance_loop sr b e (s + 1) k = Inr r \<and> (\<forall>t. r = Some t \<longrightarrow> s < t \<and> t \<le> length sr)" for k
      using less [of "s + 1" k] True by force
    show ?thesis
      unfolding balance_loop.simps [of sr b e s cont] Let_def c rbind.simps using True IH [of "cont - 1"] IH [of "cont + 1"] IH [of cont]
      by (auto split: if_split)
  next
    case False
    then show ?thesis by (subst balance_loop.simps) simp
  qed
qed

subsection \<open>The matcher finds the preferred match\<close>

definition cap_ok :: "nat \<Rightarrow> nat \<times> int \<Rightarrow> bool" where
  "cap_ok s c \<longleftrightarrow> fst c \<le> s \<and> (snd c = CAP_UNFINISHED \<or> snd c = CAP_POSITION \<or> 0 \<le> snd c \<and> int (fst c) + snd c \<le> int s)"

definition has_caps :: "MatchState \<Rightarrow> caps \<Rightarrow> bool" where
  "has_caps ms cs \<longleftrightarrow> level ms = length cs \<and> length (capture ms) = GAFQ_MAXCAPTURES \<and> length cs \<le> GAFQ_MAXCAPTURES \<and>
     take (length cs) (capture ms) = map Some cs"

definition ms_at :: "string \<Rightarrow> MatchState \<Rightarrow> caps \<Rightarrow> nat \<Rightarrow> bool" where
  "ms_at sr ms cs s \<longleftrightarrow> src ms = sr \<and> s \<le> length sr \<and> has_caps ms cs \<and> list_all (cap_ok s) cs"

definition outcome :: "string \<Rightarrow> caps \<Rightarrow> nat \<Rightarrow> match_result \<Rightarrow> (nat \<times> caps) list \<Rightarrow> bool" where
  "outcome sr cs s r xs = (case r of
      Inl e \<Rightarrow> defined (Inl e :: unit res)
    | Inr (None, ms') \<Rightarrow> xs = [] \<and> src ms' = sr \<and> has_caps ms' cs
    | Inr (Some e, ms') \<Rightarrow> (\<exists>cs' ys. xs = (e, cs') # ys \<and> s \<le> e \<and> ms_at sr ms' cs' e))"

definition agree :: "string \<Rightarrow> (MatchState \<Rightarrow> nat \<Rightarrow> match_result) \<Rightarrow> (caps \<Rightarrow> nat \<Rightarrow> (nat \<times> caps) list) \<Rightarrow> bool" where
  "agree sr m A \<longleftrightarrow> (\<forall>ms cs s. ms_at sr ms cs s \<longrightarrow> outcome sr cs s (m ms s) (A cs s))"

lemma agreeD: "agree sr m A \<Longrightarrow> ms_at sr ms cs s \<Longrightarrow> outcome sr cs s (m ms s) (A cs s)"
  by (simp add: agree_def)

lemma cap_ok_mono: "cap_ok s c \<Longrightarrow> s \<le> t \<Longrightarrow> cap_ok t c"
  by (auto simp: cap_ok_def)

lemma ms_at_later: "ms_at sr ms cs s \<Longrightarrow> s \<le> t \<Longrightarrow> t \<le> length sr \<Longrightarrow> ms_at sr ms cs t"
  by (auto simp: ms_at_def list_all_iff intro: cap_ok_mono)

lemma outcome_later: "outcome sr cs t r xs \<Longrightarrow> s \<le> t \<Longrightarrow> outcome sr cs s r xs"
  by (force simp: outcome_def split: sum.splits option.splits prod.splits)

lemma outcome_Inl: "defined (Inl e :: unit res) \<Longrightarrow> outcome sr cs s (Inl e) xs"
  by (simp add: outcome_def)

lemma outcome_none: "ms_at sr ms cs s \<Longrightarrow> outcome sr cs s (Inr (None, ms)) []"
  by (simp add: outcome_def ms_at_def)

lemma outcome_end: "ms_at sr ms cs s \<Longrightarrow> outcome sr cs s (Inr (Some s, ms)) [(s, cs)]"
  by (simp add: outcome_def)

lemma outcome_none_at: "outcome sr cs s (Inr (None, ms')) xs \<Longrightarrow> ms_at sr ms cs t \<Longrightarrow> ms_at sr ms' cs t \<and> xs = []"
  by (simp add: outcome_def ms_at_def)

lemma outcome_or:
  assumes r: "outcome sr cs s r xs" and ms: "ms_at sr ms cs t"
    and f: "\<And>ms'. ms_at sr ms' cs t \<Longrightarrow> outcome sr cs s (f ms') ys"
  shows "outcome sr cs s (rbind r (\<lambda>(r, ms'). if r \<noteq> None then Inr (r, ms') else f ms')) (xs @ ys)"
proof (cases r)
  case (Inl e)
  then show ?thesis using r by (simp add: outcome_def)
next
  case (Inr p)
  obtain o' ms' where p: "p = (o', ms')" by fastforce
  show ?thesis
  proof (cases o')
    case None
    then show ?thesis using outcome_none_at [of sr cs s ms' xs ms t] r ms f Inr p by simp
  next
    case (Some e)
    then show ?thesis using r Inr p by (auto simp: outcome_def)
  qed
qed

lemma max_try_agree:
  assumes "agree sr m A" "ms_at sr ms cs s" "s + i \<le> length sr"
  shows "outcome sr cs s (max_try m s i ms) (concat (map (\<lambda>i. A cs (s + i)) (rev [0..<Suc i])))"
  using assms(2,3)
proof (induction i arbitrary: ms)
  case 0
  then show ?case using agreeD [OF assms(1)] by simp
next
  case (Suc i)
  have at: "ms_at sr ms cs (s + Suc i)" using ms_at_later [OF Suc.prems(1)] Suc.prems(2) by simp
  have "outcome sr cs s (m ms (s + Suc i)) (A cs (s + Suc i))"
    using outcome_later [OF agreeD [OF assms(1) at]] by simp
  from outcome_or [OF this Suc.prems(1) Suc.IH] Suc.prems(2)
  show ?case by simp
qed

lemma single_at_eq:
  assumes "p < length pat" "classend pat p = Inr ep" "src ms = sr"
  shows "single_at pat ms s p ep = Inr (0 < reps pat sr s p ep)"
proof (cases "s < length sr")
  case True
  obtain b where b: "singlematch pat (sr ! s) p ep = Inr b" using singlematch_ok [OF assms(1,2)] by blast
  then show ?thesis using True assms(3) by (simp add: single_at_def cread_def reps_def Cons_nth_drop_Suc [symmetric])
next
  case False
  then show ?thesis using assms(3) by (simp add: single_at_def reps_def)
qed

lemma reps_Suc: "0 < reps pat sr s p ep \<Longrightarrow> s < length sr \<and> reps pat sr s p ep = Suc (reps pat sr (Suc s) p ep)"
  by (cases "s < length sr") (auto simp: reps_def Cons_nth_drop_Suc [symmetric] split: if_splits)

lemma reps_le: "s \<le> length sr \<Longrightarrow> s + reps pat sr s p ep \<le> length sr"
  using length_takeWhile_le [of _ "drop s sr"] by (simp add: reps_def) (metis add.commute le_diff_conv2 length_drop)

lemma max_count_eq:
  assumes "p < length pat" "classend pat p = Inr ep" "src ms = sr"
  shows "max_count pat ms s p ep i = Inr (i + reps pat sr (s + i) p ep)"
proof (induction "reps pat sr (s + i) p ep" arbitrary: i)
  case 0
  then show ?case using single_at_eq [OF assms] by (subst max_count.simps) simp
next
  case (Suc n)
  then have "0 < reps pat sr (s + i) p ep" by simp
  from reps_Suc [OF this] have "n = reps pat sr (s + (i + 1)) p ep" using Suc(2) by simp
  from Suc(1) [OF this] show ?case using single_at_eq [OF assms, of "s + i"] Suc(2)
      \<open>n = reps pat sr (s + (i + 1)) p ep\<close> by (subst max_count.simps) simp
qed

lemma max_expand_agree:
  assumes "p < length pat" "classend pat p = Inr ep" "agree sr (\<lambda>ms s. M ms s (ep + 1)) (\<lambda>cs s. N cs s (ep + 1))" "ms_at sr ms cs s"
  shows "outcome sr cs s (max_expand M pat ms s p ep) (concat (map (\<lambda>i. N cs (s + i) (ep + 1)) (rev [0..<Suc (reps pat sr s p ep)])))"
  using max_try_agree [OF assms(3,4), of "reps pat sr s p ep"] reps_le [of s sr pat p ep] assms(4)
    max_count_eq [OF assms(1,2), of ms sr s 0]
  by (simp add: max_expand_def ms_at_def)

lemma min_try_agree:
  assumes "p < length pat" "classend pat p = Inr ep" "agree sr m A" "ms_at sr ms cs s" "reps pat sr s p ep < n"
  shows "outcome sr cs s (min_try m pat p ep n s ms) (concat (map (\<lambda>i. A cs (s + i)) [0..<Suc (reps pat sr s p ep)]))"
  using assms(4,5)
proof (induction n arbitrary: ms s)
  case (Suc n)
  note at = Suc.prems(1)
  let ?r = "reps pat sr s p ep"
  have rest: "outcome sr cs s (rbind (single_at pat ms' s p ep) (\<lambda>b. if b then min_try m pat p ep n (s + 1) ms' else Inr (None, ms')))
      (concat (map (\<lambda>i. A cs (s + i)) [1..<Suc ?r]))" if ms': "ms_at sr ms' cs s" for ms'
  proof (cases "0 < ?r")
    case True
    from reps_Suc [OF this] have r: "s < length sr" "?r = Suc (reps pat sr (s + 1) p ep)" by auto
    have "ms_at sr ms' cs (s + 1)" using ms_at_later [OF ms'] r(1) by simp
    from outcome_later [OF Suc.IH [OF this]] have "outcome sr cs s (min_try m pat p ep n (s + 1) ms')
        (concat (map (\<lambda>i. A cs (s + 1 + i)) [0..<Suc (reps pat sr (s + 1) p ep)]))" using Suc.prems(2) r(2) by simp
    moreover have "[1..<Suc ?r] = map Suc [0..<?r]" by (simp add: map_Suc_upt)
    ultimately show ?thesis using True r single_at_eq [OF assms(1,2), of ms' sr s] ms' by (simp add: ms_at_def o_def)
  next
    case False
    then show ?thesis using single_at_eq [OF assms(1,2), of ms' sr s] outcome_none [OF ms'] ms' by (simp add: ms_at_def)
  qed
  have "[0..<Suc ?r] = 0 # [1..<Suc ?r]" by (simp add: upt_rec)
  then show ?case using outcome_or [OF agreeD [OF assms(3) at] at rest] by simp
qed simp

lemma min_expand_agree:
  assumes "p < length pat" "classend pat p = Inr ep" "agree sr (\<lambda>ms s. M ms s (ep + 1)) (\<lambda>cs s. N cs s (ep + 1))" "ms_at sr ms cs s"
  shows "outcome sr cs s (min_expand M pat ms s p ep) (concat (map (\<lambda>i. N cs (s + i) (ep + 1)) [0..<Suc (reps pat sr s p ep)]))"
  using min_try_agree [OF assms, of "length sr + 1 - s"] reps_le [of s sr pat p ep] assms(4)
  by (simp add: min_expand_def ms_at_def)

lemma classend_loop_defined: "p \<le> length pat \<Longrightarrow> defined (classend_loop pat p)"
proof (induction "length pat - p" arbitrary: p rule: less_induct)
  case less
  obtain c where c: "cread pat p = Inr c" using cread_ok [OF less.prems] by blast
  show ?case
  proof (cases "c = NUL")
    case True
    then show ?thesis using c by (subst classend_loop.simps) simp
  next
    case False
    then have p: "p < length pat" using cread_Inr [OF c] by simp
    then obtain c1 where c1: "cread pat (p + 1) = Inr c1" using cread_ok [of "p + 1" pat] by auto
    define q where "q = (if c = L_ESC \<and> c1 \<noteq> NUL then p + 2 else p + 1)"
    have q: "q \<le> length pat" "p < q" using p cread_Inr [OF c1] by (auto simp: q_def)
    then obtain c2 where c2: "cread pat q = Inr c2" using cread_ok by blast
    have "classend_loop pat p = (if c2 \<noteq> CHR '']'' then classend_loop pat q else Inr (q + 1))"
      using c False c1 c2 by (subst classend_loop.simps) (simp only: q_def [symmetric] Let_def sum.case rbind.simps if_False)
    then show ?thesis using less.hyps [of q] q p by (simp add: diff_less_mono2)
  qed
qed

lemma classend_defined: "p < length pat \<Longrightarrow> defined (classend pat p)"
proof -
  assume p: "p < length pat"
  obtain c where c: "cread pat p = Inr c" using cread_ok [of p pat] p by auto
  obtain c1 where c1: "cread pat (p + 1) = Inr c1" using cread_ok [of "p + 1" pat] p by auto
  have "c1 = CHR ''^'' \<Longrightarrow> p + 2 \<le> length pat" using cread_Inr [OF c1] by auto
  then show ?thesis using c c1 p classend_loop_defined [of "p + 1" pat] classend_loop_defined [of "p + 2" pat]
    by (simp add: classend_def)
qed

lemma outcome_error: "defined (r :: 'a res) \<Longrightarrow> r = Inl e \<Longrightarrow> outcome sr cs s (Inl e) xs"
  by (rule outcome_Inl) (cases e; simp add: defined_def)

lemma match_dflt_agree:
  assumes p: "p < length pat" "pat ! p \<noteq> NUL" and at: "ms_at sr ms cs s"
    and IH: "\<And>q. p < q \<Longrightarrow> q \<le> length pat \<Longrightarrow> agree sr (\<lambda>ms s. M ms s q) (\<lambda>cs s. N cs s q)"
  shows "outcome sr cs s (match_dflt M pat ms s p) (all_dflt N pat sr cs s p)"
proof (cases "classend pat p")
  case (Inl e)
  then show ?thesis using outcome_error [OF classend_defined [OF p(1)] Inl] by (simp add: match_dflt_def)
next
  case (Inr ep)
  have ep: "p < ep" "ep \<le> length pat" using classend_gt [OF Inr] p by (auto simp: cread_def)
  define c where "c = (pat @ [NUL]) ! ep"
  then have c: "cread pat ep = Inr c" using ep by (simp add: cread_def nth_append)
  have sr: "src ms = sr" "s \<le> length sr" using at by (auto simp: ms_at_def)
  define r where "r = reps pat sr s p ep"
  have m: "single_at pat ms s p ep = Inr (0 < r)" using single_at_eq [OF p(1) Inr sr(1)] by (simp add: r_def)
  have nxt: "outcome sr cs s (M ms (s + 1) q) (N cs (s + 1) q)" if "0 < r" "p < q" "q \<le> length pat" for q
    using outcome_later [OF agreeD [OF IH [OF that(2,3)] ms_at_later [OF at, of "s + 1"]]] reps_Suc [of pat sr s p ep] that(1)
    by (simp add: r_def)
  have here: "outcome sr cs s (M ms' s q) (N cs s q)" if "ms_at sr ms' cs s" "p < q" "q \<le> length pat" for ms' q
    using agreeD [OF IH [OF that(2,3)] that(1)] by simp
  have q: "p < ep + 1" "c \<noteq> NUL \<Longrightarrow> ep + 1 \<le> length pat" using ep cread_Inr [OF c] by auto
  note unf = match_dflt_def all_dflt_def Inr sum.case rbind.simps m c c_def [symmetric] r_def [symmetric] Let_def
  consider "c = CHR ''?''" | "c = CHR ''*''" | "c = CHR ''+''" | "c = CHR ''-''"
    | "c \<noteq> CHR ''?'' \<and> c \<noteq> CHR ''*'' \<and> c \<noteq> CHR ''+'' \<and> c \<noteq> CHR ''-''" by blast
  then show ?thesis
  proof cases
    case 1
    then have q: "p < ep + 1" "ep + 1 \<le> length pat" using q by auto
    show ?thesis unfolding unf using 1 outcome_or [OF nxt [OF _ q] at here [OF _ q]] here [OF at q] by simp
  next
    case 2
    then have q: "p < ep + 1" "ep + 1 \<le> length pat" using q by auto
    show ?thesis unfolding unf using 2 max_expand_agree [where M = M and N = N, OF p(1) Inr IH [OF q] at] by (simp add: r_def)
  next
    case 3
    then have q: "p < ep + 1" "ep + 1 \<le> length pat" using q by auto
    have "outcome sr cs s (max_expand M pat ms (s + 1) p ep) (concat (map (\<lambda>i. N cs (s + i) (ep + 1)) (rev [1..<Suc r])))" if "0 < r"
    proof -
      from that have r: "s < length sr" "r = Suc (reps pat sr (s + 1) p ep)" using reps_Suc [of pat sr s p ep] by (auto simp: r_def)
      have "ms_at sr ms cs (s + 1)" using ms_at_later [OF at] r by simp
      from outcome_later [OF max_expand_agree [where M = M and N = N, OF p(1) Inr IH [OF q] this]] 
      have "outcome sr cs s (max_expand M pat ms (s + 1) p ep) (concat (map (\<lambda>i. N cs (s + 1 + i) (ep + 1)) (rev [0..<r])))"
        using r(2) by simp
      moreover have "rev [1..<Suc r] = map Suc (rev [0..<r])" by (simp only: rev_map [symmetric] map_Suc_upt One_nat_def)
      ultimately show ?thesis by (simp del: upt_Suc add: o_def)
    qed
    then show ?thesis unfolding unf using 3 outcome_none [OF at] by simp
  next
    case 4
    then have q: "p < ep + 1" "ep + 1 \<le> length pat" using q by auto
    show ?thesis unfolding unf using 4 min_expand_agree [where M = M and N = N, OF p(1) Inr IH [OF q] at] by (simp add: r_def)
  next
    case 5
    then show ?thesis unfolding unf using nxt [OF _ ep(1,2)] outcome_none [OF at] by simp
  qed
qed

lemma has_caps_read: "has_caps ms cs \<Longrightarrow> l < length cs \<Longrightarrow> read_capture ms l = Inr (cs ! l)"
proof -
  assume h: "has_caps ms cs" and l: "l < length cs"
  have "take (length cs) (capture ms) ! l = map Some cs ! l" using h by (simp add: has_caps_def)
  then have "capture ms ! l = Some (cs ! l)" using l by simp
  then show ?thesis using h l by (simp add: read_capture_def has_caps_def)
qed

lemma has_caps_write:
  "has_caps ms cs \<Longrightarrow> l < length cs \<Longrightarrow>
   \<exists>ms'. write_capture ms l c = Inr ms' \<and> src ms' = src ms \<and> has_caps ms' (cs[l := c])"
  by (auto simp: has_caps_def write_capture_def take_update_swap map_update)

lemma has_caps_push:
  assumes "has_caps ms cs" "length cs < GAFQ_MAXCAPTURES"
  shows "\<exists>ms'. write_capture ms (level ms) c = Inr ms' \<and> src ms' = src ms \<and> has_caps (ms'\<lparr>level := level ms + 1\<rparr>) (cs @ [c])"
  using assms by (simp add: has_caps_def write_capture_def take_Suc_conv_app_nth)

lemma has_caps_pop: "has_caps ms (cs @ [c]) \<Longrightarrow> has_caps (ms\<lparr>level := level ms - 1\<rparr>) cs"
proof -
  assume h: "has_caps ms (cs @ [c])"
  then have "take (length cs) (take (length cs + 1) (capture ms)) = take (length cs) (map Some cs @ [Some c])" by (simp add: has_caps_def)
  then show ?thesis using h by (simp add: has_caps_def)
qed

lemma start_capture_agree:
  assumes at: "ms_at sr ms cs s" and IH: "agree sr (\<lambda>ms s. M ms s q) (\<lambda>cs s. N cs s q)"
    and what: "what = CAP_UNFINISHED \<or> what = CAP_POSITION"
  shows "outcome sr cs s (start_capture M ms s q what) (if length cs < GAFQ_MAXCAPTURES then N (cs @ [(s, what)]) s q else [])"
proof (cases "length cs < GAFQ_MAXCAPTURES")
  case True
  have h: "has_caps ms cs" "level ms = length cs" "src ms = sr" using at by (auto simp: ms_at_def has_caps_def)
  obtain ms1 where ms1: "write_capture ms (level ms) (s, what) = Inr ms1" "src ms1 = sr" "has_caps (ms1\<lparr>level := level ms + 1\<rparr>) (cs @ [(s, what)])"
    using has_caps_push [OF h(1) True] h(3) by metis
  have "ms_at sr (ms1\<lparr>level := level ms + 1\<rparr>) (cs @ [(s, what)]) s" using at ms1 what by (auto simp: ms_at_def cap_ok_def)
  from agreeD [OF IH this] have o: "outcome sr (cs @ [(s, what)]) s (M (ms1\<lparr>level := level ms + 1\<rparr>) s q) (N (cs @ [(s, what)]) s q)" .
  show ?thesis using o True ms1(1) h(2)
    by (auto simp: start_capture_def outcome_def Let_def split: sum.splits option.splits prod.splits dest: has_caps_pop)
next
  case False
  then show ?thesis using at by (auto simp: start_capture_def Let_def ms_at_def has_caps_def outcome_def)
qed

lemma capture_to_close_eq:
  assumes "has_caps ms cs" "n \<le> length cs"
  shows "capture_to_close_loop ms n = (case find (\<lambda>l. snd (cs ! l) = CAP_UNFINISHED) (rev [0..<n]) of
     None \<Rightarrow> Inl (RunError ''invalid pattern capture'') | Some l \<Rightarrow> Inr l)"
  using assms(2)
proof (induction n)
  case (Suc n)
  then show ?case using has_caps_read [OF assms(1), of n] by (auto split: prod.splits)
qed simp

lemma last_open_Some: "last_open cs = Some l \<Longrightarrow> l < length cs \<and> snd (cs ! l) = CAP_UNFINISHED"
  by (auto simp: last_open_def find_Some_iff) (metis atLeastLessThan_iff length_rev length_upt nth_mem set_rev set_upt diff_zero)+

lemma end_capture_agree:
  assumes at: "ms_at sr ms cs s" and IH: "agree sr (\<lambda>ms s. M ms s q) (\<lambda>cs s. N cs s q)"
  shows "outcome sr cs s (end_capture M ms s q)
    (case last_open cs of None \<Rightarrow> [] | Some l \<Rightarrow> N (cs[l := (fst (cs ! l), int s - int (fst (cs ! l)))]) s q)"
proof -
  have h: "has_caps ms cs" "level ms = length cs" "src ms = sr" using at by (auto simp: ms_at_def has_caps_def)
  have close: "capture_to_close ms = (case last_open cs of None \<Rightarrow> Inl (RunError ''invalid pattern capture'') | Some l \<Rightarrow> Inr l)"
    using capture_to_close_eq [OF h(1), of "length cs"] h(2) by (simp add: capture_to_close_def last_open_def)
  show ?thesis
  proof (cases "last_open cs")
    case None
    then show ?thesis using close by (simp add: end_capture_def outcome_def)
  next
    case (Some l)
    note l = last_open_Some [OF Some]
    obtain i where i: "cs ! l = (i, CAP_UNFINISHED)" using l by (metis prod.collapse)
    define cs1 where "cs1 = cs[l := (i, int s - int i)]"
    obtain ms1 where ms1: "write_capture ms l (i, int s - int i) = Inr ms1" "src ms1 = sr" "has_caps ms1 cs1"
      using has_caps_write [OF h(1), of l] l h(3) unfolding cs1_def by metis
    have "cap_ok s (i, CAP_UNFINISHED)" using at l i by (auto simp: ms_at_def list_all_length)
    then have "cap_ok s (i, int s - int i)" by (simp add: cap_ok_def)
    then have "ms_at sr ms1 cs1 s" using at ms1 l unfolding cs1_def ms_at_def list_all_length
      by (auto simp: nth_list_update)
    from agreeD [OF IH this] have o: "outcome sr cs1 s (M ms1 s q) (N cs1 s q)" .
    show ?thesis
    proof (cases "M ms1 s q")
      case (Inl e)
      then show ?thesis using o close Some ms1(1) i has_caps_read [OF h(1)] l by (simp add: end_capture_def outcome_def)
    next
      case (Inr p)
      obtain r ms2 where p: "p = (r, ms2)" by fastforce
      show ?thesis
      proof (cases r)
        case None
        then have m2: "src ms2 = sr" "has_caps ms2 cs1" "N cs1 s q = []" using o Inr p by (auto simp: outcome_def)
        have l1: "l < length cs1" "cs1 ! l = (i, int s - int i)" "cs1[l := (i, CAP_UNFINISHED)] = cs"
          using l i by (auto simp: cs1_def) (metis list_update_id)
        obtain ms3 where "write_capture ms2 l (i, CAP_UNFINISHED) = Inr ms3" "src ms3 = sr" "has_caps ms3 cs"
          using has_caps_write [OF m2(2) l1(1), of "(i, CAP_UNFINISHED)"] m2(1) l1(3) by metis
        then show ?thesis using close Some ms1(1) i has_caps_read [OF h(1)] l has_caps_read [OF m2(2) l1(1)] l1(2) Inr p None m2(3)
          by (simp add: end_capture_def outcome_def cs1_def)
      next
        case (Some e)
        then show ?thesis using o close \<open>last_open cs = Some l\<close> ms1(1) i has_caps_read [OF h(1)] l Inr p
          by (auto simp: end_capture_def outcome_def cs1_def)
      qed
    qed
  qed
qed

lemma match_capture_agree:
  assumes at: "ms_at sr ms cs s" and IH: "agree sr (\<lambda>ms s. M ms s (p + 2)) (\<lambda>cs s. N cs s (p + 2))"
    and c1: "isdigit c1" and fits: "length sr < 2 ^ 63"
  shows "outcome sr cs s (rbind (match_capture ms s c1) (\<lambda>r. case r of None \<Rightarrow> Inr (None, ms) | Some s' \<Rightarrow> M ms s' (p + 2)))
    (all_backref N sr cs s p c1)"
proof -
  have h: "has_caps ms cs" "level ms = length cs" "src ms = sr" "s \<le> length sr" using at by (auto simp: ms_at_def has_caps_def)
  define l where "l = uchar c1 - 49"
  have u: "48 \<le> uchar c1" using c1 by (simp add: isdigit_def)
  show ?thesis
  proof (cases "49 \<le> uchar c1 \<and> l < length cs")
    case False
    then have "int (uchar c1) - 49 < 0 \<or> int (level ms) \<le> int (uchar c1) - 49" using h(2) by (auto simp: l_def)
    then show ?thesis by (simp add: match_capture_def check_capture_def Let_def outcome_def)
  next
    case True
    then have "\<not> (int (uchar c1) - 49 < 0 \<or> int (level ms) \<le> int (uchar c1) - 49)" "nat (int (uchar c1) - 49) = l"
      using h(2) by (auto simp: l_def)
    moreover obtain i n where i: "cs ! l = (i, n)" by fastforce
    moreover note rd = has_caps_read [OF h(1), of l]
    ultimately have chk: "check_capture ms c1 = (if n = CAP_UNFINISHED then Inl (RunError ''invalid capture index'') else Inr l)"
      using True by (simp add: check_capture_def Let_def)
    have ok: "cap_ok s (i, n)" using at True i by (auto simp: ms_at_def list_all_length)
    consider "n = CAP_UNFINISHED" | "n = CAP_POSITION" | "0 \<le> n" "int i + n \<le> int s" "n \<noteq> CAP_UNFINISHED"
      using ok by (auto simp: cap_ok_def CAP_UNFINISHED_def)
    then show ?thesis
    proof cases
      case 1
      then show ?thesis using chk by (simp add: match_capture_def outcome_def)
    next
      case 2
      then have "\<not> nat (n mod 2 ^ 64) \<le> length sr - s" "n \<noteq> CAP_UNFINISHED" "\<not> 0 \<le> n"
        using fits by (auto simp: CAP_POSITION_def CAP_UNFINISHED_def)
      then show ?thesis using chk rd i True outcome_none [OF at] h(3)
        by (simp add: match_capture_def Let_def all_backref_def l_def)
    next
      case 3
      define k where "k = nat n"
      have "n < 2 ^ 64" using 3 h(4) fits by simp
      then have n: "nat (n mod 2 ^ 64) = k" using 3(1) mod_pos_pos_trivial [of n "2 ^ 64"] by (simp add: k_def)
      have ik: "i + k \<le> s" using 3 by (simp add: k_def)
      define t where "t = take k (drop i sr)"
      have t: "length t = k" using ik h(4) by (simp add: t_def)
      have eq: "memory_equal sr i s k = Inr (take k (drop s sr) = t)" if "k \<le> length sr - s"
        using that ik h(4) by (auto simp: memory_equal_def t_def)
      have out: "outcome sr cs s (M ms (s + k) (p + 2)) (N cs (s + k) (p + 2))" if "k \<le> length sr - s"
        using outcome_later [OF agreeD [OF IH ms_at_later [OF at, of "s + k"]]] that h(4) by simp
      have ref: "all_backref N sr cs s p c1 = (if take k (drop s sr) = t then N cs (s + k) (p + 2) else [])"
        using True i 3(1) t by (simp add: all_backref_def Let_def l_def [symmetric] k_def [symmetric] t_def [symmetric])
      have no: "take k (drop s sr) \<noteq> t" if "\<not> k \<le> length sr - s" using t that by (metis length_drop length_take min.absorb_iff2 min.commute)
      show ?thesis
        using chk 3(3) rd True i n eq out no outcome_none [OF at] h(3)
        by (cases "k \<le> length sr - s") (auto simp: ref match_capture_def Let_def)
    qed
  qed
qed

lemma matchbalance_agree:
  assumes at: "ms_at sr ms cs s" and p: "p + 2 \<le> length pat"
    and IH: "p + 4 \<le> length pat \<Longrightarrow> agree sr (\<lambda>ms s. M ms s (p + 4)) (\<lambda>cs s. N cs s (p + 4))"
  shows "outcome sr cs s (rbind (matchbalance pat ms s (p + 2)) (\<lambda>r. case r of None \<Rightarrow> Inr (None, ms) | Some s' \<Rightarrow> M ms s' (p + 4)))
    (all_balance N pat sr cs s p)"
proof -
  have sr: "src ms = sr" "s \<le> length sr" using at by (auto simp: ms_at_def)
  then have same: "matchbalance pat \<lparr>src = sr, level = 0, capture = []\<rparr> s (p + 2) = matchbalance pat ms s (p + 2)"
    by (simp add: matchbalance_def cong: if_cong)
  obtain b where b: "cread pat (p + 2) = Inr b" using cread_ok [OF p] by blast
  obtain e where e: "b \<noteq> NUL \<Longrightarrow> cread pat (p + 2 + 1) = Inr e"
    using cread_ok [of "p + 2 + 1" pat] cread_Inr [OF b] by (cases "b = NUL") auto
  obtain c where c: "cread sr s = Inr c" using cread_ok [OF sr(2)] by blast
  obtain r where r: "balance_loop sr b e s 1 = Inr r" "\<And>t. r = Some t \<Longrightarrow> s < t \<and> t \<le> length sr"
    using balance_loop_ok [of sr b e s 1] by blast
  have v: "matchbalance pat ms s (p + 2) =
      (if b = NUL \<or> e = NUL then Inl (RunError ''unbalanced pattern'') else if c \<noteq> b then Inr None else Inr r)"
    unfolding matchbalance_def b rbind.simps sr(1) c r(1) using e r(1) c by (cases "b = NUL") (simp_all add: sr(1))
  have p4: "p + 4 \<le> length pat" if "b \<noteq> NUL" "e \<noteq> NUL" using cread_Inr [OF e] that by simp
  consider x where "matchbalance pat ms s (p + 2) = Inl (RunError x)" | "matchbalance pat ms s (p + 2) = Inr None"
    | t where "matchbalance pat ms s (p + 2) = Inr (Some t)" "s < t" "t \<le> length sr" "p + 4 \<le> length pat"
    using v r(2) p4 by (cases r) (auto split: if_splits)
  then show ?thesis
  proof cases
    case 1
    then show ?thesis by (simp add: outcome_def)
  next
    case 2
    then show ?thesis using outcome_none [OF at] same by (simp add: all_balance_def)
  next
    case (3 t)
    then have "outcome sr cs s (M ms t (p + 4)) (N cs t (p + 4))"
      using outcome_later [OF agreeD [OF IH [OF 3(4)] ms_at_later [OF at, of t]], of s] by simp
    then show ?thesis using 3 same by (simp add: all_balance_def)
  qed
qed

lemma frontier_agree:
  assumes at: "ms_at sr ms cs s" and IH: "\<And>q. p < q \<Longrightarrow> q \<le> length pat \<Longrightarrow> agree sr (\<lambda>ms s. M ms s q) (\<lambda>cs s. N cs s q)"
    and p: "p + 2 \<le> length pat" and ok: "cread pat (p + 2) = Inr c2"
  shows "outcome sr cs s
    (if c2 \<noteq> CHR ''['' then Inl (RunError ''missing '[' after '%f' in pattern'')
     else rbind (classend pat (p + 2)) (\<lambda>ep.
            rbind (if s = 0 then Inr NUL else cread (src ms) (s - 1)) (\<lambda>previous.
              rbind (matchbracketclass pat previous (p + 2) (ep - 1)) (\<lambda>b1.
                if b1 then Inr (None, ms)
                else rbind (cread (src ms) s) (\<lambda>cs.
                  rbind (matchbracketclass pat cs (p + 2) (ep - 1)) (\<lambda>b2.
                    if \<not> b2 then Inr (None, ms) else M ms s ep))))))
    (all_frontier N pat sr cs s p)"
proof (cases "c2 = CHR ''[''")
  case True
  have sr: "src ms = sr" "s \<le> length sr" using at by (auto simp: ms_at_def)
  have p2: "p + 2 < length pat" using cread_Inr [OF ok] True by simp
  show ?thesis
  proof (cases "classend pat (p + 2)")
    case (Inl e)
    then show ?thesis using outcome_error [OF classend_defined [OF p2] Inl] True by simp
  next
    case (Inr ep)
    have ep: "p < ep" "ep - 1 \<le> length pat" "ep \<le> length pat" using classend_gt [OF Inr] ok True by auto
    have pr: "(if s = 0 then Inr NUL else cread sr (s - 1)) = Inr (if s = 0 then NUL else sr ! (s - 1))"
      using sr(2) by (auto simp: cread_def)
    have cu: "cread sr s = Inr ((sr @ [NUL]) ! s)" using sr(2) by (auto simp: cread_def nth_append)
    obtain b1 b2 where b: "matchbracketclass pat (if s = 0 then NUL else sr ! (s - 1)) (p + 2) (ep - 1) = Inr b1"
        "matchbracketclass pat ((sr @ [NUL]) ! s) (p + 2) (ep - 1) = Inr b2"
      using matchbracketclass_ok [OF p2 ep(2)] by blast
    show ?thesis unfolding all_frontier_def Inr sum.case rbind.simps sr(1) pr b cu using True outcome_none [OF at] agreeD [OF IH [OF ep(1,3)] at] by simp
  qed
qed (simp add: outcome_def)

lemma match_agree:
  assumes "length sr < 2 ^ 63"
  shows "p \<le> length pat \<Longrightarrow> agree sr (\<lambda>ms s. match pat ms s p) (\<lambda>cs s. all_matches pat sr cs s p)"
proof (induction "length pat - p" arbitrary: p rule: less_induct)
  case less
  let ?M = "match pat" and ?N = "all_matches pat sr"
  define c where "c = (pat @ [NUL]) ! p"
  define c1 where "c1 = (pat @ [NUL]) ! (p + 1)"
  have c: "cread pat p = Inr c" using less.prems by (simp add: cread_def nth_append c_def)
  have c1: "cread pat (p + 1) = Inr c1" if "c \<noteq> NUL"
    using cread_Inr [OF c] that by (auto simp: cread_def nth_append c1_def)
  have IH: "agree sr (\<lambda>ms s. ?M ms s q) (\<lambda>cs s. ?N cs s q)" if "p < q" "q \<le> length pat" for q
    using less.hyps [of q] that by simp
  show ?case unfolding agree_def
  proof (intro allI impI)
    fix ms cs s assume at: "ms_at sr ms cs s"
    have N: "?N cs s p = all_body ?N pat sr cs s p" using less.prems by (subst all_matches.simps) simp
    have M: "?M ms s p = match_body ?M pat ms s p" by (rule match.simps)
    note unf = M N match_body_def all_body_def c c1 rbind.simps Let_def c_def [symmetric] c1_def [symmetric]
    show "outcome sr cs s (?M ms s p) (?N cs s p)"
    proof (cases "c = NUL")
      case True
      then show ?thesis unfolding unf(1-5) unf(7-) using outcome_end [OF at] by (simp add: L_ESC_def)
    next
      case False
      then have p: "p < length pat" "pat ! p = c" using cread_Inr [OF c] by auto
      note c1 = c1 [OF False]
      have p2: "p + 2 \<le> length pat" if "c1 \<noteq> NUL" using cread_Inr [OF c1] that by simp
      have dflt: "outcome sr cs s (match_dflt ?M pat ms s p) (all_dflt ?N pat sr cs s p)"
        using match_dflt_agree [OF p(1) _ at IH] p(2) False by simp
      consider "c = CHR ''(''" | "c = CHR '')''" | "c = L_ESC" | "c = CHR ''$''" | "c \<noteq> CHR ''(''" "c \<noteq> CHR '')''" "c \<noteq> L_ESC" "c \<noteq> CHR ''$''" by blast
      then show ?thesis
      proof cases
        case 1
        have a: "agree sr (\<lambda>ms s. ?M ms s (p + 1)) (\<lambda>cs s. ?N cs s (p + 1))" using IH [of "p + 1"] p(1) by simp
        have b: "agree sr (\<lambda>ms s. ?M ms s (p + 2)) (\<lambda>cs s. ?N cs s (p + 2))" if "c1 = CHR '')''" using IH [of "p + 2"] p2 that by simp
        show ?thesis unfolding unf(1-5) c1 unf(7-)
          using 1 start_capture_agree [where M = ?M and N = ?N, OF at a, of CAP_UNFINISHED]
            start_capture_agree [where M = ?M and N = ?N, OF at b, of CAP_POSITION]
          by (cases "c1 = CHR '')''") (simp_all cong: if_cong)
      next
        case 2
        have a: "agree sr (\<lambda>ms s. ?M ms s (p + 1)) (\<lambda>cs s. ?N cs s (p + 1))" using IH [of "p + 1"] p(1) by simp
        show ?thesis unfolding unf(1-5) c1 unf(7-) using 2 end_capture_agree [where M = ?M and N = ?N, OF at a] by simp
      next
        case 3
        consider "c1 = CHR ''b''" | "c1 = CHR ''f''" | "isdigit c1" "c1 \<noteq> CHR ''b''" "c1 \<noteq> CHR ''f''"
          | "\<not> isdigit c1" "c1 \<noteq> CHR ''b''" "c1 \<noteq> CHR ''f''" by blast
        then show ?thesis
        proof cases
          case 1
          have "outcome sr cs s (rbind (matchbalance pat ms s (p + 2)) (\<lambda>r. case r of None \<Rightarrow> Inr (None, ms) | Some s' \<Rightarrow> ?M ms s' (p + 4)))
              (all_balance ?N pat sr cs s p)" using matchbalance_agree [where M = ?M and N = ?N, OF at p2 IH] 1 by simp
          then show ?thesis unfolding unf(1-5) c1 unf(7-) using 1 3 by (simp add: L_ESC_def)
        next
          case 2
          then obtain c2 where c2: "cread pat (p + 2) = Inr c2" using cread_ok [OF p2] by auto
          from frontier_agree [where M = ?M and N = ?N, OF at IH p2 c2] 2
          show ?thesis unfolding unf(1-5) c1 unf(7-) c2 using 2 3 by (simp add: L_ESC_def)
        next
          case 3
          have "c1 \<noteq> NUL" using 3(1) by (auto simp: isdigit_def)
          then have a: "agree sr (\<lambda>ms s. ?M ms s (p + 2)) (\<lambda>cs s. ?N cs s (p + 2))" using IH [of "p + 2"] p2 by simp
          from match_capture_agree [where M = ?M and N = ?N, OF at a 3(1) assms]
          show ?thesis unfolding unf(1-5) c1 unf(7-) using 3 \<open>c = L_ESC\<close> by (simp add: L_ESC_def del: add_2_eq_Suc')
        next
          case 4
          then show ?thesis unfolding unf(1-5) c1 unf(7-) using 3 dflt by (simp add: L_ESC_def)
        qed
      next
        case 4
        then show ?thesis unfolding unf(1-5) c1 unf(7-) using dflt outcome_end [OF at] outcome_none [OF at] at
          by (auto simp: L_ESC_def ms_at_def)
      next
        case 5
        then show ?thesis unfolding unf(1-5) c1 unf(7-) using dflt False by simp
      qed
    qed
  qed
qed

lemma match_outcome:
  assumes "src ms = sr" "level ms = 0" "length (capture ms) = GAFQ_MAXCAPTURES" "length sr < 2 ^ 63" "s \<le> length sr" "p \<le> length pat"
  shows "outcome sr [] s (match pat ms s p) (all_matches pat sr [] s p)"
  by (rule agreeD [OF match_agree [OF assms(4,6)]]) (use assms in \<open>simp add: ms_at_def has_caps_def\<close>)

lemma outcome_defined: "outcome sr cs s r xs \<Longrightarrow> defined r"
  by (cases r) (auto simp: outcome_def defined_def split: gerr.splits)

text \<open>
  C2. The matcher finds the preferred match: started with no captures, \<open>match\<close> returns the first of all
  the ways in which the pattern matches at the given position, with its captures, and a null pointer only when
  there is none; greedy and non-greedy repetition, optional items, captures, back references, \<open>%b\<close> and
  \<open>%f\<close> included.
\<close>

theorem match_first:
  assumes "src ms = sr" "level ms = 0" "length (capture ms) = GAFQ_MAXCAPTURES"
    and "length sr < 2 ^ 63" "s \<le> length sr" "p \<le> length pat" "match pat ms s p = Inr (r, ms')"
  shows "case all_matches pat sr [] s p of [] \<Rightarrow> r = None | (e, cs) # _ \<Rightarrow> r = Some e \<and> has_caps ms' cs"
  using match_outcome [OF assms(1-6)] assms(7)
  by (cases r) (auto simp: outcome_def ms_at_def)

definition new_match :: "string \<Rightarrow> MatchState" where
  "new_match sr = \<lparr>src = sr, level = 0, capture = replicate GAFQ_MAXCAPTURES None\<rparr>"

theorem match_first_witness:
  "case all_matches ''(a*)(%w-)$'' ''aab1'' [] 0 0 of [] \<Rightarrow> False | (e, cs) # _ \<Rightarrow> e = 4 \<and> cs = [(0, 2), (2, 2)]"
proof -
  obtain ms' where m: "match ''(a*)(%w-)$'' (new_match ''aab1'') 0 0 = Inr (Some 4, ms')"
    "take 2 (capture ms') = [Some (0, 2), Some (2, 2)]" "level ms' = 2"
  proof -
    have "(case match ''(a*)(%w-)$'' (new_match ''aab1'') 0 0 of
        Inr (Some n, ms') \<Rightarrow> n = 4 \<and> take 2 (capture ms') = [Some (0, 2), Some (2, 2)] \<and> level ms' = 2 | _ \<Rightarrow> False)" by code_simp
    then show thesis using that by (auto split: sum.splits prod.splits option.splits)
  qed
  have "case all_matches ''(a*)(%w-)$'' ''aab1'' [] 0 0 of [] \<Rightarrow> Some (4 :: nat) = None | (e, cs) # _ \<Rightarrow> Some 4 = Some e \<and> has_caps ms' cs"
    by (rule match_first [OF _ _ _ _ _ _ m(1)]) (simp_all add: new_match_def)
  then show ?thesis using m(2,3) by (auto simp: has_caps_def length_Suc_conv numeral_2_eq_2 split: list.splits)
qed

text \<open>
  C9. The matcher is total and stays within bounds: for every pattern and subject it returns or raises an
  error, and reads no byte outside the two strings and no capture that was not written.
\<close>

theorem match_safe:
  assumes "level ms = 0" "length (capture ms) = GAFQ_MAXCAPTURES" "length (src ms) < 2 ^ 63" "s \<le> length (src ms)" "p \<le> length pat"
  shows "defined (match pat ms s p)"
  by (rule outcome_defined [OF match_outcome [OF refl assms]])

theorem match_safe_witness: "defined (match ''%b()%f[^%w]*-(%d)%1'' (new_match ''(x)'') 0 0)"
  by (rule match_safe) (simp_all add: new_match_def)

end
