(* ===== verification/Strlib.thy ===== *)
theory Strlib
  imports Match_Ref
begin

text \<open>
  The functions of \<open>gstrlib.c\<close>, from the point where their arguments have been fetched: strings are byte
  lists, positions 64-bit integers.  What a function pushes is a list of \<open>pushed\<close> values.  A replacement
  that is a function or a table is a parameter, a map from the captures to a value.
\<close>

datatype pushed = PInt int | PStr string | PNil

subsection \<open>Positions and plain strings\<close>

definition posrelat :: "int \<Rightarrow> nat \<Rightarrow> int" where
  "posrelat pos len = (let pos' = (if pos < 0 then pos + (int len + 1) else pos) in if 0 \<le> pos' then pos' else 0)"

definition str_sub :: "string \<Rightarrow> int \<Rightarrow> int \<Rightarrow> string" where
  "str_sub s i j =
     (let l = length s;
          start = posrelat i l; start = (if start < 1 then 1 else start);
          end' = posrelat j l; end' = (if int l < end' then int l else end')
      in if start \<le> end' then take (nat (end' - start + 1)) (drop (nat (start - 1)) s) else [])"

primrec reverse_loop :: "string \<Rightarrow> nat \<Rightarrow> string \<Rightarrow> string" where
  "reverse_loop s 0 b = b"
| "reverse_loop s (Suc l) b = reverse_loop s l (b @ [s ! l])"

definition str_reverse :: "string \<Rightarrow> string" where
  "str_reverse s = reverse_loop s (length s) []"

definition str_lower :: "string \<Rightarrow> string" where
  "str_lower s = fold (\<lambda>c b. b @ [tolower c]) s []"

definition str_upper :: "string \<Rightarrow> string" where
  "str_upper s = fold (\<lambda>c b. b @ [toupper c]) s []"

primrec rep_loop :: "string \<Rightarrow> nat \<Rightarrow> string \<Rightarrow> string" where
  "rep_loop s 0 b = b"
| "rep_loop s (Suc n) b = rep_loop s n (b @ s)"

definition str_rep :: "string \<Rightarrow> int \<Rightarrow> string" where
  "str_rep s n = rep_loop s (nat n) []"

text \<open>\<open>str_byte\<close> counts the values in an \<open>int\<close>; \<open>checkstack\<close> says whether the stack has room for them.\<close>

definition to_int32 :: "int \<Rightarrow> int" where
  "to_int32 x = (x + 2 ^ 31) mod 2 ^ 32 - 2 ^ 31"

definition str_byte :: "(int \<Rightarrow> bool) \<Rightarrow> string \<Rightarrow> int \<Rightarrow> int option \<Rightarrow> nat list res" where
  "str_byte checkstack s i jo =
     (let l = length s;
          posi0 = posrelat i l;
          pose0 = posrelat (case jo of None \<Rightarrow> posi0 | Some j \<Rightarrow> j) l;
          posi = (if posi0 \<le> 0 then 1 else posi0);
          pose = (if int l < pose0 then int l else pose0)
      in if pose < posi then Inr []
         else (let n = to_int32 (pose - posi + 1)
               in if posi + n \<le> pose \<or> \<not> checkstack n then Inl (RunError ''string slice too long'')
                  else Inr (map (\<lambda>k. uchar (s ! (nat posi + k - 1))) [0..<nat n])))"

fun char_loop :: "nat \<Rightarrow> int list \<Rightarrow> string \<Rightarrow> string res" where
  "char_loop i [] b = Inr b"
| "char_loop i (c # cs) b =
     (if c mod 256 = c then char_loop (i + 1) cs (b @ [char_of (nat c)])
      else Inl (RunError ''invalid value''))"

definition str_char :: "int list \<Rightarrow> string res" where
  "str_char args = char_loop 1 args []"

subsection \<open>Searching\<close>

definition memchr :: "string \<Rightarrow> char \<Rightarrow> nat \<Rightarrow> nat option" where
  "memchr s c n = (let k = length (takeWhile (\<lambda>x. x \<noteq> c) (take n s)) in if k < length (take n s) then Some k else None)"

function gmemfind_loop :: "string \<Rightarrow> nat \<Rightarrow> nat \<Rightarrow> string \<Rightarrow> nat option" where
  "gmemfind_loop s1 off l1 s2 =
     (if 0 < l1
      then case memchr (drop off s1) (hd s2) l1 of
             None \<Rightarrow> None
           | Some k \<Rightarrow>
               (let init = off + k + 1
                in if take (length s2 - 1) (drop init s1) = tl s2 then Some (init - 1)
                   else gmemfind_loop s1 init (l1 - (init - off)) s2)
      else None)"
  by pat_completeness auto
termination
  by (relation "measure (\<lambda>(s1, off, l1, s2). l1)") auto

declare gmemfind_loop.simps [simp del]

text \<open>\<open>s1\<close> is the subject from the start of the search on.\<close>

definition gmemfind :: "string \<Rightarrow> string \<Rightarrow> nat option" where
  "gmemfind s1 s2 =
     (if length s2 = 0 then Some 0
      else if length s1 < length s2 then None
      else gmemfind_loop s1 0 (length s1 - (length s2 - 1)) s2)"

definition push_onecapture :: "MatchState \<Rightarrow> nat \<Rightarrow> nat \<Rightarrow> nat \<Rightarrow> pushed res" where
  "push_onecapture ms i s e =
     (if level ms \<le> i
      then (if i = 0 then Inr (PStr (take (e - s) (drop s (src ms)))) else Inl (RunError ''invalid capture index''))
      else rbind (read_capture ms i) (\<lambda>(ini, l).
             if l = CAP_UNFINISHED then Inl (RunError ''unfinished capture'')
             else if l = CAP_POSITION then Inr (PInt (int ini + 1))
             else Inr (PStr (take (nat l) (drop ini (src ms))))))"

fun push_loop :: "MatchState \<Rightarrow> nat list \<Rightarrow> nat \<Rightarrow> nat \<Rightarrow> pushed list res" where
  "push_loop ms [] s e = Inr []"
| "push_loop ms (i # is) s e =
     rbind (push_onecapture ms i s e) (\<lambda>x. rbind (push_loop ms is s e) (\<lambda>xs. Inr (x # xs)))"

text \<open>The whole match is given as \<open>Some (s, e)\<close>; it is \<open>None\<close> where the code passes a null pointer.\<close>

definition push_captures :: "MatchState \<Rightarrow> (nat \<times> nat) option \<Rightarrow> pushed list res" where
  "push_captures ms se =
     (let nlevels = (if level ms = 0 \<and> se \<noteq> None then 1 else level ms)
      in push_loop ms [0..<nlevels] (case se of None \<Rightarrow> 0 | Some (s, e) \<Rightarrow> s) (case se of None \<Rightarrow> 0 | Some (s, e) \<Rightarrow> e))"

function find_loop :: "string \<Rightarrow> string \<Rightarrow> nat \<Rightarrow> bool \<Rightarrow> MatchState \<Rightarrow> nat \<Rightarrow> (nat \<times> nat \<times> MatchState) option res" where
  "find_loop sr pat p anchor ms s1 =
     (case match pat (ms\<lparr>level := 0\<rparr>) s1 p of
        Inl er \<Rightarrow> Inl er
      | Inr (Some e, ms') \<Rightarrow> Inr (Some (s1, e, ms'))
      | Inr (None, ms') \<Rightarrow>
          if s1 < length sr \<and> \<not> anchor then find_loop sr pat p anchor ms' (s1 + 1) else Inr None)"
  by pat_completeness auto
termination
  by (relation "measure (\<lambda>(sr, pat, p, anchor, ms, s1). length sr - s1)") auto

declare find_loop.simps [simp del]

definition no_specials :: "string \<Rightarrow> bool" where
  "no_specials p \<longleftrightarrow> (\<forall>c\<in>set (takeWhile (\<lambda>c. c \<noteq> NUL) p). c \<notin> set SPECIALS)"

definition starts_with :: "string \<Rightarrow> char \<Rightarrow> bool" where
  "starts_with p c \<longleftrightarrow> (case p of [] \<Rightarrow> False | x # _ \<Rightarrow> x = c)"

definition str_find_aux :: "string \<Rightarrow> string \<Rightarrow> int \<Rightarrow> bool \<Rightarrow> bool \<Rightarrow> pushed list res" where
  "str_find_aux s p i plain fnd =
     (let l1 = length s;
          init0 = posrelat i l1 - 1;
          init = nat (if init0 < 0 then 0 else if int l1 < init0 then int l1 else init0)
      in if fnd \<and> (plain \<or> no_specials p)
         then (case gmemfind (drop init s) p of
                 Some s2 \<Rightarrow> Inr [PInt (int (init + s2) + 1), PInt (int (init + s2 + length p))]
               | None \<Rightarrow> Inr [PNil])
         else (let anchor = starts_with p CHR ''^''
               in rbind (find_loop s p (if anchor then 1 else 0) anchor (new_match s) init) (\<lambda>r. case r of
                    None \<Rightarrow> Inr [PNil]
                  | Some (s1, e, ms) \<Rightarrow>
                      if fnd then rbind (push_captures ms None) (\<lambda>cs. Inr (PInt (int s1 + 1) # PInt (int e) # cs))
                      else push_captures ms (Some (s1, e)))))"

definition str_find :: "string \<Rightarrow> string \<Rightarrow> int \<Rightarrow> bool \<Rightarrow> pushed list res" where
  "str_find s p i plain = str_find_aux s p i plain True"

definition str_match :: "string \<Rightarrow> string \<Rightarrow> int \<Rightarrow> pushed list res" where
  "str_match s p i = str_find_aux s p i False False"

subsection \<open>Iteration\<close>

text \<open>
  \<open>gmatch_aux\<close> with the subject, the pattern and the position it keeps as upvalues: the values it returns and the
  next position.  The loop runs while the position is not past the end of the subject.
\<close>

function gmatch_loop :: "string \<Rightarrow> string \<Rightarrow> MatchState \<Rightarrow> nat \<Rightarrow> (nat \<times> nat \<times> MatchState) option res" where
  "gmatch_loop sr pat ms s1 =
     (if s1 \<le> length sr
      then case match pat (ms\<lparr>level := 0\<rparr>) s1 0 of
             Inl er \<Rightarrow> Inl er
           | Inr (Some e, ms') \<Rightarrow> Inr (Some (s1, e, ms'))
           | Inr (None, ms') \<Rightarrow> gmatch_loop sr pat ms' (s1 + 1)
      else Inr None)"
  by pat_completeness auto
termination
  by (relation "measure (\<lambda>(sr, pat, ms, s1). length sr + 1 - s1)") auto

declare gmatch_loop.simps [simp del]

definition gmatch_aux :: "string \<Rightarrow> string \<Rightarrow> nat \<Rightarrow> (pushed list \<times> nat) option res" where
  "gmatch_aux s p pos =
     rbind (gmatch_loop s p (new_match s) pos) (\<lambda>r. case r of
       None \<Rightarrow> Inr None
     | Some (s1, e, ms) \<Rightarrow>
         (let newstart = (if e = s1 then e + 1 else e)
          in rbind (push_captures ms (Some (s1, e))) (\<lambda>vs. Inr (Some (vs, newstart)))))"

text \<open>The iterator made by \<open>gmatch\<close>: its upvalues are the subject, the pattern and the position 0.\<close>

definition gmatch :: "string \<Rightarrow> string \<Rightarrow> string \<times> string \<times> nat" where
  "gmatch s p = (s, p, 0)"

subsection \<open>Substitution\<close>

datatype rvalue = VFalse | VStr string | VOther string
datatype repl = RStr string | RFun "pushed list \<Rightarrow> rvalue res" | RTab "pushed \<Rightarrow> rvalue res"

text \<open>
  A position is added to the buffer as \<open>gafq_togstring\<close> writes it, with \<open>%.14g\<close>: its decimal digits,
  as long as it has at most fourteen, which is more than a string can have characters.
\<close>

definition pushed_string :: "pushed \<Rightarrow> string" where
  "pushed_string v = (case v of PInt i \<Rightarrow> digits (nat i) | PStr s \<Rightarrow> s | PNil \<Rightarrow> [])"

function add_s_loop :: "MatchState \<Rightarrow> string \<Rightarrow> nat \<Rightarrow> nat \<Rightarrow> nat \<Rightarrow> string \<Rightarrow> string res" where
  "add_s_loop ms news i s e b =
     (if i < length news
      then if news ! i \<noteq> L_ESC then add_s_loop ms news (i + 1) s e (b @ [news ! i])
           else case cread news (i + 1) of
                  Inl er \<Rightarrow> Inl er
                | Inr c \<Rightarrow>
                    if \<not> isdigit c then add_s_loop ms news (i + 2) s e (b @ [c])
                    else if c = CHR ''0'' then add_s_loop ms news (i + 2) s e (b @ take (e - s) (drop s (src ms)))
                    else (case push_onecapture ms (uchar c - 49) s e of
                            Inl er \<Rightarrow> Inl er
                          | Inr v \<Rightarrow> add_s_loop ms news (i + 2) s e (b @ pushed_string v))
      else Inr b)"
  by pat_completeness auto
termination
  by (relation "measure (\<lambda>(ms, news, i, s, e, b). length news - i)") auto

declare add_s_loop.simps [simp del]

definition add_s :: "MatchState \<Rightarrow> string \<Rightarrow> nat \<Rightarrow> nat \<Rightarrow> string \<Rightarrow> string res" where
  "add_s ms news s e b = add_s_loop ms news 0 s e b"

definition add_result :: "MatchState \<Rightarrow> nat \<Rightarrow> nat \<Rightarrow> string \<Rightarrow> rvalue \<Rightarrow> string res" where
  "add_result ms s e b v =
     (case v of
        VFalse \<Rightarrow> Inr (b @ take (e - s) (drop s (src ms)))
      | VStr x \<Rightarrow> Inr (b @ x)
      | VOther t \<Rightarrow> Inl (RunError (''invalid replacement value (a '' @ t @ '')'')))"

definition add_value :: "MatchState \<Rightarrow> repl \<Rightarrow> nat \<Rightarrow> nat \<Rightarrow> string \<Rightarrow> string res" where
  "add_value ms r s e b =
     (case r of
        RStr news \<Rightarrow> add_s ms news s e b
      | RFun f \<Rightarrow> rbind (push_captures ms (Some (s, e))) (\<lambda>cs. rbind (f cs) (add_result ms s e b))
      | RTab t \<Rightarrow> rbind (push_onecapture ms 0 s e) (\<lambda>c. rbind (t c) (add_result ms s e b)))"

text \<open>One turn of the loop of \<open>str_gsub\<close>: whether to go on, the state of the matcher, the position, the count and the buffer.\<close>

definition gsub_turn ::
  "string \<Rightarrow> string \<Rightarrow> nat \<Rightarrow> bool \<Rightarrow> repl \<Rightarrow> MatchState \<Rightarrow> nat \<Rightarrow> int \<Rightarrow> string \<Rightarrow> (bool \<times> MatchState \<times> nat \<times> int \<times> string) res" where
  "gsub_turn sr pat p anchor r ms s n b =
     rbind (match pat (ms\<lparr>level := 0\<rparr>) s p) (\<lambda>(eo, ms1).
       rbind (case eo of None \<Rightarrow> Inr (n, b) | Some e \<Rightarrow> rbind (add_value ms1 r s e b) (\<lambda>b1. Inr (n + 1, b1))) (\<lambda>(n1, b1).
         if eo \<noteq> None \<and> s < the eo then Inr (\<not> anchor, ms1, the eo, n1, b1)
         else if s < length sr then Inr (\<not> anchor, ms1, s + 1, n1, b1 @ [sr ! s])
         else Inr (False, ms1, s, n1, b1)))"

text \<open>The loop, for at most the given number of turns.\<close>

primrec gsub_loop ::
  "nat \<Rightarrow> string \<Rightarrow> string \<Rightarrow> nat \<Rightarrow> bool \<Rightarrow> repl \<Rightarrow> int \<Rightarrow> MatchState \<Rightarrow> nat \<Rightarrow> int \<Rightarrow> string \<Rightarrow> (nat \<times> int \<times> string) res" where
  "gsub_loop 0 sr pat p anchor r max_s ms s n b = Inl OutOfFuel"
| "gsub_loop (Suc k) sr pat p anchor r max_s ms s n b =
     (if n < max_s
      then rbind (gsub_turn sr pat p anchor r ms s n b) (\<lambda>(go, ms1, s1, n1, b1).
             if go then gsub_loop k sr pat p anchor r max_s ms1 s1 n1 b1 else Inr (s1, n1, b1))
      else Inr (s, n, b))"

definition str_gsub :: "string \<Rightarrow> string \<Rightarrow> repl \<Rightarrow> int option \<Rightarrow> (string \<times> int) res" where
  "str_gsub sr p r max_o =
     (let max_s = (case max_o of None \<Rightarrow> to_int32 (int (length sr) + 1) | Some m \<Rightarrow> m);
          anchor = starts_with p CHR ''^''
      in rbind (gsub_loop (length sr + 2) sr p (if anchor then 1 else 0) anchor r max_s (new_match sr) 0 0 []) (\<lambda>(s, n, b).
           Inr (b @ drop s sr, n)))"

subsection \<open>Formats\<close>

fun addquoted_loop :: "string \<Rightarrow> string \<Rightarrow> string" where
  "addquoted_loop [] b = b"
| "addquoted_loop (c # s) b =
     addquoted_loop s
       (if c = CHR 0x22 \<or> c = CHR 0x5C \<or> c = CHR 0x0A then (b @ [CHR 0x5C]) @ [c]
        else if c = CHR 0x0D then b @ [CHR 0x5C, CHR ''r'']
        else if c = NUL then b @ [CHR 0x5C, CHR ''0'', CHR ''0'', CHR ''0'']
        else b @ [c])"

definition addquoted :: "string \<Rightarrow> string \<Rightarrow> string" where
  "addquoted s b = addquoted_loop s (b @ [CHR 0x22]) @ [CHR 0x22]"

definition FLAGS :: string where "FLAGS = ''-+ #0''"
definition GAFQ_INTFRMLEN :: string where "GAFQ_INTFRMLEN = ''l''"

text \<open>\<open>sizeof\<close> of a string literal counts the zero at its end.\<close>

definition MAX_FORMAT :: nat where "MAX_FORMAT = (length FLAGS + 1) + (length GAFQ_INTFRMLEN + 1) + 10"

function skip_flags :: "string \<Rightarrow> nat \<Rightarrow> nat res" where
  "skip_flags f p =
     (case cread f p of
        Inl e \<Rightarrow> Inl e
      | Inr c \<Rightarrow> if c \<noteq> NUL \<and> c \<in> set FLAGS then skip_flags f (p + 1) else Inr p)"
  by pat_completeness auto
termination
  by (relation "measure (\<lambda>(f, p). length f - p)") (auto dest!: cread_Inr)

declare skip_flags.simps [simp del]

definition skip_digit :: "string \<Rightarrow> nat \<Rightarrow> nat res" where
  "skip_digit f p = rbind (cread f p) (\<lambda>c. Inr (if isdigit c then p + 1 else p))"

text \<open>\<open>strncpy\<close> of \<open>n\<close> bytes from offset \<open>a\<close> pads with zeros after a zero.\<close>

definition strncpy :: "string \<Rightarrow> nat \<Rightarrow> nat \<Rightarrow> string" where
  "strncpy f a n = (let t = takeWhile (\<lambda>c. c \<noteq> NUL) (take n (drop a f)) in t @ replicate (n - length t) NUL)"

text \<open>The position of the conversion character and the bytes written to \<open>form\<close>, the terminating zero included.\<close>

definition scanformat :: "string \<Rightarrow> nat \<Rightarrow> (nat \<times> string) res" where
  "scanformat f a =
     rbind (skip_flags f a) (\<lambda>p.
       if length FLAGS + 1 \<le> p - a then Inl (RunError ''invalid format (repeated flags)'')
       else rbind (skip_digit f p) (\<lambda>p. rbind (skip_digit f p) (\<lambda>p.
         rbind (cread f p) (\<lambda>c.
           rbind (if c = CHR ''.'' then rbind (skip_digit f (p + 1)) (skip_digit f) else Inr p) (\<lambda>p.
             rbind (cread f p) (\<lambda>c.
               if isdigit c then Inl (RunError ''invalid format (width or precision too long)'')
               else Inr (p, CHR ''%'' # strncpy f a (p - a + 1) @ [NUL])))))))"

text \<open>\<open>addintlen\<close> puts the length modifier before the conversion character of the string in \<open>form\<close>.\<close>

definition addintlen :: "string \<Rightarrow> string" where
  "addintlen form =
     (let t = takeWhile (\<lambda>c. c \<noteq> NUL) form; l = length t
      in take (l - 1) t @ GAFQ_INTFRMLEN @ [t ! (l - 1), NUL] @ drop (l + length GAFQ_INTFRMLEN + 1) form)"

end
