(* ===== verification/Strlib_Props.thy ===== *)
theory Strlib_Props
  imports Strlib
begin

text \<open>
  What the functions of the string library compute: ranges of \<open>string.sub\<close>, bytes and characters, the plain and
  the pattern search, substitution, and the bounds of the buffer for format items.
\<close>

subsection \<open>Plain strings\<close>

lemma reverse_loop_eq: "n \<le> length s \<Longrightarrow> reverse_loop s n b = b @ rev (take n s)"
  by (induction n arbitrary: b) (auto simp: take_Suc_conv_app_nth)

lemma str_reverse_eq: "str_reverse s = rev s"
  by (simp add: str_reverse_def reverse_loop_eq)

lemma fold_append: "fold (\<lambda>c b. b @ [f c]) s b = b @ map f s"
  by (induction s arbitrary: b) auto

lemma str_case_eq: "str_lower s = map tolower s" "str_upper s = map toupper s"
  by (simp_all add: str_lower_def str_upper_def fold_append)

lemma rep_loop_eq: "rep_loop s n b = b @ concat (replicate n s)"
  by (induction n arbitrary: b) auto

lemma str_rep_eq: "str_rep s n = concat (replicate (nat n) s)"
  by (simp add: str_rep_def rep_loop_eq)

lemma posrelat_cases:
  "posrelat i l = (if 0 \<le> i then i else if 0 \<le> i + int l + 1 then i + int l + 1 else 0)"
  by (auto simp: posrelat_def Let_def)

text \<open>
  \<open>string.sub\<close>: the characters at the positions from \<open>i\<close> to \<open>j\<close>, where a negative position
  counts from the end of the string and the range is cut to the string.
\<close>

lemma str_sub_range:
  "str_sub s i j =
     (let lo = max 1 (if i < 0 then int (length s) + 1 + i else i);
          hi = min (int (length s)) (if j < 0 then int (length s) + 1 + j else j)
      in map (\<lambda>k. s ! nat (k - 1)) [lo..hi])"
proof -
  define lo where "lo = max 1 (if i < 0 then int (length s) + 1 + i else i)"
  define hi where "hi = min (int (length s)) (if j < 0 then int (length s) + 1 + j else j)"
  have lo: "(if posrelat i (length s) < 1 then 1 else posrelat i (length s)) = lo" by (auto simp: posrelat_cases lo_def)
  have hi: "(if int (length s) < posrelat j (length s) then int (length s) else posrelat j (length s)) = max 0 hi"
    by (auto simp: posrelat_cases hi_def)
  have lo1: "1 \<le> lo" by (simp add: lo_def)
  have hin: "hi \<le> int (length s)" by (simp add: hi_def)
  have "str_sub s i j = (if lo \<le> hi then take (nat (hi - lo + 1)) (drop (nat (lo - 1)) s) else [])"
    using lo1 unfolding str_sub_def Let_def lo hi by auto
  also have "\<dots> = map (\<lambda>k. s ! nat (k - 1)) [lo..hi]"
  proof (cases "lo \<le> hi")
    case True
    then have len: "length (take (nat (hi - lo + 1)) (drop (nat (lo - 1)) s)) = nat (hi - lo + 1)" using lo1 hin by auto
    show ?thesis
    proof (simp only: True if_True, rule nth_equalityI)
      show "length (take (nat (hi - lo + 1)) (drop (nat (lo - 1)) s)) = length (map (\<lambda>k. s ! nat (k - 1)) [lo..hi])"
        using len by simp
      fix k assume "k < length (take (nat (hi - lo + 1)) (drop (nat (lo - 1)) s))"
      then have k: "k < nat (hi - lo + 1)" using len by simp
      then have "nat (lo - 1) + k = nat (lo + int k - 1)" using lo1 by auto
      then show "take (nat (hi - lo + 1)) (drop (nat (lo - 1)) s) ! k = map (\<lambda>k. s ! nat (k - 1)) [lo..hi] ! k"
        using k lo1 hin True by (simp add: nth_upto)
    qed
  qed simp
  finally show ?thesis by (simp add: lo_def hi_def)
qed

lemma char_loop_ok: "char_loop i (map (\<lambda>c. int (uchar c)) s) b = Inr (b @ s)"
proof (induction s arbitrary: i b)
  case (Cons c s)
  have "uchar c < 256" by (metis of_char_mod_256 mod_less_divisor zero_less_numeral)
  then have "int (uchar c) mod 256 = int (uchar c)" by simp
  then show ?case using Cons by simp
qed simp

text \<open>
  \<open>string.char\<close> undoes \<open>string.byte\<close>: the bytes of a whole string, passed to \<open>string.char\<close>, give
  the string, whenever the stack has room for them.
\<close>

lemma byte_char_roundtrip:
  assumes "length s < 2 ^ 31" "checkstack (int (length s))" "s \<noteq> []"
  shows "\<exists>bs. str_byte checkstack s 1 (Some (-1)) = Inr bs \<and> str_char (map int bs) = Inr s"
proof -
  have l: "0 < length s" using assms(3) by simp
  have n: "to_int32 (int (length s)) = int (length s)" using assms(1) by (simp add: to_int32_def mod_pos_pos_trivial)
  have "str_byte checkstack s 1 (Some (-1)) = Inr (map (\<lambda>k. uchar (s ! k)) [0..<length s])"
    using l n assms(2) by (simp add: str_byte_def posrelat_cases Let_def)
  also have "map (\<lambda>k. uchar (s ! k)) [0..<length s] = map uchar s" by (rule nth_equalityI) simp_all
  finally show ?thesis using char_loop_ok [of 1 s "[]"] by (simp add: str_char_def o_def)
qed

subsection \<open>Plain search\<close>

definition occurs_at :: "string \<Rightarrow> string \<Rightarrow> nat \<Rightarrow> bool" where
  "occurs_at s p i \<longleftrightarrow> i + length p \<le> length s \<and> take (length p) (drop i s) = p"

lemma memchr_Some: "memchr s c n = Some k \<Longrightarrow> k < n \<and> k < length s \<and> s ! k = c \<and> (\<forall>j<k. s ! j \<noteq> c)"
proof -
  assume "memchr s c n = Some k"
  then have k: "k = length (takeWhile (\<lambda>x. x \<noteq> c) (take n s))" "k < length (take n s)"
    by (auto simp: memchr_def Let_def split: if_splits)
  have "take n s ! k = c" using nth_length_takeWhile [of "\<lambda>x. x \<noteq> c" "take n s"] k by simp
  moreover have "take n s ! j \<noteq> c" if "j < k" for j
    using set_takeWhileD [OF nth_mem, of j "\<lambda>x. x \<noteq> c" "take n s"] takeWhile_nth [of j "\<lambda>x. x \<noteq> c" "take n s"] that k(1) by simp
  ultimately show ?thesis using k(2) by auto
qed

lemma memchr_None: "memchr s c n = None \<Longrightarrow> j < n \<Longrightarrow> j < length s \<Longrightarrow> s ! j \<noteq> c"
proof
  assume m: "memchr s c n = None" "j < n" "j < length s" "s ! j = c"
  then have "take n s ! j \<in> set (take n s)" by (intro nth_mem) simp
  moreover have "takeWhile (\<lambda>x. x \<noteq> c) (take n s) = take n s"
  proof -
    have "length (take n s) \<le> length (takeWhile (\<lambda>x. x \<noteq> c) (take n s))"
      using m(1) unfolding memchr_def Let_def by (metis not_less option.distinct(1))
    from take_all [OF this] show ?thesis using takeWhile_eq_take [of "\<lambda>x. x \<noteq> c" "take n s"] by metis
  qed
  ultimately show False using m by (auto simp: takeWhile_eq_all_conv)
qed

lemma occurs_at_hd: "occurs_at s (c # p) i \<longleftrightarrow> i + length (c # p) \<le> length s \<and> s ! i = c \<and> take (length p) (drop (i + 1) s) = p"
proof (cases "i < length s")
  case True
  then have "drop i s = s ! i # drop (i + 1) s" by (simp add: Cons_nth_drop_Suc)
  then show ?thesis by (simp add: occurs_at_def)
qed (simp add: occurs_at_def)

lemma gmemfind_loop_first:
  assumes "l1 + length p = length s - off" "off \<le> length s"
  shows "case gmemfind_loop s off l1 (c # p) of
      None \<Rightarrow> \<forall>i\<ge>off. \<not> occurs_at s (c # p) i
    | Some k \<Rightarrow> off \<le> k \<and> occurs_at s (c # p) k \<and> (\<forall>i. off \<le> i \<longrightarrow> i < k \<longrightarrow> \<not> occurs_at s (c # p) i)"
  using assms
proof (induction l1 arbitrary: off rule: less_induct)
  case (less l1)
  show ?case
  proof (cases "l1 = 0")
    case True
    then show ?thesis using less.prems by (subst gmemfind_loop.simps) (auto simp: occurs_at_def)
  next
    case False
    show ?thesis
    proof (cases "memchr (drop off s) c l1")
      case None
      have "\<not> occurs_at s (c # p) i" if "off \<le> i" for i
      proof
        assume o: "occurs_at s (c # p) i"
        then have "i - off < l1" using less.prems that by (auto simp: occurs_at_def)
        then show False using memchr_None [OF None, of "i - off"] o that less.prems by (simp add: occurs_at_hd)
      qed
      then show ?thesis using None False by (subst gmemfind_loop.simps) simp
    next
      case (Some k)
      note k = memchr_Some [OF Some]
      have before: "\<not> occurs_at s (c # p) i" if "off \<le> i" "i < off + k" for i
      proof
        assume o: "occurs_at s (c # p) i"
        have "drop off s ! (i - off) \<noteq> c" using k that by auto
        then show False using o that less.prems(2) by (simp add: occurs_at_hd)
      qed
      let ?i = "off + k + 1"
      have at: "occurs_at s (c # p) (off + k) \<longleftrightarrow> take (length p) (drop ?i s) = p"
        using k less.prems by (auto simp: occurs_at_hd)
      show ?thesis
      proof (cases "take (length p) (drop ?i s) = p")
        case True
        then have "gmemfind_loop s off l1 (c # p) = Some (off + k)" using Some False by (subst gmemfind_loop.simps) (simp add: Let_def)
        then show ?thesis using at True before by simp
      next
        case f: False
        have step: "gmemfind_loop s off l1 (c # p) = gmemfind_loop s ?i (l1 - (?i - off)) (c # p)"
          using Some False f by (subst gmemfind_loop.simps) (simp add: Let_def)
        have IH: "case gmemfind_loop s ?i (l1 - (?i - off)) (c # p) of
            None \<Rightarrow> \<forall>i\<ge>?i. \<not> occurs_at s (c # p) i
          | Some k' \<Rightarrow> ?i \<le> k' \<and> occurs_at s (c # p) k' \<and> (\<forall>i. ?i \<le> i \<longrightarrow> i < k' \<longrightarrow> \<not> occurs_at s (c # p) i)"
          by (rule less.IH) (use k less.prems in auto)
        have no: "\<not> occurs_at s (c # p) i" if "off \<le> i" "i < ?i" for i
        proof (cases "i = off + k")
          case True
          then show ?thesis using at f by simp
        next
          case False
          then show ?thesis using before that by simp
        qed
        have le: "\<not> ?i \<le> i \<Longrightarrow> i < ?i" for i by simp
        show ?thesis
        proof (cases "gmemfind_loop s ?i (l1 - (?i - off)) (c # p)")
          case None
          have "\<not> occurs_at s (c # p) i" if "off \<le> i" for i
            using no [OF that] le [of i] IH [unfolded None option.case] by blast
          then show ?thesis unfolding step None option.case by blast
        next
          case (Some k')
          then have "off \<le> k'" "occurs_at s (c # p) k'" "\<And>i. ?i \<le> i \<Longrightarrow> i < k' \<Longrightarrow> \<not> occurs_at s (c # p) i" using IH by auto
          moreover from this have "\<not> occurs_at s (c # p) i" if "off \<le> i" "i < k'" for i using no [OF that(1)] le [of i] that(2) by blast
          ultimately show ?thesis unfolding step Some option.case by blast
        qed
      qed
    qed
  qed
qed

text \<open>
  C30. The plain search of \<open>string.find\<close> returns the first place where the string occurs, and none when it
  does not occur; the empty string occurs at the start.
\<close>

theorem gmemfind_first:
  "case gmemfind s p of
     None \<Rightarrow> \<forall>i. \<not> occurs_at s p i
   | Some k \<Rightarrow> occurs_at s p k \<and> (\<forall>i<k. \<not> occurs_at s p i)"
proof (cases p)
  case Nil
  then show ?thesis by (simp add: gmemfind_def occurs_at_def)
next
  case (Cons c p')
  show ?thesis
  proof (cases "length s < length p")
    case True
    then show ?thesis by (simp add: gmemfind_def occurs_at_def Cons)
  next
    case False
    then have "length s - length p' + length p' = length s - 0" using Cons by simp
    from gmemfind_loop_first [OF this, of c] show ?thesis using False Cons by (simp add: gmemfind_def split: option.splits)
  qed
qed

theorem gmemfind_first_witness:
  "gmemfind ''abab'' ''ba'' = Some 1 \<and> occurs_at ''abab'' ''ba'' 1 \<and> \<not> occurs_at ''abab'' ''ba'' 0"
proof -
  have g: "gmemfind ''abab'' ''ba'' = Some 1" by code_simp
  show ?thesis using gmemfind_first [of "''abab''" "''ba''"] unfolding g by simp
qed

subsection \<open>Pattern search\<close>

definition fresh :: "string \<Rightarrow> MatchState \<Rightarrow> bool" where
  "fresh sr ms \<longleftrightarrow> src ms = sr \<and> length (capture ms) = GAFQ_MAXCAPTURES"

lemma fresh_new: "fresh sr (new_match sr)"
  by (simp add: fresh_def new_match_def)

lemma match_fresh:
  assumes "fresh sr ms" "length sr < 2 ^ 63" "s \<le> length sr" "p \<le> length pat"
  shows "outcome sr [] s (match pat (ms\<lparr>level := 0\<rparr>) s p) (all_matches pat sr [] s p)"
  by (rule match_outcome) (use assms in \<open>simp_all add: fresh_def\<close>)

lemma outcome_fresh: "outcome sr cs s (Inr (r, ms')) xs \<Longrightarrow> fresh sr ms'"
  by (cases r) (auto simp: outcome_def fresh_def ms_at_def has_caps_def)

lemma outcome_hit:
  "outcome sr cs s (Inr (Some e, ms')) xs \<Longrightarrow> \<exists>cs' ys. xs = (e, cs') # ys \<and> s \<le> e \<and> e \<le> length sr \<and> ms_at sr ms' cs' e"
  by (auto simp: outcome_def ms_at_def)

lemma find_loop_leftmost:
  assumes "length sr < 2 ^ 63" "p \<le> length pat" "fresh sr ms" "s \<le> length sr"
  shows "defined (find_loop sr pat p anchor ms s) \<and>
    (\<forall>r. find_loop sr pat p anchor ms s = Inr r \<longrightarrow> (case r of
       None \<Rightarrow> \<forall>k. s \<le> k \<longrightarrow> k \<le> (if anchor then s else length sr) \<longrightarrow> all_matches pat sr [] k p = []
     | Some (s1, e, ms') \<Rightarrow> s \<le> s1 \<and> s1 \<le> (if anchor then s else length sr) \<and>
         (\<forall>k. s \<le> k \<longrightarrow> k < s1 \<longrightarrow> all_matches pat sr [] k p = []) \<and>
         (\<exists>cs ys. all_matches pat sr [] s1 p = (e, cs) # ys \<and> ms_at sr ms' cs e)))"
  using assms(3,4)
proof (induction "length sr - s" arbitrary: s ms rule: less_induct)
  case less
  note o = match_fresh [OF less.prems(1) assms(1) less.prems(2) assms(2)]
  show ?case
  proof (cases "match pat (ms\<lparr>level := 0\<rparr>) s p")
    case (Inl e)
    then have "defined (Inl e :: unit res)" using o by (simp add: outcome_def)
    then show ?thesis using Inl by (subst (1 2) find_loop.simps) (simp add: defined_def split: gerr.splits)
  next
    case (Inr x)
    obtain r ms' where x: "x = (r, ms')" by fastforce
    show ?thesis
    proof (cases r)
      case (Some e)
      have "\<exists>cs ys. all_matches pat sr [] s p = (e, cs) # ys \<and> ms_at sr ms' cs e"
        using outcome_hit [of sr "[]" s e ms' "all_matches pat sr [] s p"] o Inr x Some by auto
      moreover have "find_loop sr pat p anchor ms s = Inr (Some (s, e, ms'))" using Inr x Some by (subst find_loop.simps) simp
      ultimately show ?thesis using less.prems(2) by auto
    next
      case None
      then have no: "all_matches pat sr [] s p = []" and fr: "fresh sr ms'"
        using o Inr x outcome_fresh [of sr "[]" s r ms'] by (auto simp: outcome_def)
      show ?thesis
      proof (cases "s < length sr \<and> \<not> anchor")
        case False
        then have n: "find_loop sr pat p anchor ms s = Inr None" using Inr x None by (subst find_loop.simps) auto
        have "k = s" if "s \<le> k" "k \<le> (if anchor then s else length sr)" for k
          using that False less.prems(2) by (auto split: if_splits)
        then have "all_matches pat sr [] k p = []" if "s \<le> k" "k \<le> (if anchor then s else length sr)" for k using no that by metis
        then show ?thesis unfolding n by simp
      next
        case True
        then have step: "find_loop sr pat p anchor ms s = find_loop sr pat p anchor ms' (s + 1)"
          using Inr x None by (subst find_loop.simps) simp
        have IH: "defined (find_loop sr pat p anchor ms' (s + 1)) \<and>
          (\<forall>r. find_loop sr pat p anchor ms' (s + 1) = Inr r \<longrightarrow> (case r of
             None \<Rightarrow> \<forall>k. s + 1 \<le> k \<longrightarrow> k \<le> (if anchor then s + 1 else length sr) \<longrightarrow> all_matches pat sr [] k p = []
           | Some (s1, e, ms') \<Rightarrow> s + 1 \<le> s1 \<and> s1 \<le> (if anchor then s + 1 else length sr) \<and>
               (\<forall>k. s + 1 \<le> k \<longrightarrow> k < s1 \<longrightarrow> all_matches pat sr [] k p = []) \<and>
               (\<exists>cs ys. all_matches pat sr [] s1 p = (e, cs) # ys \<and> ms_at sr ms' cs e)))"
          by (rule less.hyps) (use True fr in auto)
        have le: "s \<le> k \<longleftrightarrow> k = s \<or> s + 1 \<le> k" for k by auto
        have "anchor = False" using True by simp
        then show ?thesis unfolding step using IH no by (auto simp: le split: option.splits)
      qed
    qed
  qed
qed

text \<open>
  C19. \<open>string.match\<close> and \<open>string.find\<close> search from left to right: the match they report starts at the first
  position, from the given one on, where the pattern matches at all, and is the preferred match there;
  they report none exactly when the pattern matches at no position (at the given one only, for a pattern
  anchored with a caret).
\<close>

theorem find_leftmost:
  assumes "length sr < 2 ^ 63" "p \<le> length pat" "s \<le> length sr"
  shows "case find_loop sr pat p anchor (new_match sr) s of
     Inl e \<Rightarrow> defined (Inl e :: unit res)
   | Inr None \<Rightarrow> \<forall>k. s \<le> k \<longrightarrow> k \<le> (if anchor then s else length sr) \<longrightarrow> all_matches pat sr [] k p = []
   | Inr (Some (s1, e, ms')) \<Rightarrow> s \<le> s1 \<and> s1 \<le> (if anchor then s else length sr) \<and>
       (\<forall>k. s \<le> k \<longrightarrow> k < s1 \<longrightarrow> all_matches pat sr [] k p = []) \<and>
       (\<exists>cs ys. all_matches pat sr [] s1 p = (e, cs) # ys \<and> has_caps ms' cs)"
proof -
  note l = find_loop_leftmost [OF assms(1,2) fresh_new assms(3), of anchor]
  show ?thesis
  proof (cases "find_loop sr pat p anchor (new_match sr) s")
    case (Inl e)
    then show ?thesis using l by (simp add: defined_def split: gerr.splits)
  next
    case (Inr r)
    then show ?thesis using l by (cases r) (auto simp: ms_at_def)
  qed
qed

theorem find_leftmost_witness:
  "\<exists>cs ys. all_matches ''b+'' ''aabbb'' [] 2 0 = (5, cs) # ys \<and> all_matches ''b+'' ''aabbb'' [] 1 0 = []"
proof -
  have "(case find_loop ''aabbb'' ''b+'' 0 False (new_match ''aabbb'') 0 of Inr (Some (s1, e, ms')) \<Rightarrow> s1 = 2 \<and> e = 5 | _ \<Rightarrow> False)" by code_simp
  then show ?thesis using find_leftmost [of "''aabbb''" 0 "''b+''" 0 False] by (auto split: sum.splits option.splits prod.splits)
qed

subsection \<open>Substitution\<close>

lemma add_whole: "add_s ms ''%0'' s e b = Inr (b @ take (e - s) (drop s (src ms)))"
  unfolding add_s_def by (simp add: add_s_loop.simps [of _ _ 0] add_s_loop.simps [of _ _ "Suc (Suc 0)"] L_ESC_def cread_def isdigit_def)

lemma gsub_turn_whole:
  assumes "length sr < 2 ^ 63" "p \<le> length pat" "fresh sr ms" "s \<le> length sr"
  shows "defined (gsub_turn sr pat p anchor (RStr ''%0'') ms s n b) \<and>
    (\<forall>go ms1 s1 n1 b1. gsub_turn sr pat p anchor (RStr ''%0'') ms s n b = Inr (go, ms1, s1, n1, b1) \<longrightarrow>
       fresh sr ms1 \<and> s \<le> s1 \<and> s1 \<le> length sr \<and> (go \<longrightarrow> s < s1) \<and> b1 @ drop s1 sr = b @ drop s sr \<and> n \<le> n1 \<and> n1 \<le> n + 1)"
proof -
  note o = match_fresh [OF assms(3,1,4,2)]
  show ?thesis
  proof (cases "match pat (ms\<lparr>level := 0\<rparr>) s p")
    case (Inl e)
    then show ?thesis using outcome_defined [OF o] by (auto simp: gsub_turn_def defined_def split: gerr.splits)
  next
    case (Inr x)
    obtain r ms' where x: "x = (r, ms')" by fastforce
    have fr: "fresh sr ms'" using o Inr x outcome_fresh [of sr "[]" s r ms'] by simp
    have d: "drop s sr = sr ! s # drop (s + 1) sr" if "s < length sr" using that by (simp add: Cons_nth_drop_Suc)
    show ?thesis
    proof (cases r)
      case None
      then show ?thesis using Inr x fr assms(4) d by (auto simp: gsub_turn_def)
    next
      case (Some e)
      then have e: "s \<le> e" "e \<le> length sr" using outcome_hit [of sr "[]" s e ms'] o Inr x by auto
      have "drop s sr = take (e - s) (drop s sr) @ drop e sr" using e by (metis append_take_drop_id drop_drop le_add_diff_inverse2)
      then show ?thesis using Some Inr x fr e d assms(4) by (auto simp: gsub_turn_def add_value_def add_whole fresh_def)
    qed
  qed
qed

lemma gsub_loop_whole:
  assumes "length sr < 2 ^ 63" "p \<le> length pat"
  shows "fresh sr ms \<Longrightarrow> s \<le> length sr \<Longrightarrow> length sr + 1 - s < k \<Longrightarrow>
    defined (gsub_loop k sr pat p anchor (RStr ''%0'') max_s ms s n b) \<and>
    (\<forall>s1 n1 b1. gsub_loop k sr pat p anchor (RStr ''%0'') max_s ms s n b = Inr (s1, n1, b1) \<longrightarrow>
       b1 @ drop s1 sr = b @ drop s sr)"
proof (induction k arbitrary: ms s n b)
  case (Suc k)
  note t = gsub_turn_whole [OF assms Suc.prems(1,2), of anchor n b]
  show ?case
  proof (cases "gsub_turn sr pat p anchor (RStr ''%0'') ms s n b")
    case (Inl e)
    then show ?thesis using t by (auto simp: defined_def split: gerr.splits)
  next
    case (Inr x)
    obtain go ms1 s1 n1 b1 where x: "x = (go, ms1, s1, n1, b1)" by (metis prod.exhaust)
    then have t1: "fresh sr ms1" "s \<le> s1" "s1 \<le> length sr" "go \<Longrightarrow> s < s1" "b1 @ drop s1 sr = b @ drop s sr" using t Inr by auto
    show ?thesis
    proof (cases "n < max_s \<and> go")
      case True
      then have "length sr + 1 - s1 < k" using t1 Suc.prems(3) by auto
      from Suc.IH [OF t1(1,3) this, of n1 b1] show ?thesis using True Inr x t1(5) by simp
    next
      case False
      then show ?thesis using Inr x t1(5) by auto
    qed
  qed
qed simp

text \<open>
  C21. Substituting every match by itself changes nothing: whatever the pattern and the limit, \<open>string.gsub\<close> with
  the replacement \<open>%0\<close> ends, within the turns the model gives it, with an error of the pattern or with the
  subject unchanged; no character of the subject is lost or repeated.
\<close>

theorem gsub_identity:
  assumes "length sr < 2 ^ 63"
  shows "defined (str_gsub sr pat (RStr ''%0'') max_o) \<and>
    (\<forall>res n. str_gsub sr pat (RStr ''%0'') max_o = Inr (res, n) \<longrightarrow> res = sr)"
proof -
  have p: "(if starts_with pat CHR ''^'' then 1 else 0) \<le> length pat" by (cases pat) (auto simp: starts_with_def)
  have k: "length sr + 1 - 0 < length sr + 2" by simp
  note l = gsub_loop_whole [OF assms p fresh_new _ k, of "starts_with pat CHR ''^''"
    "case max_o of None \<Rightarrow> to_int32 (int (length sr) + 1) | Some m \<Rightarrow> m" 0 "[]"]
  show ?thesis unfolding str_gsub_def Let_def
    using l by (cases "gsub_loop (length sr + 2) sr pat (if starts_with pat CHR ''^'' then 1 else 0) (starts_with pat CHR ''^'') (RStr ''%0'')
      (case max_o of None \<Rightarrow> to_int32 (int (length sr) + 1) | Some m \<Rightarrow> m) (new_match sr) 0 0 []")
      (auto simp: defined_def split: gerr.splits)
qed

theorem gsub_identity_witness: "\<exists>n. str_gsub ''one two'' ''%w+'' (RStr ''%0'') None = Inr (''one two'', n)"
proof -
  have "(case str_gsub ''one two'' ''%w+'' (RStr ''%0'') None of Inl _ \<Rightarrow> False | Inr _ \<Rightarrow> True)" by code_simp
  then have "\<exists>r. str_gsub ''one two'' ''%w+'' (RStr ''%0'') None = Inr r" by (auto split: sum.splits)
  then show ?thesis using gsub_identity [of "''one two''" "''%w+''" None] by fastforce
qed

subsection \<open>Formats\<close>

lemma skip_flags_ok: "p \<le> length f \<Longrightarrow> \<exists>q. skip_flags f p = Inr q \<and> p \<le> q \<and> q \<le> length f"
proof (induction "length f - p" arbitrary: p rule: less_induct)
  case less
  obtain c where c: "cread f p = Inr c" using cread_ok [OF less.prems] by blast
  show ?case
  proof (cases "c \<noteq> NUL \<and> c \<in> set FLAGS")
    case True
    then have "p < length f" using cread_Inr [OF c] by simp
    then obtain q where "skip_flags f (p + 1) = Inr q" "p + 1 \<le> q" "q \<le> length f" using less.hyps [of "p + 1"] by fastforce
    then show ?thesis using c True by (subst skip_flags.simps) simp
  next
    case False
    then show ?thesis using c less.prems by (subst skip_flags.simps) auto
  qed
qed

lemma skip_digit_ok: "p \<le> length f \<Longrightarrow> \<exists>q. skip_digit f p = Inr q \<and> p \<le> q \<and> q \<le> p + 1 \<and> q \<le> length f"
proof -
  assume p: "p \<le> length f"
  obtain c where c: "cread f p = Inr c" using cread_ok [OF p] by blast
  have "isdigit c \<Longrightarrow> p < length f" using cread_Inr [OF c] by (auto simp: isdigit_def)
  then show ?thesis using c p by (auto simp: skip_digit_def)
qed

lemma addintlen_length:
  assumes "takeWhile (\<lambda>c. c \<noteq> NUL) form \<noteq> []"
  shows "length (addintlen form) = max (length (takeWhile (\<lambda>c. c \<noteq> NUL) form) + 2) (length form)"
proof -
  obtain n where "length (takeWhile (\<lambda>c. c \<noteq> NUL) form) = Suc n" using assms by (cases "length (takeWhile (\<lambda>c. c \<noteq> NUL) form)") auto
  then show ?thesis by (simp add: addintlen_def Let_def GAFQ_INTFRMLEN_def min_def max_def) arith
qed

text \<open>
  C33. The buffer for a format item is large enough: from any position of a format string \<open>scanformat\<close>
  returns or raises an error, reads only the string, and what it writes to \<open>form\<close>, with its
  terminating zero, fits the \<open>MAX_FORMAT\<close> bytes of the buffer, also after \<open>addintlen\<close> has put the length
  modifier in.
\<close>

theorem scanformat_fits:
  assumes "a \<le> length f"
  shows "defined (scanformat f a) \<and>
    (\<forall>p form. scanformat f a = Inr (p, form) \<longrightarrow>
       p \<le> length f \<and> length form \<le> MAX_FORMAT \<and> length (addintlen form) \<le> MAX_FORMAT)"
proof -
  obtain p1 where p1: "skip_flags f a = Inr p1" "a \<le> p1" "p1 \<le> length f" using skip_flags_ok [OF assms] by blast
  obtain p2 where p2: "skip_digit f p1 = Inr p2" "p2 \<le> p1 + 1" "p1 \<le> p2" "p2 \<le> length f" using skip_digit_ok [OF p1(3)] by blast
  obtain p3 where p3: "skip_digit f p2 = Inr p3" "p3 \<le> p2 + 1" "p2 \<le> p3" "p3 \<le> length f" using skip_digit_ok [OF p2(4)] by blast
  obtain c3 where c3: "cread f p3 = Inr c3" using cread_ok [OF p3(4)] by blast
  obtain p4 where p4: "(if c3 = CHR ''.'' then rbind (skip_digit f (p3 + 1)) (skip_digit f) else Inr p3) = Inr p4" "p4 \<le> p3 + 3" "p4 \<le> length f" "p3 \<le> p4"
  proof (cases "c3 = CHR ''.''")
    case True
    then have "p3 + 1 \<le> length f" using cread_Inr [OF c3] by simp
    then obtain q where q: "skip_digit f (p3 + 1) = Inr q" "q \<le> p3 + 2" "q \<le> length f" "p3 \<le> q" using skip_digit_ok [of "p3 + 1" f] by auto
    then obtain q' where "skip_digit f q = Inr q'" "q' \<le> q + 1" "q' \<le> length f" "q \<le> q'" using skip_digit_ok [of q f] by auto
    then show ?thesis using that [of q'] q True by simp
  next
    case False
    then show ?thesis using that [of p3] p3 by simp
  qed
  obtain c4 where c4: "cread f p4 = Inr c4" using cread_ok [OF p4(3)] by blast
  define form where "form = CHR ''%'' # strncpy f a (p4 - a + 1) @ [NUL]"
  have res: "scanformat f a =
      (if length FLAGS + 1 \<le> p1 - a then Inl (RunError ''invalid format (repeated flags)'')
       else if isdigit c4 then Inl (RunError ''invalid format (width or precision too long)'') else Inr (p4, form))"
    unfolding scanformat_def p1 rbind.simps p2 p3 c3 p4 c4 form_def by simp
  have len: "length (strncpy f a n) = n" for n
  proof -
    have "length (takeWhile (\<lambda>c. c \<noteq> NUL) (take n (drop a f))) \<le> n"
      by (rule le_trans [OF length_takeWhile_le]) simp
    then show ?thesis by (simp add: strncpy_def Let_def)
  qed
  have bound: "length form \<le> 13" if "\<not> length FLAGS + 1 \<le> p1 - a"
    using that p1 p2 p3 p4 by (simp add: form_def len FLAGS_def)
  have "length (takeWhile (\<lambda>c. c \<noteq> NUL) form) \<le> length form" "takeWhile (\<lambda>c. c \<noteq> NUL) form \<noteq> []"
    by (rule length_takeWhile_le) (simp add: form_def)
  then have "length (addintlen form) \<le> length form + 2" using addintlen_length [of form] by simp
  then show ?thesis using bound p4(3) unfolding res by (auto simp: MAX_FORMAT_def FLAGS_def GAFQ_INTFRMLEN_def)
qed

theorem scanformat_fits_witness: "\<exists>form. scanformat ''%-08.3f'' 1 = Inr (6, form) \<and> length form \<le> MAX_FORMAT"
proof -
  have "(case scanformat ''%-08.3f'' 1 of Inr (p, form) \<Rightarrow> p = 6 | _ \<Rightarrow> False)" by code_simp
  then show ?thesis using scanformat_fits [of 1 "''%-08.3f''"] by (auto split: sum.splits)
qed

end
