(* ===== verification/Quote.thy ===== *)
theory Quote
  imports Lex_Props Strlib_Props
begin

text \<open>
  The two sides of the format \<open>%q\<close>: what \<open>addquoted\<close> of the string library writes, the scanner reads back as the
  same string.
\<close>

definition esc :: "char \<Rightarrow> string" where
  "esc c =
     (if c = CHR 0x22 \<or> c = CHR 0x5C \<or> c = CHR 0x0A then [CHR 0x5C, c]
      else if c = CHR 0x0D then [CHR 0x5C, CHR ''r'']
      else if c = NUL then [CHR 0x5C, CHR ''0'', CHR ''0'', CHR ''0'']
      else [c])"

lemma addquoted_loop_eq: "addquoted_loop s b = b @ concat (map esc s)"
  by (induction s arbitrary: b) (auto simp: esc_def)

lemma addquoted_eq: "addquoted s [] = CHR 0x22 # concat (map esc s) @ [CHR 0x22]"
  by (simp add: addquoted_def addquoted_loop_eq)

definition lex_is :: "('d \<Rightarrow> string) \<Rightarrow> 'd LexState \<Rightarrow> string \<Rightarrow> string \<Rightarrow> int \<Rightarrow> bool" where
  "lex_is C ls t b l \<longleftrightarrow> lex_ok ls \<and> text_of C ls = t \<and> bufftext ls = b \<and> linenumber ls = l"

lemma lex_is_current: "lex_is C ls (c # t) b l \<Longrightarrow> current ls = Some c"
  by (auto simp: lex_is_def text_of_def split: option.splits)

lemma save_exact:
  assumes "lex_is C ls t b l" "length b < MAX_SIZET div 2"
  shows "\<exists>ls'. save ls c = Inr ls' \<and> lex_is C ls' t (b @ [c]) l \<and> current ls' = current ls"
proof -
  have ok: "lex_ok ls" and n: "mb_n (buff ls) < MAX_SIZET div 2"
    using assms by (auto simp: lex_is_def bufftext_def lex_ok_def)
  have "mb_n (buff ls) \<le> mb_buffsize (buff ls)" using ok by (simp add: lex_ok_def)
  then have "save ls c \<noteq> Inl e" for e using n save_ok [OF ok, of c] ok
    by (auto simp: save_def Let_def lex_ok_def gafqZ_resizebuffer_def split: if_splits)
  then show ?thesis using save_ok [OF ok, of c] assms(1) by (auto simp: lex_is_def)
qed

lemma esc_cases:
  assumes "esc c \<noteq> [c]"
  obtains (nl) "c = CHR 0x0A" "esc c = [CHR 0x5C, CHR 0x0A]"
    | (q) "c = CHR 0x22 \<or> c = CHR 0x5C" "esc c = [CHR 0x5C, c]"
    | (cr) "c = CHR 0x0D" "esc c = [CHR 0x5C, CHR ''r'']"
    | (nul) "c = NUL" "esc c = CHR 0x5C # ''000''"
  using assms by (auto simp: esc_def split: if_splits)

lemma first_esc: "(concat (map esc s) @ [CHR 0x22]) ! 0 \<noteq> CHR 0x0A \<and> (concat (map esc s) @ [CHR 0x22]) ! 0 \<noteq> CHR 0x0D"
  by (cases s) (auto simp: esc_def)

context chunk_reader
begin

lemma next_is: "lex_is contents ls (c # t) b l \<Longrightarrow> \<exists>ls'. lx_next reader ls = Inr ls' \<and> lex_is contents ls' t b l"
  using next_exact [of ls c t] by (auto simp: lex_is_def bufftext_def)

lemma save_next_is:
  assumes "lex_is contents ls (c # t) b l" "length b < MAX_SIZET div 2"
  shows "\<exists>ls'. save_and_next reader ls = Inr ls' \<and> lex_is contents ls' t (b @ [c]) l"
  using save_exact [OF assms, of c] next_is [of _ c t "b @ [c]" l] lex_is_current [OF assms(1)]
  by (auto simp: save_and_next_def)

lemma newline_is:
  assumes "lex_is contents ls (CHR 0x0A # d # t) b l" "d \<noteq> CHR 0x0A" "d \<noteq> CHR 0x0D" "l + 1 < MAX_INT"
  shows "\<exists>ls'. inclinenumber reader ls = Inr ls' \<and> lex_is contents ls' (d # t) b (l + 1)"
proof -
  obtain ls1 where ls1: "lx_next reader ls = Inr ls1" "lex_is contents ls1 (d # t) b l" using next_is [OF assms(1)] by blast
  have "\<not> currIsNewline ls1" using lex_is_current [OF ls1(2)] assms(2,3) by (simp add: currIsNewline_def)
  moreover have "lex_is contents (ls1\<lparr>linenumber := linenumber ls1 + 1\<rparr>) (d # t) b (l + 1)"
    using ls1(2) by (auto simp: lex_is_def lex_ok_def bufftext_def)
  ultimately show ?thesis using ls1 assms(4) by (auto simp: inclinenumber_def lex_is_def)
qed

lemma escape_is:
  assumes "lex_is contents ls (esc c @ d # t) b l" "length b < MAX_SIZET div 2" "d \<noteq> CHR 0x0A" "d \<noteq> CHR 0x0D"
    "c = CHR 0x0A \<Longrightarrow> l + 1 < MAX_INT" "esc c \<noteq> [c]"
  shows "\<exists>ls'. read_escape reader ls = Inr ls' \<and> lex_is contents ls' (d # t) (b @ [c]) (if c = CHR 0x0A then l + 1 else l)"
proof -
  obtain x xs where x: "esc c = CHR 0x5C # x # xs" using assms(6) by (auto simp: esc_def split: if_splits)
  obtain ls1 where ls1: "lx_next reader ls = Inr ls1" "lex_is contents ls1 (x # xs @ d # t) b l"
    using next_is [of ls "CHR 0x5C" "x # xs @ d # t" b l] assms(1) x by auto
  have re: "read_escape reader ls = (case simple_escape x of
      Some c \<Rightarrow> rbind (save ls1 c) (lx_next reader)
    | None \<Rightarrow> if x = CHR 0x0A \<or> x = CHR 0x0D then rbind (save ls1 CHR 0x0A) (inclinenumber reader)
        else if \<not> isdigit x then save_and_next reader ls1
        else rbind (escape_digits 3 reader ls1 0) (\<lambda>(c, ls). if 255 < c then gafqX_lexerror ls ''escape sequence too large'' TK_STRING else save ls (char_of c)))"
    unfolding read_escape_def ls1(1) rbind.simps lex_is_current [OF ls1(2)] option.case ..
  from assms(6) show ?thesis
  proof (cases rule: esc_cases)
    case nl
    then have x: "x = CHR 0x0A" "xs = []" using x by auto
    then have se: "simple_escape x = None" by (simp add: simple_escape_def)
    obtain ls2 where ls2: "save ls1 CHR 0x0A = Inr ls2" "lex_is contents ls2 (CHR 0x0A # d # t) (b @ [CHR 0x0A]) l"
      using save_exact [OF ls1(2) assms(2), of "CHR 0x0A"] x by auto
    obtain ls3 where "inclinenumber reader ls2 = Inr ls3" "lex_is contents ls3 (d # t) (b @ [CHR 0x0A]) (l + 1)"
      using newline_is [OF ls2(2) assms(3,4) assms(5) [OF nl(1)]] by blast
    then show ?thesis unfolding re se using ls2(1) x(1) nl(1) by simp
  next
    case q
    then have x: "x = c" "xs = []" using x by auto
    then have se: "simple_escape x = None" "\<not> isdigit x" "x \<noteq> CHR 0x0A" "x \<noteq> CHR 0x0D"
      using q(1) by (auto simp: simple_escape_def isdigit_def)
    obtain ls2 where "save_and_next reader ls1 = Inr ls2" "lex_is contents ls2 (d # t) (b @ [c]) l"
      using save_next_is [OF _ assms(2), of ls1 c "d # t" l] ls1(2) x by auto
    then show ?thesis unfolding re se(1) using x(1) se(2-4) by simp
  next
    case cr
    then have x: "x = CHR ''r''" "xs = []" using x by auto
    then have se: "simple_escape x = Some CHR 0x0D" by (simp add: simple_escape_def)
    obtain ls2 where ls2: "save ls1 CHR 0x0D = Inr ls2" "lex_is contents ls2 (CHR ''r'' # d # t) (b @ [CHR 0x0D]) l"
      using save_exact [OF ls1(2) assms(2), of "CHR 0x0D"] x by auto
    obtain ls3 where "lx_next reader ls2 = Inr ls3" "lex_is contents ls3 (d # t) (b @ [CHR 0x0D]) l" using next_is [OF ls2(2)] by blast
    then show ?thesis unfolding re se using ls2(1) cr(1) by simp
  next
    case nul
    then have x: "x = CHR ''0''" "xs = ''00''" using x by auto
    then have se: "simple_escape x = None" by (simp add: simple_escape_def)
    have zero: "isdigit CHR ''0''" by (simp add: isdigit_def)
    obtain ls2 where ls2: "lx_next reader ls1 = Inr ls2" "lex_is contents ls2 (CHR ''0'' # CHR ''0'' # d # t) b l"
      using next_is [OF ls1(2)] x by auto
    obtain ls3 where ls3: "lx_next reader ls2 = Inr ls3" "lex_is contents ls3 (CHR ''0'' # d # t) b l" using next_is [OF ls2(2)] by blast
    obtain ls4 where ls4: "lx_next reader ls3 = Inr ls4" "lex_is contents ls4 (d # t) b l" using next_is [OF ls3(2)] by blast
    have "escape_digits 3 reader ls1 0 = Inr (0, ls4)"
      using lex_is_current [OF ls1(2)] lex_is_current [OF ls2(2)] lex_is_current [OF ls3(2)] ls2(1) ls3(1) ls4(1) zero x(1)
      by (simp add: numeral_3_eq_3)
    moreover obtain ls5 where "save ls4 NUL = Inr ls5" "lex_is contents ls5 (d # t) (b @ [NUL]) l" using save_exact [OF ls4(2) assms(2)] by blast
    ultimately show ?thesis unfolding re se using x(1) nul(1) zero by (simp add: char_of_def)
  qed
qed

lemma string_loop_is:
  assumes "lex_is contents ls (concat (map esc s) @ CHR 0x22 # rest) b l" "length b + length s < MAX_SIZET div 2"
    "l + int (length (filter (\<lambda>c. c = CHR 0x0A) s)) < MAX_INT" "length s < k"
  shows "\<exists>ls'. string_loop k reader CHR 0x22 ls = Inr ls' \<and>
    lex_is contents ls' (CHR 0x22 # rest) (b @ s) (l + int (length (filter (\<lambda>c. c = CHR 0x0A) s)))"
  using assms
proof (induction s arbitrary: ls b l k)
  case Nil
  then show ?case using lex_is_current [of contents ls "CHR 0x22" rest b l] by (cases k) auto
next
  case (Cons c s)
  obtain k' where k: "k = Suc k'" using Cons.prems(4) by (cases k) auto
  obtain d t where d: "concat (map esc s) @ CHR 0x22 # rest = d # t" "d \<noteq> CHR 0x0A" "d \<noteq> CHR 0x0D"
    using first_esc [of s] by (cases "concat (map esc s)") auto
  have is1: "lex_is contents ls (esc c @ d # t) b l" using Cons.prems(1) d(1) by simp
  let ?l = "if c = CHR 0x0A then l + 1 else l"
  have b: "length b < MAX_SIZET div 2" using Cons.prems(2) by simp
  have go: "\<exists>ls'. string_loop k' reader CHR 0x22 ls1 = Inr ls' \<and>
      lex_is contents ls' (CHR 0x22 # rest) (b @ c # s) (l + int (length (filter (\<lambda>c. c = CHR 0x0A) (c # s))))"
    if "lex_is contents ls1 (d # t) (b @ [c]) ?l" for ls1
    using Cons.IH [of ls1 "b @ [c]" ?l k'] that Cons.prems(2-4) k d(1) by (auto simp: add.assoc split: if_splits)
  show ?case
  proof (cases "esc c = [c]")
    case True
    then have c: "c \<noteq> CHR 0x22" "c \<noteq> CHR 0x5C" "c \<noteq> CHR 0x0A" "c \<noteq> CHR 0x0D" by (auto simp: esc_def split: if_splits)
    obtain ls1 where "save_and_next reader ls = Inr ls1" "lex_is contents ls1 (d # t) (b @ [c]) l"
      using save_next_is [OF _ b, of ls c "d # t" l] is1 True by auto
    then show ?thesis using go [of ls1] c lex_is_current [of contents ls c "d # t" b l] is1 True k by auto
  next
    case False
    then obtain x where "esc c = CHR 0x5C # x" by (auto simp: esc_def split: if_splits)
    then have cur: "current ls = Some CHR 0x5C" using lex_is_current is1 by fastforce
    have nl: "c = CHR 0x0A \<Longrightarrow> l + 1 < MAX_INT" using Cons.prems(3) by auto
    obtain ls1 where "read_escape reader ls = Inr ls1" "lex_is contents ls1 (d # t) (b @ [c]) ?l"
      using escape_is [OF is1 b d(2,3) nl False] by blast
    then show ?thesis using go [of ls1] cur k by auto
  qed
qed

lemma read_quoted:
  assumes "lex_is contents ls (addquoted s [] @ rest) b l" "length b + length s + 2 < MAX_SIZET div 2"
    "l + int (length (filter (\<lambda>c. c = CHR 0x0A) s)) < MAX_INT" "length s < k" "b = []"
  shows "\<exists>ls'. read_string k reader CHR 0x22 ls = Inr (s, ls') \<and> lex_ok ls' \<and> text_of contents ls' = rest"
proof -
  let ?l = "l + int (length (filter (\<lambda>c. c = CHR 0x0A) s))"
  obtain ls1 where ls1: "save_and_next reader ls = Inr ls1" "lex_is contents ls1 (concat (map esc s) @ CHR 0x22 # rest) [CHR 0x22] l"
    using save_next_is [of ls "CHR 0x22" _ b l] assms(1,2,5) by (auto simp: addquoted_eq)
  obtain ls2 where ls2: "string_loop k reader CHR 0x22 ls1 = Inr ls2" "lex_is contents ls2 (CHR 0x22 # rest) ([CHR 0x22] @ s) ?l"
    using string_loop_is [OF ls1(2) _ assms(3,4)] assms(2) by auto
  obtain ls3 where ls3: "save_and_next reader ls2 = Inr ls3" "lex_is contents ls3 rest (([CHR 0x22] @ s) @ [CHR 0x22]) ?l"
    using save_next_is [OF ls2(2)] assms(2) by auto
  have "take (length (bufftext ls3) - 2) (drop 1 (bufftext ls3)) = s" using ls3(2) by (simp add: lex_is_def)
  then show ?thesis using ls1(1) ls2(1) ls3 by (simp add: read_string_def lex_is_def)
qed

lemma glex_quoted:
  assumes "lex_ok ls" "text_of contents ls = addquoted s [] @ rest" "length s + 2 < MAX_SIZET div 2"
    "linenumber ls + int (length (filter (\<lambda>c. c = CHR 0x0A) s)) < MAX_INT" "length s < k"
  shows "\<exists>ls'. glex k str2d reader ls = Inr ((TK_STRING, SStr s), ls') \<and> lex_ok ls' \<and> text_of contents ls' = rest"
proof -
  have i: "lex_is contents (resetbuffer ls) (addquoted s [] @ rest) [] (linenumber ls)"
    using assms(1,2) by (auto simp: lex_is_def resetbuffer_def lex_ok_def bufftext_def)
  obtain ls' where ls': "read_string k reader CHR 0x22 (resetbuffer ls) = Inr (s, ls')" "lex_ok ls'" "text_of contents ls' = rest"
    using read_quoted [OF i _ assms(4,5)] assms(3) by auto
  have "current (resetbuffer ls) = Some CHR 0x22" using lex_is_current i by (fastforce simp: addquoted_eq)
  then have "glex_turn k str2d reader (resetbuffer ls) = Inr (Some (TK_STRING, SStr s), ls')"
    using ls'(1) by (simp add: glex_turn_def)
  moreover obtain k' where "k = Suc k'" using assms(5) by (cases k) auto
  ultimately show ?thesis using ls'(2,3) by (simp add: glex_def)
qed

end

text \<open>
  C5. Quoting and scanning: the text that the format \<open>%q\<close> of \<open>string.format\<close> writes for a string, followed by anything, is
  scanned as a string token whose value is that string, whatever bytes it has, and leaves what follows; the
  string must be short of the limits of the scanner, \<open>MAX_INT\<close> lines and half the address space.
\<close>

theorem quote_scan:
  assumes "chunk_reader reader contents" "lex_ok ls" "text_of contents ls = addquoted s [] @ rest"
    and "length s + 2 < MAX_SIZET div 2" "linenumber ls + int (length (filter (\<lambda>c. c = CHR 0x0A) s)) < MAX_INT" "length s < k"
  shows "\<exists>ls'. glex k str2d reader ls = Inr ((TK_STRING, SStr s), ls') \<and> text_of contents ls' = rest"
  using chunk_reader.glex_quoted [OF assms, of str2d] by blast

theorem quote_scan_witness:
  "\<exists>ls'. glex 10 (\<lambda>_. None) getS (example_lex (addquoted [CHR 0x0A, NUL, CHR 0x22] [] @ '';'')) =
     Inr ((TK_STRING, SStr [CHR 0x0A, NUL, CHR 0x22]), ls') \<and> text_of (\<lambda>ls. take (ls_size ls) (ls_s ls)) ls' = '';''"
  by (rule quote_scan [OF str.chunk_reader_axioms example_lex_ok(1)])
    (simp_all add: example_lex_ok(2), simp_all add: example_lex_def MAX_SIZET_def MAX_INT_def)

end
