(* ===== verification/Tm.thy ===== *)
theory Tm
  imports Table_Iter
begin

text \<open>
  Tag methods (\<open>gtm.c\<close>, \<open>gtm.h\<close>): the names of types and events, the lookup of the
  method of an object for an event, and the cache of absent methods in the flags of a metatable.  The
  store of the virtual machine holds every table at its address, the metatable of each userdata, and the
  metatables of the other types (\<open>G(L)->mt\<close>).
\<close>

record vmstate =
  vm_tables :: "addr \<Rightarrow> Table"
  vm_umeta :: "addr \<Rightarrow> addr option"
  vm_mt :: "nat \<Rightarrow> addr option"

definition gafqT_typenames :: "string list" where
  "gafqT_typenames = [''nil'', ''boolean'', ''userdata'', ''number'', ''string'', ''table'', ''function'', ''userdata'',
     ''thread'', ''proto'', ''upval'']"

datatype TMS = TM_INDEX | TM_NEWINDEX | TM_GC | TM_MODE | TM_EQ | TM_ADD | TM_SUB | TM_MUL | TM_DIV | TM_MOD | TM_POW |
  TM_UNM | TM_LEN | TM_LT | TM_LE | TM_CONCAT | TM_CALL

definition TMS_order :: "TMS list" where
  "TMS_order = [TM_INDEX, TM_NEWINDEX, TM_GC, TM_MODE, TM_EQ, TM_ADD, TM_SUB, TM_MUL, TM_DIV, TM_MOD, TM_POW, TM_UNM,
     TM_LEN, TM_LT, TM_LE, TM_CONCAT, TM_CALL]"

fun TMS_num :: "TMS \<Rightarrow> nat" where
  "TMS_num TM_INDEX = 0" | "TMS_num TM_NEWINDEX = 1" | "TMS_num TM_GC = 2" | "TMS_num TM_MODE = 3" | "TMS_num TM_EQ = 4"
| "TMS_num TM_ADD = 5" | "TMS_num TM_SUB = 6" | "TMS_num TM_MUL = 7" | "TMS_num TM_DIV = 8" | "TMS_num TM_MOD = 9"
| "TMS_num TM_POW = 10" | "TMS_num TM_UNM = 11" | "TMS_num TM_LEN = 12" | "TMS_num TM_LT = 13" | "TMS_num TM_LE = 14"
| "TMS_num TM_CONCAT = 15" | "TMS_num TM_CALL = 16"

text \<open>The names that \<open>gafqT_init\<close> stores in \<open>G(L)->tmname\<close>.\<close>

definition gafqT_eventname :: "string list" where
  "gafqT_eventname = [''__index'', ''__newindex'', ''__gc'', ''__mode'', ''__eq'', ''__add'', ''__sub'', ''__mul'', ''__div'',
     ''__mod'', ''__pow'', ''__unm'', ''__len'', ''__lt'', ''__le'', ''__concat'', ''__call'']"

definition tmname :: "TMS \<Rightarrow> string" where
  "tmname e = gafqT_eventname ! TMS_num e"

abbreviation event_bit :: "TMS \<Rightarrow> 8 word" where
  "event_bit e \<equiv> push_bit (TMS_num e) 1"

definition gafqT_gettm :: "addr \<Rightarrow> TMS \<Rightarrow> string \<Rightarrow> vmstate \<Rightarrow> TValue option \<times> vmstate" where
  "gafqT_gettm events event ename s =
     (let h = vm_tables s events;
          tm = slotoptval h (gafqH_getstr h ename)
      in if ttisnil tm
         then (None, s\<lparr>vm_tables := (vm_tables s)(events := h\<lparr>flags := flags h OR event_bit event\<rparr>)\<rparr>)
         else (Some tm, s))"

definition fasttm :: "addr option \<Rightarrow> TMS \<Rightarrow> vmstate \<Rightarrow> TValue option \<times> vmstate" where
  "fasttm et e s =
     (case et of
        None \<Rightarrow> (None, s)
      | Some a \<Rightarrow>
          if flags (vm_tables s a) AND event_bit e \<noteq> 0 then (None, s)
          else gafqT_gettm a e (tmname e) s)"

definition gafqT_gettmbyobj :: "vmstate \<Rightarrow> TValue \<Rightarrow> TMS \<Rightarrow> TValue" where
  "gafqT_gettmbyobj s obj event =
     (let mt = (case obj of
                  TTable a \<Rightarrow> metatable (vm_tables s a)
                | TUserdata a \<Rightarrow> vm_umeta s a
                | _ \<Rightarrow> vm_mt s (ttype obj))
      in case mt of
           None \<Rightarrow> TNil
         | Some a \<Rightarrow> slotoptval (vm_tables s a) (gafqH_getstr (vm_tables s a) (tmname event)))"

subsection \<open>The cache of absent methods\<close>

lemma TMS_num_order: "TMS_order ! TMS_num e = e"
  by (cases e) (simp_all add: TMS_order_def)

lemma TMS_num_inject: "TMS_num d = TMS_num e \<Longrightarrow> d = e"
  by (metis TMS_num_order)

lemma event_bit_iff:
  assumes "TMS_num e \<le> 4" shows "f AND event_bit e \<noteq> 0 \<longleftrightarrow> bit (f :: 8 word) (TMS_num e)"
proof
  assume "bit f (TMS_num e)"
  then have "bit (f AND event_bit e) (TMS_num e)" using assms by (simp add: bit_simps)
  then show "f AND event_bit e \<noteq> 0" by (metis bit_0_eq bot_apply bot_bool_def)
next
  assume "f AND event_bit e \<noteq> 0"
  then obtain m where "bit (f AND event_bit e) m" by (metis bit_eqI bit_0_eq bot_apply bot_bool_def)
  then have "bit f m" "m = TMS_num e" by (auto simp: bit_simps)
  then show "bit f (TMS_num e)" by simp
qed

text \<open>A set flag of a fast event says that the metatable has no method for it.\<close>

definition cache_ok :: "Table \<Rightarrow> bool" where
  "cache_ok h \<longleftrightarrow> (\<forall>e. TMS_num e \<le> 4 \<longrightarrow> bit (flags h) (TMS_num e) \<longrightarrow> tget h (TString (tmname e)) = TNil)"

definition heap_ok :: "vmstate \<Rightarrow> bool" where
  "heap_ok s \<longleftrightarrow> (\<forall>a. table_inv (vm_tables s a) \<and> cache_ok (vm_tables s a))"

text \<open>Two states that differ in cached flags only.\<close>

definition same_but_flags :: "vmstate \<Rightarrow> vmstate \<Rightarrow> bool" where
  "same_but_flags s s' \<longleftrightarrow> vm_umeta s' = vm_umeta s \<and> vm_mt s' = vm_mt s \<and>
     (\<forall>a. \<exists>f. vm_tables s' a = (vm_tables s a)\<lparr>flags := f\<rparr>)"

lemma same_but_flags_refl [simp]: "same_but_flags s s"
  unfolding same_but_flags_def by (metis Table.surjective Table.update_convs(1))

lemma cache_ok_cleared [simp]: "flags h = 0 \<Longrightarrow> cache_ok h"
  by (simp add: cache_ok_def)

lemma setslot_flags [simp]: "flags (setslot t s v) = flags t"
  by (cases s) simp_all

lemma getfreepos_flags: "getfreepos t = (t', r) \<Longrightarrow> flags t' = flags t"
  by (auto simp: getfreepos_def split: option.splits)

lemma newkey_with_flags:
  assumes "newkey_with gr t k = Inr (t', s)" "flags t = 0" "\<And>u u' s'. flags u = 0 \<Longrightarrow> gr u k = Inr (u', s') \<Longrightarrow> flags u' = 0"
  shows "flags t' = 0"
proof (cases "\<not> ttisnil (i_val (node t ! mainposition t k)) \<or> isdummy t")
  case True
  obtain t1 r where g: "getfreepos t = (t1, r)" by (cases "getfreepos t")
  have f1: "flags t1 = 0" using getfreepos_flags [OF g] assms(2) by simp
  show ?thesis
  proof (cases r)
    case None
    then have "gr t1 k = Inr (t', s)" using assms(1) True g by (simp add: newkey_with_def Let_def)
    then show ?thesis using assms(3) f1 by blast
  next
    case (Some n)
    then show ?thesis using assms(1) True g f1
      by (auto simp: newkey_with_def Let_def set_key_def chain_free_def move_colliding_def set_next_def
          split: if_splits option.splits)
  qed
next
  case False
  then show ?thesis using assms(1,2) by (auto simp: newkey_with_def Let_def set_key_def)
qed

lemma gafqH_set_with_flags:
  assumes "gafqH_set_with gr t k = Inr (t', s)" "\<And>u u' s'. flags u = 0 \<Longrightarrow> gr u k = Inr (u', s') \<Longrightarrow> flags u' = 0"
  shows "flags t' = 0"
proof (cases "gafqH_get t k")
  case None
  then have "newkey_with gr (t\<lparr>flags := 0\<rparr>) k = Inr (t', s)"
    using assms(1) unfolding gafqH_set_with_def Let_def by (simp split: if_splits)
  from newkey_with_flags [OF this _ assms(2)] show ?thesis by simp
qed (use assms(1) in \<open>auto simp: gafqH_set_with_def Let_def\<close>)

lemma grow_flags: "grow d t k = Inr (t', s) \<Longrightarrow> flags t' = 0"
proof (induction d arbitrary: t t' s)
  case (Suc d)
  then obtain u where "gafqH_set_with (grow d) u k = Inr (t', s)" by (auto simp: res_simps)
  then show ?case by (rule gafqH_set_with_flags) (use Suc.IH in auto)
qed simp

lemma gafqH_set_flags: "gafqH_set t k = Inr (t', s) \<Longrightarrow> flags t' = 0"
  unfolding gafqH_set_def by (erule gafqH_set_with_flags) (erule grow_flags)

text \<open>The lookup of a method without the cache.\<close>

definition plain_tm :: "addr option \<Rightarrow> TMS \<Rightarrow> vmstate \<Rightarrow> TValue option" where
  "plain_tm et e s =
     (case et of
        None \<Rightarrow> None
      | Some a \<Rightarrow> (case tget (vm_tables s a) (TString (tmname e)) of TNil \<Rightarrow> None | v \<Rightarrow> Some v))"

lemma getstr_tget: "slotoptval h (gafqH_getstr h x) = tget h (TString x)"
  by (simp add: tget_def gafqH_get_def)

lemma plain_tm_Some: "plain_tm (Some a) e s = (if tget (vm_tables s a) (TString (tmname e)) = TNil then None else Some (tget (vm_tables s a) (TString (tmname e))))"
  by (simp add: plain_tm_def split: TValue.split)

lemma bit_or_event: "TMS_num e \<le> 4 \<Longrightarrow> TMS_num d \<le> 4 \<Longrightarrow> bit ((f :: 8 word) OR event_bit e) (TMS_num d) \<longleftrightarrow> bit f (TMS_num d) \<or> d = e"
  by (auto simp: bit_simps dest: TMS_num_inject)

lemma fasttm_sound:
  assumes "heap_ok s" "TMS_num e \<le> 4"
  shows "fst (fasttm et e s) = plain_tm et e s \<and> same_but_flags s (snd (fasttm et e s)) \<and> heap_ok (snd (fasttm et e s))"
proof (cases et)
  case (Some a)
  let ?h = "vm_tables s a"
  have c: "cache_ok ?h" using assms(1) by (simp add: heap_ok_def)
  show ?thesis
  proof (cases "bit (flags ?h) (TMS_num e)")
    case True
    then show ?thesis using Some c assms event_bit_iff [OF assms(2)]
      by (simp add: fasttm_def plain_tm_Some cache_ok_def)
  next
    case False
    let ?h' = "?h\<lparr>flags := flags ?h OR event_bit e\<rparr>"
    show ?thesis
    proof (cases "tget ?h (TString (tmname e)) = TNil")
      case True
      have "cache_ok ?h'" unfolding cache_ok_def
        using c True assms(2) bit_or_event [OF assms(2)] by (auto simp: cache_ok_def simp del: push_bit_of_1)
      moreover have "same_but_flags s (s\<lparr>vm_tables := (vm_tables s)(a := ?h')\<rparr>)"
        by (auto simp: same_but_flags_def) (metis Table.surjective Table.update_convs(1))
      ultimately show ?thesis using Some False True assms event_bit_iff [OF assms(2)]
        by (simp add: fasttm_def gafqT_gettm_def getstr_tget plain_tm_Some heap_ok_def Let_def)
    next
      case False
      then show ?thesis using Some \<open>\<not> bit _ _\<close> assms event_bit_iff [OF assms(2)]
        by (simp add: fasttm_def gafqT_gettm_def getstr_tget plain_tm_Some)
    qed
  qed
qed (use assms in \<open>simp add: fasttm_def plain_tm_def\<close>)

end
