(* ===== verification/Vm.thy ===== *)
theory Vm
  imports Tm
begin

text \<open>
  The operations of the virtual machine on values (\<open>gvm.c\<close> up to \<open>gafqV_execute\<close>, and the
  errors of \<open>gdebug.c\<close> they raise): conversions, table access with tag methods, comparison,
  concatenation, arithmetic.  What the operations call of the rest of the system is gathered in the record
  \<open>vmenv\<close>: the call of a function (\<open>gafqD_call\<close>, any effect on the store), the name that the
  debug information has for a value (\<open>getobjname\<close>), and the C library's number conversions
  and \<open>pow\<close>.
\<close>

record vmenv =
  call_fun :: "TValue \<Rightarrow> TValue list \<Rightarrow> vmstate \<Rightarrow> (TValue \<times> vmstate) res"
  objname :: "TValue \<Rightarrow> (string \<times> string) option"
  str2d :: "string \<Rightarrow> gafq_Number option"
  number2str :: "gafq_Number \<Rightarrow> string"
  numpow :: "gafq_Number \<Rightarrow> gafq_Number \<Rightarrow> gafq_Number"

definition MAXTAGLOOP :: nat where "MAXTAGLOOP = 100"

subsection \<open>Conversions\<close>

fun gafqV_tonumber :: "vmenv \<Rightarrow> TValue \<Rightarrow> gafq_Number option" where
  "gafqV_tonumber env (TNumber x) = Some x"
| "gafqV_tonumber env (TString s) = str2d env (cstr s)"
| "gafqV_tonumber env v = None"

text \<open>\<open>gafqV_tostring\<close> converts a number in place; the macro \<open>tostring\<close> also accepts a string.\<close>

fun gafqV_tostring :: "vmenv \<Rightarrow> TValue \<Rightarrow> TValue option" where
  "gafqV_tostring env (TNumber x) = Some (TString (cstr (number2str env x)))"
| "gafqV_tostring env v = None"

fun tostring :: "vmenv \<Rightarrow> TValue \<Rightarrow> TValue option" where
  "tostring env (TString s) = Some (TString s)"
| "tostring env v = gafqV_tostring env v"

subsection \<open>Errors\<close>

definition gafqG_typeerror :: "vmenv \<Rightarrow> TValue \<Rightarrow> string \<Rightarrow> 'a res" where
  "gafqG_typeerror env v op =
     (let t = gafqT_typenames ! ttype v
      in case objname env v of
           Some (kind, name) \<Rightarrow>
             Inl (RunError (''attempt to '' @ op @ '' '' @ kind @ '' '' @ CHR 0x27 # name @ CHR 0x27 # '' (a '' @ t @ '' value)''))
         | None \<Rightarrow> Inl (RunError (''attempt to '' @ op @ '' a '' @ t @ '' value'')))"

definition isstrnum :: "TValue \<Rightarrow> bool" where
  "isstrnum v \<longleftrightarrow> (case v of TString _ \<Rightarrow> True | TNumber _ \<Rightarrow> True | _ \<Rightarrow> False)"

definition gafqG_concaterror :: "vmenv \<Rightarrow> TValue \<Rightarrow> TValue \<Rightarrow> 'a res" where
  "gafqG_concaterror env p1 p2 = gafqG_typeerror env (if isstrnum p1 then p2 else p1) ''concatenate''"

definition gafqG_aritherror :: "vmenv \<Rightarrow> TValue \<Rightarrow> TValue \<Rightarrow> 'a res" where
  "gafqG_aritherror env p1 p2 =
     gafqG_typeerror env (if gafqV_tonumber env p1 = None then p1 else p2) ''perform arithmetic on''"

definition gafqG_ordererror :: "TValue \<Rightarrow> TValue \<Rightarrow> 'a res" where
  "gafqG_ordererror p1 p2 =
     (let t1 = gafqT_typenames ! ttype p1; t2 = gafqT_typenames ! ttype p2
      in if t1 ! 2 = t2 ! 2 then Inl (RunError (''attempt to compare two '' @ t1 @ '' values''))
         else Inl (RunError (''attempt to compare '' @ t1 @ '' with '' @ t2)))"

subsection \<open>Calls of tag methods\<close>

definition callTMres :: "vmenv \<Rightarrow> TValue \<Rightarrow> TValue \<Rightarrow> TValue \<Rightarrow> vmstate \<Rightarrow> (TValue \<times> vmstate) res" where
  "callTMres env f p1 p2 s = call_fun env f [p1, p2] s"

definition callTM :: "vmenv \<Rightarrow> TValue \<Rightarrow> TValue \<Rightarrow> TValue \<Rightarrow> TValue \<Rightarrow> vmstate \<Rightarrow> vmstate res" where
  "callTM env f p1 p2 p3 s = rbind (call_fun env f [p1, p2, p3] s) (\<lambda>(r, s'). Inr s')"

definition ttisfunction :: "TValue \<Rightarrow> bool" where
  "ttisfunction v \<longleftrightarrow> ttype v = 6"

subsection \<open>Table access\<close>

text \<open>
  The place where a tag method is looked for: \<open>Inr\<close> the method (or the next object to index), \<open>Inl\<close> the
  answer.  The first argument of the loops counts the rounds that are left.
\<close>

fun gettable_loop :: "nat \<Rightarrow> vmenv \<Rightarrow> TValue \<Rightarrow> TValue \<Rightarrow> vmstate \<Rightarrow> (TValue \<times> vmstate) res" where
  "gettable_loop 0 env t key s = Inl (RunError ''loop in gettable'')"
| "gettable_loop (Suc n) env t key s =
     (case t of
        TTable a \<Rightarrow>
          (let h = vm_tables s a; v = slotoptval h (gafqH_get h key)
           in if \<not> ttisnil v then Inr (v, s)
              else case fasttm (metatable h) TM_INDEX s of
                     (None, s') \<Rightarrow> Inr (v, s')
                   | (Some tm, s') \<Rightarrow>
                       if ttisfunction tm then callTMres env tm t key s' else gettable_loop n env tm key s')
      | _ \<Rightarrow>
          (let tm = gafqT_gettmbyobj s t TM_INDEX
           in if ttisnil tm then gafqG_typeerror env t ''index''
              else if ttisfunction tm then callTMres env tm t key s else gettable_loop n env tm key s))"

definition gafqV_gettable :: "vmenv \<Rightarrow> TValue \<Rightarrow> TValue \<Rightarrow> vmstate \<Rightarrow> (TValue \<times> vmstate) res" where
  "gafqV_gettable env t key s = gettable_loop MAXTAGLOOP env t key s"

fun settable_loop :: "nat \<Rightarrow> vmenv \<Rightarrow> TValue \<Rightarrow> TValue \<Rightarrow> TValue \<Rightarrow> vmstate \<Rightarrow> vmstate res" where
  "settable_loop 0 env t key v s = Inl (RunError ''loop in settable'')"
| "settable_loop (Suc n) env t key v s =
     (case t of
        TTable a \<Rightarrow>
          (case gafqH_set (vm_tables s a) key of
             Inl e \<Rightarrow> Inl e
           | Inr (h, oldval) \<Rightarrow>
               (let s1 = s\<lparr>vm_tables := (vm_tables s)(a := h)\<rparr>;
                    store = (\<lambda>s. s\<lparr>vm_tables := (vm_tables s)(a := (setslot (vm_tables s a) oldval v)\<lparr>flags := 0\<rparr>)\<rparr>)
                in if \<not> ttisnil (slotval h oldval) then Inr (store s1)
                   else case fasttm (metatable h) TM_NEWINDEX s1 of
                          (None, s2) \<Rightarrow> Inr (store s2)
                        | (Some tm, s2) \<Rightarrow>
                            if ttisfunction tm then callTM env tm t key v s2 else settable_loop n env tm key v s2))
      | _ \<Rightarrow>
          (let tm = gafqT_gettmbyobj s t TM_NEWINDEX
           in if ttisnil tm then gafqG_typeerror env t ''index''
              else if ttisfunction tm then callTM env tm t key v s else settable_loop n env tm key v s))"

definition gafqV_settable :: "vmenv \<Rightarrow> TValue \<Rightarrow> TValue \<Rightarrow> TValue \<Rightarrow> vmstate \<Rightarrow> vmstate res" where
  "gafqV_settable env t key v s = settable_loop MAXTAGLOOP env t key v s"

subsection \<open>Tag methods of operators\<close>

text \<open>\<open>call_binTM\<close> returns no value when neither operand has a method.\<close>

definition call_binTM :: "vmenv \<Rightarrow> TValue \<Rightarrow> TValue \<Rightarrow> TMS \<Rightarrow> vmstate \<Rightarrow> (TValue \<times> vmstate) option res" where
  "call_binTM env p1 p2 event s =
     (let tm1 = gafqT_gettmbyobj s p1 event;
          tm = (if ttisnil tm1 then gafqT_gettmbyobj s p2 event else tm1)
      in if ttisnil tm then Inr None
         else rbind (callTMres env tm p1 p2 s) (\<lambda>r. Inr (Some r)))"

definition get_compTM :: "addr option \<Rightarrow> addr option \<Rightarrow> TMS \<Rightarrow> vmstate \<Rightarrow> TValue option \<times> vmstate" where
  "get_compTM mt1 mt2 event s =
     (case fasttm mt1 event s of
        (None, s1) \<Rightarrow> (None, s1)
      | (Some tm1, s1) \<Rightarrow>
          if mt1 = mt2 then (Some tm1, s1)
          else case fasttm mt2 event s1 of
                 (None, s2) \<Rightarrow> (None, s2)
               | (Some tm2, s2) \<Rightarrow> (if gafqO_rawequalObj tm1 tm2 then Some tm1 else None, s2))"

definition call_orderTM :: "vmenv \<Rightarrow> TValue \<Rightarrow> TValue \<Rightarrow> TMS \<Rightarrow> vmstate \<Rightarrow> (bool \<times> vmstate) option res" where
  "call_orderTM env p1 p2 event s =
     (let tm1 = gafqT_gettmbyobj s p1 event
      in if ttisnil tm1 then Inr None
         else let tm2 = gafqT_gettmbyobj s p2 event
              in if \<not> gafqO_rawequalObj tm1 tm2 then Inr None
                 else rbind (callTMres env tm1 p1 p2 s) (\<lambda>(r, s'). Inr (Some (\<not> l_isfalse r, s'))))"

subsection \<open>Comparison\<close>

text \<open>\<open>strcoll\<close> in the C locale: the sign of the first difference, as unsigned characters.\<close>

fun strcoll :: "string \<Rightarrow> string \<Rightarrow> int" where
  "strcoll [] [] = 0"
| "strcoll [] (d # ds) = -1"
| "strcoll (c # cs) [] = 1"
| "strcoll (c # cs) (d # ds) =
     (if c = d then strcoll cs ds else if (of_char c :: nat) < of_char d then -1 else 1)"

lemma length_cstr: "length (cstr s) \<le> length s"
  by (simp add: cstr_def length_takeWhile_le)

function l_strcmp :: "string \<Rightarrow> string \<Rightarrow> int" where
  "l_strcmp l r =
     (let temp = strcoll (cstr l) (cstr r)
      in if temp \<noteq> 0 then temp
         else let len = length (cstr l)
              in if len = length r then (if len = length l then 0 else 1)
                 else if len = length l then -1
                 else l_strcmp (drop (len + 1) l) (drop (len + 1) r))"
  by pat_completeness auto
termination
  by (relation "measure (\<lambda>(l, r). length l)") (auto simp: cstr_def intro!: diff_less)

declare l_strcmp.simps [simp del]

definition gafqV_lessthan :: "vmenv \<Rightarrow> TValue \<Rightarrow> TValue \<Rightarrow> vmstate \<Rightarrow> (bool \<times> vmstate) res" where
  "gafqV_lessthan env l r s =
     (if ttype l \<noteq> ttype r then gafqG_ordererror l r
      else case (l, r) of
             (TNumber a, TNumber b) \<Rightarrow> Inr (gafqi_numlt a b, s)
           | (TString a, TString b) \<Rightarrow> Inr (l_strcmp a b < 0, s)
           | _ \<Rightarrow> rbind (call_orderTM env l r TM_LT s)
                    (\<lambda>res. case res of Some r \<Rightarrow> Inr r | None \<Rightarrow> gafqG_ordererror l r))"

definition lessequal :: "vmenv \<Rightarrow> TValue \<Rightarrow> TValue \<Rightarrow> vmstate \<Rightarrow> (bool \<times> vmstate) res" where
  "lessequal env l r s =
     (if ttype l \<noteq> ttype r then gafqG_ordererror l r
      else case (l, r) of
             (TNumber a, TNumber b) \<Rightarrow> Inr (gafqi_numle a b, s)
           | (TString a, TString b) \<Rightarrow> Inr (l_strcmp a b \<le> 0, s)
           | _ \<Rightarrow> rbind (call_orderTM env l r TM_LE s) (\<lambda>res.
                    case res of
                      Some r \<Rightarrow> Inr r
                    | None \<Rightarrow>
                        rbind (call_orderTM env r l TM_LT s) (\<lambda>res.
                          case res of
                            Some (b, s') \<Rightarrow> Inr (\<not> b, s')
                          | None \<Rightarrow> gafqG_ordererror l r)))"

text \<open>\<open>gafqV_equalval\<close> is called on two values of one type.\<close>

definition equal_tm :: "vmenv \<Rightarrow> addr option \<Rightarrow> addr option \<Rightarrow> TValue \<Rightarrow> TValue \<Rightarrow> vmstate \<Rightarrow> (bool \<times> vmstate) res" where
  "equal_tm env mt1 mt2 t1 t2 s =
     (case get_compTM mt1 mt2 TM_EQ s of
        (None, s') \<Rightarrow> Inr (False, s')
      | (Some tm, s') \<Rightarrow> rbind (callTMres env tm t1 t2 s') (\<lambda>(r, s''). Inr (\<not> l_isfalse r, s'')))"

definition gafqV_equalval :: "vmenv \<Rightarrow> TValue \<Rightarrow> TValue \<Rightarrow> vmstate \<Rightarrow> (bool \<times> vmstate) res" where
  "gafqV_equalval env t1 t2 s =
     (case (t1, t2) of
        (TNumber a, TNumber b) \<Rightarrow> Inr (gafqi_numeq a b, s)
      | (TUserdata a, TUserdata b) \<Rightarrow>
          if a = b then Inr (True, s) else equal_tm env (vm_umeta s a) (vm_umeta s b) t1 t2 s
      | (TTable a, TTable b) \<Rightarrow>
          if a = b then Inr (True, s)
          else equal_tm env (metatable (vm_tables s a)) (metatable (vm_tables s b)) t1 t2 s
      | _ \<Rightarrow> Inr (t1 = t2, s))"

subsection \<open>Concatenation\<close>

text \<open>
  The operands of \<open>gafqV_concat\<close> as a list from the top of the stack down.  \<open>concat_collect\<close> is the loop that
  collects the total length: the operands it takes, converted, and those it leaves.
\<close>

fun concat_collect :: "vmenv \<Rightarrow> nat \<Rightarrow> TValue list \<Rightarrow> string list \<Rightarrow> (string list \<times> TValue list) res" where
  "concat_collect env sz [] acc = Inr (acc, [])"
| "concat_collect env sz (v # vs) acc =
     (case tostring env v of
        Some (TString x) \<Rightarrow>
          if length x \<ge> MAX_SIZET - sz then Inl (RunError ''string length overflow'')
          else concat_collect env (sz + length x) vs (x # acc)
      | _ \<Rightarrow> Inr (acc, v # vs))"

lemma concat_collect_length: "concat_collect env sz vs acc = Inr (acc', vs') \<Longrightarrow> length vs' \<le> length vs"
  by (induction env sz vs acc rule: concat_collect.induct) (auto split: option.splits TValue.splits if_splits)

text \<open>One pass: the operand that replaces the first ones, and the rest.\<close>

definition concat_pass :: "vmenv \<Rightarrow> TValue \<Rightarrow> TValue \<Rightarrow> TValue list \<Rightarrow> vmstate \<Rightarrow> (TValue \<times> TValue list \<times> vmstate) res" where
  "concat_pass env top1 top2 vs s =
     (case (if isstrnum top2 then tostring env top1 else None) of
        Some (TString x) \<Rightarrow>
          if x = [] then
            (case tostring env top2 of Some v \<Rightarrow> Inr (v, vs, s) | None \<Rightarrow> Inr (top2, vs, s))
          else
            rbind (case tostring env top2 of
                     Some (TString y) \<Rightarrow>
                       if length y \<ge> MAX_SIZET - length x then Inl (RunError ''string length overflow'')
                       else concat_collect env (length x + length y) vs [y, x]
                   | _ \<Rightarrow> Inr ([x], top2 # vs))
              (\<lambda>(xs, rest). Inr (TString (concat xs), rest, s))
      | _ \<Rightarrow>
          rbind (call_binTM env top2 top1 TM_CONCAT s) (\<lambda>res.
            case res of
              Some (r, s') \<Rightarrow> Inr (r, vs, s')
            | None \<Rightarrow> gafqG_concaterror env top2 top1))"

text \<open>The loop: one pass uses at least two operands, so as many passes as operands are enough.\<close>

fun concat_loop :: "nat \<Rightarrow> vmenv \<Rightarrow> TValue list \<Rightarrow> vmstate \<Rightarrow> (TValue \<times> vmstate) res" where
  "concat_loop n env [] s = Inl (Undefined ''no operand'')"
| "concat_loop n env [v] s = Inr (v, s)"
| "concat_loop 0 env (v # w # vs) s = Inl OutOfFuel"
| "concat_loop (Suc n) env (v # w # vs) s =
     rbind (concat_pass env v w vs s) (\<lambda>(r, rest, s'). concat_loop n env (r # rest) s')"

definition gafqV_concat :: "vmenv \<Rightarrow> TValue list \<Rightarrow> vmstate \<Rightarrow> (TValue \<times> vmstate) res" where
  "gafqV_concat env operands s = concat_loop (length operands) env (rev operands) s"

subsection \<open>Arithmetic\<close>

definition arith_num :: "vmenv \<Rightarrow> TMS \<Rightarrow> gafq_Number \<Rightarrow> gafq_Number \<Rightarrow> gafq_Number option" where
  "arith_num env op nb nc =
     (case op of
        TM_ADD \<Rightarrow> Some (gafqi_numadd nb nc)
      | TM_SUB \<Rightarrow> Some (gafqi_numsub nb nc)
      | TM_MUL \<Rightarrow> Some (gafqi_nummul nb nc)
      | TM_DIV \<Rightarrow> Some (gafqi_numdiv nb nc)
      | TM_MOD \<Rightarrow> Some (gafqi_nummod nb nc)
      | TM_POW \<Rightarrow> Some (numpow env nb nc)
      | TM_UNM \<Rightarrow> Some (gafqi_numunm nb)
      | _ \<Rightarrow> None)"

definition Arith :: "vmenv \<Rightarrow> TValue \<Rightarrow> TValue \<Rightarrow> TMS \<Rightarrow> vmstate \<Rightarrow> (TValue \<times> vmstate) res" where
  "Arith env rb rc op s =
     (case (gafqV_tonumber env rb, gafqV_tonumber env rc) of
        (Some nb, Some nc) \<Rightarrow>
          (case arith_num env op nb nc of
             Some x \<Rightarrow> Inr (TNumber x, s)
           | None \<Rightarrow> Inl (Undefined ''not an arithmetic event''))
      | _ \<Rightarrow>
          rbind (call_binTM env rb rc op s) (\<lambda>res.
            case res of
              Some r \<Rightarrow> Inr r
            | None \<Rightarrow> gafqG_aritherror env rb rc))"

end
