(* ===== verification/Tablib.thy ===== *)
theory Tablib
  imports Vm Ctype
begin

text \<open>
  The table library (\<open>gtablib.c\<close>) on the store of the virtual machine: the table a function works on is the one at
  an address \<open>a\<close>, read and written by \<open>gafq_rawgeti\<close> and \<open>gafq_rawseti\<close>.  The calls the library makes (the
  iteration function, the comparison function, the tag methods of \<open><\<close>) are those of the virtual machine: they return a value
  or raise an error, and change the store, the table too, as they like.  The functions are modelled from the point where their arguments have
  been fetched and their types checked.  The table is known by the length the code measures, \<open>aux_getn\<close>.
\<close>

subsection \<open>Access to the elements\<close>

definition gafq_rawgeti :: "Table \<Rightarrow> int \<Rightarrow> TValue" where
  "gafq_rawgeti t n = slotoptval t (gafqH_getnum t n)"

definition gafq_rawseti :: "Table \<Rightarrow> int \<Rightarrow> TValue \<Rightarrow> Table res" where
  "gafq_rawseti t n v = rbind (gafqH_setnum t n) (\<lambda>(t', s). Inr (setslot t' s v))"

abbreviation geti :: "addr \<Rightarrow> vmstate \<Rightarrow> int \<Rightarrow> TValue" where
  "geti a s n \<equiv> gafq_rawgeti (vm_tables s a) n"

definition seti :: "addr \<Rightarrow> vmstate \<Rightarrow> int \<Rightarrow> TValue \<Rightarrow> vmstate res" where
  "seti a s n v = rbind (gafq_rawseti (vm_tables s a) n v) (\<lambda>t. Inr (s\<lparr>vm_tables := (vm_tables s)(a := t)\<rparr>))"

text \<open>\<open>aux_getn\<close>: the length as an \<open>int\<close>; the search for a border always returns (\<open>gafqH_getn\<close>).\<close>

definition aux_getn :: "Table \<Rightarrow> int res" where
  "aux_getn t = (case gafqH_getn t of None \<Rightarrow> Inl OutOfFuel | Some n \<Rightarrow> Inr (int n))"

subsection \<open>Iteration\<close>

function foreachi_loop :: "vmenv \<Rightarrow> TValue \<Rightarrow> addr \<Rightarrow> int \<Rightarrow> int \<Rightarrow> vmstate \<Rightarrow> (TValue list \<times> vmstate) res" where
  "foreachi_loop env f a i n s =
     (if i \<le> n
      then rbind (call_fun env f [TNumber (cast_num i), geti a s i] s)
             (\<lambda>(r, s'). if \<not> ttisnil r then Inr ([r], s') else foreachi_loop env f a (i + 1) n s')
      else Inr ([], s))"
  by pat_completeness auto
termination by (relation "measure (\<lambda>(env, f, a, i, n, s). nat (n + 1 - i))") auto

definition foreachi :: "vmenv \<Rightarrow> TValue \<Rightarrow> addr \<Rightarrow> vmstate \<Rightarrow> (TValue list \<times> vmstate) res" where
  "foreachi env f a s = rbind (aux_getn (vm_tables s a)) (\<lambda>n. foreachi_loop env f a 1 n s)"

text \<open>
  \<open>foreach\<close> and \<open>maxn\<close> walk a table with \<open>gafq_next\<close>; \<open>same\<close> compares the address of a retired key with that of a key.  A callback of
  \<open>foreach\<close> may keep the walk going, so that its rounds are bounded by fuel; \<open>maxn\<close> has as many rounds as the table has slots.
\<close>

fun foreach_loop ::
  "nat \<Rightarrow> (TValue \<Rightarrow> TValue \<Rightarrow> bool) \<Rightarrow> vmenv \<Rightarrow> TValue \<Rightarrow> addr \<Rightarrow> TValue \<Rightarrow> vmstate \<Rightarrow> (TValue list \<times> vmstate) res" where
  "foreach_loop 0 same env f a key s = Inl OutOfFuel"
| "foreach_loop (Suc n) same env f a key s =
     rbind (gafqH_next same (vm_tables s a) key) (\<lambda>kv. case kv of
        None \<Rightarrow> Inr ([], s)
      | Some (k, v) \<Rightarrow>
          rbind (call_fun env f [k, v] s)
            (\<lambda>(r, s'). if \<not> ttisnil r then Inr ([r], s') else foreach_loop n same env f a k s'))"

definition foreach where
  "foreach fuel same env f a s = foreach_loop fuel same env f a TNil s"

fun maxn_step :: "TValue \<Rightarrow> gafq_Number \<Rightarrow> gafq_Number" where
  "maxn_step (TNumber v) mx = (if gafqi_numlt mx v then v else mx)"
| "maxn_step k mx = mx"

fun maxn_loop :: "nat \<Rightarrow> (TValue \<Rightarrow> TValue \<Rightarrow> bool) \<Rightarrow> Table \<Rightarrow> TValue \<Rightarrow> gafq_Number \<Rightarrow> gafq_Number res" where
  "maxn_loop 0 same t key mx = Inl OutOfFuel"
| "maxn_loop (Suc n) same t key mx =
     (case gafqH_next same t key of
        Inl e \<Rightarrow> Inl e
      | Inr None \<Rightarrow> Inr mx
      | Inr (Some (k, v)) \<Rightarrow> maxn_loop n same t k (maxn_step k mx))"

definition maxn :: "(TValue \<Rightarrow> TValue \<Rightarrow> bool) \<Rightarrow> Table \<Rightarrow> gafq_Number res" where
  "maxn same t = maxn_loop (Suc (nslots t)) same t TNil (cast_num 0)"

definition getn :: "Table \<Rightarrow> int res" where
  "getn t = aux_getn t"

definition setn :: "'a res" where
  "setn = Inl (RunError (CHR 0x27 # ''setn'' @ [CHR 0x27] @ '' is obsolete''))"

subsection \<open>Insertion and removal\<close>

function move_up :: "Table \<Rightarrow> int \<Rightarrow> int \<Rightarrow> Table res" where
  "move_up t i pos =
     (if i > pos then rbind (gafq_rawseti t i (gafq_rawgeti t (i - 1))) (\<lambda>t'. move_up t' (i - 1) pos) else Inr t)"
  by pat_completeness auto
termination by (relation "measure (\<lambda>(t, i, pos). nat (i - pos))") auto

function move_down :: "Table \<Rightarrow> int \<Rightarrow> int \<Rightarrow> Table res" where
  "move_down t pos e =
     (if pos < e then rbind (gafq_rawseti t pos (gafq_rawgeti t (pos + 1))) (\<lambda>t'. move_down t' (pos + 1) e) else Inr t)"
  by pat_completeness auto
termination by (relation "measure (\<lambda>(t, pos, e). nat (e - pos))") auto

declare move_up.simps [simp del] move_down.simps [simp del] foreachi_loop.simps [simp del]

text \<open>
  The arguments after the table: a value, or a position (an \<open>int\<close>, as \<open>gafqL_checkint\<close> gave it) and a value.  The addition
  of one to the length is on \<open>int\<close>.
\<close>

datatype insert_args = InsertValue TValue | InsertAt int TValue | InsertOther

definition tinsert :: "Table \<Rightarrow> insert_args \<Rightarrow> Table res" where
  "tinsert t args =
     rbind (aux_getn t) (\<lambda>n.
       if 2 ^ 31 \<le> n + 1 then Inl (Undefined ''signed overflow'')
       else let e = n + 1 in
         case args of
           InsertValue v \<Rightarrow> gafq_rawseti t e v
         | InsertAt pos v \<Rightarrow>
             let e = (if pos > e then pos else e) in rbind (move_up t e pos) (\<lambda>t'. gafq_rawseti t' pos v)
         | InsertOther \<Rightarrow> Inl (RunError (''wrong number of arguments to '' @ CHR 0x27 # ''insert'' @ [CHR 0x27])))"

definition tremove :: "Table \<Rightarrow> int option \<Rightarrow> (Table \<times> TValue option) res" where
  "tremove t arg =
     rbind (aux_getn t) (\<lambda>e.
       let pos = (case arg of None \<Rightarrow> e | Some p \<Rightarrow> p) in
       if \<not> (1 \<le> pos \<and> pos \<le> e) then Inr (t, None)
       else let result = gafq_rawgeti t pos in
         rbind (move_down t pos e) (\<lambda>t'. rbind (gafq_rawseti t' e TNil) (\<lambda>t''. Inr (t'', Some result))))"

subsection \<open>Concatenation\<close>

definition int_dec :: "int \<Rightarrow> string" where
  "int_dec i = (if i < 0 then ''-'' @ digits (nat (- i)) else digits (nat i))"

text \<open>\<open>num2str\<close> is the conversion of a number to a string, by \<open>sprintf\<close> of the C library.\<close>

definition addfield :: "(gafq_Number \<Rightarrow> string) \<Rightarrow> Table \<Rightarrow> string \<Rightarrow> int \<Rightarrow> string res" where
  "addfield num2str t b i =
     (case gafq_rawgeti t i of
        TString s \<Rightarrow> Inr (b @ s)
      | TNumber x \<Rightarrow> Inr (b @ num2str x)
      | v \<Rightarrow> Inl (RunError (''invalid value ('' @ gafqT_typenames ! ttype v @ '') at index '' @ int_dec i @
               '' in table for '' @ CHR 0x27 # ''concat'' @ [CHR 0x27])))"

function tconcat_loop :: "(gafq_Number \<Rightarrow> string) \<Rightarrow> Table \<Rightarrow> string \<Rightarrow> int \<Rightarrow> int \<Rightarrow> string \<Rightarrow> string res" where
  "tconcat_loop num2str t sep i lst b =
     (if i < lst
      then (case addfield num2str t b i of
              Inl e \<Rightarrow> Inl e
            | Inr b' \<Rightarrow> tconcat_loop num2str t sep (i + 1) lst (b' @ sep))
      else if i = lst then addfield num2str t b i
      else Inr b)"
  by pat_completeness auto
termination by (relation "measure (\<lambda>(num2str, t, sep, i, lst, b). nat (lst - i))") auto

declare tconcat_loop.simps [simp del]

definition tconcat :: "(gafq_Number \<Rightarrow> string) \<Rightarrow> Table \<Rightarrow> string option \<Rightarrow> int option \<Rightarrow> int option \<Rightarrow> string res" where
  "tconcat num2str t sep i lst =
     rbind (case lst of None \<Rightarrow> aux_getn t | Some x \<Rightarrow> Inr x) (\<lambda>n.
       tconcat_loop num2str t (case sep of None \<Rightarrow> [] | Some s \<Rightarrow> s) (case i of None \<Rightarrow> 1 | Some x \<Rightarrow> x) n [])"

subsection \<open>Quicksort\<close>

text \<open>\<open>set2\<close> pops the two values on the stack: the upper one goes to \<open>i\<close>, the lower one to \<open>j\<close>.\<close>

definition set2 :: "addr \<Rightarrow> vmstate \<Rightarrow> int \<Rightarrow> int \<Rightarrow> TValue \<Rightarrow> TValue \<Rightarrow> vmstate res" where
  "set2 a s i j lower upper = rbind (seti a s i upper) (\<lambda>s'. seti a s' j lower)"

text \<open>\<open>func\<close> is the second argument of \<open>sort\<close>, a function or nil.\<close>

definition sort_comp :: "vmenv \<Rightarrow> TValue \<Rightarrow> TValue \<Rightarrow> TValue \<Rightarrow> vmstate \<Rightarrow> (bool \<times> vmstate) res" where
  "sort_comp env func x y s =
     (if \<not> ttisnil func then rbind (call_fun env func [x, y] s) (\<lambda>(r, s'). Inr (\<not> l_isfalse r, s'))
      else gafqV_lessthan env x y s)"

abbreviation "invalid_order \<equiv> RunError ''invalid order function for sorting''"

text \<open>The two inner loops return the store, the index and the element there, which stays on the stack.\<close>

function scan_up :: "vmenv \<Rightarrow> TValue \<Rightarrow> addr \<Rightarrow> TValue \<Rightarrow> int \<Rightarrow> int \<Rightarrow> vmstate \<Rightarrow> (vmstate \<times> int \<times> TValue) res" where
  "scan_up env func a p u i s =
     (let x = geti a s (i + 1) in
      rbind (sort_comp env func x p s) (\<lambda>(islt, s').
        if islt then if i + 1 > u then Inl invalid_order else scan_up env func a p u (i + 1) s'
        else Inr (s', i + 1, x)))"
  by pat_completeness auto
termination by (relation "measure (\<lambda>(env, func, a, p, u, i, s). nat (u + 1 - i))") auto

function scan_down :: "vmenv \<Rightarrow> TValue \<Rightarrow> addr \<Rightarrow> TValue \<Rightarrow> int \<Rightarrow> int \<Rightarrow> vmstate \<Rightarrow> (vmstate \<times> int \<times> TValue) res" where
  "scan_down env func a p l j s =
     (let x = geti a s (j - 1) in
      rbind (sort_comp env func p x s) (\<lambda>(islt, s').
        if islt then if j - 1 < l then Inl invalid_order else scan_down env func a p l (j - 1) s'
        else Inr (s', j - 1, x)))"
  by pat_completeness auto
termination by (relation "measure (\<lambda>(env, func, a, p, l, j, s). nat (j + 1 - l))") auto

declare scan_up.simps [simp del] scan_down.simps [simp del]

lemma scan_up_moves: "scan_up env func a p u i s = Inr (s', i', x) \<Longrightarrow> i < i'"
  by (induction env func a p u i s rule: scan_up.induct)
    (subst (asm) (2) scan_up.simps, force simp: res_simps Let_def split: if_splits)

lemma scan_down_moves: "scan_down env func a p l j s = Inr (s', j', x) \<Longrightarrow> j' < j"
  by (induction env func a p l j s rule: scan_down.induct)
    (subst (asm) (2) scan_down.simps, force simp: res_simps Let_def split: if_splits)

function partition_loop ::
  "vmenv \<Rightarrow> TValue \<Rightarrow> addr \<Rightarrow> TValue \<Rightarrow> int \<Rightarrow> int \<Rightarrow> int \<Rightarrow> int \<Rightarrow> vmstate \<Rightarrow> (vmstate \<times> int) res" where
  "partition_loop env func a p l u i j s =
     (case scan_up env func a p u i s of
        Inl e \<Rightarrow> Inl e
      | Inr (s1, i', x) \<Rightarrow>
          (case scan_down env func a p l j s1 of
             Inl e \<Rightarrow> Inl e
           | Inr (s2, j', y) \<Rightarrow>
               if j' < i' then Inr (s2, i')
               else rbind (set2 a s2 i' j' x y) (partition_loop env func a p l u i' j')))"
  by pat_completeness auto
termination
  by (relation "measure (\<lambda>(env, func, a, p, l, u, i, j, s). nat (j - i))") (auto dest!: scan_up_moves scan_down_moves)

declare partition_loop.simps [simp del]

text \<open>The first comparisons of a round: the two ends, then the middle against both.\<close>

definition order_ends :: "vmenv \<Rightarrow> TValue \<Rightarrow> addr \<Rightarrow> int \<Rightarrow> int \<Rightarrow> vmstate \<Rightarrow> vmstate res" where
  "order_ends env func a l u s =
     (let x = geti a s l; y = geti a s u in
      rbind (sort_comp env func y x s) (\<lambda>(islt, s'). if islt then set2 a s' l u x y else Inr s'))"

definition order_middle :: "vmenv \<Rightarrow> TValue \<Rightarrow> addr \<Rightarrow> int \<Rightarrow> int \<Rightarrow> int \<Rightarrow> vmstate \<Rightarrow> vmstate res" where
  "order_middle env func a l i u s =
     (let x = geti a s i; y = geti a s l in
      rbind (sort_comp env func x y s) (\<lambda>(islt, s').
        if islt then set2 a s' i l x y
        else let z = geti a s' u in
          rbind (sort_comp env func z x s') (\<lambda>(islt, s''). if islt then set2 a s'' i u x z else Inr s'')))"

definition swap_elems :: "addr \<Rightarrow> int \<Rightarrow> int \<Rightarrow> vmstate \<Rightarrow> vmstate res" where
  "swap_elems a i j s = set2 a s i j (geti a s i) (geti a s j)"

text \<open>
  \<open>auxsort\<close>: \<open>n\<close> bounds the rounds of the loop together with those of the nested calls, \<open>d\<close> the nesting of the
  calls; with an order that is none, the loop of the code need not end.  The middle \<open>(l + u) / 2\<close> is computed on \<open>int\<close>.
\<close>

fun auxsort :: "vmenv \<Rightarrow> TValue \<Rightarrow> addr \<Rightarrow> nat \<Rightarrow> nat \<Rightarrow> int \<Rightarrow> int \<Rightarrow> vmstate \<Rightarrow> vmstate res" where
  "auxsort env func a d 0 l u s = (if l < u then Inl OutOfFuel else Inr s)"
| "auxsort env func a d (Suc n) l u s =
     (if \<not> l < u then Inr s
      else rbind (order_ends env func a l u s) (\<lambda>s.
        if u - l = 1 then Inr s
        else if 2 ^ 31 \<le> l + u then Inl (Undefined ''signed overflow'')
        else let i = (l + u) div 2 in
          rbind (order_middle env func a l i u s) (\<lambda>s.
            if u - l = 2 then Inr s
            else let p = geti a s i in
              rbind (swap_elems a i (u - 1) s) (\<lambda>s.
                rbind (partition_loop env func a p l u l (u - 1) s) (\<lambda>(s, i).
                  rbind (swap_elems a (u - 1) i s) (\<lambda>s.
                    if d = 0 then Inl OutOfFuel
                    else if i - l < u - i
                    then rbind (auxsort env func a (d - 1) n l (i - 1) s) (auxsort env func a d n (i + 1) u)
                    else rbind (auxsort env func a (d - 1) n (i + 1) u s) (auxsort env func a d n l (i - 1))))))))"

text \<open>The room on the stack that \<open>sort\<close> asks for is its bound on the nesting.\<close>

definition sort_table :: "nat \<Rightarrow> vmenv \<Rightarrow> TValue \<Rightarrow> addr \<Rightarrow> vmstate \<Rightarrow> vmstate res" where
  "sort_table fuel env func a s = rbind (aux_getn (vm_tables s a)) (\<lambda>n. auxsort env func a 40 fuel 1 n s)"

end
