(* ===== verification/Tablib_View.thy ===== *)
theory Tablib_View
  imports Tablib
begin

text \<open>
  The elements of a table as the table library sees them: the function from \<open>int\<close> to values that \<open>gafq_rawgeti\<close> reads.
  \<open>gafq_rawseti\<close> is an update of it and touches no other key, and it cannot fail on an element that is present.
\<close>

abbreviation ints :: "int set" where
  "ints \<equiv> {- (2 ^ 31)..<2 ^ 31}"

definition tview :: "Table \<Rightarrow> int \<Rightarrow> TValue" where
  "tview t i = (if i \<in> ints then gafq_rawgeti t i else TNil)"

definition same_rest :: "Table \<Rightarrow> Table \<Rightarrow> bool" where
  "same_rest t t' \<longleftrightarrow> metatable t' = metatable t \<and>
     (\<forall>k. proper k \<and> (\<forall>i\<in>ints. \<not> gafqO_rawequalObj (TNumber (cast_num i)) k) \<longrightarrow> tget t' k = tget t k)"

lemma same_rest_refl [simp]: "same_rest t t"
  by (simp add: same_rest_def)

lemma same_rest_trans: "same_rest t t' \<Longrightarrow> same_rest t' t'' \<Longrightarrow> same_rest t t''"
  by (simp add: same_rest_def)

lemma ints_proper: "i \<in> ints \<Longrightarrow> proper (TNumber (cast_num i))"
  by (rule proper_num) auto

lemma rawgeti_tget:
  assumes "table_inv t" "i \<in> ints" shows "gafq_rawgeti t i = tget t (TNumber (cast_num i))"
proof -
  have i: "- (2 ^ 31) \<le> i" "i < 2 ^ 31" using assms(2) by auto
  show ?thesis using get_eq [OF assms(1), of "TNumber (cast_num i)"] getnum_eq [OF assms(1) i] in_array_cast_num [OF i] arrayindex_cast_num [OF i]
    by (simp add: gafq_rawgeti_def tget_def)
qed

lemma same_view_tget:
  assumes "table_inv t" "table_inv t'" "tview t' = tview t" "same_rest t t'" "proper k"
  shows "tget t' k = tget t k"
proof (cases "\<exists>i\<in>ints. gafqO_rawequalObj (TNumber (cast_num i)) k")
  case True
  then obtain i where i: "i \<in> ints" "gafqO_rawequalObj (TNumber (cast_num i)) k" by blast
  have "tget t0 k = tget t0 (TNumber (cast_num i))" if "table_inv t0" for t0
    using tget_raw_fun [OF that] i(2) unfolding raw_fun_def by metis
  moreover have "gafq_rawgeti t' i = gafq_rawgeti t i" using fun_cong [OF assms(3), of i] i(1) by (simp add: tview_def)
  ultimately show ?thesis using rawgeti_tget [OF assms(1) i(1)] rawgeti_tget [OF assms(2) i(1)] assms(1,2) by simp
qed (use assms(4,5) in \<open>auto simp: same_rest_def\<close>)

text \<open>What a store through the place of the key does.\<close>

lemma stored_view:
  assumes "stored t (TNumber (cast_num i)) t' s" "table_inv t" "i \<in> ints"
  shows "table_inv (setslot t' s v)" "tview (setslot t' s v) = (tview t)(i := v)" "same_rest t (setslot t' s v)"
proof -
  note st = store_step [OF assms(1) ints_proper [OF assms(3)], where v = v]
  show inv: "table_inv (setslot t' s v)" by (rule st(1))
  have "tview (setslot t' s v) j = ((tview t)(i := v)) j" for j
  proof (cases "j \<in> ints")
    case True
    have "\<bar>i\<bar> < 2 ^ 53" "\<bar>j\<bar> < 2 ^ 53" using True assms(3) by auto
    then show ?thesis using True st(2) [OF ints_proper [OF True]] rawgeti_tget [OF inv True] rawgeti_tget [OF assms(2) True] cast_num_eq_iff [of i j]
      by (simp add: tview_def)
  qed (use assms(3) in \<open>auto simp: tview_def\<close>)
  then show "tview (setslot t' s v) = (tview t)(i := v)" by (rule ext)
  show "same_rest t (setslot t' s v)" unfolding same_rest_def
  proof (intro conjI allI impI)
    show "metatable (setslot t' s v) = metatable t" by (rule st(3))
    fix k assume "proper k \<and> (\<forall>i\<in>ints. \<not> gafqO_rawequalObj (TNumber (cast_num i)) k)"
    then show "tget (setslot t' s v) k = tget t k" using st(2) [of k] assms(3) by auto
  qed
qed

lemma rawseti_view:
  assumes "table_inv t" "i \<in> ints"
  shows "overflow_or (gafq_rawseti t i v) (\<lambda>t'. table_inv t' \<and> tview t' = (tview t)(i := v) \<and> same_rest t t')"
proof -
  have "overflow_or (gafqH_setnum t i) (\<lambda>(t', s). stored t (TNumber (cast_num i)) t' s)"
    using gr.setnum_with_stored [OF assms(1), of i 0] assms(2) by (simp add: gafqH_setnum_def)
  then show ?thesis using stored_view [OF _ assms] by (auto simp: gafq_rawseti_def overflow_or_def)
qed

lemma rawseti_present:
  assumes "table_inv t" "i \<in> ints" "tview t i \<noteq> TNil"
  shows "\<exists>t'. gafq_rawseti t i v = Inr t' \<and> table_inv t' \<and> tview t' = (tview t)(i := v) \<and> same_rest t t'"
proof -
  have i: "- (2 ^ 31) \<le> i" "i < 2 ^ 31" using assms(2) by auto
  have "gafqH_get t (TNumber (cast_num i)) \<noteq> None"
    using assms rawgeti_tget [OF assms(1,2)] by (auto simp: tview_def tget_def slotoptval_def split: option.splits)
  then obtain t' s where "gafqH_setnum t i = Inr (t', s)" "stored t (TNumber (cast_num i)) t' s"
    using setnum_with_cases [OF assms(1) i, of "grow 1"] by (auto simp: gafqH_setnum_def stored_in_place_def)
  then show ?thesis using stored_view [OF _ assms(1,2)] by (simp add: gafq_rawseti_def)
qed

subsection \<open>Proper sequences\<close>

text \<open>The elements \<open>1 .. n\<close> are present and the positive indices above are absent: \<open>aux_getn\<close> measures \<open>n\<close>.\<close>

definition sequence :: "Table \<Rightarrow> int \<Rightarrow> bool" where
  "sequence t n \<longleftrightarrow> 0 \<le> n \<and> n < 2 ^ 31 \<and> (\<forall>i. 1 \<le> i \<and> i < 2 ^ 31 \<longrightarrow> (tview t i \<noteq> TNil \<longleftrightarrow> i \<le> n))"

lemma getn_border_view:
  assumes "table_inv t"
  shows "\<exists>n. aux_getn t = Inr n \<and> 0 \<le> n \<and> n + 1 < 2 ^ 31 \<and> (n = 0 \<or> tview t n \<noteq> TNil) \<and> tview t (n + 1) = TNil"
proof -
  obtain n where n: "gafqH_getn t = Some n" "n + 1 < 2 ^ 31" "n = 0 \<or> tget t (num n) \<noteq> TNil" "tget t (num (n + 1)) = TNil"
    using getn_border [OF assms] by blast
  have "int n \<in> ints" "int n + 1 \<in> ints" using n(2) by auto
  then have "tview t (int n) = tget t (num n)" "tview t (int n + 1) = tget t (num (n + 1))"
    using rawgeti_tget [OF assms] by (simp_all add: tview_def add.commute)
  then show ?thesis using n by (intro exI [of _ "int n"]) (auto simp: aux_getn_def)
qed

lemma sequence_getn:
  assumes "table_inv t" "sequence t n" shows "aux_getn t = Inr n" "n + 1 < 2 ^ 31"
proof -
  obtain m where m: "aux_getn t = Inr m" "0 \<le> m" "m + 1 < 2 ^ 31" "m = 0 \<or> tview t m \<noteq> TNil" "tview t (m + 1) = TNil"
    using getn_border_view [OF assms(1)] by blast
  have seq: "tview t i \<noteq> TNil \<longleftrightarrow> i \<le> n" if "1 \<le> i" "i < 2 ^ 31" for i using assms(2) that by (simp add: sequence_def)
  have "n < m + 1" using seq [of "m + 1"] m by auto
  moreover have "m \<le> n"
  proof (cases "m = 0")
    case False
    then show ?thesis using seq [of m] m by auto
  qed (use assms(2) in \<open>simp add: sequence_def\<close>)
  ultimately have "m = n" by simp
  then show "aux_getn t = Inr n" "n + 1 < 2 ^ 31" using m by simp_all
qed

subsection \<open>Moving elements\<close>

lemma move_up_view:
  "table_inv t \<Longrightarrow> i \<in> ints \<Longrightarrow> pos \<in> ints \<Longrightarrow> overflow_or (move_up t i pos) (\<lambda>t'. table_inv t' \<and> same_rest t t' \<and>
     tview t' = (\<lambda>k. if pos < k \<and> k \<le> i then tview t (k - 1) else tview t k))"
proof (induction t i pos rule: move_up.induct)
  case (1 t i pos)
  show ?case
  proof (cases "pos < i")
    case True
    have i: "i - 1 \<in> ints" using True "1.prems"(2,3) by auto
    have get: "gafq_rawgeti t (i - 1) = tview t (i - 1)" using i by (simp add: tview_def)
    have "overflow_or (move_up t' (i - 1) pos) (\<lambda>t''. table_inv t'' \<and> same_rest t t'' \<and>
        tview t'' = (\<lambda>k. if pos < k \<and> k \<le> i then tview t (k - 1) else tview t k))"
      if t': "table_inv t'" "tview t' = (tview t)(i := tview t (i - 1))" "same_rest t t'" for t'
    proof -
      have "(\<lambda>k. if pos < k \<and> k \<le> i - 1 then tview t' (k - 1) else tview t' k) = (\<lambda>k. if pos < k \<and> k \<le> i then tview t (k - 1) else tview t k)"
        unfolding t'(2) using True by (intro ext) auto
      with "1.IH" [OF True t'(1) i "1.prems"(3)] same_rest_trans [OF t'(3)] show ?thesis by (auto simp: overflow_or_def)
    qed
    then have "overflow_or (rbind (gafq_rawseti t i (tview t (i - 1))) (\<lambda>t'. move_up t' (i - 1) pos)) (\<lambda>t''. table_inv t'' \<and> same_rest t t'' \<and>
        tview t'' = (\<lambda>k. if pos < k \<and> k \<le> i then tview t (k - 1) else tview t k))"
      by (intro overflow_or_bind [OF rawseti_view [OF "1.prems"(1,2)]]) blast
    then show ?thesis using True by (subst move_up.simps) (simp add: get)
  next
    case False
    then have "(\<lambda>k. if pos < k \<and> k \<le> i then tview t (k - 1) else tview t k) = tview t" by (intro ext) auto
    then show ?thesis using False "1.prems"(1) by (subst move_up.simps) simp
  qed
qed

lemma move_down_view:
  "table_inv t \<Longrightarrow> pos \<in> ints \<Longrightarrow> e \<in> ints \<Longrightarrow> pos \<le> e \<Longrightarrow> (\<And>k. pos \<le> k \<Longrightarrow> k \<le> e \<Longrightarrow> tview t k \<noteq> TNil) \<Longrightarrow>
   \<exists>t'. move_down t pos e = Inr t' \<and> table_inv t' \<and> same_rest t t' \<and>
     tview t' = (\<lambda>k. if pos \<le> k \<and> k < e then tview t (k + 1) else tview t k)"
proof (induction t pos e rule: move_down.induct)
  case (1 t pos e)
  show ?case
  proof (cases "pos < e")
    case True
    have i: "pos + 1 \<in> ints" using True "1.prems"(2,3) by auto
    have get: "gafq_rawgeti t (pos + 1) = tview t (pos + 1)" using i by (simp add: tview_def)
    obtain t1 where t1: "gafq_rawseti t pos (tview t (pos + 1)) = Inr t1" "table_inv t1" "tview t1 = (tview t)(pos := tview t (pos + 1))" "same_rest t t1"
      using rawseti_present [OF "1.prems"(1,2)] "1.prems"(5) [of pos] True by auto
    have "\<exists>t'. move_down t1 (pos + 1) e = Inr t' \<and> table_inv t' \<and> same_rest t1 t' \<and>
        tview t' = (\<lambda>k. if pos + 1 \<le> k \<and> k < e then tview t1 (k + 1) else tview t1 k)"
      by (rule "1.IH" [OF True t1(2) i "1.prems"(3)]) (use True "1.prems"(5) t1(3) in auto)
    moreover have "(\<lambda>k. if pos + 1 \<le> k \<and> k < e then tview t1 (k + 1) else tview t1 k) = (\<lambda>k. if pos \<le> k \<and> k < e then tview t (k + 1) else tview t k)"
      unfolding t1(3) using True by (intro ext) auto
    ultimately show ?thesis using True t1(1) same_rest_trans [OF t1(4)] by (subst move_down.simps) (auto simp: get)
  next
    case False
    then have "(\<lambda>k. if pos \<le> k \<and> k < e then tview t (k + 1) else tview t k) = tview t" by (intro ext) auto
    then show ?thesis using False "1.prems"(1) by (subst move_down.simps) simp
  qed
qed

lemma tinsert_view:
  assumes "table_inv t" "aux_getn t = Inr n" "n + 1 < 2 ^ 31" "1 \<le> pos" "pos \<le> n + 1"
  shows "overflow_or (tinsert t (InsertAt pos v)) (\<lambda>t'. table_inv t' \<and>
    tview t' = (\<lambda>k. if k = pos then v else if pos < k \<and> k \<le> n + 1 then tview t (k - 1) else tview t k) \<and> same_rest t t')"
proof -
  let ?F = "\<lambda>k. if k = pos then v else if pos < k \<and> k \<le> n + 1 then tview t (k - 1) else tview t k"
  have p: "pos \<in> ints" "n + 1 \<in> ints" using assms(3-5) by auto
  have "overflow_or (gafq_rawseti t1 pos v) (\<lambda>t'. table_inv t' \<and> tview t' = ?F \<and> same_rest t t')"
    if t1: "table_inv t1" "same_rest t t1" "tview t1 = (\<lambda>k. if pos < k \<and> k \<le> n + 1 then tview t (k - 1) else tview t k)" for t1
  proof -
    have "(tview t1)(pos := v) = ?F" by (simp add: t1(3) fun_eq_iff)
    with rawseti_view [OF t1(1) p(1), of v] same_rest_trans [OF t1(2)] show ?thesis by (auto simp: overflow_or_def)
  qed
  then have "overflow_or (rbind (move_up t (n + 1) pos) (\<lambda>t1. gafq_rawseti t1 pos v)) (\<lambda>t'. table_inv t' \<and> tview t' = ?F \<and> same_rest t t')"
    by (intro overflow_or_bind [OF move_up_view [OF assms(1) p(2,1)]]) blast
  then show ?thesis using assms(2-5) by (simp add: tinsert_def)
qed

end
