(* ===== verification/Tablib_Sort.thy ===== *)
theory Tablib_Sort
  imports Tablib_View
begin

text \<open>
  What \<open>table.sort\<close> does.  When the comparison answers as a strict weak order on the elements and leaves the table alone, the locale
  \<open>weak_order\<close> shows that the sort returns, stays within the bounds of the array, and leaves it sorted.  The comparison may change everything
  else of the store.
\<close>

type_synonym tabview = "int \<Rightarrow> TValue"

subsection \<open>Rearrangements\<close>

definition rearr :: "int set \<Rightarrow> tabview \<Rightarrow> tabview \<Rightarrow> bool" where
  "rearr A t t' \<longleftrightarrow> (\<exists>\<pi>. bij \<pi> \<and> (\<forall>k. k \<notin> A \<longrightarrow> \<pi> k = k) \<and> t' = t \<circ> \<pi>)"

lemma rearr_refl [simp]: "rearr A t t"
  unfolding rearr_def by (rule exI [of _ id]) simp

lemma rearr_trans: "rearr A t t' \<Longrightarrow> rearr A t' t'' \<Longrightarrow> rearr A t t''"
proof -
  assume "rearr A t t'" "rearr A t' t''"
  then obtain f g where "bij f" "\<forall>k. k \<notin> A \<longrightarrow> f k = k" "t' = t \<circ> f" "bij g" "\<forall>k. k \<notin> A \<longrightarrow> g k = k" "t'' = t' \<circ> g"
    unfolding rearr_def by blast
  then show ?thesis unfolding rearr_def by (intro exI [of _ "f \<circ> g"]) (auto intro: bij_comp)
qed

lemma rearr_mono: "rearr A t t' \<Longrightarrow> A \<subseteq> B \<Longrightarrow> rearr B t t'"
  unfolding rearr_def by blast

definition swapped :: "tabview \<Rightarrow> int \<Rightarrow> int \<Rightarrow> tabview" where
  "swapped t i j = t(i := t j, j := t i)"

lemma rearr_swap:
  assumes "i \<in> A" "j \<in> A" shows "rearr A t (swapped t i j)"
proof -
  define f where "f = (\<lambda>k. if k = i then j else if k = j then i else k)"
  have "f \<circ> f = id" by (rule ext) (auto simp: f_def)
  then have "bij f" using o_bij by blast
  moreover have "swapped t i j = t \<circ> f" by (rule ext) (auto simp: f_def swapped_def)
  ultimately show ?thesis using assms unfolding rearr_def by (intro exI [of _ f]) (auto simp: f_def)
qed

lemma rearr_outside: "rearr A t t' \<Longrightarrow> k \<notin> A \<Longrightarrow> t' k = t k"
  unfolding rearr_def by auto

lemma rearr_image: assumes "rearr A t t'" shows "t' ` A = t ` A"
proof -
  obtain f where f: "bij f" "\<forall>k. k \<notin> A \<longrightarrow> f k = k" "t' = t \<circ> f" using assms unfolding rearr_def by blast
  have "f k \<in> A" if "k \<in> A" for k
  proof (rule ccontr)
    assume "f k \<notin> A"
    then have "f (f k) = f k" using f(2) by blast
    then have "f k = k" using bij_is_inj [OF f(1)] by (auto dest: injD)
    with that \<open>f k \<notin> A\<close> show False by simp
  qed
  moreover have "\<exists>j\<in>A. f j = k" if "k \<in> A" for k
  proof -
    obtain j where "f j = k" using bij_is_surj [OF f(1)] by (metis surjD)
    then show ?thesis using f(2) that by metis
  qed
  ultimately have "f ` A = A" by blast
  then show ?thesis using f(3) by (metis image_comp)
qed

lemma rearr_all: "rearr A t t' \<Longrightarrow> (\<forall>k\<in>A. P (t k)) \<Longrightarrow> k \<in> A \<Longrightarrow> P (t' k)"
  using rearr_image by (metis image_iff imageI)

subsection \<open>A strict weak order\<close>

locale weak_order =
  fixes env :: vmenv and func :: TValue and a :: addr and R :: "TValue \<Rightarrow> TValue \<Rightarrow> bool" and S :: "TValue set"
  assumes answers: "x \<in> S \<Longrightarrow> y \<in> S \<Longrightarrow> \<exists>s'. sort_comp env func x y s = Inr (R x y, s') \<and> vm_tables s' a = vm_tables s a"
    and present: "TNil \<notin> S"
    and asym: "x \<in> S \<Longrightarrow> y \<in> S \<Longrightarrow> R x y \<Longrightarrow> \<not> R y x"
    and le_trans: "x \<in> S \<Longrightarrow> y \<in> S \<Longrightarrow> z \<in> S \<Longrightarrow> \<not> R y x \<Longrightarrow> \<not> R z y \<Longrightarrow> \<not> R z x"
begin

abbreviation le :: "TValue \<Rightarrow> TValue \<Rightarrow> bool" where
  "le x y \<equiv> \<not> R y x"

abbreviation view :: "vmstate \<Rightarrow> tabview" where
  "view s \<equiv> tview (vm_tables s a)"

text \<open>The table is sound and its elements between \<open>l\<close> and \<open>u\<close> are in \<open>S\<close>.\<close>

definition good :: "int \<Rightarrow> int \<Rightarrow> vmstate \<Rightarrow> bool" where
  "good l u s \<longleftrightarrow> table_inv (vm_tables s a) \<and> {l..u} \<subseteq> ints \<and> (\<forall>k\<in>{l..u}. view s k \<in> S)"

text \<open>A step that rearranges the elements \<open>A\<close> and does not touch other keys.\<close>

definition moved :: "int set \<Rightarrow> vmstate \<Rightarrow> vmstate \<Rightarrow> bool" where
  "moved A s s' \<longleftrightarrow> (table_inv (vm_tables s a) \<longrightarrow> table_inv (vm_tables s' a)) \<and> same_rest (vm_tables s a) (vm_tables s' a) \<and>
     rearr A (view s) (view s')"

lemma moved_same: "vm_tables s' a = vm_tables s a \<Longrightarrow> moved A s s'"
  by (simp add: moved_def)

lemma moved_trans: "moved A s s' \<Longrightarrow> moved A s' s'' \<Longrightarrow> moved A s s''"
  unfolding moved_def using same_rest_trans rearr_trans by blast

lemma moved_mono: "moved A s s' \<Longrightarrow> A \<subseteq> B \<Longrightarrow> moved B s s'"
  unfolding moved_def using rearr_mono by blast

lemma good_same: "vm_tables s' a = vm_tables s a \<Longrightarrow> good l u s' = good l u s"
  by (simp add: good_def)

lemma good_moved: "good l u s \<Longrightarrow> moved A s s' \<Longrightarrow> A \<subseteq> {l..u} \<Longrightarrow> good l u s'"
proof -
  assume a: "good l u s" "moved A s s'" "A \<subseteq> {l..u}"
  then have "rearr {l..u} (view s) (view s')" using moved_mono unfolding moved_def by (metis rearr_mono)
  then have "\<forall>k\<in>{l..u}. view s' k \<in> S" using rearr_all [of _ _ _ "\<lambda>v. v \<in> S"] a(1) unfolding good_def by blast
  then show ?thesis using a(1,2) by (simp add: good_def moved_def)
qed

lemma good_in: "good l u s \<Longrightarrow> l \<le> k \<Longrightarrow> k \<le> u \<Longrightarrow> view s k \<in> S \<and> k \<in> ints \<and> geti a s k = view s k"
proof -
  assume a: "good l u s" "l \<le> k" "k \<le> u"
  then have k: "k \<in> {l..u}" by simp
  have "{l..u} \<subseteq> ints" "\<forall>k\<in>{l..u}. view s k \<in> S" using a(1) unfolding good_def by blast+
  then have "view s k \<in> S" "k \<in> ints" using k by blast+
  then show ?thesis by (simp add: tview_def)
qed

lemma le_refl: "x \<in> S \<Longrightarrow> le x x"
  using asym by blast

lemma seti_moves:
  assumes "table_inv (vm_tables s a)" "i \<in> ints" "view s i \<noteq> TNil"
  shows "\<exists>s'. seti a s i v = Inr s' \<and> table_inv (vm_tables s' a) \<and> view s' = (view s)(i := v) \<and> same_rest (vm_tables s a) (vm_tables s' a)"
  using rawseti_present [OF assms, of v] by (auto simp: seti_def)

lemma set2_swaps:
  assumes "good l u s" "l \<le> i" "i \<le> u" "l \<le> j" "j \<le> u" "x = view s i" "y = view s j"
  shows "\<exists>s'. set2 a s i j x y = Inr s' \<and> view s' = swapped (view s) i j \<and> moved {l..u} s s'"
proof -
  have i: "view s i \<in> S" "i \<in> ints" "view s j \<in> S" "j \<in> ints" "table_inv (vm_tables s a)"
    using good_in [OF assms(1)] assms(1-5) by (auto simp: good_def)
  then have nn: "view s i \<noteq> TNil" "view s j \<noteq> TNil" using present by metis+
  obtain s1 where s1: "seti a s i y = Inr s1" "table_inv (vm_tables s1 a)" "view s1 = (view s)(i := y)" "same_rest (vm_tables s a) (vm_tables s1 a)"
    using seti_moves [OF i(5,2) nn(1)] by blast
  have "view s1 j \<noteq> TNil" using nn assms(7) s1(3) by simp
  then obtain s2 where s2: "seti a s1 j x = Inr s2" "table_inv (vm_tables s2 a)" "view s2 = (view s1)(j := x)" "same_rest (vm_tables s1 a) (vm_tables s2 a)"
    using seti_moves [OF s1(2) i(4)] by blast
  have "view s2 = swapped (view s) i j" using s1(3) s2(3) assms(6,7) by (simp add: swapped_def)
  moreover have "rearr {l..u} (view s) (swapped (view s) i j)" using assms(2-5) by (intro rearr_swap) auto
  ultimately show ?thesis using s1 s2 same_rest_trans by (auto simp: set2_def moved_def)
qed

lemma swap_elems_swaps:
  assumes "good l u s" "l \<le> i" "i \<le> u" "l \<le> j" "j \<le> u"
  shows "\<exists>s'. swap_elems a i j s = Inr s' \<and> view s' = swapped (view s) i j \<and> moved {l..u} s s'"
  using set2_swaps [OF assms refl refl] good_in [OF assms(1)] assms by (simp add: swap_elems_def)

lemma scan_up_stops:
  assumes "i < m" "m \<le> u + 1" "\<And>k. i < k \<Longrightarrow> k \<le> m \<Longrightarrow> view s k \<in> S \<and> k \<in> ints" "p \<in> S" "le p (view s m)"
  shows "\<exists>s' i'. scan_up env func a p u i s = Inr (s', i', view s i') \<and> vm_tables s' a = vm_tables s a \<and>
    i < i' \<and> i' \<le> m \<and> le p (view s i') \<and> (\<forall>k. i < k \<longrightarrow> k < i' \<longrightarrow> R (view s k) p)"
  using assms(1,3,5)
proof (induction "nat (m - i)" arbitrary: i s rule: less_induct)
  case less
  have k: "view s (i + 1) \<in> S" "geti a s (i + 1) = view s (i + 1)" using less.prems(1) less.prems(2) [of "i + 1"] by (auto simp: tview_def)
  obtain s1 where s1: "sort_comp env func (view s (i + 1)) p s = Inr (R (view s (i + 1)) p, s1)" "vm_tables s1 a = vm_tables s a"
    using answers [OF k(1) assms(4)] by blast
  show ?case
  proof (cases "R (view s (i + 1)) p")
    case True
    then have i: "i + 1 < m" using less.prems(1,3) by (cases "i + 1 = m") auto
    have "scan_up env func a p u i s = scan_up env func a p u (i + 1) s1"
      using s1(1) True i assms(2) k(2) by (subst scan_up.simps) (simp add: Let_def)
    moreover obtain s' i' where "scan_up env func a p u (i + 1) s1 = Inr (s', i', view s i')" "vm_tables s' a = vm_tables s a"
      "i + 1 < i'" "i' \<le> m" "le p (view s i')" "\<forall>k. i + 1 < k \<longrightarrow> k < i' \<longrightarrow> R (view s k) p"
      using less.hyps [of "i + 1" s1] i less.prems unfolding s1(2) by auto
    moreover have "R (view s k) p" if "i < k" "k < i'" for k using True calculation(7) that by (cases "k = i + 1") auto
    ultimately show ?thesis by auto
  next
    case False
    then have "scan_up env func a p u i s = Inr (s1, i + 1, view s (i + 1))"
      using s1(1) k(2) by (subst scan_up.simps) (simp add: Let_def)
    then show ?thesis using False less.prems(1) s1(2) by auto
  qed
qed

lemma scan_down_stops:
  assumes "m < j" "l - 1 \<le> m" "\<And>k. m \<le> k \<Longrightarrow> k < j \<Longrightarrow> view s k \<in> S \<and> k \<in> ints" "p \<in> S" "le (view s m) p"
  shows "\<exists>s' j'. scan_down env func a p l j s = Inr (s', j', view s j') \<and> vm_tables s' a = vm_tables s a \<and>
    j' < j \<and> m \<le> j' \<and> le (view s j') p \<and> (\<forall>k. j' < k \<longrightarrow> k < j \<longrightarrow> R p (view s k))"
  using assms(1,3,5)
proof (induction "nat (j - m)" arbitrary: j s rule: less_induct)
  case less
  have k: "view s (j - 1) \<in> S" "geti a s (j - 1) = view s (j - 1)" using less.prems(1) less.prems(2) [of "j - 1"] by (auto simp: tview_def)
  obtain s1 where s1: "sort_comp env func p (view s (j - 1)) s = Inr (R p (view s (j - 1)), s1)" "vm_tables s1 a = vm_tables s a"
    using answers [OF assms(4) k(1)] by blast
  show ?case
  proof (cases "R p (view s (j - 1))")
    case True
    then have j: "m < j - 1" using less.prems(1,3) by (cases "j - 1 = m") auto
    have "scan_down env func a p l j s = scan_down env func a p l (j - 1) s1"
      using s1(1) True j assms(2) k(2) by (subst scan_down.simps) (simp add: Let_def)
    moreover obtain s' j' where "scan_down env func a p l (j - 1) s1 = Inr (s', j', view s j')" "vm_tables s' a = vm_tables s a"
      "j' < j - 1" "m \<le> j'" "le (view s j') p" "\<forall>k. j' < k \<longrightarrow> k < j - 1 \<longrightarrow> R p (view s k)"
      using less.hyps [of "j - 1" s1] j less.prems unfolding s1(2) by auto
    moreover have "R p (view s k)" if "j' < k" "k < j" for k using True calculation(7) that by (cases "k = j - 1") auto
    ultimately show ?thesis by auto
  next
    case False
    then have "scan_down env func a p l j s = Inr (s1, j - 1, view s (j - 1))"
      using s1(1) k(2) by (subst scan_down.simps) (simp add: Let_def)
    then show ?thesis using False less.prems(1) s1(2) by auto
  qed
qed

definition sorted_between :: "tabview \<Rightarrow> int \<Rightarrow> int \<Rightarrow> bool" where
  "sorted_between t l u \<longleftrightarrow> (\<forall>x y. l \<le> x \<longrightarrow> x \<le> y \<longrightarrow> y \<le> u \<longrightarrow> le (t x) (t y))"

text \<open>The invariant of the loop, as its comment states it: \<open>a[l..i] <= P <= a[j..u]\<close>, with the pivot at \<open>u - 1\<close>.\<close>

definition part_inv :: "TValue \<Rightarrow> int \<Rightarrow> int \<Rightarrow> tabview \<Rightarrow> int \<Rightarrow> int \<Rightarrow> bool" where
  "part_inv p l u t i j \<longleftrightarrow> l \<le> i \<and> i \<le> j \<and> j < u \<and> (i = j \<longrightarrow> l < i \<and> j < u - 1) \<and> t (u - 1) = p \<and> p \<in> S \<and>
     (\<forall>k. l \<le> k \<longrightarrow> k \<le> u \<longrightarrow> t k \<in> S) \<and>
     (\<forall>k. l \<le> k \<longrightarrow> k \<le> i \<longrightarrow> le (t k) p) \<and> (\<forall>k. j \<le> k \<longrightarrow> k \<le> u \<longrightarrow> le p (t k))"

definition parted :: "TValue \<Rightarrow> int \<Rightarrow> int \<Rightarrow> tabview \<Rightarrow> int \<Rightarrow> bool" where
  "parted p l u t i \<longleftrightarrow> l < i \<and> i < u \<and> t (u - 1) = p \<and>
     (\<forall>k. l \<le> k \<longrightarrow> k < i \<longrightarrow> le (t k) p) \<and> (\<forall>k. i \<le> k \<longrightarrow> k \<le> u \<longrightarrow> le p (t k))"

lemma part_inv_swap:
  assumes "part_inv p l u t i j" "i < i'" "i' \<le> j'" "j' < j"
    "le p (t i')" "le (t j') p" "\<forall>k. i < k \<longrightarrow> k < i' \<longrightarrow> R (t k) p" "\<forall>k. j' < k \<longrightarrow> k < j \<longrightarrow> R p (t k)"
  shows "part_inv p l u (swapped t i' j') i' j'"
proof -
  have S: "t k \<in> S" if "l \<le> k" "k \<le> u" for k using assms(1) that by (simp add: part_inv_def)
  have p: "p \<in> S" using assms(1) by (simp add: part_inv_def)
  have b: "l \<le> i" "j < u" using assms(1) by (simp_all add: part_inv_def)
  have "le (t k) p" if "l \<le> k" "k < i'" for k
    using assms(1,7) that asym [OF S p, of k] b assms(3,4) by (cases "k \<le> i") (auto simp: part_inv_def)
  moreover have "le p (t k)" if "j' < k" "k \<le> u" for k
    using assms(1,8) that asym [OF p S, of k] b assms(2,3) by (cases "j \<le> k") (auto simp: part_inv_def)
  ultimately show ?thesis using assms b by (auto simp: part_inv_def swapped_def)
qed

lemma partition_splits:
  "good l u s \<Longrightarrow> part_inv p l u (view s) i j \<Longrightarrow>
   \<exists>s' k. partition_loop env func a p l u i j s = Inr (s', k) \<and> moved {l..u} s s' \<and> parted p l u (view s') k"
proof (induction "nat (j - i)" arbitrary: s i j rule: less_induct)
  case less
  let ?t = "view s"
  note inv = less.prems(2)
  have S: "?t k \<in> S \<and> k \<in> ints" if "l \<le> k" "k \<le> u" for k using good_in [OF less.prems(1) that] by simp
  have p: "p \<in> S" using inv by (simp add: part_inv_def)
  have b: "l \<le> i" "i \<le> j" "j < u" "i = j \<Longrightarrow> l < i \<and> j < u - 1" using inv by (auto simp: part_inv_def)
  let ?m = "if i < j then j else j + 1" and ?n = "if i < j then i else i - 1"
  have "\<exists>s' i'. scan_up env func a p u i s = Inr (s', i', ?t i') \<and> vm_tables s' a = vm_tables s a \<and> i < i' \<and> i' \<le> ?m \<and>
      le p (?t i') \<and> (\<forall>k. i < k \<longrightarrow> k < i' \<longrightarrow> R (?t k) p)"
    using inv b by (intro scan_up_stops S p) (auto simp: part_inv_def split: if_splits)
  then obtain s1 i' where i': "scan_up env func a p u i s = Inr (s1, i', ?t i')" "i < i'" "i' \<le> ?m" "le p (?t i')"
    "\<forall>k. i < k \<longrightarrow> k < i' \<longrightarrow> R (?t k) p" and s1: "vm_tables s1 a = vm_tables s a" by blast
  have "\<exists>s' j'. scan_down env func a p l j s1 = Inr (s', j', view s1 j') \<and> vm_tables s' a = vm_tables s1 a \<and> j' < j \<and> ?n \<le> j' \<and>
      le (view s1 j') p \<and> (\<forall>k. j' < k \<longrightarrow> k < j \<longrightarrow> R p (view s1 k))"
    unfolding s1
  proof (intro scan_down_stops [where s = s1, unfolded s1] p S)
    show "le (?t ?n) p" using inv b by (auto simp: part_inv_def)
  qed (use b in \<open>auto split: if_splits\<close>)
  then obtain s2 j' where j': "scan_down env func a p l j s1 = Inr (s2, j', ?t j')" "j' < j" "?n \<le> j'" "le (?t j') p"
    "\<forall>k. j' < k \<longrightarrow> k < j \<longrightarrow> R p (?t k)" and s2: "vm_tables s2 a = vm_tables s a" unfolding s1 by blast
  show ?case
  proof (cases "j' < i'")
    case True
    have "le (?t k) p" if "l \<le> k" "k < i'" for k
      using inv i'(3,5) that asym [OF S [THEN conjunct1] p, of k] b by (cases "k \<le> i") (auto simp: part_inv_def split: if_splits)
    moreover have "le p (?t k)" if "i' \<le> k" "k \<le> u" for k
      using inv j'(3,5) True that asym [OF p S [THEN conjunct1], of k] b i'(2) by (cases "j \<le> k") (auto simp: part_inv_def split: if_splits)
    ultimately have "parted p l u (view s2) i'" using i'(2,3) b inv by (auto simp: s2 parted_def part_inv_def split: if_splits)
    moreover have "partition_loop env func a p l u i j s = Inr (s2, i')" using True i'(1) j'(1) by (subst partition_loop.simps) simp
    ultimately show ?thesis using moved_same [OF s2] by blast
  next
    case False
    have g2: "good l u s2" using less.prems(1) good_same [OF s2] by simp
    have bb: "l \<le> i'" "i' \<le> u" "l \<le> j'" "j' \<le> u" using i'(2) j'(2) b False by auto
    obtain s3 where s3: "set2 a s2 i' j' (?t i') (?t j') = Inr s3" "view s3 = swapped (view s2) i' j'" "moved {l..u} s2 s3"
      using set2_swaps [OF g2 bb] unfolding s2 by blast
    have inv': "part_inv p l u (view s3) i' j'" using part_inv_swap [OF inv] i' j' False by (simp add: s3(2) s2)
    have "partition_loop env func a p l u i j s = partition_loop env func a p l u i' j' s3"
      using False i'(1) j'(1) s3(1) by (subst partition_loop.simps) simp
    moreover have m3: "moved {l..u} s s3" by (rule moved_trans [OF moved_same [OF s2] s3(3)])
    moreover have "nat (j' - i') < nat (j - i)" using i'(2) j'(2) False by simp
    ultimately show ?thesis using less.hyps [OF _ good_moved [OF less.prems(1) m3 subset_refl] inv'] moved_trans by metis
  qed
qed

lemma order_ends_orders:
  assumes "good l u s" "l < u"
  shows "\<exists>s'. order_ends env func a l u s = Inr s' \<and> moved {l..u} s s' \<and> le (view s' l) (view s' u)"
proof -
  have S: "view s l \<in> S" "view s u \<in> S" "geti a s l = view s l" "geti a s u = view s u"
    using good_in [OF assms(1), of l] good_in [OF assms(1), of u] assms(2) by simp_all
  obtain s1 where s1: "sort_comp env func (view s u) (view s l) s = Inr (R (view s u) (view s l), s1)" "vm_tables s1 a = vm_tables s a"
    using answers [OF S(2,1)] by blast
  show ?thesis
  proof (cases "R (view s u) (view s l)")
    case True
    have g: "good l u s1" using assms(1) good_same [OF s1(2)] by simp
    obtain s2 where s2: "set2 a s1 l u (view s l) (view s u) = Inr s2" "view s2 = swapped (view s1) l u" "moved {l..u} s1 s2"
      using set2_swaps [OF g, of l u "view s l" "view s u"] assms(2) unfolding s1(2) by auto
    have "le (view s2 l) (view s2 u)" using asym [OF S(2,1) True] assms(2) by (simp add: s2(2) s1(2) swapped_def)
    then show ?thesis using s1(1) s2(1) True S(3,4) moved_trans [OF moved_same [OF s1(2)] s2(3)] by (simp add: order_ends_def Let_def)
  next
    case False
    then show ?thesis using s1 S(3,4) moved_same [OF s1(2)] by (simp add: order_ends_def Let_def)
  qed
qed

lemma order_middle_orders:
  assumes "good l u s" "l < i" "i < u" "le (view s l) (view s u)"
  shows "\<exists>s'. order_middle env func a l i u s = Inr s' \<and> moved {l..u} s s' \<and> le (view s' l) (view s' i) \<and> le (view s' i) (view s' u)"
proof -
  have S: "view s l \<in> S" "view s i \<in> S" "view s u \<in> S" "geti a s l = view s l" "geti a s i = view s i" "geti a s u = view s u"
    using good_in [OF assms(1), of l] good_in [OF assms(1), of i] good_in [OF assms(1), of u] assms(2,3) by simp_all
  obtain s1 where s1: "sort_comp env func (view s i) (view s l) s = Inr (R (view s i) (view s l), s1)" "vm_tables s1 a = vm_tables s a"
    using answers [OF S(2,1)] by blast
  obtain s2 where s2: "sort_comp env func (view s u) (view s i) s1 = Inr (R (view s u) (view s i), s2)" "vm_tables s2 a = vm_tables s a"
    using answers [OF S(3,2)] s1(2) by metis
  have g: "good l u s1" "good l u s2" using assms(1) good_same [OF s1(2)] good_same [OF s2(2)] by simp_all
  consider "R (view s i) (view s l)" | "le (view s l) (view s i)" "R (view s u) (view s i)" | "le (view s l) (view s i)" "le (view s i) (view s u)" by blast
  then show ?thesis
  proof cases
    case 1
    obtain s3 where s3: "set2 a s1 i l (view s i) (view s l) = Inr s3" "view s3 = swapped (view s1) i l" "moved {l..u} s1 s3"
      using set2_swaps [OF g(1), of i l "view s i" "view s l"] assms(2,3) unfolding s1(2) by auto
    have "le (view s3 l) (view s3 i)" "le (view s3 i) (view s3 u)"
      using asym [OF S(2,1) 1] assms(2-4) by (simp_all add: s3(2) s1(2) swapped_def)
    then show ?thesis using s1(1) s3(1) 1 S(4,5) moved_trans [OF moved_same [OF s1(2)] s3(3)] by (simp add: order_middle_def Let_def)
  next
    case 2
    obtain s3 where s3: "set2 a s2 i u (view s i) (view s u) = Inr s3" "view s3 = swapped (view s2) i u" "moved {l..u} s2 s3"
      using set2_swaps [OF g(2), of i u "view s i" "view s u"] assms(2,3) unfolding s2(2) by auto
    have "le (view s3 l) (view s3 i)" "le (view s3 i) (view s3 u)"
      using asym [OF S(3,2) 2(2)] assms(2-4) by (simp_all add: s3(2) s2(2) swapped_def)
    then show ?thesis using s1 s2(1) s3(1) 2 S(4-6) moved_trans [OF moved_same [OF s2(2)] s3(3)] by (simp add: order_middle_def Let_def)
  next
    case 3
    then show ?thesis using s1 s2 S(4-6) moved_same [OF s2(2)] by (simp add: order_middle_def Let_def)
  qed
qed

text \<open>A round of the loop: the pivot is in its place between two parts.\<close>

definition pivot_at :: "tabview \<Rightarrow> int \<Rightarrow> int \<Rightarrow> int \<Rightarrow> bool" where
  "pivot_at t l i u \<longleftrightarrow> l < i \<and> i < u \<and> (\<forall>k\<in>{l..i - 1}. le (t k) (t i)) \<and> (\<forall>k\<in>{i + 1..u}. le (t i) (t k))"

lemma pivot_placed:
  assumes "parted p l u t i" "t' = swapped t (u - 1) i"
  shows "pivot_at t' l i u \<and> rearr {l..u} t t'"
  using assms rearr_swap [of "u - 1" "{l..u}" i t] by (auto simp: parted_def pivot_at_def swapped_def)

lemma pivot_at_rearr:
  assumes "pivot_at t l i u" "rearr {l..i - 1} t t' \<or> rearr {i + 1..u} t t'"
  shows "pivot_at t' l i u"
proof -
  have i: "t' i = t i" using assms(2) rearr_outside [of _ t t' i] by auto
  from assms(2) show ?thesis
  proof
    assume r: "rearr {l..i - 1} t t'"
    have "le (t' k) (t i)" if "k \<in> {l..i - 1}" for k
      using rearr_all [OF r, of "\<lambda>v. le v (t i)" k] assms(1) that by (auto simp: pivot_at_def)
    moreover have "t' k = t k" if "k \<in> {i + 1..u}" for k using rearr_outside [OF r] that by simp
    ultimately show ?thesis using assms(1) i by (simp add: pivot_at_def)
  next
    assume r: "rearr {i + 1..u} t t'"
    have "le (t i) (t' k)" if "k \<in> {i + 1..u}" for k
      using rearr_all [OF r, of "\<lambda>v. le (t i) v" k] assms(1) that by (auto simp: pivot_at_def)
    moreover have "t' k = t k" if "k \<in> {l..i - 1}" for k using rearr_outside [OF r] that by simp
    ultimately show ?thesis using assms(1) i by (simp add: pivot_at_def)
  qed
qed

lemma sorted_outside:
  assumes "sorted_between t l u" "rearr A t t'" "A \<inter> {l..u} = {}" shows "sorted_between t' l u"
proof -
  have "t' k = t k" if "l \<le> k" "k \<le> u" for k using rearr_outside [OF assms(2), of k] assms(3) that by (metis IntI atLeastAtMost_iff emptyE)
  then show ?thesis using assms(1) by (simp add: sorted_between_def)
qed

lemma sorted_join:
  assumes "pivot_at t l i u" "sorted_between t l (i - 1)" "sorted_between t (i + 1) u" "\<forall>k\<in>{l..u}. t k \<in> S"
  shows "sorted_between t l u"
  unfolding sorted_between_def
proof (intro allI impI)
  fix x y assume ab: "l \<le> x" "x \<le> y" "y \<le> u"
  have i: "l < i" "i < u" using assms(1) by (simp_all add: pivot_at_def)
  have left: "le (t x) (t i)" if "x \<le> i"
    using assms(1,4) ab that i le_refl [of "t i"] by (cases "x = i") (auto simp: pivot_at_def)
  have right: "le (t i) (t y)" if "i \<le> y"
    using assms(1,4) ab that i le_refl [of "t i"] by (cases "y = i") (auto simp: pivot_at_def)
  consider "y < i" | "i < x" | "x \<le> i" "i \<le> y" using ab by linarith
  then show "le (t x) (t y)"
  proof cases
    case 3
    have "t x \<in> S" "t i \<in> S" "t y \<in> S" using assms(4) ab i by auto
    then show ?thesis using le_trans [OF _ _ _ left [OF 3(1)] right [OF 3(2)]] by blast
  qed (use assms(2,3) ab in \<open>auto simp: sorted_between_def\<close>)
qed

lemma sorted_single: "\<not> l < u \<Longrightarrow> \<forall>k\<in>{l..u}. t k \<in> S \<Longrightarrow> sorted_between t l u"
  unfolding sorted_between_def using le_refl by (metis atLeastAtMost_iff linorder_not_less order.antisym order_trans)

lemma sorted_pair:
  assumes "le (t l) (t (l + 1))" "t l \<in> S" "t (l + 1) \<in> S" shows "sorted_between t l (l + 1)"
  unfolding sorted_between_def
proof (intro allI impI)
  fix x y assume "l \<le> x" "x \<le> y" "y \<le> l + 1"
  then consider "x = y" "x = l" | "x = y" "x = l + 1" | "x = l" "y = l + 1" by linarith
  then show "le (t x) (t y)" using assms le_refl by cases auto
qed

lemma sorted_triple:
  assumes "le (t l) (t (l + 1))" "le (t (l + 1)) (t (l + 2))" "\<forall>k\<in>{l..l + 2}. t k \<in> S"
  shows "sorted_between t l (l + 2)"
proof (rule sorted_join [of _ _ "l + 1"])
  show "pivot_at t l (l + 1) (l + 2)" using assms(1,2) by (auto simp: pivot_at_def dest!: order.antisym)
qed (use assms(3) in \<open>auto intro!: sorted_single\<close>)

lemma sort_halves:
  assumes "pivot_at (view s) l i u" "good l u s"
    and "\<And>s'. good l u s' \<Longrightarrow> \<exists>s''. f s' = Inr s'' \<and> moved A s' s'' \<and> sorted_between (view s'') la ua"
    and "\<And>s'. good l u s' \<Longrightarrow> \<exists>s''. g s' = Inr s'' \<and> moved B s' s'' \<and> sorted_between (view s'') lb ub"
    and "A = {la..ua}" "B = {lb..ub}" "la = l \<and> ua = i - 1 \<and> lb = i + 1 \<and> ub = u \<or> lb = l \<and> ub = i - 1 \<and> la = i + 1 \<and> ua = u"
  shows "\<exists>s'. rbind (f s) g = Inr s' \<and> moved {l..u} s s' \<and> sorted_between (view s') l u"
proof -
  have i: "l < i" "i < u" using assms(1) by (simp_all add: pivot_at_def)
  have sub: "A \<subseteq> {l..u}" "B \<subseteq> {l..u}" "B \<inter> {la..ua} = {}" using i assms(5-7) by auto
  obtain s1 where s1: "f s = Inr s1" "moved A s s1" "sorted_between (view s1) la ua" using assms(3) [OF assms(2)] by blast
  have g1: "good l u s1" by (rule good_moved [OF assms(2) s1(2) sub(1)])
  obtain s2 where s2: "g s1 = Inr s2" "moved B s1 s2" "sorted_between (view s2) lb ub" using assms(4) [OF g1] by blast
  have g2: "good l u s2" by (rule good_moved [OF g1 s2(2) sub(2)])
  have r: "rearr A (view s) (view s1)" "rearr B (view s1) (view s2)" using s1(2) s2(2) by (simp_all add: moved_def)
  have A: "A = {l..i - 1} \<or> A = {i + 1..u}" "B = {l..i - 1} \<or> B = {i + 1..u}" using assms(5-7) by auto
  have "pivot_at (view s1) l i u" by (rule pivot_at_rearr [OF assms(1)]) (use r(1) A(1) in auto)
  then have p2: "pivot_at (view s2) l i u" by (rule pivot_at_rearr) (use r(2) A(2) in auto)
  have "sorted_between (view s2) la ua" by (rule sorted_outside [OF s1(3) r(2) sub(3)])
  with s2(3) have "sorted_between (view s2) l (i - 1)" "sorted_between (view s2) (i + 1) u" using assms(7) by auto
  moreover have "\<forall>k\<in>{l..u}. view s2 k \<in> S" using good_in [OF g2] by simp
  ultimately have "sorted_between (view s2) l u" by (intro sorted_join [OF p2])
  moreover have "moved {l..u} s s2" using moved_trans moved_mono s1(2) s2(2) sub(1,2) by metis
  ultimately show ?thesis using s1(1) s2(1) by simp
qed

lemma split_step:
  assumes "u - l > 2" "good l u s" "i = (l + u) div 2" "le (view s l) (view s i)" "le (view s i) (view s u)"
  shows "\<exists>s3 s4 k s5. swap_elems a i (u - 1) s = Inr s3 \<and> partition_loop env func a (view s i) l u l (u - 1) s3 = Inr (s4, k) \<and>
    swap_elems a (u - 1) k s4 = Inr s5 \<and> moved {l..u} s s5 \<and> pivot_at (view s5) l k u"
proof -
  have i: "l < i" "i \<le> u - 1" using assms(1,3) by auto
  obtain s3 where s3: "swap_elems a i (u - 1) s = Inr s3" "view s3 = swapped (view s) i (u - 1)" "moved {l..u} s s3"
    using swap_elems_swaps [OF assms(2), of i "u - 1"] i assms(1) by auto
  have g3: "good l u s3" by (rule good_moved [OF assms(2) s3(3) subset_refl])
  have tiS: "view s i \<in> S" using good_in [OF assms(2), of i] i by simp
  have "part_inv (view s i) l u (view s3) l (u - 1)" unfolding part_inv_def
  proof (intro conjI allI impI)
    show "l \<le> l" "l \<le> u - 1" "u - 1 < u" using assms(1) by simp_all
    show "view s3 (u - 1) = view s i" by (simp add: s3(2) swapped_def)
    show "view s i \<in> S" by (rule tiS)
    show "view s3 k \<in> S" if "l \<le> k" "k \<le> u" for k using good_in [OF g3 that] by simp
    show "l < l" "u - 1 < u - 1" if "l = u - 1" using that assms(1) by simp_all
  next
    fix k assume "l \<le> k" "k \<le> l" then show "le (view s3 k) (view s i)" using i assms(4) by (simp add: s3(2) swapped_def)
  next
    fix k assume "u - 1 \<le> k" "k \<le> u"
    then have "k = u - 1 \<or> k = u" by auto
    then show "le (view s i) (view s3 k)" using i assms(5) le_refl [OF tiS] by (auto simp: s3(2) swapped_def)
  qed
  from partition_splits [OF g3 this] obtain s4 k where
    s4: "partition_loop env func a (view s i) l u l (u - 1) s3 = Inr (s4, k)" "moved {l..u} s3 s4" "parted (view s i) l u (view s4) k" by blast
  have g4: "good l u s4" by (rule good_moved [OF g3 s4(2) subset_refl])
  have k: "l < k" "k < u" using s4(3) by (simp_all add: parted_def)
  obtain s5 where s5: "swap_elems a (u - 1) k s4 = Inr s5" "view s5 = swapped (view s4) (u - 1) k" "moved {l..u} s4 s5"
    using swap_elems_swaps [OF g4, of "u - 1" k] k by auto
  have "pivot_at (view s5) l k u" using pivot_placed [OF s4(3) s5(2)] by simp
  moreover have "moved {l..u} s s5" using s3(3) s4(2) s5(3) moved_trans by blast
  ultimately show ?thesis using s3(1) s4(1) s5(1) by blast
qed

lemma first_steps:
  assumes "l < u" "u - l \<noteq> 1" "good l u s"
  shows "\<exists>s1 s2. order_ends env func a l u s = Inr s1 \<and> order_middle env func a l ((l + u) div 2) u s1 = Inr s2 \<and> moved {l..u} s s2 \<and>
    le (view s2 l) (view s2 ((l + u) div 2)) \<and> le (view s2 ((l + u) div 2)) (view s2 u)"
proof -
  let ?i = "(l + u) div 2"
  have i: "l < ?i" "?i < u" using assms(1,2) by auto
  obtain s1 where s1: "order_ends env func a l u s = Inr s1" "moved {l..u} s s1" "le (view s1 l) (view s1 u)"
    using order_ends_orders [OF assms(3,1)] by blast
  have g1: "good l u s1" by (rule good_moved [OF assms(3) s1(2) subset_refl])
  obtain s2 where "order_middle env func a l ?i u s1 = Inr s2" "moved {l..u} s1 s2" "le (view s2 l) (view s2 ?i)" "le (view s2 ?i) (view s2 u)"
    using order_middle_orders [OF g1 i s1(3)] by blast
  with s1 show ?thesis using moved_trans by blast
qed

lemma auxsort_sorts:
  "u - l < int n \<Longrightarrow> u - l < 2 ^ Suc d \<Longrightarrow> u \<le> 2 ^ 30 \<Longrightarrow> good l u s \<Longrightarrow>
   \<exists>s'. auxsort env func a d n l u s = Inr s' \<and> moved {l..u} s s' \<and> sorted_between (view s') l u"
proof (induction n arbitrary: d s l u)
  case 0
  then show ?case using sorted_single [of l u "view s"] good_in [OF 0(4)] moved_same [of s s] by auto
next
  case (Suc n)
  note g = Suc.prems(4)
  have tS: "\<forall>k\<in>{l..u}. view s k \<in> S" using good_in [OF g] by simp
  consider "\<not> l < u" | "u = l + 1" | "u = l + 2" | "u - l > 2" by linarith
  then show ?case
  proof cases
    case 1
    then show ?thesis using tS sorted_single moved_same [of s s] by auto
  next
    case 2
    then obtain s1 where s1: "order_ends env func a l u s = Inr s1" "moved {l..u} s s1" "le (view s1 l) (view s1 u)"
      using order_ends_orders [OF g] by auto
    have "view s1 l \<in> S" "view s1 u \<in> S" using good_in [OF good_moved [OF g s1(2) subset_refl]] 2 by simp_all
    then have "sorted_between (view s1) l u" unfolding 2 using s1(3) 2 by (intro sorted_pair) auto
    then show ?thesis using s1 2 by auto
  next
    case 3
    then have i: "(l + u) div 2 = l + 1" "\<not> 2 ^ 31 \<le> l + u" using Suc.prems(3) by auto
    obtain s1 s2 where t: "order_ends env func a l u s = Inr s1" "order_middle env func a l (l + 1) u s1 = Inr s2" "moved {l..u} s s2"
      "le (view s2 l) (view s2 (l + 1))" "le (view s2 (l + 1)) (view s2 u)"
      using first_steps [OF _ _ g] 3 unfolding i by auto
    have "\<forall>k\<in>{l..l + 2}. view s2 k \<in> S" using good_in [OF good_moved [OF g t(3) subset_refl]] 3 by simp
    then have "sorted_between (view s2) l u" unfolding 3 using t(4,5) 3 by (intro sorted_triple) auto
    then show ?thesis using t 3 i by (auto simp: Let_def)
  next
    case 4
    let ?i = "(l + u) div 2"
    have nov: "\<not> 2 ^ 31 \<le> l + u" using Suc.prems(3) 4 by auto
    obtain s1 s2 where t: "order_ends env func a l u s = Inr s1" "order_middle env func a l ?i u s1 = Inr s2" "moved {l..u} s s2"
      "le (view s2 l) (view s2 ?i)" "le (view s2 ?i) (view s2 u)"
      using first_steps [OF _ _ g] 4 by auto
    have g2: "good l u s2" by (rule good_moved [OF g t(3) subset_refl])
    obtain s3 s4 i s5 where s5: "swap_elems a ?i (u - 1) s2 = Inr s3" "partition_loop env func a (view s2 ?i) l u l (u - 1) s3 = Inr (s4, i)"
      "swap_elems a (u - 1) i s4 = Inr s5" "moved {l..u} s2 s5" "pivot_at (view s5) l i u"
      using split_step [OF 4 g2 refl t(4,5)] by blast
    have i: "l < i" "i < u" using s5(5) by (simp_all add: pivot_at_def)
    have g5: "good l u s5" by (rule good_moved [OF g2 s5(4) subset_refl])
    have geti: "geti a s2 ?i = view s2 ?i" using good_in [OF g2, of ?i] 4 by auto
    obtain d' where d: "d = Suc d'" using Suc.prems(2) 4 by (cases d) auto
    have sub: "good l' u' s'" if "good l u s'" "l \<le> l'" "u' \<le> u" for l' u' s'
    proof -
      have "{l'..u'} \<subseteq> {l..u}" using that(2,3) by auto
      then show ?thesis using that(1) unfolding good_def by (metis subset_iff)
    qed
    have left: "\<exists>s''. auxsort env func a e n l (i - 1) s' = Inr s'' \<and> moved {l..i - 1} s' s'' \<and> sorted_between (view s'') l (i - 1)"
      if "good l u s'" "i - 1 - l < 2 ^ Suc e" for s' e
      using Suc.IH [of "i - 1" l e s'] Suc.prems(1,3) that(2) sub [OF that(1), of l "i - 1"] i by auto
    have right: "\<exists>s''. auxsort env func a e n (i + 1) u s' = Inr s'' \<and> moved {i + 1..u} s' s'' \<and> sorted_between (view s'') (i + 1) u"
      if "good l u s'" "u - (i + 1) < 2 ^ Suc e" for s' e
      using Suc.IH [of u "i + 1" e s'] Suc.prems(1,3) that(2) sub [OF that(1), of "i + 1" u] i by auto
    have eq: "auxsort env func a d (Suc n) l u s =
      (if i - l < u - i then rbind (auxsort env func a d' n l (i - 1) s5) (auxsort env func a d n (i + 1) u)
       else rbind (auxsort env func a d' n (i + 1) u s5) (auxsort env func a d n l (i - 1)))"
      using 4 nov t(1,2) s5(1-3) geti d by (simp add: Let_def)
    have "\<exists>s'. auxsort env func a d (Suc n) l u s = Inr s' \<and> moved {l..u} s5 s' \<and> sorted_between (view s') l u"
    proof (cases "i - l < u - i")
      case True
      have b: "i - 1 - l < 2 ^ Suc d'" "u - (i + 1) < 2 ^ Suc d" using True Suc.prems(2) d i by auto
      show ?thesis unfolding eq if_P [OF True]
        by (rule sort_halves [OF s5(5) g5 left [OF _ b(1)] right [OF _ b(2)] refl refl]) auto
    next
      case False
      have b: "i - 1 - l < 2 ^ Suc d" "u - (i + 1) < 2 ^ Suc d'" using False Suc.prems(2) d i by auto
      show ?thesis unfolding eq if_not_P [OF False]
        by (rule sort_halves [OF s5(5) g5 right [OF _ b(2)] left [OF _ b(1)] refl refl]) auto
    qed
    then show ?thesis using t(3) s5(4) moved_trans by blast
  qed
qed

end

end
