(* ===== verification/Vm_Props.thy ===== *)
theory Vm_Props
  imports Vm
begin

text \<open>
  What the operations of \<open>gvm.c\<close> promise: the order of strings is the lexicographic order of their bytes, table access
  keeps the store sound (with the tables and the cache of absent tag methods), and concatenation concatenates.
\<close>

subsection \<open>The order of strings\<close>

lemma strcoll_refl [simp]: "strcoll s s = 0"
  by (induction s) simp_all

lemma strcoll_0_iff: "strcoll l r = 0 \<longleftrightarrow> l = r"
  by (induction l r rule: strcoll.induct) auto

lemma strcoll_append_same: "strcoll (p @ l) (p @ r) = strcoll l r"
  by (induction p) simp_all

lemma cstr_split: "s = cstr s \<or> (\<exists>s'. s = cstr s @ CHR 0x00 # s')"
proof (cases "dropWhile (\<lambda>c. c \<noteq> CHR 0x00) s")
  case Nil
  then show ?thesis by (metis append_Nil2 cstr_def takeWhile_dropWhile_id)
next
  case (Cons c s')
  then have "c = CHR 0x00" using hd_dropWhile [of "\<lambda>c. c \<noteq> CHR 0x00" s] by auto
  then show ?thesis using Cons takeWhile_dropWhile_id [of "\<lambda>c. c \<noteq> CHR 0x00" s] by (metis cstr_def)
qed

lemma of_char_0_less: "c \<noteq> CHR 0x00 \<Longrightarrow> 0 < (of_char c :: nat)"
  using of_char_eq_iff [of c "CHR 0x00", where 'a = nat] by (simp del: of_char_eq_iff)

lemma strcoll_cstr_differ:
  "strcoll (cstr l) (cstr r) \<noteq> 0 \<Longrightarrow> strcoll (cstr l) (cstr r) = strcoll l r"
proof (induction l r rule: strcoll.induct)
  case (2 d ds)
  then show ?case by (auto simp: cstr_def split: if_splits)
next
  case (3 c cs)
  then show ?case by (auto simp: cstr_def split: if_splits)
next
  case (4 c cs d ds)
  then show ?case using of_char_0_less [of c] of_char_0_less [of d] by (auto simp: cstr_def split: if_splits)
qed (simp add: cstr_def)

lemma l_strcmp_lex: "l_strcmp l r = strcoll l r"
proof (induction l r rule: l_strcmp.induct)
  case (1 l r)
  show ?case
  proof (cases "strcoll (cstr l) (cstr r) = 0")
    case False
    then show ?thesis using strcoll_cstr_differ by (subst l_strcmp.simps) (simp add: Let_def)
  next
    case True
    then have eq: "cstr l = cstr r" by (simp add: strcoll_0_iff)
    consider "l = cstr l" "r = cstr r" | l' where "l = cstr l @ CHR 0x00 # l'" "r = cstr l"
      | r' where "l = cstr l" "r = cstr l @ CHR 0x00 # r'"
      | l' r' where "l = cstr l @ CHR 0x00 # l'" "r = cstr l @ CHR 0x00 # r'"
      using cstr_split [of l] cstr_split [of r] eq by metis
    then show ?thesis
    proof cases
      case 1
      then show ?thesis using eq by (subst l_strcmp.simps) (simp add: Let_def)
    next
      case (2 l')
      have "strcoll l r = 1" using strcoll_append_same [of "cstr l" "CHR 0x00 # l'" "[]"] 2 by simp
      moreover have "length (cstr l) = length r" "length (cstr l) \<noteq> length l" using arg_cong [OF 2(1), of length] arg_cong [OF 2(2), of length] by simp_all
      ultimately show ?thesis using True by (subst l_strcmp.simps) (simp add: Let_def)
    next
      case (3 r')
      have "strcoll l r = -1" using strcoll_append_same [of "cstr l" "[]" "CHR 0x00 # r'"] 3 by simp
      moreover have "length (cstr l) \<noteq> length r" "length (cstr l) = length l" using arg_cong [OF 3(1), of length] arg_cong [OF 3(2), of length] by simp_all
      ultimately show ?thesis using True by (subst l_strcmp.simps) (simp add: Let_def)
    next
      case (4 l' r')
      have n: "length (cstr l) \<noteq> length r" "length (cstr l) \<noteq> length l"
        using arg_cong [OF 4(1), of length] arg_cong [OF 4(2), of length] by simp_all
      have d: "drop (length (cstr l) + 1) l = l'" "drop (length (cstr l) + 1) r = r'"
        using arg_cong [OF 4(1), of "drop (length (cstr l) + 1)"] arg_cong [OF 4(2), of "drop (length (cstr l) + 1)"] by simp_all
      have "strcoll l r = strcoll l' r'" using strcoll_append_same [of "cstr l" "CHR 0x00 # l'" "CHR 0x00 # r'"] 4 by simp
      moreover have "l_strcmp l' r' = strcoll l' r'"
        using "1.IH" [OF refl _ refl n] True d by simp
      ultimately show ?thesis using True n d by (subst l_strcmp.simps) (simp add: Let_def)
    qed
  qed
qed

lemma strcoll_swap: "strcoll r l = - strcoll l r"
  by (induction l r rule: strcoll.induct) auto

lemma strcoll_trans: "strcoll a b \<le> 0 \<Longrightarrow> strcoll b c \<le> 0 \<Longrightarrow> strcoll a c \<le> 0"
proof (induction a b arbitrary: c rule: strcoll.induct)
  case (1 c)
  then show ?case by simp
next
  case (2 d ds)
  then show ?case by (cases c) auto
next
  case (4 x xs y ys)
  then show ?case by (cases c) (auto split: if_splits)
qed simp

lemma strcoll_lexord: "strcoll l r < 0 \<longleftrightarrow> (l, r) \<in> lexord {(c, d). (of_char c :: nat) < of_char d}"
  by (induction l r rule: strcoll.induct) auto

text \<open>
  C28. The comparison of strings with embedded zeros, chunk by chunk with \<open>strcoll\<close>, is the lexicographic order of
  the whole strings as sequences of unsigned bytes; it is zero for equal strings only.
\<close>

theorem strcmp_lexicographic:
  "(l_strcmp l r < 0 \<longleftrightarrow> (l, r) \<in> lexord {(c, d). (of_char c :: nat) < of_char d}) \<and> (l_strcmp l r = 0 \<longleftrightarrow> l = r) \<and>
   l_strcmp r l = - l_strcmp l r"
  using strcoll_lexord [of l r] strcoll_0_iff [of l r] strcoll_swap [of r l] by (simp add: l_strcmp_lex)

lemma ordererror_string_thread:
  "gafqG_ordererror (TString x) (TThread a) = Inl (RunError ''attempt to compare two string values'')"
  by (simp add: gafqG_ordererror_def gafqT_typenames_def)

text \<open>The orders of numbers and of strings, whose comparison by \<open>gafqV_lessthan\<close> calls no method.\<close>

definition num_below :: "TValue \<Rightarrow> TValue \<Rightarrow> bool" where
  "num_below a b \<longleftrightarrow> (\<exists>x y. a = TNumber x \<and> b = TNumber y \<and> gafqi_numlt x y)"

definition str_below :: "TValue \<Rightarrow> TValue \<Rightarrow> bool" where
  "str_below a b \<longleftrightarrow> (\<exists>x y. a = TString x \<and> b = TString y \<and> strcoll x y < 0)"

definition real_numbers :: "TValue set" where
  "real_numbers = {TNumber x | x. \<not> nisnan x}"

subsection \<open>Table access keeps the store sound\<close>

definition not_dead :: "TValue \<Rightarrow> bool" where
  "not_dead k \<longleftrightarrow> (\<forall>x. k \<noteq> TDeadKey x)"

lemma gafqH_set_contract: "table_inv t \<Longrightarrow> proper k \<Longrightarrow> set_contract t k (gafqH_set t k)"
  using set_contractI [OF gr.set_with_stored [of t k 0]] by (simp add: gafqH_set_def)

lemma gafqH_set_proper:
  assumes "table_inv t" "not_dead k" "gafqH_set t k = Inr (h, slot)" shows "proper k"
proof -
  have "k \<noteq> TNil" using assms(3) by (auto simp: gafqH_set_def gafqH_set_with_def Let_def gafqH_get_def [of t TNil])
  moreover have "\<not> isnan_val k"
  proof
    assume n: "isnan_val k"
    then obtain x where "k = TNumber x" "gafqi_numisnan x" by (cases k) (auto simp: isnan_val_def)
    then show False using assms(3) get_nan [OF assms(1) n] by (simp add: gafqH_set_def gafqH_set_with_def Let_def)
  qed
  ultimately show ?thesis using assms(2) by (cases k) (auto simp: proper_def live_def not_dead_def)
qed

lemma setslot_flags_commute: "setslot (t\<lparr>flags := f\<rparr>) s v = (setslot t s v)\<lparr>flags := f\<rparr>"
  by (cases s) simp_all

lemma heap_ok_update: "heap_ok s \<Longrightarrow> table_inv h \<Longrightarrow> cache_ok h \<Longrightarrow> heap_ok (s\<lparr>vm_tables := (vm_tables s)(a := h)\<rparr>)"
  by (simp add: heap_ok_def)

text \<open>What \<open>gafqH_set\<close> on a table of the store gives to \<open>gafqV_settable\<close>.\<close>

lemma set_step:
  assumes "heap_ok s" "not_dead key" "gafqH_set (vm_tables s a) key = Inr (h, slot)"
  shows "proper key" "table_inv h" "flags h = 0" "metatable h = metatable (vm_tables s a)" "gafqH_get h key = Some slot"
    "\<And>k. proper k \<Longrightarrow> tget h k = tget (vm_tables s a) k"
    "\<And>v. table_inv (setslot h slot v)"
    "\<And>v k. proper k \<Longrightarrow> tget (setslot h slot v) k = (if gafqO_rawequalObj key k then v else tget (vm_tables s a) k)"
proof -
  have inv: "table_inv (vm_tables s a)" using assms(1) by (simp add: heap_ok_def)
  show p: "proper key" by (rule gafqH_set_proper [OF inv assms(2,3)])
  show "flags h = 0" by (rule gafqH_set_flags [OF assms(3)])
  have c: "set_contract (vm_tables s a) key (Inr (h, slot))" using gafqH_set_contract [OF inv p] assms(3) by simp
  then show "table_inv h" "metatable h = metatable (vm_tables s a)" "gafqH_get h key = Some slot"
    by (auto simp: set_contract_def)
  show "tget h k = tget (vm_tables s a) k" if "proper k" for k using c that by (auto simp: set_contract_def)
  show "table_inv (setslot h slot v)" for v using c by (auto simp: set_contract_def)
  show "tget (setslot h slot v) k = (if gafqO_rawequalObj key k then v else tget (vm_tables s a) k)" if "proper k" for v k
    using c that by (auto simp: set_contract_def)
qed

lemma store_heap_ok:
  assumes "heap_ok s'" "vm_tables s' a = h\<lparr>flags := f\<rparr>" "table_inv (setslot h slot v)"
  shows "heap_ok (s'\<lparr>vm_tables := (vm_tables s')(a := (setslot (vm_tables s' a) slot v)\<lparr>flags := 0\<rparr>)\<rparr>)"
  using assms by (intro heap_ok_update) (simp_all add: setslot_flags_commute)

definition calls_keep :: "vmenv \<Rightarrow> bool" where
  "calls_keep env \<longleftrightarrow> (\<forall>f args s r s'. heap_ok s \<longrightarrow> call_fun env f args s = Inr (r, s') \<longrightarrow> heap_ok s')"

lemma calls_keepD: "calls_keep env \<Longrightarrow> heap_ok s \<Longrightarrow> call_fun env f args s = Inr (r, s') \<Longrightarrow> heap_ok s'"
  by (auto simp: calls_keep_def)

lemma fasttm_keeps: "heap_ok s \<Longrightarrow> TMS_num e \<le> 4 \<Longrightarrow> fasttm et e s = (r, s') \<Longrightarrow> heap_ok s' \<and> same_but_flags s s'"
  using fasttm_sound [of s e et] by simp

lemma gettable_loop_keeps:
  assumes "calls_keep env"
  shows "heap_ok s \<Longrightarrow> gettable_loop n env t key s = Inr (v, s') \<Longrightarrow> heap_ok s'"
proof (induction n arbitrary: t s)
  case (Suc n)
  show ?case
  proof (cases "\<exists>a. t = TTable a")
    case True
    then obtain a where t: "t = TTable a" by blast
    obtain r s1 where f: "fasttm (metatable (vm_tables s a)) TM_INDEX s = (r, s1)" by fastforce
    have k: "heap_ok s1" using fasttm_keeps [OF Suc.prems(1) _ f] by simp
    show ?thesis using Suc.prems k f t calls_keepD [OF assms k] Suc.IH [OF k]
      by (cases r) (auto simp: Let_def callTMres_def split: if_splits)
  next
    case False
    then have "gettable_loop (Suc n) env t key s =
        (let tm = gafqT_gettmbyobj s t TM_INDEX
           in if ttisnil tm then gafqG_typeerror env t ''index''
              else if ttisfunction tm then callTMres env tm t key s else gettable_loop n env tm key s)"
      by (cases t) (simp_all add: Let_def)
    then show ?thesis using Suc.prems calls_keepD [OF assms Suc.prems(1)] Suc.IH
      by (auto simp: Let_def callTMres_def gafqG_typeerror_def split: if_splits option.splits)
  qed
qed simp

lemma settable_loop_keeps:
  assumes "calls_keep env" "not_dead key"
  shows "heap_ok s \<Longrightarrow> settable_loop n env t key v s = Inr s' \<Longrightarrow> heap_ok s'"
proof (induction n arbitrary: t s)
  case (Suc n)
  show ?case
  proof (cases "\<exists>a. t = TTable a")
    case True
    then obtain a where t: "t = TTable a" by blast
    then obtain h slot where h: "gafqH_set (vm_tables s a) key = Inr (h, slot)"
      using Suc.prems(2) by (auto split: sum.splits)
    note st = set_step [OF Suc.prems(1) assms(2) h]
    let ?s1 = "s\<lparr>vm_tables := (vm_tables s)(a := h)\<rparr>"
    have h1: "heap_ok ?s1" using heap_ok_update [OF Suc.prems(1) st(2)] st(3) by simp
    obtain r s2 where f: "fasttm (metatable h) TM_NEWINDEX ?s1 = (r, s2)" by fastforce
    have k: "heap_ok s2" "same_but_flags ?s1 s2" using fasttm_keeps [OF h1 _ f] by simp_all
    obtain x where x: "vm_tables s2 a = h\<lparr>flags := x\<rparr>" using k(2) by (auto simp: same_but_flags_def dest: spec [of _ a])
    note store1 = store_heap_ok [OF h1, where a = a and h = h and f = 0 and slot = slot and v = v] and store2 = store_heap_ok [OF k(1) x st(7) [of v]]
    show ?thesis
    proof (cases "ttisnil (slotval h slot)")
      case False
      then show ?thesis using Suc.prems(2) t h store1 st(3,7) by (simp add: Let_def)
    next
      case True
      show ?thesis
      proof (cases r)
        case None
        then show ?thesis using Suc.prems(2) t h f True store2 by (simp add: Let_def)
      next
        case (Some tm)
        then show ?thesis using Suc.prems(2) t h f True calls_keepD [OF assms(1) k(1)] Suc.IH [OF k(1)]
          by (auto simp: Let_def callTM_def res_simps split: if_splits)
      qed
    qed
  next
    case False
    then have "settable_loop (Suc n) env t key v s =
        (let tm = gafqT_gettmbyobj s t TM_NEWINDEX
           in if ttisnil tm then gafqG_typeerror env t ''index''
              else if ttisfunction tm then callTM env tm t key v s else settable_loop n env tm key v s)"
      by (cases t) (simp_all add: Let_def)
    then show ?thesis using Suc.prems calls_keepD [OF assms(1) Suc.prems(1)] Suc.IH
      by (auto simp: Let_def callTM_def gafqG_typeerror_def res_simps split: if_splits option.splits)
  qed
qed simp

lemma MAXTAGLOOP_Suc: "MAXTAGLOOP = Suc 99"
  by (simp add: MAXTAGLOOP_def)

lemma raw_get:
  assumes "metatable (vm_tables s a) = None"
  shows "gafqV_gettable env (TTable a) k s = Inr (tget (vm_tables s a) k, s)"
  unfolding gafqV_gettable_def MAXTAGLOOP_Suc gettable_loop.simps using assms by (simp add: Let_def tget_def fasttm_def)

lemma raw_set:
  assumes "metatable (vm_tables s a) = None" "heap_ok s" "not_dead key" "gafqH_set (vm_tables s a) key = Inr (h, slot)"
  shows "gafqV_settable env (TTable a) key v s =
    Inr (s\<lparr>vm_tables := (vm_tables s)(a := (setslot h slot v)\<lparr>flags := 0\<rparr>)\<rparr>)"
  unfolding gafqV_settable_def MAXTAGLOOP_Suc settable_loop.simps
  using assms(1,4) set_step(4) [OF assms(2-4)] by (simp add: Let_def fasttm_def)

lemma setslot_metatable [simp]: "metatable (setslot t s v) = metatable t"
  by (cases s) simp_all

text \<open>
  C24. Table access of the virtual machine keeps the store sound: every table stays well formed and its cache of
  absent tag methods true, whatever chain of metatables an access follows and whatever functions it calls,
  provided those functions do so too.
\<close>

theorem vm_access_sound:
  assumes "heap_ok s" "calls_keep env" "not_dead key"
  shows "(\<forall>v s'. gafqV_gettable env t key s = Inr (v, s') \<longrightarrow> heap_ok s') \<and>
    (\<forall>s'. gafqV_settable env t key x s = Inr s' \<longrightarrow> heap_ok s')"
  unfolding gafqV_gettable_def gafqV_settable_def
  using gettable_loop_keeps [OF assms(2,1)] settable_loop_keeps [OF assms(2,3,1)] by blast

text \<open>A store to start from: every address holds a new table, no metatables.\<close>

definition empty_table :: Table where
  "empty_table = \<lparr>flags = NOT 0, lsizenode = 0, metatable = None, array = [], node = [dummynode], isdummy = True, lastfree = 0\<rparr>"

definition empty_heap :: vmstate where
  "empty_heap = \<lparr>vm_tables = (\<lambda>a. empty_table), vm_umeta = (\<lambda>a. None), vm_mt = (\<lambda>n. None)\<rparr>"

definition no_calls :: vmenv where
  "no_calls = \<lparr>call_fun = (\<lambda>f args s. Inr (TNil, s)), objname = (\<lambda>v. None), str2d = (\<lambda>x. None), number2str = (\<lambda>x. ''0''),
     numpow = (\<lambda>a b. a)\<rparr>"

lemma empty_heap_ok: "heap_ok empty_heap"
proof -
  have "gafqH_new 0 0 = Inr empty_table"
    by (simp add: gafqH_new_def setarrayvector_def setnodevector_def empty_table_def)
  then have "table_inv empty_table" using gafqH_new_inv [of 0 0] by (simp add: MAXASIZE_def)
  moreover have "cache_ok empty_table"
    by (simp add: cache_ok_def tget_def gafqH_get_def gafqH_getstr_def search_chain_def chain_def empty_table_def dummynode_def
        mainposition_def slotoptval_def hashpow2_def lmod_def sizenode_def twoto_def)
  ultimately show ?thesis by (simp add: heap_ok_def empty_heap_def)
qed

theorem vm_access_sound_witness:
  "\<exists>v s'. gafqV_gettable no_calls (TTable 4) (TString ''x'') empty_heap = Inr (v, s') \<and> heap_ok s'"
proof -
  have k: "calls_keep no_calls" "not_dead (TString ''x'')" by (simp_all add: calls_keep_def not_dead_def no_calls_def)
  have "metatable (vm_tables empty_heap 4) = None" by (simp add: empty_heap_def empty_table_def)
  from raw_get [OF this] show ?thesis using vm_access_sound [OF empty_heap_ok k] by blast
qed

text \<open>
  C26. On a table without a metatable, an assignment followed by a read gives the assigned value, and the
  other keys keep theirs; the assignment fails only with \<open>table overflow\<close>.
\<close>

theorem settable_gettable:
  assumes "heap_ok s" "metatable (vm_tables s a) = None" "proper key"
  shows "gafqV_settable env (TTable a) key v s = Inl (RunError ''table overflow'') \<or>
    (\<exists>s'. gafqV_settable env (TTable a) key v s = Inr s' \<and> gafqV_gettable env (TTable a) key s' = Inr (v, s') \<and>
      (\<forall>k. proper k \<and> \<not> gafqO_rawequalObj key k \<longrightarrow>
        map_sum id fst (gafqV_gettable env (TTable a) k s') = map_sum id fst (gafqV_gettable env (TTable a) k s)))"
proof -
  have inv: "table_inv (vm_tables s a)" using assms(1) by (simp add: heap_ok_def)
  have nd: "not_dead key" using assms(3) by (auto simp: proper_def live_def not_dead_def)
  from gafqH_set_contract [OF inv assms(3)] consider "gafqH_set (vm_tables s a) key = Inl (RunError ''table overflow'')"
    | h slot where "gafqH_set (vm_tables s a) key = Inr (h, slot)" by (auto simp: set_contract_def)
  then show ?thesis
  proof cases
    case 1
    then show ?thesis unfolding gafqV_settable_def MAXTAGLOOP_Suc settable_loop.simps by simp
  next
    case (2 h slot)
    let ?s = "s\<lparr>vm_tables := (vm_tables s)(a := (setslot h slot v)\<lparr>flags := 0\<rparr>)\<rparr>"
    note st = set_step [OF assms(1) nd 2]
    have mt: "metatable (vm_tables ?s a) = None" using st(4) assms(2) by simp
    have "gafqV_gettable env (TTable a) k ?s = Inr (if gafqO_rawequalObj key k then v else tget (vm_tables s a) k, ?s)"
      if "proper k" for k using raw_get [OF mt, of env k] st(8) [OF that, of v] by simp
    then show ?thesis using raw_set [OF assms(2,1) nd 2] raw_get [OF assms(2)] assms(3) proper_refl by auto
  qed
qed

theorem settable_gettable_witness:
  "gafqV_settable no_calls (TTable 4) (TString ''x'') (TBoolean True) empty_heap = Inl (RunError ''table overflow'') \<or>
   (\<exists>s'. gafqV_settable no_calls (TTable 4) (TString ''x'') (TBoolean True) empty_heap = Inr s' \<and>
     gafqV_gettable no_calls (TTable 4) (TString ''x'') s' = Inr (TBoolean True, s'))"
  using settable_gettable [of empty_heap 4 "TString ''x''" no_calls "TBoolean True"] empty_heap_ok
  by (auto simp: empty_heap_def empty_table_def proper_def live_def isnan_val_def)

subsection \<open>Concatenation\<close>

definition text_of_value :: "vmenv \<Rightarrow> TValue \<Rightarrow> string" where
  "text_of_value env v = (case v of TString x \<Rightarrow> x | TNumber x \<Rightarrow> cstr (number2str env x) | _ \<Rightarrow> [])"

lemma text_of_string [simp]: "text_of_value env (TString x) = x"
  by (simp add: text_of_value_def)

lemma tostring_strnum: "isstrnum v \<Longrightarrow> tostring env v = Some (TString (text_of_value env v))"
  by (cases v) (simp_all add: isstrnum_def text_of_value_def)

lemma concat_collect_all:
  "\<forall>v\<in>set vs. isstrnum v \<Longrightarrow> sz + sum_list (map (length \<circ> text_of_value env) vs) < MAX_SIZET \<Longrightarrow>
   concat_collect env sz vs acc = Inr (rev (map (text_of_value env) vs) @ acc, [])"
  by (induction vs arbitrary: sz acc) (auto simp: tostring_strnum)

lemma concat_loop_strings:
  "\<forall>w\<in>set (v # vs). isstrnum w \<Longrightarrow> vs \<noteq> [] \<or> v = TString (text_of_value env v) \<Longrightarrow> length vs \<le> n \<Longrightarrow>
   sum_list (map (length \<circ> text_of_value env) (v # vs)) < MAX_SIZET \<Longrightarrow>
   concat_loop n env (v # vs) s = Inr (TString (concat (map (text_of_value env) (rev (v # vs)))), s)"
proof (induction n arbitrary: v vs)
  case 0
  then show ?case by simp
next
  case (Suc n)
  show ?case
  proof (cases vs)
    case Nil
    then show ?thesis using Suc.prems(2) by simp
  next
    case (Cons w ws)
    have t: "tostring env v = Some (TString (text_of_value env v))" "tostring env w = Some (TString (text_of_value env w))"
      "isstrnum w" using Suc.prems(1) Cons by (simp_all add: tostring_strnum)
    let ?r = "TString (text_of_value env w)"
    show ?thesis
    proof (cases "text_of_value env v = []")
      case True
      then have "concat_pass env v w ws s = Inr (?r, ws, s)" using t by (simp add: concat_pass_def)
      moreover have "concat_loop n env (?r # ws) s = Inr (TString (concat (map (text_of_value env) (rev (?r # ws)))), s)"
        using Suc.prems Cons True by (intro Suc.IH) (auto simp: isstrnum_def)
      ultimately show ?thesis using Cons True by simp
    next
      case False
      have "concat_collect env (length (text_of_value env v) + length (text_of_value env w)) ws [text_of_value env w, text_of_value env v] =
        Inr (rev (map (text_of_value env) ws) @ [text_of_value env w, text_of_value env v], [])"
        using Suc.prems Cons by (intro concat_collect_all) (simp_all add: add.assoc o_def)
      then have "concat_pass env v w ws s = Inr (TString (concat (map (text_of_value env) (rev (v # vs)))), [], s)"
        using t False Suc.prems(4) Cons by (simp add: concat_pass_def rev_map)
      then show ?thesis using Cons by simp
    qed
  qed
qed

text \<open>
  C32. Concatenation of strings and numbers gives the concatenation of their texts, however many operands there
  are and however the passes of the loop group them, when the total length is a size; no method is called.
\<close>

theorem concat_texts:
  assumes "\<forall>v\<in>set vs. isstrnum v" "2 \<le> length vs" "sum_list (map (length \<circ> text_of_value env) vs) < MAX_SIZET"
  shows "gafqV_concat env vs s = Inr (TString (concat (map (text_of_value env) vs)), s)"
proof -
  obtain w ws where r: "rev vs = w # ws" using assms(2) by (cases "rev vs") auto
  have l: "length vs = Suc (length ws)" using arg_cong [OF r, of length] by simp
  have "sum_list (map (length \<circ> text_of_value env) (rev vs)) = sum_list (map (length \<circ> text_of_value env) vs)"
    by (metis rev_map sum_list_rev)
  moreover have "set (rev vs) = set vs" by simp
  ultimately have "concat_loop (length vs) env (w # ws) s = Inr (TString (concat (map (text_of_value env) (rev (w # ws)))), s)"
    using assms l unfolding r by (intro concat_loop_strings) auto
  moreover have "rev (w # ws) = vs" unfolding r [symmetric] by simp
  ultimately show ?thesis unfolding gafqV_concat_def r by metis
qed

theorem concat_texts_witness:
  "gafqV_concat no_calls [TString ''a'', TNumber 0, TString [], TString ''b''] empty_heap = Inr (TString ''a0b'', empty_heap)"
  using concat_texts [of "[TString ''a'', TNumber 0, TString [], TString ''b'']" no_calls empty_heap]
  by (simp add: isstrnum_def text_of_value_def no_calls_def MAX_SIZET_def cstr_def)

end
