(* ===== verification/Tablib_Props.thy ===== *)
theory Tablib_Props
  imports Tablib_Sort Vm_Props
begin

text \<open>
  The properties of the table library: sorting (the results of \<open>Tablib_Sort\<close> with the \<open><\<close> of the virtual machine as
  instances of its locale), insertion and removal, and the refinement of the library's view of a table by the
  tables of \<open>gtable.c\<close>.
\<close>

subsection \<open>Sorting\<close>

interpretation nums: weak_order env TNil a num_below real_numbers for env a
  by unfold_locales (auto simp: sort_comp_def gafqV_lessthan_def num_below_def real_numbers_def gafqi_numlt_def)

interpretation strings: weak_order env TNil a str_below "range TString" for env a
proof unfold_locales
  fix x y z :: TValue assume s: "x \<in> range TString" "y \<in> range TString"
  then obtain u v where xy: "x = TString u" "y = TString v" by blast
  show "\<exists>s'. sort_comp env TNil x y s = Inr (str_below x y, s') \<and> vm_tables s' a = vm_tables s a" for s
    using xy by (simp add: sort_comp_def gafqV_lessthan_def str_below_def l_strcmp_lex)
  show "\<not> str_below y x" if "str_below x y" using that xy strcoll_swap [of u v] by (simp add: str_below_def)
  assume "z \<in> range TString" and le: "\<not> str_below y x" "\<not> str_below z y"
  then obtain w where z: "z = TString w" by blast
  have "strcoll u v \<le> 0" "strcoll v w \<le> 0" using le xy z strcoll_swap [of u v] strcoll_swap [of v w] by (simp_all add: str_below_def)
  then have "strcoll u w \<le> 0" by (rule strcoll_trans)
  then show "\<not> str_below z x" using xy z strcoll_swap [of u w] by (simp add: str_below_def)
qed auto

lemma empty_table_inv: "int (length arr) \<le> MAXASIZE \<Longrightarrow> table_inv (empty_table\<lparr>array := arr\<rparr>)"
  using setnodevector_inv(1) [of empty_table 0 empty_table arr] by (simp add: setnodevector_def empty_table_def)

lemma empty_table_tget:
  "int (length arr) \<le> MAXASIZE \<Longrightarrow> proper k \<Longrightarrow>
    tget (empty_table\<lparr>array := arr\<rparr>) k = (if in_array (empty_table\<lparr>array := arr\<rparr>) k then arr ! nat (arrayindex k - 1) else TNil)"
  using setnodevector_inv(5) [of empty_table 0 empty_table arr k] by (simp add: setnodevector_def empty_table_def)

text \<open>
  C18. Sorting with a strict weak order: let the comparison (a call of the function given, or the \<open><\<close> of the virtual machine with its tag
  methods) answer as one on the elements \<open>1 .. n\<close>, where \<open>n\<close> is the length measured, at most \<open>2 ^ 30\<close>, no element is
  nil, and the comparison leaves this table alone, whatever else it changes.  Then \<open>sort\<close> returns within \<open>n\<close> rounds and a nesting of 40 calls, never
  overflows an \<open>int\<close>, leaves a sound table with a rearrangement of those elements in which none is below one before it, and touches no other key.
\<close>

theorem sort_sorts:
  assumes "\<forall>x\<in>S. \<forall>y\<in>S. \<forall>s. \<exists>s'. sort_comp env func x y s = Inr (R x y, s') \<and> vm_tables s' a = vm_tables s a"
    and "\<forall>x\<in>S. \<forall>y\<in>S. R x y \<longrightarrow> \<not> R y x"
    and "\<forall>x\<in>S. \<forall>y\<in>S. \<forall>z\<in>S. \<not> R y x \<longrightarrow> \<not> R z y \<longrightarrow> \<not> R z x"
    and "table_inv (vm_tables s a)" "aux_getn (vm_tables s a) = Inr n" "\<forall>k\<in>{1..n}. gafq_rawgeti (vm_tables s a) k \<in> S" "TNil \<notin> S"
    and "n \<le> 2 ^ 30" "n \<le> int fuel"
  shows "\<exists>s' \<pi>. sort_table fuel env func a s = Inr s' \<and> table_inv (vm_tables s' a) \<and>
    bij \<pi> \<and> (\<forall>k. k \<notin> {1..n} \<longrightarrow> \<pi> k = k) \<and> tview (vm_tables s' a) = tview (vm_tables s a) \<circ> \<pi> \<and>
    same_rest (vm_tables s a) (vm_tables s' a) \<and>
    (\<forall>i j. 1 \<le> i \<longrightarrow> i \<le> j \<longrightarrow> j \<le> n \<longrightarrow> \<not> R (gafq_rawgeti (vm_tables s' a) j) (gafq_rawgeti (vm_tables s' a) i))"
proof -
  have w: "weak_order env func a R S" using assms(1-3,7) by unfold_locales blast+
  have b: "n - 1 < int fuel" "n - 1 < 2 ^ Suc 40" using assms(8,9) by simp_all
  have ints: "k \<in> ints" if "k \<in> {1..n}" for k using that assms(8) by simp
  have g: "weak_order.good a S 1 n s" unfolding weak_order.good_def [OF w] using assms(4,6) ints by (auto simp: tview_def)
  from weak_order.auxsort_sorts [OF w b assms(8) g] obtain s' where s': "auxsort env func a 40 fuel 1 n s = Inr s'"
    "weak_order.moved a {1..n} s s'" "weak_order.sorted_between R (tview (vm_tables s' a)) 1 n" by blast
  obtain \<pi> where pi: "bij \<pi>" "\<forall>k. k \<notin> {1..n} \<longrightarrow> \<pi> k = k" "tview (vm_tables s' a) = tview (vm_tables s a) \<circ> \<pi>"
    using s'(2) unfolding weak_order.moved_def [OF w] rearr_def by blast
  have "\<not> R (gafq_rawgeti (vm_tables s' a) j) (gafq_rawgeti (vm_tables s' a) i)" if "1 \<le> i" "i \<le> j" "j \<le> n" for i j
  proof -
    have "\<not> R (tview (vm_tables s' a) j) (tview (vm_tables s' a) i)"
      using s'(3) that unfolding weak_order.sorted_between_def [OF w] by blast
    then show ?thesis using ints [of i] ints [of j] that by (simp add: tview_def)
  qed
  then show ?thesis using s'(1,2) pi assms(4,5) unfolding weak_order.moved_def [OF w] by (auto simp: sort_table_def)
qed

theorem sort_sorts_witness:
  "\<exists>s s'. map (gafq_rawgeti (vm_tables s 1)) [1, 2, 3] = [TNumber (cast_num 2), TNumber (cast_num 1), TNumber (cast_num 3)] \<and>
    sort_table 3 no_calls TNil 1 s = Inr s' \<and>
    \<not> num_below (gafq_rawgeti (vm_tables s' 1) 2) (gafq_rawgeti (vm_tables s' 1) 1) \<and>
    \<not> num_below (gafq_rawgeti (vm_tables s' 1) 3) (gafq_rawgeti (vm_tables s' 1) 2)"
proof -
  let ?arr = "[TNumber (cast_num 2), TNumber (cast_num 1), TNumber (cast_num 3)]"
  let ?t = "empty_table\<lparr>array := ?arr\<rparr>"
  let ?s = "empty_heap\<lparr>vm_tables := \<lambda>_. ?t\<rparr>"
  have inv: "table_inv ?t" using empty_table_inv [of ?arr] by (simp add: MAXASIZE_def MAXBITS_def)
  have n: "aux_getn ?t = Inr 3" by (simp add: aux_getn_def gafqH_getn_def empty_table_def)
  have get: "gafq_rawgeti ?t 1 = TNumber (cast_num 2)" "gafq_rawgeti ?t 2 = TNumber (cast_num 1)" "gafq_rawgeti ?t 3 = TNumber (cast_num 3)"
    by (simp_all add: gafq_rawgeti_def gafqH_getnum_def slotoptval_def)
  have el: "gafq_rawgeti ?t k \<in> real_numbers" if "k \<in> {1..3}" for k
  proof -
    have "k = 1 \<or> k = 2 \<or> k = 3" using that by auto
    then show ?thesis using get cast_num_not_nan [of 1] cast_num_not_nan [of 2] cast_num_not_nan [of 3] by (auto simp: real_numbers_def)
  qed
  have c: "\<forall>x\<in>real_numbers. \<forall>y\<in>real_numbers. \<forall>s. \<exists>s'. sort_comp no_calls TNil x y s = Inr (num_below x y, s') \<and> vm_tables s' 1 = vm_tables s 1"
    using nums.answers by blast
  have d: "\<forall>x\<in>real_numbers. \<forall>y\<in>real_numbers. num_below x y \<longrightarrow> \<not> num_below y x" using nums.asym by blast
  have e: "\<forall>x\<in>real_numbers. \<forall>y\<in>real_numbers. \<forall>z\<in>real_numbers. \<not> num_below y x \<longrightarrow> \<not> num_below z y \<longrightarrow> \<not> num_below z x"
    using nums.le_trans by blast
  have s: "vm_tables ?s 1 = ?t" by simp
  have f: "\<forall>k\<in>{1..3}. gafq_rawgeti ?t k \<in> real_numbers" using el by blast
  obtain s' where "sort_table 3 no_calls TNil 1 ?s = Inr s'"
    "\<forall>i j. 1 \<le> i \<longrightarrow> i \<le> j \<longrightarrow> j \<le> 3 \<longrightarrow> \<not> num_below (gafq_rawgeti (vm_tables s' 1) j) (gafq_rawgeti (vm_tables s' 1) i)"
    using sort_sorts [OF c d e, of ?s 3 3, unfolded s, OF inv n f nums.present] by auto
  moreover have "map (gafq_rawgeti (vm_tables ?s 1)) [1, 2, 3] = ?arr" using get by simp
  ultimately show ?thesis by (intro exI [of _ ?s] exI [of _ s']) simp
qed

subsection \<open>Insertion and removal\<close>

text \<open>
  C34. Insertion and removal on a proper sequence: the elements \<open>1 .. n\<close> are present and the positive indices above \<open>n\<close> absent, \<open>v\<close>
  is not nil and \<open>pos\<close> is in \<open>1 .. n + 1\<close>.  The length is measured by each of the two.  Insertion at \<open>pos\<close> raises \<open>table overflow\<close> or moves the elements from
  there on up by one and gives a proper sequence of \<open>n + 1\<close> elements; removal at \<open>pos\<close> then always succeeds, returns \<open>v\<close> and restores every key.
\<close>

theorem insert_remove:
  assumes "table_inv t" "sequence t n" "1 \<le> pos" "pos \<le> n + 1" "v \<noteq> TNil"
  shows "tinsert t (InsertAt pos v) = Inl (RunError ''table overflow'') \<or>
    (\<exists>t' t''. tinsert t (InsertAt pos v) = Inr t' \<and> table_inv t' \<and> sequence t' (n + 1) \<and>
      map (gafq_rawgeti t') [1..n + 1] = map (gafq_rawgeti t) [1..pos - 1] @ v # map (gafq_rawgeti t) [pos..n] \<and>
      tremove t' (Some pos) = Inr (t'', Some v) \<and> table_inv t'' \<and> (\<forall>k. proper k \<longrightarrow> tget t'' k = tget t k))"
proof -
  note n = sequence_getn [OF assms(1,2)]
  have p: "pos \<in> ints" "n + 1 \<in> ints" using assms(3,4) n(2) by auto
  let ?F = "\<lambda>k. if k = pos then v else if pos < k \<and> k \<le> n + 1 then tview t (k - 1) else tview t k"
  have ins: "overflow_or (tinsert t (InsertAt pos v)) (\<lambda>t'. table_inv t' \<and> tview t' = ?F \<and> same_rest t t')"
    by (rule tinsert_view [OF assms(1) n assms(3,4)])
  show ?thesis using ins
  proof (elim overflow_orE)
    fix t' assume t': "tinsert t (InsertAt pos v) = Inr t'" "table_inv t' \<and> tview t' = ?F \<and> same_rest t t'"
    have view: "tview t' = ?F" "table_inv t'" "same_rest t t'" using t'(2) by simp_all
    have seq: "tview t i \<noteq> TNil \<longleftrightarrow> i \<le> n" if "1 \<le> i" "i < 2 ^ 31" for i using assms(2) that by (simp add: sequence_def)
    have pres: "tview t' i \<noteq> TNil \<longleftrightarrow> i \<le> n + 1" if "1 \<le> i" "i < 2 ^ 31" for i
      using seq [OF that] seq [of "i - 1"] that assms(3-5) by (auto simp: view(1))
    have seq': "sequence t' (n + 1)" using assms(2) n(2) pres by (simp add: sequence_def)
    note n' = sequence_getn [OF view(2) seq']
    obtain t2 where t2: "move_down t' pos (n + 1) = Inr t2" "table_inv t2" "same_rest t' t2"
      "tview t2 = (\<lambda>k. if pos \<le> k \<and> k < n + 1 then tview t' (k + 1) else tview t' k)"
    proof -
      have "tview t' k \<noteq> TNil" if "pos \<le> k" "k \<le> n + 1" for k using pres [of k] that assms(3) n'(2) by simp
      from move_down_view [OF view(2) p assms(4) this] show ?thesis using that by blast
    qed
    have "tview t2 (n + 1) \<noteq> TNil" using pres [of "n + 1"] assms(3,4) n'(2) by (simp add: t2(4))
    then obtain t3 where t3: "gafq_rawseti t2 (n + 1) TNil = Inr t3" "table_inv t3" "tview t3 = (tview t2)(n + 1 := TNil)" "same_rest t2 t3"
      using rawseti_present [OF t2(2) p(2)] by blast
    have rem: "tremove t' (Some pos) = Inr (t3, Some v)"
    proof -
      have "gafq_rawgeti t' pos = tview t' pos" using p(1) by (simp add: tview_def)
      then have "gafq_rawgeti t' pos = v" by (simp add: view(1))
      then show ?thesis using n'(1) assms(3,4) t2(1) t3(1) by (simp add: tremove_def Let_def)
    qed
    have restored: "tview t3 = tview t"
    proof
      fix k show "tview t3 k = tview t k" using seq [of "n + 1"] assms(3,4) n(2) by (simp add: t3(3) t2(4) view(1))
    qed
    have "same_rest t t3" by (rule same_rest_trans [OF same_rest_trans [OF view(3) t2(3)] t3(4)])
    then have "tget t3 k = tget t k" if "proper k" for k using same_view_tget [OF assms(1) t3(2) restored _ that] by simp
    moreover have "map (gafq_rawgeti t') [1..n + 1] = map (gafq_rawgeti t) [1..pos - 1] @ v # map (gafq_rawgeti t) [pos..n]"
    proof -
      have g: "gafq_rawgeti t0 k = tview t0 k" if "k \<in> {1..n + 1}" for t0 k using that n'(2) by (simp add: tview_def)
      have "[1..n + 1] = [1..pos - 1] @ pos # [pos + 1..n + 1]"
        using assms(3,4) upto_split2 [of 1 "pos - 1" "n + 1"] upto_rec1 [of pos "n + 1"] by (cases "pos = 1") simp_all
      moreover have "map (gafq_rawgeti t') [pos + 1..n + 1] = map (gafq_rawgeti t) [pos..n]"
        by (rule nth_equalityI) (use g assms(3) view(1) in auto)
      moreover have "map (gafq_rawgeti t') [1..pos - 1] = map (gafq_rawgeti t) [1..pos - 1]"
        using g assms(4) view(1) by auto
      moreover have "gafq_rawgeti t' pos = v" using g [of pos t'] assms(3,4) by (simp add: view(1))
      ultimately show ?thesis by simp
    qed
    ultimately show ?thesis using t'(1) view(2) seq' rem t3(2) by blast
  qed simp
qed

theorem insert_remove_witness:
  "\<exists>t. gafq_rawgeti t 1 = TString ''a'' \<and> (tinsert t (InsertAt 1 (TString ''b'')) = Inl (RunError ''table overflow'') \<or>
    (\<exists>t' t''. tinsert t (InsertAt 1 (TString ''b'')) = Inr t' \<and> map (gafq_rawgeti t') [1..2] = [TString ''b'', TString ''a''] \<and>
      tremove t' (Some 1) = Inr (t'', Some (TString ''b''))))"
proof -
  let ?t = "empty_table\<lparr>array := [TString ''a'']\<rparr>"
  have inv: "table_inv ?t" using empty_table_inv [of "[TString ''a'']"] by (simp add: MAXASIZE_def MAXBITS_def)
  have get: "gafq_rawgeti ?t i = (if i = 1 then TString ''a'' else TNil)" if "1 \<le> i" "i < 2 ^ 31" for i
    using empty_table_tget [of "[TString ''a'']" "TNumber (cast_num i)"] rawgeti_tget [OF inv, of i] ints_proper [of i]
      arrayindex_cast_num [of i] that by (auto simp: in_array_def MAXASIZE_def MAXBITS_def)
  then have "sequence ?t 1" by (auto simp: sequence_def tview_def)
  from insert_remove [OF inv this, of 1 "TString ''b''"] show ?thesis using get [of 1] by (intro exI [of _ ?t]) auto
qed

subsection \<open>The tables behind the view\<close>

text \<open>
  C27. The tables of \<open>gtable.c\<close> refine the library's view of a table as a function from \<open>int\<close> to values: \<open>gafq_rawseti\<close>
  is an update of the function that \<open>gafq_rawgeti\<close> reads, on every sound table, or raises \<open>table overflow\<close>.
\<close>

theorem rawseti_refines:
  assumes "table_inv t" "i \<in> {- (2 ^ 31)..<2 ^ 31}"
  shows "gafq_rawseti t i v = Inl (RunError ''table overflow'') \<or>
    (\<exists>t'. gafq_rawseti t i v = Inr t' \<and> table_inv t' \<and>
      (\<forall>j\<in>{- (2 ^ 31)..<2 ^ 31}. gafq_rawgeti t' j = ((gafq_rawgeti t)(i := v)) j))"
proof -
  have i: "- (2 ^ 31) \<le> i" "i < 2 ^ 31" "\<bar>i\<bar> < 2 ^ 53" using assms(2) by auto
  have c: "set_contract t (TNumber (cast_num i)) (gafqH_setnum t i)"
    using set_contractI [OF gr.setnum_with_stored [OF assms(1) i(1,2), of 0] proper_num [OF i(3)]] by (simp add: gafqH_setnum_def)
  show ?thesis
  proof (cases "gafqH_setnum t i")
    case (Inl e)
    then show ?thesis using c by (simp add: set_contract_def gafq_rawseti_def)
  next
    case (Inr p)
    then obtain t' slot where p: "gafqH_setnum t i = Inr (t', slot)" by (cases p) auto
    have inv: "table_inv (setslot t' slot v)" using c p by (auto simp: set_contract_def)
    have "gafq_rawgeti (setslot t' slot v) j = ((gafq_rawgeti t)(i := v)) j" if j: "j \<in> {- (2 ^ 31)..<2 ^ 31}" for j
    proof -
      have "\<bar>j\<bar> < 2 ^ 53" using j by auto
      then have "tget (setslot t' slot v) (TNumber (cast_num j)) =
          (if gafqO_rawequalObj (TNumber (cast_num i)) (TNumber (cast_num j)) then v else tget t (TNumber (cast_num j)))"
        using c p proper_num [of j] unfolding set_contract_def by (metis Pair_inject sum.inject(2) sum.simps(4))
      then show ?thesis using j i cast_num_eq_iff [OF i(3) \<open>\<bar>j\<bar> < 2 ^ 53\<close>] rawgeti_tget [OF inv j] rawgeti_tget [OF assms(1) j]
        by simp
    qed
    then show ?thesis using p inv by (simp add: gafq_rawseti_def)
  qed
qed

theorem rawseti_refines_witness:
  "gafq_rawseti empty_table 1 (TBoolean True) = Inl (RunError ''table overflow'') \<or>
   (\<exists>t'. gafq_rawseti empty_table 1 (TBoolean True) = Inr t' \<and> gafq_rawgeti t' 1 = TBoolean True)"
proof -
  have "table_inv empty_table" using empty_heap_ok by (simp add: heap_ok_def empty_heap_def)
  from rawseti_refines [OF this, of 1 "TBoolean True"] show ?thesis by auto
qed

end
