(* ===== verification/Func.thy ===== *)
theory Func
  imports Strings
begin

text \<open>
  Closures, upvalues and prototypes (\<open>gfunc.c\<close>).  The upvalues live in a heap of objects; an open upvalue
  points into the stack and is linked in two lists: the list of its thread, in order of decreasing
  level (\<open>openupval\<close>, through \<open>next\<close>), and the ring of all open upvalues (\<open>uvhead\<close>, through the
  links that share their memory with the value a closed upvalue has).  Levels are positions of the stack
  (\<open>StkId\<close>).  A read of a link of a closed upvalue gives the address 0.
\<close>

datatype uvloc = AtLevel nat | Own

datatype uvunion = UValue TValue | ULinks addr addr

record UpVal =
  uv_marked :: "8 word"
  uv_v :: uvloc
  uv_u :: uvunion
  uv_next :: "addr option"

record funcstate =
  uv_heap :: "addr \<Rightarrow> UpVal"
  uv_alloc :: "addr set"
  uvhead :: addr
  openupval :: "addr option"
  rootgc :: "addr option"
  fstack :: "TValue list"
  fwhite :: "8 word"
  fgcstate :: nat
  barriers :: "TValue list"

subsection \<open>Fields\<close>

definition lnext :: "(addr \<Rightarrow> UpVal) \<Rightarrow> addr \<Rightarrow> addr" where
  "lnext h a = (case uv_u (h a) of ULinks p n \<Rightarrow> n | UValue v \<Rightarrow> 0)"

definition lprev :: "(addr \<Rightarrow> UpVal) \<Rightarrow> addr \<Rightarrow> addr" where
  "lprev h a = (case uv_u (h a) of ULinks p n \<Rightarrow> p | UValue v \<Rightarrow> 0)"

definition set_lnext :: "(addr \<Rightarrow> UpVal) \<Rightarrow> addr \<Rightarrow> addr \<Rightarrow> addr \<Rightarrow> UpVal" where
  "set_lnext h a n = h(a := (h a)\<lparr>uv_u := ULinks (lprev h a) n\<rparr>)"

definition set_lprev :: "(addr \<Rightarrow> UpVal) \<Rightarrow> addr \<Rightarrow> addr \<Rightarrow> addr \<Rightarrow> UpVal" where
  "set_lprev h a p = h(a := (h a)\<lparr>uv_u := ULinks p (lnext h a)\<rparr>)"

text \<open>The value \<open>*uv->v\<close>.\<close>

definition uv_value :: "funcstate \<Rightarrow> addr \<Rightarrow> TValue" where
  "uv_value s a =
     (case uv_v (uv_heap s a) of
        AtLevel i \<Rightarrow> fstack s ! i
      | Own \<Rightarrow> (case uv_u (uv_heap s a) of UValue v \<Rightarrow> v | ULinks p n \<Rightarrow> TNil))"

subsection \<open>Mark bits\<close>

definition BLACKBIT :: nat where "BLACKBIT = 2"

definition GCSpropagate :: nat where "GCSpropagate = 1"

definition isgray :: "8 word \<Rightarrow> bool" where
  "isgray m \<longleftrightarrow> m AND push_bit BLACKBIT 1 = 0 \<and> m AND WHITEBITS = 0"

definition gray2black :: "8 word \<Rightarrow> 8 word" where
  "gray2black m = m OR push_bit BLACKBIT 1"

definition maskmarks :: "8 word" where
  "maskmarks = NOT (push_bit BLACKBIT 1 OR WHITEBITS)"

definition makewhite :: "8 word \<Rightarrow> 8 word \<Rightarrow> 8 word" where
  "makewhite white m = (m AND maskmarks) OR gafqC_white white"

subsection \<open>New objects\<close>

definition gafqF_newupval :: "addr option \<Rightarrow> funcstate \<Rightarrow> (addr \<times> funcstate) res" where
  "gafqF_newupval mem s =
     (case mem of
        None \<Rightarrow> Inl MemError
      | Some a \<Rightarrow>
          Inr (a, s\<lparr>uv_heap := (uv_heap s)(a := \<lparr>uv_marked = gafqC_white (fwhite s), uv_v = Own, uv_u = UValue TNil,
                                             uv_next = rootgc s\<rparr>),
                   uv_alloc := insert a (uv_alloc s), rootgc := Some a\<rparr>))"

text \<open>A closure: the tag \<open>isC\<close>, the environment, the number of upvalues as a byte, and what its places hold.\<close>

datatype Closure =
    CClosure (cl_env: addr) (cl_nupvalues: "8 word") (cl_upvalue: "TValue list")
  | LClosure (cl_env: addr) (cl_nupvalues: "8 word") (cl_upvals: "addr option list")

definition gafqF_newCclosure :: "nat \<Rightarrow> addr \<Rightarrow> TValue list \<Rightarrow> Closure" where
  "gafqF_newCclosure nelems e mem = CClosure e (of_nat nelems) (take nelems mem)"

definition gafqF_newLclosure :: "nat \<Rightarrow> addr \<Rightarrow> Closure" where
  "gafqF_newLclosure nelems e = LClosure e (of_nat nelems) (replicate nelems None)"

definition sizeCclosure :: "int \<Rightarrow> int" where
  "sizeCclosure n = 56 + 16 * (n - 1)"

definition sizeLclosure :: "int \<Rightarrow> int" where
  "sizeLclosure n = 48 + 8 * (n - 1)"

text \<open>The size that \<open>gafqF_freeclosure\<close> gives back.\<close>

fun gafqF_freeclosure :: "Closure \<Rightarrow> int" where
  "gafqF_freeclosure (CClosure e n vs) = sizeCclosure (uint n)"
| "gafqF_freeclosure (LClosure e n us) = sizeLclosure (uint n)"

definition gafqF_newproto :: Proto where
  "gafqF_newproto = Proto [] [] [] [] [] [] None 0 0 0 0 0 0"

subsection \<open>Finding an upvalue\<close>

datatype walk = Found addr | Place "addr option" "addr option"

text \<open>
  The walk down the list of open upvalues: \<open>prev\<close> is the upvalue whose \<open>next\<close> field \<open>pp\<close> points to, or none when it
  points to \<open>L->openupval\<close>; \<open>cur\<close> is \<open>*pp\<close>.
\<close>

fun find_walk :: "nat \<Rightarrow> (addr \<Rightarrow> UpVal) \<Rightarrow> addr option \<Rightarrow> addr option \<Rightarrow> nat \<Rightarrow> walk res" where
  "find_walk n h prev None level = Inr (Place prev None)"
| "find_walk 0 h prev (Some p) level = Inl OutOfFuel"
| "find_walk (Suc n) h prev (Some p) level =
     (case uv_v (h p) of
        Own \<Rightarrow> Inl (Undefined ''closed upvalue in the open list'')
      | AtLevel i \<Rightarrow>
          if level \<le> i then
            if i = level then Inr (Found p) else find_walk n h (Some p) (uv_next (h p)) level
          else Inr (Place prev (Some p)))"

definition set_link :: "addr option \<Rightarrow> addr option \<Rightarrow> funcstate \<Rightarrow> funcstate" where
  "set_link prev v s =
     (case prev of
        None \<Rightarrow> s\<lparr>openupval := v\<rparr>
      | Some p \<Rightarrow> s\<lparr>uv_heap := (uv_heap s)(p := (uv_heap s p)\<lparr>uv_next := v\<rparr>)\<rparr>)"

text \<open>A new upvalue in the ring, after \<open>uvhead\<close>.\<close>

definition link_ring :: "(addr \<Rightarrow> UpVal) \<Rightarrow> addr \<Rightarrow> addr \<Rightarrow> addr \<Rightarrow> UpVal" where
  "link_ring h ring uv =
     (let h1 = set_lprev h uv ring;
          h2 = set_lnext h1 uv (lnext h1 ring);
          h3 = set_lprev h2 (lnext h2 uv) uv
      in set_lnext h3 ring uv)"

definition gafqF_findupval :: "nat \<Rightarrow> addr option \<Rightarrow> nat \<Rightarrow> funcstate \<Rightarrow> (addr \<times> funcstate) res" where
  "gafqF_findupval fuel mem level s =
     rbind (find_walk fuel (uv_heap s) None (openupval s) level) (\<lambda>w.
       case w of
         Found p \<Rightarrow>
           Inr (p, if isdead (fwhite s) (uv_marked (uv_heap s p))
                   then s\<lparr>uv_heap := (uv_heap s)(p := (uv_heap s p)\<lparr>uv_marked := changewhite (uv_marked (uv_heap s p))\<rparr>)\<rparr>
                   else s)
       | Place prev cur \<Rightarrow>
           (case mem of
              None \<Rightarrow> Inl MemError
            | Some uv \<Rightarrow>
                (let new = \<lparr>uv_marked = gafqC_white (fwhite s), uv_v = AtLevel level, uv_u = uv_u (uv_heap s uv), uv_next = cur\<rparr>;
                     s1 = s\<lparr>uv_heap := (uv_heap s)(uv := new), uv_alloc := insert uv (uv_alloc s)\<rparr>;
                     s2 = set_link prev (Some uv) s1
                 in Inr (uv, s2\<lparr>uv_heap := link_ring (uv_heap s2) (uvhead s) uv\<rparr>))))"

subsection \<open>Closing\<close>

definition unlinkupval :: "(addr \<Rightarrow> UpVal) \<Rightarrow> addr \<Rightarrow> addr \<Rightarrow> UpVal" where
  "unlinkupval h uv =
     (let h1 = set_lprev h (lnext h uv) (lprev h uv)
      in set_lnext h1 (lprev h1 uv) (lnext h1 uv))"

definition gafqF_freeupval :: "addr \<Rightarrow> funcstate \<Rightarrow> funcstate" where
  "gafqF_freeupval uv s =
     (let s1 = (if uv_v (uv_heap s uv) \<noteq> Own then s\<lparr>uv_heap := unlinkupval (uv_heap s) uv\<rparr> else s)
      in s1\<lparr>uv_alloc := uv_alloc s1 - {uv}\<rparr>)"

text \<open>The barrier that \<open>gafqC_linkupval\<close> raises for a black upvalue is recorded with the value it protects.\<close>

definition gafqC_linkupval :: "addr \<Rightarrow> funcstate \<Rightarrow> funcstate" where
  "gafqC_linkupval uv s =
     (let m = uv_marked (uv_heap s uv);
          s1 = s\<lparr>uv_heap := (uv_heap s)(uv := (uv_heap s uv)\<lparr>uv_next := rootgc s\<rparr>), rootgc := Some uv\<rparr>;
          mark = (\<lambda>m s. s\<lparr>uv_heap := (uv_heap s)(uv := (uv_heap s uv)\<lparr>uv_marked := m\<rparr>)\<rparr>)
      in if isgray m then
           if fgcstate s = GCSpropagate
           then mark (gray2black m) (s1\<lparr>barriers := uv_value s1 uv # barriers s1\<rparr>)
           else mark (makewhite (fwhite s) m) s1
         else s1)"

definition close_one :: "addr \<Rightarrow> nat \<Rightarrow> funcstate \<Rightarrow> funcstate" where
  "close_one uv i s =
     (let s1 = s\<lparr>openupval := uv_next (uv_heap s uv)\<rparr>
      in if isdead (fwhite s1) (uv_marked (uv_heap s1 uv)) then gafqF_freeupval uv s1
         else
           let h = unlinkupval (uv_heap s1) uv;
               h' = h(uv := (h uv)\<lparr>uv_u := UValue (fstack s1 ! i), uv_v := Own\<rparr>)
           in gafqC_linkupval uv (s1\<lparr>uv_heap := h'\<rparr>))"

fun gafqF_close :: "nat \<Rightarrow> nat \<Rightarrow> funcstate \<Rightarrow> funcstate res" where
  "gafqF_close 0 level s = (if openupval s = None then Inr s else Inl OutOfFuel)"
| "gafqF_close (Suc n) level s =
     (case openupval s of
        None \<Rightarrow> Inr s
      | Some uv \<Rightarrow>
          (case uv_v (uv_heap s uv) of
             Own \<Rightarrow> Inl (Undefined ''closed upvalue in the open list'')
           | AtLevel i \<Rightarrow> if level \<le> i then gafqF_close n level (close_one uv i s) else Inr s))"

subsection \<open>Local variables\<close>

fun localname_loop :: "LocVar list \<Rightarrow> int \<Rightarrow> int \<Rightarrow> string option" where
  "localname_loop [] local_number pc = None"
| "localname_loop (v # vs) local_number pc =
     (if startpc v \<le> pc then
        if pc < endpc v then
          if local_number - 1 = 0 then varname v else localname_loop vs (local_number - 1) pc
        else localname_loop vs local_number pc
      else None)"

definition gafqF_getlocalname :: "Proto \<Rightarrow> int \<Rightarrow> int \<Rightarrow> string option" where
  "gafqF_getlocalname f local_number pc = localname_loop (p_locvars f) local_number pc"

end
