(* ===== verification/Func_Props.thy ===== *)
theory Func_Props
  imports Func
begin

text \<open>
  Upvalues: the list of open upvalues implements a finite map from levels of the stack to upvalues.
  \<open>func_inv\<close> is the invariant of the two lists; \<open>gafqF_findupval\<close> and \<open>gafqF_close\<close> keep it and
  act on the map as an insertion of an absent level and a restriction to the levels below; the value seen through an upvalue
  does not change when it is closed.
\<close>

subsection \<open>Linked lists in the heap\<close>

fun ulist :: "(addr \<Rightarrow> UpVal) \<Rightarrow> addr option \<Rightarrow> addr list \<Rightarrow> bool" where
  "ulist h p [] \<longleftrightarrow> p = None"
| "ulist h p (a # as) \<longleftrightarrow> p = Some a \<and> ulist h (uv_next (h a)) as"

fun dseg :: "(addr \<Rightarrow> addr) \<Rightarrow> (addr \<Rightarrow> addr) \<Rightarrow> addr \<Rightarrow> addr list \<Rightarrow> addr \<Rightarrow> bool" where
  "dseg nx pv p [] q \<longleftrightarrow> nx p = q \<and> pv q = p"
| "dseg nx pv p (x # xs) q \<longleftrightarrow> nx p = x \<and> pv x = p \<and> dseg nx pv x xs q"

lemma ulist_cong: "(\<And>a. a \<in> set as \<Longrightarrow> uv_next (h' a) = uv_next (h a)) \<Longrightarrow> ulist h' p as = ulist h p as"
  by (induction as arbitrary: p) auto

lemma dseg_append: "dseg nx pv p (xs @ x # ys) q \<longleftrightarrow> dseg nx pv p xs x \<and> dseg nx pv x ys q"
  by (induction xs arbitrary: p) auto

lemma dseg_nx: "a \<notin> set (p # xs) \<Longrightarrow> dseg (nx(a := n)) pv p xs q = dseg nx pv p xs q"
  by (induction xs arbitrary: p) auto

lemma dseg_pv: "b \<notin> set xs \<Longrightarrow> b \<noteq> q \<Longrightarrow> dseg nx (pv(b := m)) p xs q = dseg nx pv p xs q"
  by (induction xs arbitrary: p) auto

lemmas dseg_frame = dseg_nx dseg_pv

lemma ring_insert:
  assumes "dseg nx pv r xs r" "distinct (r # xs)" "a \<notin> set (r # xs)"
  shows "dseg (nx(a := nx r, r := a)) (pv(a := r, nx r := a)) r (a # xs) r"
proof (cases xs)
  case Nil
  then show ?thesis using assms by auto
next
  case (Cons x ys)
  then have "dseg (nx(a := nx r, r := a)) (pv(a := r, nx r := a)) x ys r"
    using assms by (auto simp: dseg_frame)
  then show ?thesis using Cons assms by auto
qed

lemma ring_remove:
  assumes "dseg nx pv r (xs @ a # ys) r" "distinct (r # xs @ a # ys)"
  shows "dseg (nx(pv a := nx a)) (pv(nx a := pv a)) r (xs @ ys) r"
proof -
  have d: "dseg nx pv r xs a" "dseg nx pv a ys r" using assms(1) by (simp_all add: dseg_append)
  show ?thesis
  proof (cases xs rule: rev_cases)
    case Nil
    then show ?thesis using d assms(2) by (cases ys) (auto simp: dseg_frame)
  next
    case (snoc us u)
    have u: "dseg nx pv r us u" "nx u = a" "pv a = u" using d(1) snoc by (simp_all add: dseg_append)
    show ?thesis
    proof (cases ys)
      case Nil
      then show ?thesis using d(2) u assms(2) snoc by (auto simp: dseg_frame dseg_append)
    next
      case (Cons y vs)
      then show ?thesis using d(2) u assms(2) snoc by (auto simp: dseg_frame dseg_append)
    qed
  qed
qed

subsection \<open>Fields after updates\<close>

lemma set_lnext_simps [simp]:
  "lnext (set_lnext h a n) = (lnext h)(a := n)" "lprev (set_lnext h a n) = lprev h"
  "uv_v (set_lnext h a n b) = uv_v (h b)" "uv_next (set_lnext h a n b) = uv_next (h b)"
  "uv_marked (set_lnext h a n b) = uv_marked (h b)"
  by (auto simp: set_lnext_def lnext_def lprev_def fun_eq_iff)

lemma set_lprev_simps [simp]:
  "lprev (set_lprev h a n) = (lprev h)(a := n)" "lnext (set_lprev h a n) = lnext h"
  "uv_v (set_lprev h a n b) = uv_v (h b)" "uv_next (set_lprev h a n b) = uv_next (h b)"
  "uv_marked (set_lprev h a n b) = uv_marked (h b)"
  by (auto simp: set_lprev_def lnext_def lprev_def fun_eq_iff)

definition is_links :: "UpVal \<Rightarrow> bool" where
  "is_links u \<longleftrightarrow> (\<exists>p n. uv_u u = ULinks p n)"

lemma is_links_set [simp]:
  "is_links (set_lnext h a n b) \<longleftrightarrow> b = a \<or> is_links (h b)" "is_links (set_lprev h a n b) \<longleftrightarrow> b = a \<or> is_links (h b)"
  by (auto simp: is_links_def set_lnext_def set_lprev_def)

lemma value_set_l [simp]:
  "b \<noteq> a \<Longrightarrow> set_lnext h a n b = h b" "b \<noteq> a \<Longrightarrow> set_lprev h a n b = h b"
  by (simp_all add: set_lnext_def set_lprev_def)

lemma link_ring_simps:
  assumes "uv \<noteq> r"
  shows "lnext (link_ring h r uv) = (lnext h)(uv := lnext h r, r := uv)"
    "lprev (link_ring h r uv) = (lprev h)(uv := r, lnext h r := uv)"
    "uv_v (link_ring h r uv b) = uv_v (h b)" "uv_next (link_ring h r uv b) = uv_next (h b)"
    "uv_marked (link_ring h r uv b) = uv_marked (h b)"
  using assms by (simp_all add: link_ring_def Let_def)

lemma unlink_simps:
  assumes "lnext h uv \<noteq> uv"
  shows "lnext (unlinkupval h uv) = (lnext h)(lprev h uv := lnext h uv)"
    "lprev (unlinkupval h uv) = (lprev h)(lnext h uv := lprev h uv)"
    "uv_v (unlinkupval h uv b) = uv_v (h b)" "uv_next (unlinkupval h uv b) = uv_next (h b)"
    "uv_marked (unlinkupval h uv b) = uv_marked (h b)"
  using assms by (auto simp: unlinkupval_def Let_def)

subsection \<open>The invariant\<close>

definition level :: "(addr \<Rightarrow> UpVal) \<Rightarrow> addr \<Rightarrow> nat" where
  "level h a = (case uv_v (h a) of AtLevel i \<Rightarrow> i | Own \<Rightarrow> 0)"

definition func_inv :: "funcstate \<Rightarrow> addr list \<Rightarrow> addr list \<Rightarrow> bool" where
  "func_inv s as ring \<longleftrightarrow>
     ulist (uv_heap s) (openupval s) as \<and> sorted_wrt (\<lambda>a b. level (uv_heap s) a > level (uv_heap s) b) as \<and>
     (\<forall>a\<in>set as. \<exists>i < length (fstack s). uv_v (uv_heap s a) = AtLevel i) \<and>
     dseg (lnext (uv_heap s)) (lprev (uv_heap s)) (uvhead s) ring (uvhead s) \<and> distinct (uvhead s # ring) \<and>
     (\<forall>a\<in>set (uvhead s # ring). is_links (uv_heap s a)) \<and> set as \<subseteq> set ring \<and> set ring \<subseteq> uv_alloc s \<and>
     uvhead s \<notin> uv_alloc s \<and> (\<forall>a\<in>uv_alloc s. uv_v (uv_heap s a) = Own \<longrightarrow> \<not> is_links (uv_heap s a))"

text \<open>The map that the list of open upvalues represents.\<close>

definition open_map :: "funcstate \<Rightarrow> addr list \<Rightarrow> nat \<Rightarrow> addr option" where
  "open_map s as = map_of (map (\<lambda>a. (level (uv_heap s) a, a)) as)"

lemma dseg_cong:
  "(\<And>a. a \<in> set (p # xs) \<Longrightarrow> nx' a = nx a) \<Longrightarrow> (\<And>a. a \<in> set (xs @ [q]) \<Longrightarrow> pv' a = pv a) \<Longrightarrow>
   dseg nx' pv' p xs q = dseg nx pv p xs q"
  by (induction xs arbitrary: p) auto

lemma dseg_neighbours:
  assumes "dseg nx pv p xs q" "a \<in> set xs" shows "nx a \<in> insert q (set xs)" "pv a \<in> insert p (set xs)"
proof -
  obtain us vs where x: "xs = us @ a # vs" using assms(2) by (auto dest: split_list)
  have d: "dseg nx pv p us a" "dseg nx pv a vs q" using assms(1) by (simp_all add: x dseg_append)
  show "nx a \<in> insert q (set xs)" unfolding x using d(2) by (cases vs) auto
  show "pv a \<in> insert p (set xs)" unfolding x using d(1) by (cases us rule: rev_cases) (auto simp: dseg_append)
qed

lemma lnext_cong: "h a = h' a \<Longrightarrow> lnext h a = lnext h' a" and lprev_cong: "h a = h' a \<Longrightarrow> lprev h a = lprev h' a"
  by (simp_all add: lnext_def lprev_def)

lemma func_invD:
  assumes "func_inv s as ring"
  shows "ulist (uv_heap s) (openupval s) as" "sorted_wrt (\<lambda>a b. level (uv_heap s) a > level (uv_heap s) b) as"
    "\<And>a. a \<in> set as \<Longrightarrow> \<exists>i < length (fstack s). uv_v (uv_heap s a) = AtLevel i"
    "dseg (lnext (uv_heap s)) (lprev (uv_heap s)) (uvhead s) ring (uvhead s)" "distinct ring" "uvhead s \<notin> set ring"
    "\<And>a. a \<in> set ring \<Longrightarrow> is_links (uv_heap s a)" "is_links (uv_heap s (uvhead s))"
    "set as \<subseteq> set ring" "set ring \<subseteq> uv_alloc s" "uvhead s \<notin> uv_alloc s"
    "\<And>a. a \<in> uv_alloc s \<Longrightarrow> uv_v (uv_heap s a) = Own \<Longrightarrow> \<not> is_links (uv_heap s a)"
  using assms by (auto simp: func_inv_def)

lemma func_inv_distinct: "func_inv s as ring \<Longrightarrow> distinct as"
proof -
  assume "func_inv s as ring"
  then have "sorted_wrt (\<lambda>a b. level (uv_heap s) a > level (uv_heap s) b) as" by (rule func_invD)
  then show ?thesis by (induction as) auto
qed

text \<open>Whatever happens to the first open upvalue once it is taken out of the ring, the others stay linked.\<close>

lemma unlink_first:
  assumes inv: "func_inv s (a # as) ring" and same: "\<And>b. b \<noteq> a \<Longrightarrow> h' b = unlinkupval (uv_heap s) a b"
    and "alloc = uv_alloc s \<or> alloc = uv_alloc s - {a}" "a \<in> alloc \<Longrightarrow> uv_v (h' a) = Own \<and> \<not> is_links (h' a)"
    and s': "uv_heap s' = h'" "openupval s' = uv_next (uv_heap s a)" "uv_alloc s' = alloc" "uvhead s' = uvhead s" "fstack s' = fstack s"
  shows "func_inv s' as (remove1 a ring)"
    and "\<And>b. b \<noteq> a \<Longrightarrow> uv_v (h' b) = uv_v (uv_heap s b)"
    and "\<And>b. b \<in> uv_alloc s \<Longrightarrow> b \<noteq> a \<Longrightarrow> uv_value s' b = uv_value s b"
proof -
  let ?h = "uv_heap s" and ?r = "uvhead s"
  note D = func_invD [OF inv]
  have aring: "a \<in> set ring" using D(9) by simp
  obtain xs ys where ring: "ring = xs @ a # ys" "a \<notin> set xs" using split_list_first [OF aring] by blast
  have rem: "remove1 a ring = xs @ ys" using ring by (simp add: remove1_append)
  have nb: "lnext ?h a \<in> insert ?r (set ring)" "lprev ?h a \<in> insert ?r (set ring)" using dseg_neighbours [OF D(4) aring] .
  have na: "lnext ?h a \<noteq> a" using D(4,5,6) aring ring by (cases ys) (auto simp: dseg_append)
  note U = unlink_simps [OF na]
  have ar: "a \<noteq> ?r" using D(6) aring by auto
  have anot: "a \<notin> set (?r # xs @ ys)" using D(5,6) ring by auto
  show v: "uv_v (h' b) = uv_v (?h b)" if "b \<noteq> a" for b using same [OF that] U(3) by simp
  have nxt: "uv_next (h' b) = uv_next (?h b)" if "b \<noteq> a" for b using same [OF that] U(4) by simp
  have lev: "level h' b = level ?h b" if "b \<noteq> a" for b using v [OF that] by (simp add: level_def)
  have aas: "a \<notin> set as" using func_inv_distinct [OF inv] by simp
  have ne: "b \<noteq> a" if "b \<in> set as" for b using aas that by blast
  have links: "is_links (h' b)" if "is_links (?h b)" "b \<noteq> a" for b
    using same [OF that(2)] that(1) by (simp add: unlinkupval_def Let_def)
  have other: "h' b = ?h b" if "b \<noteq> a" "b \<notin> insert ?r (set ring)" for b
    using same [OF that(1)] nb that by (auto simp: unlinkupval_def Let_def set_lnext_def set_lprev_def lprev_def lnext_def)
  have open_ring: "b \<notin> insert ?r (set ring)" if "b \<in> uv_alloc s" "uv_v (?h b) = Own" for b
    using D(7,8,11,12) that by auto
  have seg: "dseg (lnext h') (lprev h') ?r (xs @ ys) ?r"
  proof -
    have "dseg (lnext (unlinkupval ?h a)) (lprev (unlinkupval ?h a)) ?r (xs @ ys) ?r"
      unfolding U(1,2) using ring_remove [of "lnext ?h" "lprev ?h" ?r xs a ys] D(4,5,6) ring by simp
    moreover have "lnext h' b = lnext (unlinkupval ?h a) b" "lprev h' b = lprev (unlinkupval ?h a) b" if "b \<noteq> a" for b
      using same [OF that] by (simp_all add: lnext_def lprev_def)
    moreover have "b \<noteq> a" if "b \<in> set (?r # xs @ ys) \<or> b \<in> set ((xs @ ys) @ [?r])" for b using that anot by auto
    ultimately show ?thesis
      using dseg_cong [of ?r "xs @ ys" "lnext h'" "lnext (unlinkupval ?h a)" ?r "lprev h'" "lprev (unlinkupval ?h a)"] by blast
  qed
  show "func_inv s' as (remove1 a ring)" unfolding func_inv_def s' rem
  proof (intro conjI)
    have "uv_next (h' b) = uv_next (?h b)" if "b \<in> set as" for b using nxt [of b] that aas by blast
    then show "ulist h' (uv_next (?h a)) as" using D(1) ulist_cong [of as h' ?h] by simp
    show "sorted_wrt (\<lambda>a b. level h' a > level h' b) as"
    proof (rule sorted_wrt_mono_rel [of as "\<lambda>a b. level ?h a > level ?h b"])
      show "level h' y < level h' x" if "x \<in> set as" "y \<in> set as" "level ?h y < level ?h x" for x y
        using lev [OF ne [OF that(1)]] lev [OF ne [OF that(2)]] that(3) by simp
    qed (use D(2) in simp)
    show "\<forall>b\<in>set as. \<exists>i<length (fstack s). uv_v (h' b) = AtLevel i" using D(3) v [OF ne] by simp
    show "distinct (?r # xs @ ys)" using D(5,6) ring by auto
    show "\<forall>b\<in>set (?r # xs @ ys). is_links (h' b)" using D(7,8) links anot ring by auto
    show "set as \<subseteq> set (xs @ ys)" using D(9) aas ring by auto
    show "set (xs @ ys) \<subseteq> alloc" using D(10) assms(3) anot ring by auto
    show "?r \<notin> alloc" using D(11) assms(3) by auto
    show "\<forall>b\<in>alloc. uv_v (h' b) = Own \<longrightarrow> \<not> is_links (h' b)"
    proof (intro ballI impI)
      fix b assume b: "b \<in> alloc" "uv_v (h' b) = Own"
      show "\<not> is_links (h' b)"
      proof (cases "b = a")
        case False
        then have "b \<in> uv_alloc s" "uv_v (?h b) = Own" using b assms(3) v by auto
        then show ?thesis using other [OF False] open_ring D(12) by auto
      qed (use assms(4) b in auto)
    qed
  qed (use seg in auto)
  show "uv_value s' b = uv_value s b" if "b \<in> uv_alloc s" "b \<noteq> a" for b
  proof (cases "uv_v (?h b)")
    case (AtLevel i)
    then show ?thesis using v [OF that(2)] s' by (simp add: uv_value_def)
  next
    case Own
    then show ?thesis using other [OF that(2) open_ring [OF that(1) Own]] s' by (simp add: uv_value_def)
  qed
qed

subsection \<open>Closing\<close>

lemma linkupval_simps:
  "b \<noteq> a \<Longrightarrow> uv_heap (gafqC_linkupval a s) b = uv_heap s b"
  "uv_v (uv_heap (gafqC_linkupval a s) a) = uv_v (uv_heap s a)" "uv_u (uv_heap (gafqC_linkupval a s) a) = uv_u (uv_heap s a)"
  "openupval (gafqC_linkupval a s) = openupval s" "uv_alloc (gafqC_linkupval a s) = uv_alloc s"
  "uvhead (gafqC_linkupval a s) = uvhead s" "fstack (gafqC_linkupval a s) = fstack s" "fwhite (gafqC_linkupval a s) = fwhite s"
  by (simp_all add: gafqC_linkupval_def Let_def)

lemma close_one_frame:
  "uvhead (close_one a i s) = uvhead s" "fstack (close_one a i s) = fstack s" "fwhite (close_one a i s) = fwhite s"
  "openupval (close_one a i s) = uv_next (uv_heap s a)"
  by (auto simp: close_one_def Let_def gafqF_freeupval_def linkupval_simps)

lemma close_one_heap:
  assumes "b \<noteq> a" "uv_v (uv_heap s a) = AtLevel i" shows "uv_heap (close_one a i s) b = unlinkupval (uv_heap s) a b"
  using assms by (auto simp: close_one_def Let_def gafqF_freeupval_def linkupval_simps)

lemma close_one_marked:
  assumes "b \<noteq> a" "uv_v (uv_heap s a) = AtLevel i" shows "uv_marked (uv_heap (close_one a i s) b) = uv_marked (uv_heap s b)"
  using close_one_heap [OF assms] by (simp add: unlinkupval_def Let_def)

lemma close_one_alloc:
  "uv_alloc (close_one a i s) = (if isdead (fwhite s) (uv_marked (uv_heap s a)) then uv_alloc s - {a} else uv_alloc s)"
  by (auto simp: close_one_def Let_def gafqF_freeupval_def linkupval_simps)

lemma close_one_closed:
  assumes "\<not> isdead (fwhite s) (uv_marked (uv_heap s a))"
  shows "uv_v (uv_heap (close_one a i s) a) = Own" "uv_u (uv_heap (close_one a i s) a) = UValue (fstack s ! i)"
  using assms by (simp_all add: close_one_def Let_def linkupval_simps)

lemma close_one_ok:
  assumes "func_inv s (a # as) ring" "uv_v (uv_heap s a) = AtLevel i"
  shows "func_inv (close_one a i s) as (remove1 a ring)"
    and "\<And>b. b \<in> uv_alloc (close_one a i s) \<Longrightarrow> uv_value (close_one a i s) b = uv_value s b"
    and "\<And>b. b \<noteq> a \<Longrightarrow> uv_v (uv_heap (close_one a i s) b) = uv_v (uv_heap s b)"
proof -
  have u: "uv_alloc (close_one a i s) = uv_alloc s \<or> uv_alloc (close_one a i s) = uv_alloc s - {a}"
    by (simp add: close_one_alloc)
  have c: "uv_v (uv_heap (close_one a i s) a) = Own \<and> \<not> is_links (uv_heap (close_one a i s) a)" if "a \<in> uv_alloc (close_one a i s)"
  proof -
    have "\<not> isdead (fwhite s) (uv_marked (uv_heap s a))" using that by (auto simp: close_one_alloc split: if_splits)
    from close_one_closed [OF this, of i] show ?thesis by (simp add: is_links_def)
  qed
  note U = unlink_first [OF assms(1) close_one_heap [OF _ assms(2)] u c refl close_one_frame(4) refl close_one_frame(1,2)]
  show "func_inv (close_one a i s) as (remove1 a ring)" by (rule U(1))
  show "uv_v (uv_heap (close_one a i s) b) = uv_v (uv_heap s b)" if "b \<noteq> a" for b using U(2) that by blast
  show "uv_value (close_one a i s) b = uv_value s b" if b: "b \<in> uv_alloc (close_one a i s)" for b
  proof (cases "b = a")
    case True
    then have "\<not> isdead (fwhite s) (uv_marked (uv_heap s a))" using b by (auto simp: close_one_alloc split: if_splits)
    then show ?thesis using True close_one_closed [of s a i] assms(2) by (simp add: uv_value_def)
  next
    case False
    then show ?thesis using U(3) b by (auto simp: close_one_alloc split: if_splits)
  qed
qed

lemma level_AtLevel: "uv_v (h a) = AtLevel i \<Longrightarrow> level h a = i"
  by (simp add: level_def)

lemma gafqF_close_ok:
  "func_inv s as ring \<Longrightarrow> length as \<le> n \<Longrightarrow>
   \<exists>s' ring'. gafqF_close n lvl s = Inr s' \<and> func_inv s' (dropWhile (\<lambda>a. lvl \<le> level (uv_heap s) a) as) ring' \<and>
     fstack s' = fstack s \<and>
     uv_alloc s' = uv_alloc s - {b \<in> set (takeWhile (\<lambda>a. lvl \<le> level (uv_heap s) a) as). isdead (fwhite s) (uv_marked (uv_heap s b))} \<and> (\<forall>b\<in>uv_alloc s'. uv_value s' b = uv_value s b) \<and>
     (\<forall>b. b \<notin> set (takeWhile (\<lambda>a. lvl \<le> level (uv_heap s) a) as) \<longrightarrow> uv_v (uv_heap s' b) = uv_v (uv_heap s b)) \<and>
     (\<forall>b\<in>set (takeWhile (\<lambda>a. lvl \<le> level (uv_heap s) a) as). b \<in> uv_alloc s' \<longrightarrow> uv_v (uv_heap s' b) = Own)"
proof (induction as arbitrary: s ring n)
  case Nil
  then have "openupval s = None" by (simp add: func_inv_def)
  then show ?case using Nil by (cases n) auto
next
  case (Cons a as)
  obtain m where n: "n = Suc m" "length as \<le> m" using Cons.prems(2) by (cases n) auto
  obtain i where i: "uv_v (uv_heap s a) = AtLevel i" "openupval s = Some a"
    using func_invD(1,3) [OF Cons.prems(1)] by auto
  have l: "level (uv_heap s) a = i" using i(1) by (rule level_AtLevel)
  show ?case
  proof (cases "lvl \<le> i")
    case False
    then show ?thesis using Cons.prems(1) i n l by auto
  next
    case True
    let ?s = "close_one a i s" and ?P = "\<lambda>b. lvl \<le> level (uv_heap s) b"
    note C = close_one_ok [OF Cons.prems(1) i(1)]
    have d: "a \<notin> set as" using func_inv_distinct [OF Cons.prems(1)] by simp
    have lev: "level (uv_heap ?s) b = level (uv_heap s) b" if "b \<in> set as" for b
      using C(3) [of b] that d by (cases "b = a") (auto simp: level_def)
    have tw: "takeWhile (\<lambda>b. lvl \<le> level (uv_heap ?s) b) as = takeWhile ?P as" "dropWhile (\<lambda>b. lvl \<le> level (uv_heap ?s) b) as = dropWhile ?P as"
      using lev by (auto intro: takeWhile_cong dropWhile_cong)
    have cl: "gafqF_close n lvl s = gafqF_close m lvl ?s" using i True n by simp
    obtain s' ring' where s': "gafqF_close m lvl ?s = Inr s'" "func_inv s' (dropWhile ?P as) ring'" "fstack s' = fstack s"
        "uv_alloc s' = uv_alloc ?s - {b \<in> set (takeWhile ?P as). isdead (fwhite s) (uv_marked (uv_heap ?s b))}" "\<forall>b\<in>uv_alloc s'. uv_value s' b = uv_value ?s b"
        "\<forall>b. b \<notin> set (takeWhile ?P as) \<longrightarrow> uv_v (uv_heap s' b) = uv_v (uv_heap ?s b)"
        "\<forall>b\<in>set (takeWhile ?P as). b \<in> uv_alloc s' \<longrightarrow> uv_v (uv_heap s' b) = Own"
      using Cons.IH [OF C(1) n(2)] unfolding tw close_one_frame by blast
    have mk: "uv_marked (uv_heap ?s b) = uv_marked (uv_heap s b)" if "b \<in> set (takeWhile ?P as)" for b
      using close_one_marked [OF _ i(1), of b] that d set_takeWhileD by metis
    have "uv_alloc ?s = uv_alloc s - {b. b = a \<and> isdead (fwhite s) (uv_marked (uv_heap s b))}" by (auto simp: close_one_alloc)
    then have al: "uv_alloc s' = uv_alloc s - {b \<in> set (takeWhile ?P (a # as)). isdead (fwhite s) (uv_marked (uv_heap s b))}"
      using s'(4) mk True l by auto
    have "a \<notin> set (takeWhile ?P as)" using d set_takeWhileD by fastforce
    then have "uv_v (uv_heap s' a) = Own" if "a \<in> uv_alloc s'"
      using s'(4,6) that close_one_closed(1) [of s a i] by (auto simp: close_one_alloc split: if_splits)
    moreover have "uv_v (uv_heap s' b) = uv_v (uv_heap s b)" if "b \<notin> set (takeWhile ?P (a # as))" for b
      using that True l s'(6) C(3) [of b] by auto
    moreover have "uv_value s' b = uv_value s b" if "b \<in> uv_alloc s'" for b using s'(4,5) C(2) that by auto
    ultimately show ?thesis using s'(1-3,7) al cl l True by (intro exI [of _ s'] exI [of _ ring']) auto
  qed
qed

subsection \<open>Finding\<close>

definition link_of :: "addr list \<Rightarrow> addr option" where
  "link_of as = (case as of [] \<Rightarrow> None | a # _ \<Rightarrow> Some a)"

lemma find_walk_ok:
  "ulist h p vs \<Longrightarrow> sorted_wrt (\<lambda>a b. level h a > level h b) vs \<Longrightarrow> \<forall>a\<in>set vs. \<exists>i. uv_v (h a) = AtLevel i \<Longrightarrow> length vs \<le> n \<Longrightarrow>
   (\<exists>a\<in>set vs. level h a = lvl \<and> find_walk n h prev p lvl = Inr (Found a)) \<or>
   (\<exists>us ws. vs = us @ ws \<and> (\<forall>a\<in>set us. lvl < level h a) \<and> (\<forall>a\<in>set ws. level h a < lvl) \<and>
      find_walk n h prev p lvl = Inr (Place (if us = [] then prev else Some (last us)) (link_of ws)))"
proof (induction vs arbitrary: p prev n)
  case Nil
  then show ?case by (simp add: link_of_def)
next
  case (Cons a vs)
  obtain m where n: "n = Suc m" "length vs \<le> m" using Cons.prems(4) by (cases n) auto
  obtain i where i: "uv_v (h a) = AtLevel i" using Cons.prems(3) by auto
  have l: "level h a = i" using i by (rule level_AtLevel)
  have p: "p = Some a" "ulist h (uv_next (h a)) vs" using Cons.prems(1) by simp_all
  consider "i = lvl" | "i < lvl" | "lvl < i" by linarith
  then show ?case
  proof cases
    case 1
    then show ?thesis using n i l p by auto
  next
    case 2
    have "\<forall>b\<in>set (a # vs). level h b < lvl" using Cons.prems(2) 2 l by auto
    moreover have "find_walk n h prev p lvl = Inr (Place prev (link_of (a # vs)))" using n i p 2 by (simp add: link_of_def)
    ultimately show ?thesis by (intro disjI2 exI [of _ "[]"] exI [of _ "a # vs"]) simp
  next
    case 3
    then have w: "find_walk n h prev p lvl = find_walk m h (Some a) (uv_next (h a)) lvl" using n i p by simp
    from Cons.IH [OF p(2) _ _ n(2), of "Some a"] Cons.prems(2,3)
    consider b where "b \<in> set vs" "level h b = lvl" "find_walk m h (Some a) (uv_next (h a)) lvl = Inr (Found b)"
      | us ws where "vs = us @ ws" "\<forall>a\<in>set us. lvl < level h a" "\<forall>a\<in>set ws. level h a < lvl"
        "find_walk m h (Some a) (uv_next (h a)) lvl = Inr (Place (if us = [] then Some a else Some (last us)) (link_of ws))" by auto
    then show ?thesis
    proof cases
      case 1
      then show ?thesis using w by auto
    next
      case (2 us ws)
      then show ?thesis using w 3 l by (intro disjI2 exI [of _ "a # us"] exI [of _ ws]) auto
    qed
  qed
qed

lemma ulist_insert:
  "ulist h p (us @ ws) \<Longrightarrow> distinct (us @ ws) \<Longrightarrow> uv \<notin> set (us @ ws) \<Longrightarrow> uv_next (h' uv) = link_of ws \<Longrightarrow>
   (\<And>a. a \<in> set (us @ ws) \<Longrightarrow> uv_next (h' a) = (if us \<noteq> [] \<and> a = last us then Some uv else uv_next (h a))) \<Longrightarrow>
   ulist h' (if us = [] then Some uv else p) (us @ uv # ws)"
proof (induction us arbitrary: p)
  case Nil
  have "ulist h' (link_of ws) ws = ulist h (link_of ws) ws" using Nil by (intro ulist_cong) simp
  moreover have "p = link_of ws" using Nil.prems(1) by (cases ws) (auto simp: link_of_def)
  ultimately show ?case using Nil by simp
next
  case (Cons u us)
  have u: "p = Some u" "ulist h (uv_next (h u)) (us @ ws)" using Cons.prems(1) by simp_all
  have "ulist h' (if us = [] then Some uv else uv_next (h u)) (us @ uv # ws)"
    using Cons.prems u by (intro Cons.IH) auto
  moreover have "uv_next (h' u) = (if us = [] then Some uv else uv_next (h u))"
    using Cons.prems(2,5) last_in_set [of us] by auto
  ultimately show ?case using u by simp
qed

lemma map_of_insert: "l \<notin> fst ` set xs \<Longrightarrow> map_of (xs @ (l, v) # ys) = (map_of (xs @ ys))(l \<mapsto> v)"
  by (induction xs) (auto simp: fun_eq_iff)

lemma map_of_level: "distinct as \<Longrightarrow> a \<in> set as \<Longrightarrow> inj_on (level h) (set as) \<Longrightarrow> map_of (map (\<lambda>a. (level h a, a)) as) (level h a) = Some a"
  by (simp add: distinct_map map_of_eq_Some_iff o_def comp_inj_on_iff)

lemma sorted_levels_inj: "sorted_wrt (\<lambda>a b. level h a > level h b) as \<Longrightarrow> inj_on (level h) (set as)"
  by (induction as) auto

lemma set_link_simps:
  "uv_heap (set_link prev v s) = (case prev of None \<Rightarrow> uv_heap s | Some p \<Rightarrow> (uv_heap s)(p := (uv_heap s p)\<lparr>uv_next := v\<rparr>))"
  "openupval (set_link prev v s) = (case prev of None \<Rightarrow> v | Some p \<Rightarrow> openupval s)"
  "uv_alloc (set_link prev v s) = uv_alloc s" "uvhead (set_link prev v s) = uvhead s" "fstack (set_link prev v s) = fstack s"
  "fwhite (set_link prev v s) = fwhite s"
  by (auto simp: set_link_def split: option.splits)

lemma insert_upvalue:
  assumes inv: "func_inv s (us @ ws) ring" and lv: "\<forall>a\<in>set us. lvl < level (uv_heap s) a" "\<forall>a\<in>set ws. level (uv_heap s) a < lvl"
    and new: "uv \<notin> uv_alloc s" "uv \<noteq> uvhead s" and stk: "lvl < length (fstack s)"
    and s1: "s1 = s\<lparr>uv_heap := (uv_heap s)(uv := \<lparr>uv_marked = m, uv_v = AtLevel lvl, uv_u = uv_u (uv_heap s uv), uv_next = link_of ws\<rparr>),
      uv_alloc := insert uv (uv_alloc s)\<rparr>"
    and s2: "s2 = set_link (if us = [] then None else Some (last us)) (Some uv) s1"
    and s': "s' = s2\<lparr>uv_heap := link_ring (uv_heap s2) (uvhead s) uv\<rparr>"
  shows "func_inv s' (us @ uv # ws) (uv # ring)" "open_map s' (us @ uv # ws) = (open_map s (us @ ws))(lvl \<mapsto> uv)"
    "\<And>b. b \<in> uv_alloc s \<Longrightarrow> uv_value s' b = uv_value s b" "fstack s' = fstack s"
proof -
  note D = func_invD [OF inv]
  let ?h = "uv_heap s" and ?H = "uv_heap s'" and ?h2 = "uv_heap s2" and ?r = "uvhead s"
  have uvr: "uv \<notin> set (?r # ring)" using D(10) new by auto
  have uva: "uv \<notin> set (us @ ws)" using D(9,10) new by auto
  have other: "?h2 b = (if us \<noteq> [] \<and> b = last us then (?h b)\<lparr>uv_next := Some uv\<rparr> else ?h b)" if "b \<noteq> uv" for b
    using that by (auto simp: s2 s1 set_link_simps)
  have self: "uv_v (?h2 uv) = AtLevel lvl" "uv_next (?h2 uv) = link_of ws" "uv_u (?h2 uv) = uv_u (?h uv)"
    using uva by (auto simp: s2 s1 set_link_simps)
  have u2: "uv_u (?h2 b) = uv_u (?h b)" for b using other [of b] self by (cases "b = uv") auto
  have ln: "lnext ?h2 = lnext ?h" "lprev ?h2 = lprev ?h" by (simp_all add: fun_eq_iff lnext_def lprev_def u2)
  have L: "lnext ?H = (lnext ?h)(uv := lnext ?h ?r, ?r := uv)" "lprev ?H = (lprev ?h)(uv := ?r, lnext ?h ?r := uv)"
    "uv_v (?H b) = uv_v (?h2 b)" "uv_next (?H b) = uv_next (?h2 b)" for b
    using link_ring_simps [OF new(2), of ?h2] by (simp_all add: s' ln)
  have vH: "uv_v (?H b) = (if b = uv then AtLevel lvl else uv_v (?h b))" for b using L(3) other [of b] self by auto
  have levH: "level ?H b = (if b = uv then lvl else level ?h b)" for b by (simp add: level_def vH)
  have nb: "lnext ?h ?r \<in> insert ?r (set ring)" using D(4) by (cases ring) auto
  have linksH: "is_links (?H b) \<longleftrightarrow> b = ?r \<or> b = lnext ?h ?r \<or> b = uv \<or> is_links (?h2 b)" for b
    using ln new(2) by (auto simp: s' link_ring_def Let_def)
  have l2: "is_links (?h2 b) = is_links (?h b)" for b by (simp add: is_links_def u2)
  have closed: "?H b = ?h b" if "b \<in> uv_alloc s" "uv_v (?h b) = Own" for b
  proof -
    have "b \<noteq> uv" "b \<notin> insert ?r (set ring)" using that new D(7,8,11,12) by auto
    moreover have "b \<notin> set us" using D(3) [of b] that(2) by auto
    moreover have "last us \<in> set us" if "us \<noteq> []" using that by simp
    ultimately have "?h2 b = ?h b" "b \<noteq> ?r" "b \<noteq> lnext ?h ?r" "b \<noteq> uv" using other [of b] nb by auto
    then show ?thesis using ln new(2) by (simp add: s' link_ring_def Let_def)
  qed
  have fr: "uvhead s' = ?r" "uv_alloc s' = insert uv (uv_alloc s)" "openupval s' = (if us = [] then Some uv else openupval s)"
    by (auto simp: s' s2 s1 set_link_simps)
  show stk': "fstack s' = fstack s" by (simp add: s' s2 s1 set_link_simps)
  show "func_inv s' (us @ uv # ws) (uv # ring)" unfolding func_inv_def fr stk'
  proof (intro conjI)
    have "uv_next (?H a) = (if us \<noteq> [] \<and> a = last us then Some uv else uv_next (?h a))" if "a \<in> set (us @ ws)" for a
    proof -
      have "a \<noteq> uv" using that uva by blast
      then show ?thesis using L(4) other by simp
    qed
    then show "ulist ?H (if us = [] then Some uv else openupval s) (us @ uv # ws)"
      using D(1) func_inv_distinct [OF inv] uva L(4) self(2) by (intro ulist_insert [of ?h]) auto
    show "sorted_wrt (\<lambda>a b. level ?H a > level ?H b) (us @ uv # ws)"
      using D(2) lv uva by (auto simp: sorted_wrt_append levH intro: sorted_wrt_mono_rel [of _ "\<lambda>a b. level ?h a > level ?h b"])
    show "\<forall>a\<in>set (us @ uv # ws). \<exists>i<length (fstack s). uv_v (?H a) = AtLevel i" using D(3) stk by (auto simp: vH)
    show "dseg (lnext ?H) (lprev ?H) ?r (uv # ring) ?r" unfolding L using ring_insert [OF D(4) _ uvr] D(5,6) by simp
    show "distinct (?r # uv # ring)" using D(5,6) uvr by auto
    show "\<forall>a\<in>set (?r # uv # ring). is_links (?H a)" using D(7) linksH l2 by auto
    show "set (us @ uv # ws) \<subseteq> set (uv # ring)" using D(9) by auto
    show "set (uv # ring) \<subseteq> insert uv (uv_alloc s)" using D(10) by auto
    show "?r \<notin> insert uv (uv_alloc s)" using D(11) new by auto
    show "\<forall>a\<in>insert uv (uv_alloc s). uv_v (?H a) = Own \<longrightarrow> \<not> is_links (?H a)" using closed D(12) vH new(1) by (auto split: if_splits)
  qed
  have k: "lvl \<notin> fst ` set (map (\<lambda>a. (level ?h a, a)) us)" using lv(1) by auto
  have "map (\<lambda>a. (level ?H a, a)) us = map (\<lambda>a. (level ?h a, a)) us" "map (\<lambda>a. (level ?H a, a)) ws = map (\<lambda>a. (level ?h a, a)) ws"
    using uva levH by auto
  then have m: "map (\<lambda>a. (level ?H a, a)) (us @ uv # ws) = map (\<lambda>a. (level ?h a, a)) us @ (lvl, uv) # map (\<lambda>a. (level ?h a, a)) ws"
    using levH [of uv] by (simp del: map_eq_conv)
  show "open_map s' (us @ uv # ws) = (open_map s (us @ ws))(lvl \<mapsto> uv)"
    unfolding open_map_def m unfolding map_append by (rule map_of_insert [OF k])
  show "uv_value s' b = uv_value s b" if "b \<in> uv_alloc s" for b
    using closed [OF that] vH [of b] new(1) that stk' by (cases "uv_v (?h b)") (auto simp: uv_value_def)
qed

lemma mark_irrelevant:
  assumes "func_inv s as ring" "s' = s\<lparr>uv_heap := (uv_heap s)(p := (uv_heap s p)\<lparr>uv_marked := m\<rparr>)\<rparr>"
  shows "func_inv s' as ring" "open_map s' as = open_map s as" "uv_value s' b = uv_value s b"
proof -
  let ?H = "uv_heap s'" and ?h = "uv_heap s"
  have f: "uv_v (?H a) = uv_v (?h a)" "uv_u (?H a) = uv_u (?h a)" "uv_next (?H a) = uv_next (?h a)" for a by (auto simp: assms(2))
  have l: "lnext ?H = lnext ?h" "lprev ?H = lprev ?h" "level ?H = level ?h" "is_links (?H a) = is_links (?h a)" for a
    by (simp_all add: fun_eq_iff lnext_def lprev_def level_def is_links_def f)
  have r: "openupval s' = openupval s" "fstack s' = fstack s" "uvhead s' = uvhead s" "uv_alloc s' = uv_alloc s" by (simp_all add: assms(2))
  show "func_inv s' as ring" using assms(1) ulist_cong [of as ?H ?h] by (simp add: func_inv_def l f r)
  show "open_map s' as = open_map s as" "uv_value s' b = uv_value s b" by (simp_all add: open_map_def l uv_value_def f r cong: uvloc.case_cong)
qed

subsection \<open>The refinement\<close>

lemma open_map_None: "\<forall>a\<in>set as. level (uv_heap s) a \<noteq> lvl \<Longrightarrow> open_map s as lvl = None"
  by (auto simp: open_map_def map_of_eq_None_iff)

lemma open_map_Some:
  assumes "func_inv s as ring" "a \<in> set as" "level (uv_heap s) a = lvl" shows "open_map s as lvl = Some a"
  using map_of_level [OF func_inv_distinct [OF assms(1)] assms(2) sorted_levels_inj [OF func_invD(2) [OF assms(1)]]] assms(3)
  by (simp add: open_map_def)

lemma findupval_ok:
  assumes "func_inv s as ring" "lvl < length (fstack s)" "new \<notin> uv_alloc s" "new \<noteq> uvhead s" "length as \<le> fuel"
    and white: "fwhite s = 1 \<or> fwhite s = 2"
  shows "\<exists>a s' as' ring'. gafqF_findupval fuel (Some new) lvl s = Inr (a, s') \<and> func_inv s' as' ring' \<and>
    open_map s' as' = (if open_map s as lvl = None then (open_map s as)(lvl \<mapsto> new) else open_map s as) \<and>
    open_map s' as' lvl = Some a \<and> uv_alloc s' = (if open_map s as lvl = None then insert new (uv_alloc s) else uv_alloc s) \<and>
    \<not> isdead (fwhite s) (uv_marked (uv_heap s' a)) \<and> (\<forall>b\<in>uv_alloc s. uv_value s' b = uv_value s b)"
proof -
  have open': "\<forall>a\<in>set as. \<exists>i. uv_v (uv_heap s a) = AtLevel i" using func_invD(3) [OF assms(1)] by blast
  from find_walk_ok [OF func_invD(1) [OF assms(1)] func_invD(2) [OF assms(1)] open' assms(5), of lvl None]
  consider (found) a where "a \<in> set as" "level (uv_heap s) a = lvl" "find_walk fuel (uv_heap s) None (openupval s) lvl = Inr (Found a)"
    | (place) us ws where "as = us @ ws" "\<forall>a\<in>set us. lvl < level (uv_heap s) a" "\<forall>a\<in>set ws. level (uv_heap s) a < lvl"
      "find_walk fuel (uv_heap s) None (openupval s) lvl = Inr (Place (if us = [] then None else Some (last us)) (link_of ws))" by auto
  then show ?thesis
  proof cases
    case found
    let ?s = "if isdead (fwhite s) (uv_marked (uv_heap s a))
      then s\<lparr>uv_heap := (uv_heap s)(a := (uv_heap s a)\<lparr>uv_marked := changewhite (uv_marked (uv_heap s a))\<rparr>)\<rparr> else s"
    have "func_inv ?s as ring" "open_map ?s as = open_map s as" "uv_value ?s b = uv_value s b" for b
      using assms(1) mark_irrelevant [OF assms(1) refl] by auto
    moreover have "gafqF_findupval fuel (Some new) lvl s = Inr (a, ?s)" using found(3) by (simp add: gafqF_findupval_def)
    moreover have "open_map s as lvl = Some a" by (rule open_map_Some [OF assms(1) found(1,2)])
    moreover have "\<not> isdead (fwhite s) (uv_marked (uv_heap ?s a))" using changewhite_alive [OF white] by simp
    moreover have "uv_alloc ?s = uv_alloc s" by simp
    ultimately show ?thesis by (metis option.distinct(1))
  next
    case place
    define s1 where "s1 = s\<lparr>uv_heap := (uv_heap s)(new := \<lparr>uv_marked = gafqC_white (fwhite s), uv_v = AtLevel lvl,
      uv_u = uv_u (uv_heap s new), uv_next = link_of ws\<rparr>), uv_alloc := insert new (uv_alloc s)\<rparr>"
    define s2 where "s2 = set_link (if us = [] then None else Some (last us)) (Some new) s1"
    define s' where "s' = s2\<lparr>uv_heap := link_ring (uv_heap s2) (uvhead s) new\<rparr>"
    note I = insert_upvalue [OF assms(1) [unfolded place(1)] place(2,3) assms(3,4,2) s1_def s2_def s'_def]
    have f: "gafqF_findupval fuel (Some new) lvl s = Inr (new, s')"
      using place(4) by (simp add: gafqF_findupval_def Let_def s'_def s2_def s1_def)
    have n: "open_map s as lvl = None" using place by (intro open_map_None) auto
    show ?thesis
    proof (intro exI conjI)
      show "gafqF_findupval fuel (Some new) lvl s = Inr (new, s')" by (rule f)
      show "func_inv s' (us @ new # ws) (new # ring)" by (rule I(1))
      show "open_map s' (us @ new # ws) = (if open_map s as lvl = None then (open_map s as)(lvl \<mapsto> new) else open_map s as)"
        using I(2) n place(1) by simp
      show "open_map s' (us @ new # ws) lvl = Some new" using I(2) by simp
      show "uv_alloc s' = (if open_map s as lvl = None then insert new (uv_alloc s) else uv_alloc s)"
        using n by (simp add: s'_def s2_def s1_def set_link_simps)
      have "uv_marked (uv_heap s2 new) = gafqC_white (fwhite s)" by (simp add: s2_def s1_def set_link_def)
      then show "\<not> isdead (fwhite s) (uv_marked (uv_heap s' new))"
        using white_alive [OF white] link_ring_simps(5) [OF assms(4)] by (simp add: s'_def)
      show "\<forall>b\<in>uv_alloc s. uv_value s' b = uv_value s b" using I(3) by blast
    qed
  qed
qed

lemma dropWhile_levels:
  assumes "sorted_wrt (\<lambda>a b. level h a > level h b) as" "a \<in> set (dropWhile (\<lambda>a. lvl \<le> level h a) as)" shows "level h a < lvl"
  using assms by (induction as) (auto split: if_splits)

lemma map_of_dropWhile:
  assumes "sorted_wrt (\<lambda>a b. level h a > level h b) as"
  shows "map_of (map (\<lambda>a. (level h a, a)) (dropWhile (\<lambda>a. lvl \<le> level h a) as)) = map_of (map (\<lambda>a. (level h a, a)) as) |` {..<lvl}"
proof
  fix k
  let ?f = "\<lambda>a. (level h a, a)" and ?P = "\<lambda>a. lvl \<le> level h a"
  have split: "map_of (map ?f as) = map_of (map ?f (dropWhile ?P as)) ++ map_of (map ?f (takeWhile ?P as))"
    by (metis map_append map_of_append takeWhile_dropWhile_id)
  show "map_of (map ?f (dropWhile ?P as)) k = (map_of (map ?f as) |` {..<lvl}) k"
  proof (cases "k < lvl")
    case True
    then have "map_of (map ?f (takeWhile ?P as)) k = None" by (auto simp: map_of_eq_None_iff dest: set_takeWhileD)
    then show ?thesis using True unfolding split by (simp add: map_add_def)
  next
    case False
    then have "map_of (map ?f (dropWhile ?P as)) k = None"
      using dropWhile_levels [OF assms] by (auto simp: map_of_eq_None_iff)
    then show ?thesis using False by simp
  qed
qed

lemma close_ok:
  assumes "func_inv s as ring" "length as \<le> fuel"
  shows "\<exists>s' as' ring'. gafqF_close fuel lvl s = Inr s' \<and> func_inv s' as' ring' \<and> open_map s' as' = open_map s as |` {..<lvl} \<and>
    uv_alloc s' = uv_alloc s - {b. (\<exists>l\<ge>lvl. open_map s as l = Some b) \<and> isdead (fwhite s) (uv_marked (uv_heap s b))} \<and>
    (\<forall>l b. lvl \<le> l \<longrightarrow> open_map s as l = Some b \<longrightarrow> b \<in> uv_alloc s' \<longrightarrow> uv_v (uv_heap s' b) = Own) \<and>
    (\<forall>b\<in>uv_alloc s'. uv_value s' b = uv_value s b)"
proof -
  let ?P = "\<lambda>a. lvl \<le> level (uv_heap s) a"
  obtain s' ring' where s': "gafqF_close fuel lvl s = Inr s'" "func_inv s' (dropWhile ?P as) ring'"
    "\<forall>b\<in>uv_alloc s'. uv_value s' b = uv_value s b" "\<forall>b. b \<notin> set (takeWhile ?P as) \<longrightarrow> uv_v (uv_heap s' b) = uv_v (uv_heap s b)"
    "uv_alloc s' = uv_alloc s - {b \<in> set (takeWhile ?P as). isdead (fwhite s) (uv_marked (uv_heap s b))}"
    "\<forall>b\<in>set (takeWhile ?P as). b \<in> uv_alloc s' \<longrightarrow> uv_v (uv_heap s' b) = Own"
    using gafqF_close_ok [OF assms, of lvl] by blast
  have closing: "b \<in> set (takeWhile ?P as) \<longleftrightarrow> (\<exists>l\<ge>lvl. open_map s as l = Some b)" for b
  proof
    assume "b \<in> set (takeWhile ?P as)"
    then have "b \<in> set as" "lvl \<le> level (uv_heap s) b" by (auto dest: set_takeWhileD)
    then show "\<exists>l\<ge>lvl. open_map s as l = Some b" using open_map_Some [OF assms(1)] by blast
  next
    assume "\<exists>l\<ge>lvl. open_map s as l = Some b"
    then have b: "b \<in> set as" "lvl \<le> level (uv_heap s) b" by (auto simp: open_map_def dest!: map_of_SomeD)
    have "b \<notin> set (dropWhile ?P as)" using dropWhile_levels [OF func_invD(2) [OF assms(1)]] b(2) by (meson not_le)
    moreover have "b \<in> set (takeWhile ?P as @ dropWhile ?P as)" using b(1) by simp
    ultimately show "b \<in> set (takeWhile ?P as)" by (simp del: takeWhile_dropWhile_id)
  qed
  have "level (uv_heap s') a = level (uv_heap s) a" if "a \<in> set (dropWhile ?P as)" for a
  proof -
    have "a \<notin> set (takeWhile ?P as)"
      using dropWhile_levels [OF func_invD(2) [OF assms(1)] that] by (auto dest: set_takeWhileD)
    then show ?thesis using s'(4) by (simp add: level_def)
  qed
  then have "open_map s' (dropWhile ?P as) = open_map s (dropWhile ?P as)"
    unfolding open_map_def by (metis (mono_tags, lifting) map_eq_conv)
  also have "\<dots> = open_map s as |` {..<lvl}" unfolding open_map_def by (rule map_of_dropWhile [OF func_invD(2) [OF assms(1)]])
  finally show ?thesis using s' closing by (intro exI [of _ s'] exI [of _ "dropWhile ?P as"] exI [of _ ring']) auto
qed


text \<open>A state without upvalues, and a stack of one value.\<close>

definition func_start :: funcstate where
  "func_start = \<lparr>uv_heap = (\<lambda>a. \<lparr>uv_marked = 0, uv_v = AtLevel 0, uv_u = ULinks 0 0, uv_next = None\<rparr>), uv_alloc = {}, uvhead = 0,
     openupval = None, rootgc = None, fstack = [TBoolean True], fwhite = 1, fgcstate = 0, barriers = []\<rparr>"


end
