(* ===== verification/Mem.thy ===== *)
theory Mem
  imports Strings
begin

text \<open>
  The interface to the memory manager (\<open>gmem.c\<close>, \<open>gmem.h\<close>): the size that a growing vector takes next, the
  guard against sizes that do not fit \<open>size_t\<close>, and the account of the bytes in use.  Whether the allocator of the
  host can serve a request is the argument \<open>ok\<close>.
\<close>

definition MINSIZEARRAY :: int where "MINSIZEARRAY = 4"

text \<open>\<open>gafqM_realloc\<close>: the new total, or the memory error.  The total is a \<open>size_t\<close>.\<close>

definition gafqM_realloc :: "bool \<Rightarrow> nat \<Rightarrow> nat \<Rightarrow> nat \<Rightarrow> nat res" where
  "gafqM_realloc ok totalbytes osize nsize =
     (if \<not> ok \<and> nsize > 0 then Inl MemError
      else Inr ((totalbytes + 2 ^ 64 - osize + nsize) mod 2 ^ 64))"

definition gafqM_toobig :: "'a res" where
  "gafqM_toobig = Inl (RunError ''memory allocation error: block too big'')"

definition gafqM_reallocv :: "bool \<Rightarrow> nat \<Rightarrow> int \<Rightarrow> int \<Rightarrow> nat \<Rightarrow> nat res" where
  "gafqM_reallocv ok totalbytes oldn n e =
     (if nat ((n + 1) mod 2 ^ 64) \<le> MAX_SIZET div e
      then gafqM_realloc ok totalbytes (nat oldn * e) (nat n * e)
      else gafqM_toobig)"

text \<open>The size \<open>gafqM_growaux\<close> gives a vector that is full, within \<open>limit\<close>.\<close>

definition grow_size :: "int \<Rightarrow> int \<Rightarrow> string \<Rightarrow> int res" where
  "grow_size sz limit errormsg =
     (if sz \<ge> limit div 2
      then if sz \<ge> limit then Inl (RunError errormsg) else Inr limit
      else let newsize = sz * 2 in Inr (if newsize < MINSIZEARRAY then MINSIZEARRAY else newsize))"

definition gafqM_growaux :: "bool \<Rightarrow> nat \<Rightarrow> int \<Rightarrow> nat \<Rightarrow> int \<Rightarrow> string \<Rightarrow> (int \<times> nat) res" where
  "gafqM_growaux ok totalbytes sz size_elems limit errormsg =
     rbind (grow_size sz limit errormsg) (\<lambda>newsize.
       rbind (gafqM_reallocv ok totalbytes sz newsize size_elems) (\<lambda>total. Inr (newsize, total)))"

text \<open>\<open>gafqM_growvector\<close> on the size alone: a place for the element \<open>nelems\<close>.\<close>

definition gafqM_growvector :: "int \<Rightarrow> int \<Rightarrow> int \<Rightarrow> string \<Rightarrow> int res" where
  "gafqM_growvector nelems sz limit errormsg =
     (if nelems + 1 > sz then grow_size sz limit errormsg else Inr sz)"

lemma grow_size_room:
  assumes "grow_size sz limit msg = Inr sz'" "0 \<le> sz" "4 \<le> limit"
  shows "sz < sz'" "sz' \<le> limit"
  using assms by (auto simp: grow_size_def MINSIZEARRAY_def Let_def split: if_splits)

lemma grow_size_fails: "grow_size sz limit msg = Inl e \<longleftrightarrow> limit div 2 \<le> sz \<and> limit \<le> sz \<and> e = RunError msg"
  by (auto simp: grow_size_def Let_def)

lemma growvector_room:
  assumes "gafqM_growvector nelems sz limit msg = Inr sz'" "0 \<le> nelems" "nelems \<le> sz" "4 \<le> limit" "sz \<le> limit"
  shows "nelems < sz'" "sz \<le> sz'" "sz' \<le> limit"
  using assms grow_size_room [of sz limit msg sz'] by (auto simp: gafqM_growvector_def split: if_splits)

lemma growvector_fails:
  assumes "gafqM_growvector nelems sz limit msg = Inl e" "nelems \<le> sz" "4 \<le> limit"
  shows "limit \<le> nelems \<and> e = RunError msg"
  using assms by (auto simp: gafqM_growvector_def grow_size_fails split: if_splits)

end
