(* ===== verification/Code.thy ===== *)
theory Code
  imports Table_Iter Mem
begin

text \<open>
  The code generator (\<open>gcode.c\<close>, \<open>gcode.h\<close>, and the expression descriptors of \<open>gparser.h\<close>).  \<open>FuncState\<close> keeps
  the instructions and constants coded so far: \<open>fs->pc\<close> is the length of \<open>fs_code\<close> and \<open>fs->nk\<close> that of \<open>fs_k\<close>,
  \<open>fs_sizecode\<close>, \<open>fs_sizelineinfo\<close> and \<open>fs_sizek\<close> are the sizes of the vectors behind them.  A list of pending
  jumps is threaded through the jump instructions themselves: the offset of each is the way to the next one, and
  \<open>NO_JUMP\<close> ends it.  The loops over such lists have the number of instructions as fuel; the jumps of a list
  are distinct, so this is enough.  A syntax error is raised with its message alone.
\<close>

subsection \<open>Data\<close>

datatype expkind = VVOID | VNIL | VTRUE | VFALSE | VK | VKNUM | VLOCAL | VUPVAL | VGLOBAL | VINDEXED | VJMP | VRELOCABLE |
  VNONRELOC | VCALL | VVARARG

text \<open>The members \<open>s\<close> and \<open>nval\<close> of the union are separate fields; \<open>nval\<close> is used in a \<open>VKNUM\<close> only.\<close>

record expdesc =
  ek :: expkind
  info :: int
  aux :: int
  nval :: gafq_Number
  et :: int
  ef :: int

record FuncState =
  fs_code :: "Instruction list"
  fs_lineinfo :: "int list"
  fs_sizecode :: int
  fs_sizelineinfo :: int
  fs_k :: "TValue list"
  fs_sizek :: int
  fs_h :: Table
  fs_haddr :: addr
  fs_lasttarget :: int
  fs_jpc :: int
  fs_freereg :: int
  fs_nactvar :: int
  fs_maxstacksize :: int
  fs_lastline :: int

datatype BinOpr = OPR_ADD | OPR_SUB | OPR_MUL | OPR_DIV | OPR_MOD | OPR_POW | OPR_CONCAT | OPR_NE | OPR_EQ | OPR_LT | OPR_LE |
  OPR_GT | OPR_GE | OPR_AND | OPR_OR | OPR_NOBINOPR

datatype UnOpr = OPR_MINUS | OPR_NOT | OPR_LEN | OPR_NOUNOPR

definition NO_JUMP :: int where "NO_JUMP = -1"

definition MAXSTACK :: int where "MAXSTACK = 250"

abbreviation fs_pc :: "FuncState \<Rightarrow> int" where
  "fs_pc fs \<equiv> int (length (fs_code fs))"

abbreviation fs_nk :: "FuncState \<Rightarrow> int" where
  "fs_nk fs \<equiv> int (length (fs_k fs))"

definition code_at :: "FuncState \<Rightarrow> int \<Rightarrow> Instruction res" where
  "code_at fs pc = (if 0 \<le> pc \<and> pc < fs_pc fs then Inr (fs_code fs ! nat pc) else Inl (Undefined ''code outside the function''))"

definition set_code :: "FuncState \<Rightarrow> int \<Rightarrow> Instruction \<Rightarrow> FuncState" where
  "set_code fs pc i = fs\<lparr>fs_code := (fs_code fs)[nat pc := i]\<rparr>"

definition hasjumps :: "expdesc \<Rightarrow> bool" where
  "hasjumps e \<longleftrightarrow> et e \<noteq> ef e"

definition isnumeral :: "expdesc \<Rightarrow> bool" where
  "isnumeral e \<longleftrightarrow> ek e = VKNUM \<and> et e = NO_JUMP \<and> ef e = NO_JUMP"

subsection \<open>Jumps\<close>

definition fixjump :: "FuncState \<Rightarrow> int \<Rightarrow> int \<Rightarrow> FuncState res" where
  "fixjump fs pc dest =
     rbind (code_at fs pc) (\<lambda>jmp.
       let offset = dest - (pc + 1)
       in if \<bar>offset\<bar> > MAXARG_sBx then Inl (SyntaxError ''control structure too long'')
          else Inr (set_code fs pc (SETARG_sBx jmp offset)))"

definition gafqK_getlabel :: "FuncState \<Rightarrow> int \<times> FuncState" where
  "gafqK_getlabel fs = (fs_pc fs, fs\<lparr>fs_lasttarget := fs_pc fs\<rparr>)"

definition getjump :: "FuncState \<Rightarrow> int \<Rightarrow> int res" where
  "getjump fs pc =
     rbind (code_at fs pc) (\<lambda>i.
       let offset = GETARG_sBx i in Inr (if offset = NO_JUMP then NO_JUMP else (pc + 1) + offset))"

text \<open>The position of the instruction that controls a jump.\<close>

definition getjumpcontrol :: "FuncState \<Rightarrow> int \<Rightarrow> int res" where
  "getjumpcontrol fs pc =
     (if pc \<ge> 1
      then rbind (code_at fs (pc - 1)) (\<lambda>i. Inr (if testTMode (GET_OPCODE i) then pc - 1 else pc))
      else Inr pc)"

fun need_value_loop :: "nat \<Rightarrow> FuncState \<Rightarrow> int \<Rightarrow> bool res" where
  "need_value_loop n fs list =
     (if list = NO_JUMP then Inr False
      else case n of
             0 \<Rightarrow> Inl OutOfFuel
           | Suc m \<Rightarrow>
               rbind (getjumpcontrol fs list) (\<lambda>c. rbind (code_at fs c) (\<lambda>i.
                 if GET_OPCODE i \<noteq> opnum OP_TESTSET then Inr True
                 else rbind (getjump fs list) (need_value_loop m fs))))"

declare need_value_loop.simps [simp del]

definition need_value :: "FuncState \<Rightarrow> int \<Rightarrow> bool res" where
  "need_value fs list = need_value_loop (length (fs_code fs)) fs list"

definition patchtestreg :: "FuncState \<Rightarrow> int \<Rightarrow> int \<Rightarrow> (bool \<times> FuncState) res" where
  "patchtestreg fs jump reg =
     rbind (getjumpcontrol fs jump) (\<lambda>c. rbind (code_at fs c) (\<lambda>i.
       if GET_OPCODE i \<noteq> opnum OP_TESTSET then Inr (False, fs)
       else if reg \<noteq> NO_REG \<and> reg \<noteq> GETARG_B i then Inr (True, set_code fs c (SETARG_A i reg))
       else Inr (True, set_code fs c (CREATE_ABC (opnum OP_TEST) (GETARG_B i) 0 (GETARG_C i)))))"

fun removevalues_loop :: "nat \<Rightarrow> FuncState \<Rightarrow> int \<Rightarrow> FuncState res" where
  "removevalues_loop n fs list =
     (if list = NO_JUMP then Inr fs
      else case n of
             0 \<Rightarrow> Inl OutOfFuel
           | Suc m \<Rightarrow>
               rbind (patchtestreg fs list NO_REG) (\<lambda>(b, fs).
                 rbind (getjump fs list) (removevalues_loop m fs)))"

declare removevalues_loop.simps [simp del]

definition removevalues :: "FuncState \<Rightarrow> int \<Rightarrow> FuncState res" where
  "removevalues fs list = removevalues_loop (length (fs_code fs)) fs list"

fun patchlistaux_loop :: "nat \<Rightarrow> FuncState \<Rightarrow> int \<Rightarrow> int \<Rightarrow> int \<Rightarrow> int \<Rightarrow> FuncState res" where
  "patchlistaux_loop n fs list vtarget reg dtarget =
     (if list = NO_JUMP then Inr fs
      else case n of
             0 \<Rightarrow> Inl OutOfFuel
           | Suc m \<Rightarrow>
               rbind (getjump fs list) (\<lambda>nxt.
                 rbind (patchtestreg fs list reg) (\<lambda>(b, fs).
                   rbind (fixjump fs list (if b then vtarget else dtarget)) (\<lambda>fs.
                     patchlistaux_loop m fs nxt vtarget reg dtarget))))"

declare patchlistaux_loop.simps [simp del]

definition patchlistaux :: "FuncState \<Rightarrow> int \<Rightarrow> int \<Rightarrow> int \<Rightarrow> int \<Rightarrow> FuncState res" where
  "patchlistaux fs list vtarget reg dtarget = patchlistaux_loop (length (fs_code fs)) fs list vtarget reg dtarget"

definition dischargejpc :: "FuncState \<Rightarrow> FuncState res" where
  "dischargejpc fs =
     rbind (patchlistaux fs (fs_jpc fs) (fs_pc fs) NO_REG (fs_pc fs)) (\<lambda>fs. Inr (fs\<lparr>fs_jpc := NO_JUMP\<rparr>))"

text \<open>The last jump of a list.\<close>

fun last_jump :: "nat \<Rightarrow> FuncState \<Rightarrow> int \<Rightarrow> int res" where
  "last_jump n fs list =
     rbind (getjump fs list) (\<lambda>nxt.
       if nxt = NO_JUMP then Inr list
       else case n of 0 \<Rightarrow> Inl OutOfFuel | Suc m \<Rightarrow> last_jump m fs nxt)"

declare last_jump.simps [simp del]

definition gafqK_concat :: "FuncState \<Rightarrow> int \<Rightarrow> int \<Rightarrow> (int \<times> FuncState) res" where
  "gafqK_concat fs l1 l2 =
     (if l2 = NO_JUMP then Inr (l1, fs)
      else if l1 = NO_JUMP then Inr (l2, fs)
      else rbind (last_jump (length (fs_code fs)) fs l1) (\<lambda>list.
             rbind (fixjump fs list l2) (\<lambda>fs. Inr (l1, fs))))"

definition gafqK_patchtohere :: "FuncState \<Rightarrow> int \<Rightarrow> FuncState res" where
  "gafqK_patchtohere fs list =
     (let fs = snd (gafqK_getlabel fs)
      in rbind (gafqK_concat fs (fs_jpc fs) list) (\<lambda>(jpc, fs). Inr (fs\<lparr>fs_jpc := jpc\<rparr>)))"

definition gafqK_patchlist :: "FuncState \<Rightarrow> int \<Rightarrow> int \<Rightarrow> FuncState res" where
  "gafqK_patchlist fs list target =
     (if target = fs_pc fs then gafqK_patchtohere fs list
      else patchlistaux fs list target NO_REG target)"

subsection \<open>Emitting instructions\<close>

definition gafqK_code :: "FuncState \<Rightarrow> Instruction \<Rightarrow> int \<Rightarrow> (int \<times> FuncState) res" where
  "gafqK_code fs i line =
     rbind (dischargejpc fs) (\<lambda>fs.
       rbind (gafqM_growvector (fs_pc fs) (fs_sizecode fs) MAX_INT ''code size overflow'') (\<lambda>sizecode.
         rbind (gafqM_growvector (fs_pc fs) (fs_sizelineinfo fs) MAX_INT ''code size overflow'') (\<lambda>sizelineinfo.
           Inr (fs_pc fs, fs\<lparr>fs_code := fs_code fs @ [i], fs_sizecode := sizecode,
                             fs_lineinfo := fs_lineinfo fs @ [line], fs_sizelineinfo := sizelineinfo\<rparr>))))"

definition gafqK_codeABC :: "FuncState \<Rightarrow> OpCode \<Rightarrow> int \<Rightarrow> int \<Rightarrow> int \<Rightarrow> (int \<times> FuncState) res" where
  "gafqK_codeABC fs op a b c = gafqK_code fs (CREATE_ABC (opnum op) a b c) (fs_lastline fs)"

definition gafqK_codeABx :: "FuncState \<Rightarrow> OpCode \<Rightarrow> int \<Rightarrow> int \<Rightarrow> (int \<times> FuncState) res" where
  "gafqK_codeABx fs op a bc = gafqK_code fs (CREATE_ABx (opnum op) a bc) (fs_lastline fs)"

definition gafqK_codeAsBx :: "FuncState \<Rightarrow> OpCode \<Rightarrow> int \<Rightarrow> int \<Rightarrow> (int \<times> FuncState) res" where
  "gafqK_codeAsBx fs op A sBx = gafqK_codeABx fs op A (sBx + MAXARG_sBx)"

definition gafqK_fixline :: "FuncState \<Rightarrow> int \<Rightarrow> FuncState" where
  "gafqK_fixline fs line = fs\<lparr>fs_lineinfo := (fs_lineinfo fs)[nat (fs_pc fs - 1) := line]\<rparr>"

definition gafqK_nil :: "FuncState \<Rightarrow> int \<Rightarrow> int \<Rightarrow> FuncState res" where
  "gafqK_nil fs from n =
     (let otherwise = rbind (gafqK_codeABC fs OP_LOADNIL from (from + n - 1) 0) (\<lambda>(pc, fs). Inr fs)
      in if fs_pc fs > fs_lasttarget fs then
           if fs_pc fs = 0 then (if from \<ge> fs_nactvar fs then Inr fs else otherwise)
           else let previous = fs_code fs ! nat (fs_pc fs - 1)
                in if GET_OPCODE previous = opnum OP_LOADNIL then
                     let pfrom = GETARG_A previous; pto = GETARG_B previous
                     in if pfrom \<le> from \<and> from \<le> pto + 1
                        then Inr (if from + n - 1 > pto then set_code fs (fs_pc fs - 1) (SETARG_B previous (from + n - 1)) else fs)
                        else otherwise
                   else otherwise
         else otherwise)"

definition gafqK_jump :: "FuncState \<Rightarrow> (int \<times> FuncState) res" where
  "gafqK_jump fs =
     (let jpc = fs_jpc fs
      in rbind (gafqK_codeAsBx (fs\<lparr>fs_jpc := NO_JUMP\<rparr>) OP_JMP 0 NO_JUMP) (\<lambda>(j, fs). gafqK_concat fs j jpc))"

definition gafqK_ret :: "FuncState \<Rightarrow> int \<Rightarrow> int \<Rightarrow> FuncState res" where
  "gafqK_ret fs first nret = rbind (gafqK_codeABC fs OP_RETURN first (nret + 1) 0) (\<lambda>(pc, fs). Inr fs)"

definition condjump :: "FuncState \<Rightarrow> OpCode \<Rightarrow> int \<Rightarrow> int \<Rightarrow> int \<Rightarrow> (int \<times> FuncState) res" where
  "condjump fs op A B C = rbind (gafqK_codeABC fs op A B C) (\<lambda>(pc, fs). gafqK_jump fs)"

subsection \<open>Registers\<close>

definition gafqK_checkstack :: "FuncState \<Rightarrow> int \<Rightarrow> FuncState res" where
  "gafqK_checkstack fs n =
     (let newstack = fs_freereg fs + n
      in if newstack > fs_maxstacksize fs then
           if newstack \<ge> MAXSTACK then Inl (SyntaxError ''function or expression too complex'')
           else Inr (fs\<lparr>fs_maxstacksize := newstack mod 256\<rparr>)
         else Inr fs)"

definition gafqK_reserveregs :: "FuncState \<Rightarrow> int \<Rightarrow> FuncState res" where
  "gafqK_reserveregs fs n =
     rbind (gafqK_checkstack fs n) (\<lambda>fs. Inr (fs\<lparr>fs_freereg := fs_freereg fs + n\<rparr>))"

definition freereg :: "FuncState \<Rightarrow> int \<Rightarrow> FuncState" where
  "freereg fs reg = (if \<not> ISK reg \<and> reg \<ge> fs_nactvar fs then fs\<lparr>fs_freereg := fs_freereg fs - 1\<rparr> else fs)"

definition freeexp :: "FuncState \<Rightarrow> expdesc \<Rightarrow> FuncState" where
  "freeexp fs e = (if ek e = VNONRELOC then freereg fs (info e) else fs)"

subsection \<open>Constants\<close>

definition addk :: "FuncState \<Rightarrow> TValue \<Rightarrow> TValue \<Rightarrow> (int \<times> FuncState) res" where
  "addk fs k v =
     rbind (gafqH_set (fs_h fs) k) (\<lambda>(h, idx).
       case slotval h idx of
         TNumber x \<Rightarrow> Inr (gafq_number2int x, fs\<lparr>fs_h := h\<rparr>)
       | _ \<Rightarrow>
           rbind (gafqM_growvector (fs_nk fs) (fs_sizek fs) MAXARG_Bx ''constant table overflow'') (\<lambda>sizek.
             Inr (fs_nk fs, fs\<lparr>fs_h := setslot h idx (TNumber (cast_num (fs_nk fs))), fs_k := fs_k fs @ [v], fs_sizek := sizek\<rparr>)))"

definition gafqK_stringK :: "FuncState \<Rightarrow> string \<Rightarrow> (int \<times> FuncState) res" where
  "gafqK_stringK fs s = addk fs (TString s) (TString s)"

definition gafqK_numberK :: "FuncState \<Rightarrow> gafq_Number \<Rightarrow> (int \<times> FuncState) res" where
  "gafqK_numberK fs r = addk fs (TNumber r) (TNumber r)"

definition boolK :: "FuncState \<Rightarrow> bool \<Rightarrow> (int \<times> FuncState) res" where
  "boolK fs b = addk fs (TBoolean b) (TBoolean b)"

definition nilK :: "FuncState \<Rightarrow> (int \<times> FuncState) res" where
  "nilK fs = addk fs (TTable (fs_haddr fs)) TNil"

subsection \<open>Expressions\<close>

definition gafqK_setreturns :: "FuncState \<Rightarrow> expdesc \<Rightarrow> int \<Rightarrow> FuncState res" where
  "gafqK_setreturns fs e nresults =
     (if ek e = VCALL then
        rbind (code_at fs (info e)) (\<lambda>i. Inr (set_code fs (info e) (SETARG_C i (nresults + 1))))
      else if ek e = VVARARG then
        rbind (code_at fs (info e)) (\<lambda>i.
          gafqK_reserveregs (set_code fs (info e) (SETARG_A (SETARG_B i (nresults + 1)) (fs_freereg fs))) 1)
      else Inr fs)"

definition gafqK_setoneret :: "FuncState \<Rightarrow> expdesc \<Rightarrow> (expdesc \<times> FuncState) res" where
  "gafqK_setoneret fs e =
     (if ek e = VCALL then
        rbind (code_at fs (info e)) (\<lambda>i. Inr (e\<lparr>ek := VNONRELOC, info := GETARG_A i\<rparr>, fs))
      else if ek e = VVARARG then
        rbind (code_at fs (info e)) (\<lambda>i. Inr (e\<lparr>ek := VRELOCABLE\<rparr>, set_code fs (info e) (SETARG_B i 2)))
      else Inr (e, fs))"

definition gafqK_dischargevars :: "FuncState \<Rightarrow> expdesc \<Rightarrow> (expdesc \<times> FuncState) res" where
  "gafqK_dischargevars fs e =
     (case ek e of
        VLOCAL \<Rightarrow> Inr (e\<lparr>ek := VNONRELOC\<rparr>, fs)
      | VUPVAL \<Rightarrow>
          rbind (gafqK_codeABC fs OP_GETUPVAL 0 (info e) 0) (\<lambda>(pc, fs). Inr (e\<lparr>info := pc, ek := VRELOCABLE\<rparr>, fs))
      | VGLOBAL \<Rightarrow>
          rbind (gafqK_codeABx fs OP_GETGLOBAL 0 (info e)) (\<lambda>(pc, fs). Inr (e\<lparr>info := pc, ek := VRELOCABLE\<rparr>, fs))
      | VINDEXED \<Rightarrow>
          (let fs = freereg (freereg fs (aux e)) (info e)
           in rbind (gafqK_codeABC fs OP_GETTABLE 0 (info e) (aux e)) (\<lambda>(pc, fs). Inr (e\<lparr>info := pc, ek := VRELOCABLE\<rparr>, fs)))
      | VVARARG \<Rightarrow> gafqK_setoneret fs e
      | VCALL \<Rightarrow> gafqK_setoneret fs e
      | _ \<Rightarrow> Inr (e, fs))"

definition code_label :: "FuncState \<Rightarrow> int \<Rightarrow> int \<Rightarrow> int \<Rightarrow> (int \<times> FuncState) res" where
  "code_label fs A b jump = gafqK_codeABC (snd (gafqK_getlabel fs)) OP_LOADBOOL A b jump"

definition discharge2reg :: "FuncState \<Rightarrow> expdesc \<Rightarrow> int \<Rightarrow> (expdesc \<times> FuncState) res" where
  "discharge2reg fs e reg =
     rbind (gafqK_dischargevars fs e) (\<lambda>(e, fs).
       let placed = (\<lambda>fs. Inr (e\<lparr>info := reg, ek := VNONRELOC\<rparr>, fs))
       in case ek e of
            VNIL \<Rightarrow> rbind (gafqK_nil fs reg 1) placed
          | VFALSE \<Rightarrow> rbind (gafqK_codeABC fs OP_LOADBOOL reg 0 0) (\<lambda>(pc, fs). placed fs)
          | VTRUE \<Rightarrow> rbind (gafqK_codeABC fs OP_LOADBOOL reg 1 0) (\<lambda>(pc, fs). placed fs)
          | VK \<Rightarrow> rbind (gafqK_codeABx fs OP_LOADK reg (info e)) (\<lambda>(pc, fs). placed fs)
          | VKNUM \<Rightarrow>
              rbind (gafqK_numberK fs (nval e)) (\<lambda>(k, fs).
                rbind (gafqK_codeABx fs OP_LOADK reg k) (\<lambda>(pc, fs). placed fs))
          | VRELOCABLE \<Rightarrow> rbind (code_at fs (info e)) (\<lambda>i. placed (set_code fs (info e) (SETARG_A i reg)))
          | VNONRELOC \<Rightarrow>
              if reg \<noteq> info e then rbind (gafqK_codeABC fs OP_MOVE reg (info e) 0) (\<lambda>(pc, fs). placed fs) else placed fs
          | _ \<Rightarrow> Inr (e, fs))"

definition discharge2anyreg :: "FuncState \<Rightarrow> expdesc \<Rightarrow> (expdesc \<times> FuncState) res" where
  "discharge2anyreg fs e =
     (if ek e \<noteq> VNONRELOC
      then rbind (gafqK_reserveregs fs 1) (\<lambda>fs. discharge2reg fs e (fs_freereg fs - 1))
      else Inr (e, fs))"

text \<open>The part of \<open>exp2reg\<close> for an expression with jumps: \<open>isjmp\<close> tells whether it is itself a jump.\<close>

definition exp2reg_jumps :: "FuncState \<Rightarrow> bool \<Rightarrow> int \<Rightarrow> int \<Rightarrow> int \<Rightarrow> FuncState res" where
  "exp2reg_jumps fs isjmp t f reg =
     rbind (need_value fs t) (\<lambda>nt. rbind (if nt then Inr True else need_value fs f) (\<lambda>need.
       rbind (if need
              then rbind (if isjmp then Inr (NO_JUMP, fs) else gafqK_jump fs) (\<lambda>(fj, fs).
                     rbind (code_label fs reg 0 1) (\<lambda>(p_f, fs).
                       rbind (code_label fs reg 1 0) (\<lambda>(p_t, fs).
                         rbind (gafqK_patchtohere fs fj) (\<lambda>fs. Inr (p_f, p_t, fs)))))
              else Inr (NO_JUMP, NO_JUMP, fs)) (\<lambda>(p_f, p_t, fs).
         let (final, fs) = gafqK_getlabel fs
         in rbind (patchlistaux fs f final reg p_f) (\<lambda>fs. patchlistaux fs t final reg p_t))))"

definition exp2reg :: "FuncState \<Rightarrow> expdesc \<Rightarrow> int \<Rightarrow> (expdesc \<times> FuncState) res" where
  "exp2reg fs e reg =
     rbind (discharge2reg fs e reg) (\<lambda>(e, fs).
       rbind (if ek e = VJMP
              then rbind (gafqK_concat fs (et e) (info e)) (\<lambda>(t, fs). Inr (e\<lparr>et := t\<rparr>, fs))
              else Inr (e, fs)) (\<lambda>(e, fs).
         rbind (if hasjumps e then exp2reg_jumps fs (ek e = VJMP) (et e) (ef e) reg else Inr fs) (\<lambda>fs.
           Inr (e\<lparr>ef := NO_JUMP, et := NO_JUMP, info := reg, ek := VNONRELOC\<rparr>, fs))))"

definition gafqK_exp2nextreg :: "FuncState \<Rightarrow> expdesc \<Rightarrow> (expdesc \<times> FuncState) res" where
  "gafqK_exp2nextreg fs e =
     rbind (gafqK_dischargevars fs e) (\<lambda>(e, fs).
       rbind (gafqK_reserveregs (freeexp fs e) 1) (\<lambda>fs. exp2reg fs e (fs_freereg fs - 1)))"

text \<open>The register \<open>gafqK_exp2anyreg\<close> returns is the field \<open>info\<close> of the result.\<close>

definition gafqK_exp2anyreg :: "FuncState \<Rightarrow> expdesc \<Rightarrow> (expdesc \<times> FuncState) res" where
  "gafqK_exp2anyreg fs e =
     rbind (gafqK_dischargevars fs e) (\<lambda>(e, fs).
       if ek e = VNONRELOC \<and> \<not> hasjumps e then Inr (e, fs)
       else if ek e = VNONRELOC \<and> info e \<ge> fs_nactvar fs then exp2reg fs e (info e)
       else gafqK_exp2nextreg fs e)"

definition gafqK_exp2val :: "FuncState \<Rightarrow> expdesc \<Rightarrow> (expdesc \<times> FuncState) res" where
  "gafqK_exp2val fs e = (if hasjumps e then gafqK_exp2anyreg fs e else gafqK_dischargevars fs e)"

text \<open>The constant that an expression of a constant kind denotes.\<close>

definition constantK :: "FuncState \<Rightarrow> expdesc \<Rightarrow> (int \<times> FuncState) res" where
  "constantK fs e =
     (if ek e = VNIL then nilK fs else if ek e = VKNUM then gafqK_numberK fs (nval e) else boolK fs (ek e = VTRUE))"

definition gafqK_exp2RK :: "FuncState \<Rightarrow> expdesc \<Rightarrow> (int \<times> expdesc \<times> FuncState) res" where
  "gafqK_exp2RK fs e =
     rbind (gafqK_exp2val fs e) (\<lambda>(e, fs).
       let inreg = rbind (gafqK_exp2anyreg fs e) (\<lambda>(e, fs). Inr (info e, e, fs))
       in if ek e \<in> {VKNUM, VTRUE, VFALSE, VNIL} then
            if fs_nk fs \<le> MAXINDEXRK
            then rbind (constantK fs e) (\<lambda>(k, fs). Inr (RKASK k, e\<lparr>info := k, ek := VK\<rparr>, fs))
            else inreg
          else if ek e = VK \<and> info e \<le> MAXINDEXRK then Inr (RKASK (info e), e, fs)
          else inreg)"

definition gafqK_storevar :: "FuncState \<Rightarrow> expdesc \<Rightarrow> expdesc \<Rightarrow> FuncState res" where
  "gafqK_storevar fs var ex =
     (case ek var of
        VLOCAL \<Rightarrow> rbind (exp2reg (freeexp fs ex) ex (info var)) (\<lambda>(ex, fs). Inr fs)
      | VUPVAL \<Rightarrow>
          rbind (gafqK_exp2anyreg fs ex) (\<lambda>(ex, fs).
            rbind (gafqK_codeABC fs OP_SETUPVAL (info ex) (info var) 0) (\<lambda>(pc, fs). Inr (freeexp fs ex)))
      | VGLOBAL \<Rightarrow>
          rbind (gafqK_exp2anyreg fs ex) (\<lambda>(ex, fs).
            rbind (gafqK_codeABx fs OP_SETGLOBAL (info ex) (info var)) (\<lambda>(pc, fs). Inr (freeexp fs ex)))
      | VINDEXED \<Rightarrow>
          rbind (gafqK_exp2RK fs ex) (\<lambda>(e, ex, fs).
            rbind (gafqK_codeABC fs OP_SETTABLE (info var) (aux var) e) (\<lambda>(pc, fs). Inr (freeexp fs ex)))
      | _ \<Rightarrow> Inr (freeexp fs ex))"

definition gafqK_self :: "FuncState \<Rightarrow> expdesc \<Rightarrow> expdesc \<Rightarrow> (expdesc \<times> FuncState) res" where
  "gafqK_self fs e key =
     rbind (gafqK_exp2anyreg fs e) (\<lambda>(e, fs).
       let fs = freeexp fs e; func = fs_freereg fs
       in rbind (gafqK_reserveregs fs 2) (\<lambda>fs.
            rbind (gafqK_exp2RK fs key) (\<lambda>(rk, key, fs).
              rbind (gafqK_codeABC fs OP_SELF func (info e) rk) (\<lambda>(pc, fs).
                Inr (e\<lparr>info := func, ek := VNONRELOC\<rparr>, freeexp fs key)))))"

subsection \<open>Conditions\<close>

definition invertjump :: "FuncState \<Rightarrow> expdesc \<Rightarrow> FuncState res" where
  "invertjump fs e =
     rbind (getjumpcontrol fs (info e)) (\<lambda>pc. rbind (code_at fs pc) (\<lambda>i.
       Inr (set_code fs pc (SETARG_A i (if GETARG_A i = 0 then 1 else 0)))))"

text \<open>The removal of the last instruction, \<open>fs->pc--\<close>.\<close>

definition drop_last :: "FuncState \<Rightarrow> FuncState" where
  "drop_last fs = fs\<lparr>fs_code := butlast (fs_code fs), fs_lineinfo := butlast (fs_lineinfo fs)\<rparr>"

definition jumponcond :: "FuncState \<Rightarrow> expdesc \<Rightarrow> int \<Rightarrow> (int \<times> expdesc \<times> FuncState) res" where
  "jumponcond fs e cond =
     (let rest = rbind (discharge2anyreg fs e) (\<lambda>(e, fs).
                   rbind (condjump (freeexp fs e) OP_TESTSET NO_REG (info e) cond) (\<lambda>(pc, fs). Inr (pc, e, fs)))
      in if ek e = VRELOCABLE
         then rbind (code_at fs (info e)) (\<lambda>ie.
                if GET_OPCODE ie = opnum OP_NOT
                then rbind (condjump (drop_last fs) OP_TEST (GETARG_B ie) 0 (if cond = 0 then 1 else 0))
                       (\<lambda>(pc, fs). Inr (pc, e, fs))
                else rest)
         else rest)"

definition gafqK_goiftrue :: "FuncState \<Rightarrow> expdesc \<Rightarrow> (expdesc \<times> FuncState) res" where
  "gafqK_goiftrue fs e =
     rbind (gafqK_dischargevars fs e) (\<lambda>(e, fs).
       rbind (if ek e \<in> {VK, VKNUM, VTRUE} then Inr (NO_JUMP, e, fs)
              else if ek e = VJMP then rbind (invertjump fs e) (\<lambda>fs. Inr (info e, e, fs))
              else jumponcond fs e 0) (\<lambda>(pc, e, fs).
         rbind (gafqK_concat fs (ef e) pc) (\<lambda>(f, fs).
           rbind (gafqK_patchtohere fs (et e)) (\<lambda>fs. Inr (e\<lparr>ef := f, et := NO_JUMP\<rparr>, fs)))))"

definition gafqK_goiffalse :: "FuncState \<Rightarrow> expdesc \<Rightarrow> (expdesc \<times> FuncState) res" where
  "gafqK_goiffalse fs e =
     rbind (gafqK_dischargevars fs e) (\<lambda>(e, fs).
       rbind (if ek e \<in> {VNIL, VFALSE} then Inr (NO_JUMP, e, fs)
              else if ek e = VJMP then Inr (info e, e, fs)
              else jumponcond fs e 1) (\<lambda>(pc, e, fs).
         rbind (gafqK_concat fs (et e) pc) (\<lambda>(t, fs).
           rbind (gafqK_patchtohere fs (ef e)) (\<lambda>fs. Inr (e\<lparr>et := t, ef := NO_JUMP\<rparr>, fs)))))"

definition codenot :: "FuncState \<Rightarrow> expdesc \<Rightarrow> (expdesc \<times> FuncState) res" where
  "codenot fs e =
     rbind (gafqK_dischargevars fs e) (\<lambda>(e, fs).
       rbind (if ek e \<in> {VNIL, VFALSE} then Inr (e\<lparr>ek := VTRUE\<rparr>, fs)
              else if ek e \<in> {VK, VKNUM, VTRUE} then Inr (e\<lparr>ek := VFALSE\<rparr>, fs)
              else if ek e = VJMP then rbind (invertjump fs e) (\<lambda>fs. Inr (e, fs))
              else if ek e \<in> {VRELOCABLE, VNONRELOC}
              then rbind (discharge2anyreg fs e) (\<lambda>(e, fs).
                     rbind (gafqK_codeABC (freeexp fs e) OP_NOT 0 (info e) 0) (\<lambda>(pc, fs).
                       Inr (e\<lparr>info := pc, ek := VRELOCABLE\<rparr>, fs)))
              else Inr (e, fs)) (\<lambda>(e, fs).
         let e = e\<lparr>ef := et e, et := ef e\<rparr>
         in rbind (removevalues fs (ef e)) (\<lambda>fs. rbind (removevalues fs (et e)) (\<lambda>fs. Inr (e, fs)))))"

definition gafqK_indexed :: "FuncState \<Rightarrow> expdesc \<Rightarrow> expdesc \<Rightarrow> (expdesc \<times> FuncState) res" where
  "gafqK_indexed fs t k =
     rbind (gafqK_exp2RK fs k) (\<lambda>(rk, k, fs). Inr (t\<lparr>aux := rk, ek := VINDEXED\<rparr>, fs))"

subsection \<open>Operators\<close>

text \<open>\<open>numpow\<close> is the \<open>pow\<close> of the C library.\<close>

definition fold_value :: "(gafq_Number \<Rightarrow> gafq_Number \<Rightarrow> gafq_Number) \<Rightarrow> OpCode \<Rightarrow> gafq_Number \<Rightarrow> gafq_Number \<Rightarrow> gafq_Number option" where
  "fold_value numpow op v1 v2 =
     (case op of
        OP_ADD \<Rightarrow> Some (gafqi_numadd v1 v2)
      | OP_SUB \<Rightarrow> Some (gafqi_numsub v1 v2)
      | OP_MUL \<Rightarrow> Some (gafqi_nummul v1 v2)
      | OP_DIV \<Rightarrow> if gafqi_numeq v2 (cast_num 0) then None else Some (gafqi_numdiv v1 v2)
      | OP_MOD \<Rightarrow> if gafqi_numeq v2 (cast_num 0) then None else Some (gafqi_nummod v1 v2)
      | OP_POW \<Rightarrow> Some (numpow v1 v2)
      | OP_UNM \<Rightarrow> Some (gafqi_numunm v1)
      | OP_LEN \<Rightarrow> None
      | _ \<Rightarrow> Some (cast_num 0))"

definition constfolding :: "(gafq_Number \<Rightarrow> gafq_Number \<Rightarrow> gafq_Number) \<Rightarrow> OpCode \<Rightarrow> expdesc \<Rightarrow> expdesc \<Rightarrow> expdesc option" where
  "constfolding numpow op e1 e2 =
     (if \<not> isnumeral e1 \<or> \<not> isnumeral e2 then None
      else case fold_value numpow op (nval e1) (nval e2) of
             None \<Rightarrow> None
           | Some r \<Rightarrow> if gafqi_numisnan r then None else Some (e1\<lparr>nval := r\<rparr>))"

definition codearith ::
  "(gafq_Number \<Rightarrow> gafq_Number \<Rightarrow> gafq_Number) \<Rightarrow> FuncState \<Rightarrow> OpCode \<Rightarrow> expdesc \<Rightarrow> expdesc \<Rightarrow> (expdesc \<times> FuncState) res" where
  "codearith numpow fs op e1 e2 =
     (case constfolding numpow op e1 e2 of
        Some e1 \<Rightarrow> Inr (e1, fs)
      | None \<Rightarrow>
          rbind (if op \<noteq> OP_UNM \<and> op \<noteq> OP_LEN then gafqK_exp2RK fs e2 else Inr (0, e2, fs)) (\<lambda>(o2, e2, fs).
            rbind (gafqK_exp2RK fs e1) (\<lambda>(o1, e1, fs).
              let fs = (if o1 > o2 then freeexp (freeexp fs e1) e2 else freeexp (freeexp fs e2) e1)
              in rbind (gafqK_codeABC fs op 0 o1 o2) (\<lambda>(pc, fs). Inr (e1\<lparr>info := pc, ek := VRELOCABLE\<rparr>, fs)))))"

definition codecomp :: "FuncState \<Rightarrow> OpCode \<Rightarrow> int \<Rightarrow> expdesc \<Rightarrow> expdesc \<Rightarrow> (expdesc \<times> FuncState) res" where
  "codecomp fs op cond e1 e2 =
     rbind (gafqK_exp2RK fs e1) (\<lambda>(o1, e1, fs). rbind (gafqK_exp2RK fs e2) (\<lambda>(o2, e2, fs).
       let fs = freeexp (freeexp fs e2) e1;
           (o1, o2, cond) = (if cond = 0 \<and> op \<noteq> OP_EQ then (o2, o1, 1) else (o1, o2, cond))
       in rbind (condjump fs op cond o1 o2) (\<lambda>(pc, fs). Inr (e1\<lparr>info := pc, ek := VJMP\<rparr>, fs))))"

definition zero_exp :: expdesc where
  "zero_exp = \<lparr>ek = VKNUM, info = 0, aux = 0, nval = cast_num 0, et = NO_JUMP, ef = NO_JUMP\<rparr>"

definition gafqK_prefix ::
  "(gafq_Number \<Rightarrow> gafq_Number \<Rightarrow> gafq_Number) \<Rightarrow> FuncState \<Rightarrow> UnOpr \<Rightarrow> expdesc \<Rightarrow> (expdesc \<times> FuncState) res" where
  "gafqK_prefix numpow fs op e =
     (case op of
        OPR_MINUS \<Rightarrow>
          rbind (if \<not> isnumeral e then gafqK_exp2anyreg fs e else Inr (e, fs)) (\<lambda>(e, fs). codearith numpow fs OP_UNM e zero_exp)
      | OPR_NOT \<Rightarrow> codenot fs e
      | OPR_LEN \<Rightarrow> rbind (gafqK_exp2anyreg fs e) (\<lambda>(e, fs). codearith numpow fs OP_LEN e zero_exp)
      | OPR_NOUNOPR \<Rightarrow> Inr (e, fs))"

definition gafqK_infix :: "FuncState \<Rightarrow> BinOpr \<Rightarrow> expdesc \<Rightarrow> (expdesc \<times> FuncState) res" where
  "gafqK_infix fs op v =
     (case op of
        OPR_AND \<Rightarrow> gafqK_goiftrue fs v
      | OPR_OR \<Rightarrow> gafqK_goiffalse fs v
      | OPR_CONCAT \<Rightarrow> gafqK_exp2nextreg fs v
      | _ \<Rightarrow>
          if op \<in> {OPR_ADD, OPR_SUB, OPR_MUL, OPR_DIV, OPR_MOD, OPR_POW} \<and> isnumeral v then Inr (v, fs)
          else rbind (gafqK_exp2RK fs v) (\<lambda>(rk, v, fs). Inr (v, fs)))"

definition poscat ::
  "(gafq_Number \<Rightarrow> gafq_Number \<Rightarrow> gafq_Number) \<Rightarrow> FuncState \<Rightarrow> expdesc \<Rightarrow> expdesc \<Rightarrow> (expdesc \<times> FuncState) res" where
  "poscat numpow fs e1 e2 =
     rbind (gafqK_exp2val fs e2) (\<lambda>(e2, fs).
       let rest = rbind (gafqK_exp2nextreg fs e2) (\<lambda>(e2, fs). codearith numpow fs OP_CONCAT e1 e2)
       in if ek e2 = VRELOCABLE
          then rbind (code_at fs (info e2)) (\<lambda>i.
                 if GET_OPCODE i = opnum OP_CONCAT
                 then Inr (e1\<lparr>ek := VRELOCABLE, info := info e2\<rparr>, set_code (freeexp fs e1) (info e2) (SETARG_B i (info e1)))
                 else rest)
          else rest)"

definition gafqK_posfix ::
  "(gafq_Number \<Rightarrow> gafq_Number \<Rightarrow> gafq_Number) \<Rightarrow> FuncState \<Rightarrow> BinOpr \<Rightarrow> expdesc \<Rightarrow> expdesc \<Rightarrow> (expdesc \<times> FuncState) res" where
  "gafqK_posfix numpow fs op e1 e2 =
     (case op of
        OPR_AND \<Rightarrow>
          rbind (gafqK_dischargevars fs e2) (\<lambda>(e2, fs).
            rbind (gafqK_concat fs (ef e2) (ef e1)) (\<lambda>(f, fs). Inr (e2\<lparr>ef := f\<rparr>, fs)))
      | OPR_OR \<Rightarrow>
          rbind (gafqK_dischargevars fs e2) (\<lambda>(e2, fs).
            rbind (gafqK_concat fs (et e2) (et e1)) (\<lambda>(t, fs). Inr (e2\<lparr>et := t\<rparr>, fs)))
      | OPR_CONCAT \<Rightarrow> poscat numpow fs e1 e2
      | OPR_ADD \<Rightarrow> codearith numpow fs OP_ADD e1 e2
      | OPR_SUB \<Rightarrow> codearith numpow fs OP_SUB e1 e2
      | OPR_MUL \<Rightarrow> codearith numpow fs OP_MUL e1 e2
      | OPR_DIV \<Rightarrow> codearith numpow fs OP_DIV e1 e2
      | OPR_MOD \<Rightarrow> codearith numpow fs OP_MOD e1 e2
      | OPR_POW \<Rightarrow> codearith numpow fs OP_POW e1 e2
      | OPR_EQ \<Rightarrow> codecomp fs OP_EQ 1 e1 e2
      | OPR_NE \<Rightarrow> codecomp fs OP_EQ 0 e1 e2
      | OPR_LT \<Rightarrow> codecomp fs OP_LT 1 e1 e2
      | OPR_LE \<Rightarrow> codecomp fs OP_LE 1 e1 e2
      | OPR_GT \<Rightarrow> codecomp fs OP_LT 0 e1 e2
      | OPR_GE \<Rightarrow> codecomp fs OP_LE 0 e1 e2
      | OPR_NOBINOPR \<Rightarrow> Inr (e1, fs))"

definition gafqK_setlist :: "FuncState \<Rightarrow> int \<Rightarrow> int \<Rightarrow> int \<Rightarrow> FuncState res" where
  "gafqK_setlist fs base nelems tostore =
     (let c = (nelems - 1) div LFIELDS_PER_FLUSH + 1;
          b = (if tostore = -1 then 0 else tostore)
      in rbind (if c \<le> MAXARG_C then gafqK_codeABC fs OP_SETLIST base b c
                else rbind (gafqK_codeABC fs OP_SETLIST base b 0) (\<lambda>(pc, fs).
                       gafqK_code fs (word_of_int c) (fs_lastline fs))) (\<lambda>(pc, fs).
           Inr (fs\<lparr>fs_freereg := base + 1\<rparr>)))"

end
