(* ===== verification/Code_Jumps.thy ===== *)
theory Code_Jumps
  imports Code
begin

text \<open>
  Lists of pending jumps.  \<open>jlist\<close> says which jumps the list at a position holds; \<open>gafqK_concat\<close> appends lists,
  \<open>patchlistaux\<close> rewrites exactly the jumps of a list and the tests that control them, and the jumps
  patched to the current position lead to the instruction that is coded next.
\<close>

lemmas sBx_offset = sBx_roundtrip [THEN conjunct1] sBx_roundtrip [THEN conjunct2, THEN conjunct2]

definition jnext :: "Instruction list \<Rightarrow> nat \<Rightarrow> int" where
  "jnext c x = (let offset = GETARG_sBx (c ! x) in if offset = NO_JUMP then NO_JUMP else int x + 1 + offset)"

abbreviation op_at :: "Instruction list \<Rightarrow> nat \<Rightarrow> nat" where
  "op_at c x \<equiv> GET_OPCODE (c ! x)"

fun jlist :: "Instruction list \<Rightarrow> int \<Rightarrow> nat list \<Rightarrow> bool" where
  "jlist c l [] \<longleftrightarrow> l = NO_JUMP"
| "jlist c l (x # xs) \<longleftrightarrow> l = int x \<and> x < length c \<and> op_at c x = opnum OP_JMP \<and> jlist c (jnext c x) xs"

definition in_range :: "nat \<Rightarrow> int \<Rightarrow> bool" where
  "in_range x dest \<longleftrightarrow> \<bar>dest - (int x + 1)\<bar> \<le> MAXARG_sBx"

subsection \<open>One jump\<close>

lemma code_at_nat: "x < length (fs_code fs) \<Longrightarrow> code_at fs (int x) = Inr (fs_code fs ! x)"
  by (simp add: code_at_def)

lemma getjump_jnext: "x < length (fs_code fs) \<Longrightarrow> getjump fs (int x) = Inr (jnext (fs_code fs) x)"
  by (simp add: getjump_def code_at_nat jnext_def Let_def)

lemma fixjump_ok:
  "x < length (fs_code fs) \<Longrightarrow> in_range x dest \<Longrightarrow>
   fixjump fs (int x) dest = Inr (set_code fs (int x) (SETARG_sBx (fs_code fs ! x) (dest - (int x + 1))))"
  by (simp add: fixjump_def code_at_nat in_range_def Let_def)

lemma fixjump_too_long:
  "x < length (fs_code fs) \<Longrightarrow> \<not> in_range x dest \<Longrightarrow> fixjump fs (int x) dest = Inl (SyntaxError ''control structure too long'')"
  by (simp add: fixjump_def code_at_nat in_range_def Let_def)

text \<open>Whether the jump at \<open>x\<close> is controlled by a \<open>TESTSET\<close>, and what patching makes of one.\<close>

definition by_testset :: "Instruction list \<Rightarrow> nat \<Rightarrow> bool" where
  "by_testset c x \<longleftrightarrow> 1 \<le> x \<and> op_at c (x - 1) = opnum OP_TESTSET"

definition patch_test :: "int \<Rightarrow> Instruction \<Rightarrow> Instruction" where
  "patch_test reg i =
     (if reg \<noteq> NO_REG \<and> reg \<noteq> GETARG_B i then SETARG_A i reg
      else CREATE_ABC (opnum OP_TEST) (GETARG_B i) 0 (GETARG_C i))"

lemma testT_testset: "testTMode (opnum OP_TESTSET)"
  by code_simp

lemma testset_not_jmp: "opnum OP_TESTSET \<noteq> opnum OP_JMP"
  by simp

lemma patchtestreg_ok:
  assumes "x < length (fs_code fs)" "op_at (fs_code fs) x = opnum OP_JMP"
  shows "patchtestreg fs (int x) reg =
    Inr (by_testset (fs_code fs) x,
      if by_testset (fs_code fs) x then set_code fs (int x - 1) (patch_test reg (fs_code fs ! (x - 1))) else fs)"
proof (cases "1 \<le> x")
  case True
  have p: "code_at fs (int x - 1) = Inr (fs_code fs ! (x - 1))" using assms(1) True by (simp add: code_at_def nat_diff_distrib)
  show ?thesis
  proof (cases "op_at (fs_code fs) (x - 1) = opnum OP_TESTSET")
    case ts: True
    then show ?thesis using True p testT_testset
      by (auto simp: patchtestreg_def getjumpcontrol_def by_testset_def patch_test_def)
  next
    case False
    then show ?thesis using True p assms code_at_nat [OF assms(1)] testset_not_jmp
      by (auto simp: patchtestreg_def getjumpcontrol_def by_testset_def)
  qed
next
  case False
  then show ?thesis using assms code_at_nat [OF assms(1)] testset_not_jmp
    by (auto simp: patchtestreg_def getjumpcontrol_def by_testset_def)
qed

subsection \<open>Patching a list\<close>

definition patch_one :: "Instruction list \<Rightarrow> nat \<Rightarrow> int \<Rightarrow> int \<Rightarrow> int \<Rightarrow> Instruction list" where
  "patch_one c x v reg d =
     (let c1 = (if by_testset c x then c[x - 1 := patch_test reg (c ! (x - 1))] else c)
      in c1[x := SETARG_sBx (c ! x) ((if by_testset c x then v else d) - (int x + 1))])"

lemma patch_one_length [simp]: "length (patch_one c x v reg d) = length c"
  by (simp add: patch_one_def Let_def)

lemma patch_one_nth:
  assumes "x < length c" "k < length c"
  shows "patch_one c x v reg d ! k =
    (if k = x then SETARG_sBx (c ! x) ((if by_testset c x then v else d) - (int x + 1))
     else if by_testset c x \<and> k = x - 1 then patch_test reg (c ! k) else c ! k)"
  using assms by (auto simp: patch_one_def Let_def nth_list_update)

lemma SETARG_sBx_op: "GET_OPCODE (SETARG_sBx i s) = GET_OPCODE i"
  by (simp add: SETARG_sBx_def fields_independent)

text \<open>What is left of the list is not disturbed by patching its first jump.\<close>

lemma patch_one_other:
  assumes "x < length c" "op_at c x = opnum OP_JMP" "y < length c" "op_at c y = opnum OP_JMP" "y \<noteq> x"
  shows "patch_one c x v reg d ! y = c ! y" "by_testset (patch_one c x v reg d) y = by_testset c y"
proof -
  have "y \<noteq> x - 1" if "by_testset c x" using that assms(4) by (auto simp: by_testset_def)
  then show "patch_one c x v reg d ! y = c ! y" using assms(1,3,5) patch_one_nth [of x c y] by auto
  show "by_testset (patch_one c x v reg d) y = by_testset c y"
  proof (cases "1 \<le> y \<and> y - 1 = x")
    case True
    then show ?thesis using assms patch_one_nth [of x c x] by (simp add: by_testset_def SETARG_sBx_op)
  next
    case False
    then show ?thesis using assms(1,3,5) patch_one_nth [of x c "y - 1"] by (auto simp: by_testset_def)
  qed
qed

lemma jlist_cong:
  "(\<And>x. x \<in> set xs \<Longrightarrow> c' ! x = c ! x) \<Longrightarrow> length c' = length c \<Longrightarrow> jlist c' l xs = jlist c l xs"
  by (induction xs arbitrary: l) (auto simp: jnext_def)

lemma jlistD: "jlist c l xs \<Longrightarrow> x \<in> set xs \<Longrightarrow> x < length c \<and> op_at c x = opnum OP_JMP"
  by (induction xs arbitrary: l) auto

fun patch_list :: "Instruction list \<Rightarrow> nat list \<Rightarrow> int \<Rightarrow> int \<Rightarrow> int \<Rightarrow> Instruction list" where
  "patch_list c [] v reg d = c"
| "patch_list c (x # xs) v reg d = patch_list (patch_one c x v reg d) xs v reg d"

lemma patch_list_length [simp]: "length (patch_list c xs v reg d) = length c"
  by (induction xs arbitrary: c) auto

lemma set_code_eq: "fs_code (set_code fs x i) = (fs_code fs)[nat x := i]"
  by (simp add: set_code_def)

lemma patch_step:
  assumes "x < length (fs_code fs)" "op_at (fs_code fs) x = opnum OP_JMP"
    "in_range x (if by_testset (fs_code fs) x then v else d)"
  shows "rbind (patchtestreg fs (int x) reg) (\<lambda>(b, fs). rbind (fixjump fs (int x) (if b then v else d)) f) =
    f (fs\<lparr>fs_code := patch_one (fs_code fs) x v reg d\<rparr>)"
proof (cases "by_testset (fs_code fs) x")
  case True
  let ?fs = "set_code fs (int x - 1) (patch_test reg (fs_code fs ! (x - 1)))"
  have x: "1 \<le> x" "nat (int x - 1) = x - 1" using True by (auto simp: by_testset_def nat_diff_distrib)
  have "fs_code ?fs ! x = fs_code fs ! x" "x < length (fs_code ?fs)" using x assms(1) by (auto simp: set_code_def)
  then have "fixjump ?fs (int x) v = Inr (fs\<lparr>fs_code := patch_one (fs_code fs) x v reg d\<rparr>)"
    using True assms(3) fixjump_ok [of x ?fs v] x by (simp add: set_code_def patch_one_def Let_def)
  then show ?thesis using True patchtestreg_ok [OF assms(1,2), of reg] by simp
next
  case False
  then have "fixjump fs (int x) d = Inr (fs\<lparr>fs_code := patch_one (fs_code fs) x v reg d\<rparr>)"
    using assms(1,3) fixjump_ok [of x fs d] by (simp add: set_code_def patch_one_def Let_def)
  then show ?thesis using False patchtestreg_ok [OF assms(1,2), of reg] by simp
qed

lemma patchlistaux_loop_ok:
  "jlist (fs_code fs) l xs \<Longrightarrow> distinct xs \<Longrightarrow> \<forall>x\<in>set xs. in_range x v \<and> in_range x d \<Longrightarrow> length xs \<le> n \<Longrightarrow>
   patchlistaux_loop n fs l v reg d = Inr (fs\<lparr>fs_code := patch_list (fs_code fs) xs v reg d\<rparr>)"
proof (induction xs arbitrary: fs l n)
  case Nil
  then show ?case by (subst patchlistaux_loop.simps) simp
next
  case (Cons x xs)
  obtain m where n: "n = Suc m" "length xs \<le> m" using Cons.prems(4) by (cases n) auto
  let ?c = "fs_code fs"
  have x: "l = int x" "x < length ?c" "op_at ?c x = opnum OP_JMP" "jlist ?c (jnext ?c x) xs" using Cons.prems(1) by simp_all
  let ?fs = "fs\<lparr>fs_code := patch_one ?c x v reg d\<rparr>"
  have tail: "jlist (fs_code ?fs) (jnext ?c x) xs"
  proof -
    have "patch_one ?c x v reg d ! y = ?c ! y" if "y \<in> set xs" for y
      using patch_one_other(1) [OF x(2,3)] jlistD [OF x(4) that] that Cons.prems(2) by auto
    then show ?thesis using jlist_cong [of xs "patch_one ?c x v reg d" ?c] x(4) by simp
  qed
  have "patchlistaux_loop n fs l v reg d = patchlistaux_loop m ?fs (jnext ?c x) v reg d"
    using x n Cons.prems(3) patch_step [OF x(2,3), of v d reg "\<lambda>fs. patchlistaux_loop m fs (jnext ?c x) v reg d"]
    by (subst patchlistaux_loop.simps) (simp add: getjump_jnext NO_JUMP_def)
  also have "\<dots> = Inr (?fs\<lparr>fs_code := patch_list (fs_code ?fs) xs v reg d\<rparr>)"
    using Cons.prems(2,3) n(2) by (intro Cons.IH [OF tail]) auto
  finally show ?case by simp
qed

lemma jlist_short: "jlist c l xs \<Longrightarrow> distinct xs \<Longrightarrow> length xs \<le> length c"
proof -
  assume "jlist c l xs" "distinct xs"
  then have "set xs \<subseteq> {..<length c}" "length xs = card (set xs)" using jlistD by (auto simp: distinct_card)
  then show ?thesis by (metis card_lessThan card_mono finite_lessThan)
qed

lemma patchlistaux_ok:
  assumes "jlist (fs_code fs) l xs" "distinct xs" "\<forall>x\<in>set xs. in_range x v \<and> in_range x d"
  shows "patchlistaux fs l v reg d = Inr (fs\<lparr>fs_code := patch_list (fs_code fs) xs v reg d\<rparr>)"
  unfolding patchlistaux_def by (rule patchlistaux_loop_ok [OF assms jlist_short [OF assms(1,2)]])

lemma patch_list_nth:
  "jlist c l xs \<Longrightarrow> distinct xs \<Longrightarrow> k < length c \<Longrightarrow>
   patch_list c xs v reg d ! k =
     (if k \<in> set xs then SETARG_sBx (c ! k) ((if by_testset c k then v else d) - (int k + 1))
      else if Suc k \<in> set xs \<and> by_testset c (Suc k) then patch_test reg (c ! k) else c ! k)"
proof (induction xs arbitrary: c l)
  case (Cons x xs)
  have x: "x < length c" "op_at c x = opnum OP_JMP" "jlist c (jnext c x) xs" using Cons.prems(1) by simp_all
  let ?c = "patch_one c x v reg d"
  have o: "?c ! y = c ! y" "by_testset ?c y = by_testset c y" if "y \<in> set xs" for y
  proof -
    have y: "y < length c" "op_at c y = opnum OP_JMP" "y \<noteq> x" using jlistD [OF x(3) that] that Cons.prems(2) by auto
    show "?c ! y = c ! y" "by_testset ?c y = by_testset c y" by (rule patch_one_other [OF x(1,2) y])+
  qed
  have tail: "jlist ?c (jnext c x) xs" using jlist_cong [of xs ?c c] x(3) o(1) by simp
  have IH: "patch_list ?c xs v reg d ! k =
     (if k \<in> set xs then SETARG_sBx (?c ! k) ((if by_testset ?c k then v else d) - (int k + 1))
      else if Suc k \<in> set xs \<and> by_testset ?c (Suc k) then patch_test reg (?c ! k) else ?c ! k)"
    using Cons.prems(2,3) by (intro Cons.IH [OF tail]) auto
  consider "k \<in> set xs" | "k = x" | "k \<notin> set (x # xs)" by auto
  then show ?case
  proof cases
    case 1
    then show ?thesis using IH o [OF 1] by simp
  next
    case 2
    have "\<not> by_testset c (Suc x)" using x(2) by (simp add: by_testset_def)
    then have "\<not> (Suc x \<in> set xs \<and> by_testset ?c (Suc x))" using o(2) by blast
    moreover have "x \<notin> set xs" using Cons.prems(2) by simp
    ultimately have "patch_list ?c xs v reg d ! k = ?c ! k" using IH 2 by auto
    then show ?thesis using 2 patch_one_nth [OF x(1) x(1)] by simp
  next
    case 3
    have "patch_list ?c xs v reg d ! k = (if Suc k \<in> set xs \<and> by_testset c (Suc k) then patch_test reg (?c ! k) else ?c ! k)"
      using IH 3 o(2) by auto
    moreover have "?c ! k = (if Suc k = x \<and> by_testset c x then patch_test reg (c ! k) else c ! k)"
      using 3 x(1) Cons.prems(3) patch_one_nth [of x c k] by (auto simp: by_testset_def)
    moreover have "Suc k = x \<Longrightarrow> Suc k \<notin> set xs" using Cons.prems(2) by auto
    ultimately show ?thesis using 3 by auto
  qed
qed simp

subsection \<open>Joining lists\<close>

lemma last_jump_ok: "jlist (fs_code fs) l (xs @ [x]) \<Longrightarrow> length xs \<le> n \<Longrightarrow> last_jump n fs l = Inr (int x)"
proof (induction xs arbitrary: l n)
  case Nil
  then show ?case by (subst last_jump.simps) (simp add: getjump_jnext)
next
  case (Cons y xs)
  obtain m where n: "n = Suc m" "length xs \<le> m" using Cons.prems(2) by (cases n) auto
  have y: "l = int y" "y < length (fs_code fs)" "jlist (fs_code fs) (jnext (fs_code fs) y) (xs @ [x])" using Cons.prems(1) by simp_all
  then have "jnext (fs_code fs) y \<noteq> NO_JUMP" by (cases xs) (auto simp: NO_JUMP_def)
  then show ?case using Cons.IH [OF y(3) n(2)] y n by (subst last_jump.simps) (simp add: getjump_jnext)
qed

lemma jlist_link:
  assumes "jlist c l (xs @ [x])" "jlist c l2 ys" "ys \<noteq> []" "distinct (xs @ x # ys)" "in_range x l2"
  shows "jlist (c[x := SETARG_sBx (c ! x) (l2 - (int x + 1))]) l (xs @ x # ys)"
  using assms(1,4)
proof (induction xs arbitrary: l)
  case Nil
  let ?c = "c[x := SETARG_sBx (c ! x) (l2 - (int x + 1))]"
  have x: "x < length c" "op_at c x = opnum OP_JMP" using Nil by simp_all
  have "l2 \<noteq> int x" using assms(2,3) Nil.prems(2) by (cases ys) auto
  then have "jnext ?c x = l2" using x assms(5) sBx_offset(1) [of "l2 - (int x + 1)" "c ! x"]
    by (simp add: jnext_def Let_def NO_JUMP_def in_range_def)
  moreover have "?c ! y = c ! y" if "y \<in> set ys" for y using that Nil.prems(2) by (metis append_Nil distinct.simps(2) nth_list_update_neq)
  then have "jlist ?c l2 ys" using jlist_cong [of ys ?c c] assms(2) by simp
  ultimately show ?case using x Nil.prems(1) by (simp add: SETARG_sBx_op)
next
  case (Cons y xs)
  let ?c = "c[x := SETARG_sBx (c ! x) (l2 - (int x + 1))]"
  have "y \<noteq> x" using Cons.prems(2) by auto
  then have "?c ! y = c ! y" "jnext ?c y = jnext c y" by (simp_all add: jnext_def)
  then show ?case using Cons by simp
qed

lemma concat_ok:
  assumes "jlist (fs_code fs) l1 xs" "jlist (fs_code fs) l2 ys" "distinct (xs @ ys)" "\<forall>x\<in>set xs. \<forall>y\<in>set ys. in_range x (int y)"
  shows "\<exists>l c. gafqK_concat fs l1 l2 = Inr (l, fs\<lparr>fs_code := c\<rparr>) \<and> jlist c l (xs @ ys) \<and> length c = length (fs_code fs) \<and>
    (\<forall>k<length c. op_at c k = op_at (fs_code fs) k) \<and> (\<forall>k<length c. k \<notin> set xs \<longrightarrow> c ! k = fs_code fs ! k)"
proof -
  let ?c = "fs_code fs"
  consider "ys = []" | "xs = []" "ys \<noteq> []" | "xs \<noteq> []" "ys \<noteq> []" by blast
  then show ?thesis
  proof cases
    case 1
    then have "gafqK_concat fs l1 l2 = Inr (l1, fs\<lparr>fs_code := ?c\<rparr>)" using assms(2) by (simp add: gafqK_concat_def)
    then show ?thesis using 1 assms(1) by (intro exI [of _ l1] exI [of _ ?c]) simp
  next
    case 2
    then have "l1 = NO_JUMP" "l2 \<noteq> NO_JUMP" using assms(1,2) by (cases ys; auto simp: NO_JUMP_def)+
    then have "gafqK_concat fs l1 l2 = Inr (l2, fs\<lparr>fs_code := ?c\<rparr>)" by (simp add: gafqK_concat_def)
    then show ?thesis using 2 assms(2) by (intro exI [of _ l2] exI [of _ ?c]) simp
  next
    case 3
    obtain us x where xs: "xs = us @ [x]" using 3(1) by (cases xs rule: rev_cases) auto
    obtain y vs where ys: "ys = y # vs" "l2 = int y" using 3(2) assms(2) by (cases ys) auto
    have n: "l1 \<noteq> NO_JUMP" "l2 \<noteq> NO_JUMP" using assms(1) xs ys by (cases us; auto simp: NO_JUMP_def)+
    have x: "x < length ?c" using jlistD [OF assms(1), of x] xs by simp
    have r: "in_range x l2" using assms(4) xs ys by simp
    let ?d = "?c[x := SETARG_sBx (?c ! x) (l2 - (int x + 1))]"
    have "length us \<le> length ?c" using jlist_short [OF assms(1)] assms(3) xs by simp
    then have "last_jump (length ?c) fs l1 = Inr (int x)" using last_jump_ok assms(1) xs by blast
    then have "gafqK_concat fs l1 l2 = Inr (l1, fs\<lparr>fs_code := ?d\<rparr>)"
      using n fixjump_ok [OF x r] by (simp add: gafqK_concat_def set_code_def)
    moreover have "jlist ?d l1 (xs @ ys)" using jlist_link [of ?c l1 us x l2 ys] assms(1-3) 3(2) r xs by simp
    moreover have "op_at ?d k = op_at ?c k" if "k < length ?d" for k using x that by (simp add: nth_list_update SETARG_sBx_op)
    ultimately show ?thesis using xs by (intro exI [of _ l1] exI [of _ ?d]) auto
  qed
qed

subsection \<open>Where jumps land\<close>

lemma growvector_small:
  assumes "nelems < limit" shows "\<exists>sz. gafqM_growvector nelems size0 limit msg = Inr sz"
proof (cases "gafqM_growvector nelems size0 limit msg")
  case (Inl e)
  then have "limit \<le> size0" "nelems + 1 > size0" by (auto simp: gafqM_growvector_def grow_size_fails split: if_splits)
  then show ?thesis using assms by simp
qed auto

lemma in_range_here: "x < n \<Longrightarrow> int n \<le> MAXARG_sBx \<Longrightarrow> in_range x (int n)"
  by (simp add: in_range_def)

lemma dischargejpc_ok:
  assumes "jlist (fs_code fs) (fs_jpc fs) xs" "distinct xs" "\<forall>x\<in>set xs. in_range x (fs_pc fs)"
  shows "dischargejpc fs = Inr (fs\<lparr>fs_code := patch_list (fs_code fs) xs (fs_pc fs) NO_REG (fs_pc fs), fs_jpc := NO_JUMP\<rparr>)"
  using patchlistaux_ok [OF assms(1,2), of "fs_pc fs" "fs_pc fs"] assms(3) by (simp add: dischargejpc_def)

lemma gafqK_code_ok:
  assumes "jlist (fs_code fs) (fs_jpc fs) xs" "distinct xs" "fs_pc fs \<le> MAXARG_sBx"
  shows "\<exists>fs'. gafqK_code fs i line = Inr (fs_pc fs, fs') \<and>
    fs_code fs' = patch_list (fs_code fs) xs (fs_pc fs) NO_REG (fs_pc fs) @ [i] \<and> fs_jpc fs' = NO_JUMP \<and>
    fs_lasttarget fs' = fs_lasttarget fs \<and> fs_k fs' = fs_k fs \<and> fs_freereg fs' = fs_freereg fs"
proof -
  have "\<forall>x\<in>set xs. in_range x (fs_pc fs)" using jlistD [OF assms(1)] assms(3) in_range_here by blast
  note d = dischargejpc_ok [OF assms(1,2) this]
  have "fs_pc fs < MAX_INT" using assms(3) by (simp add: MAX_INT_def maxarg_defs size_defs)
  then obtain a b where
    "gafqM_growvector (fs_pc fs) (fs_sizecode fs) MAX_INT ''code size overflow'' = Inr a"
    "gafqM_growvector (fs_pc fs) (fs_sizelineinfo fs) MAX_INT ''code size overflow'' = Inr b"
    using growvector_small by blast
  then show ?thesis by (simp add: gafqK_code_def d)
qed

lemma patchtohere_ok:
  assumes "jlist (fs_code fs) (fs_jpc fs) xs" "jlist (fs_code fs) l ys" "distinct (xs @ ys)" "fs_pc fs \<le> MAXARG_sBx"
  shows "\<exists>fs'. gafqK_patchtohere fs l = Inr fs' \<and> jlist (fs_code fs') (fs_jpc fs') (xs @ ys) \<and>
    length (fs_code fs') = length (fs_code fs) \<and> fs_lasttarget fs' = fs_pc fs \<and>
    (\<forall>k<length (fs_code fs). op_at (fs_code fs') k = op_at (fs_code fs) k) \<and>
    (\<forall>k<length (fs_code fs). k \<notin> set xs \<longrightarrow> fs_code fs' ! k = fs_code fs ! k)"
proof -
  let ?fs = "fs\<lparr>fs_lasttarget := fs_pc fs\<rparr>"
  have r: "in_range x (int y)" if "x \<in> set xs" "y \<in> set ys" for x y
    using jlistD [OF assms(1) that(1)] jlistD [OF assms(2) that(2)] assms(4) by (auto simp: in_range_def)
  obtain j c where c: "gafqK_concat ?fs (fs_jpc fs) l = Inr (j, ?fs\<lparr>fs_code := c\<rparr>)" "jlist c j (xs @ ys)" "length c = length (fs_code fs)"
    "\<forall>k<length c. op_at c k = op_at (fs_code fs) k" "\<forall>k<length c. k \<notin> set xs \<longrightarrow> c ! k = fs_code fs ! k"
    using concat_ok [of ?fs "fs_jpc fs" xs l ys] assms(1-3) r by auto
  have "gafqK_patchtohere fs l = Inr (?fs\<lparr>fs_code := c, fs_jpc := j\<rparr>)"
    using c(1) by (simp add: gafqK_patchtohere_def gafqK_getlabel_def Let_def)
  then show ?thesis using c(2-5) by auto
qed

text \<open>
  C14. Jumps patched to the current position lead to the next instruction: after \<open>gafqK_patchtohere\<close> on a list and the coding
  of an instruction, every jump of the list, and every jump that was already pending, has the position of that
  instruction as its target; no jump is pending any more, and the position is marked as a jump target.
\<close>

theorem patched_jumps_land:
  assumes "jlist (fs_code fs) (fs_jpc fs) xs" "jlist (fs_code fs) l ys" "distinct (xs @ ys)" "fs_pc fs \<le> MAXARG_sBx"
  shows "\<exists>fs'. rbind (gafqK_patchtohere fs l) (\<lambda>fs. gafqK_code fs i line) = Inr (fs_pc fs, fs') \<and>
    fs_code fs' ! length (fs_code fs) = i \<and> fs_jpc fs' = NO_JUMP \<and> fs_lasttarget fs' = fs_pc fs \<and>
    (\<forall>x\<in>set (xs @ ys). op_at (fs_code fs') x = opnum OP_JMP \<and> int x + 1 + GETARG_sBx (fs_code fs' ! x) = fs_pc fs)"
proof -
  obtain fs1 where f1: "gafqK_patchtohere fs l = Inr fs1" "jlist (fs_code fs1) (fs_jpc fs1) (xs @ ys)"
    "length (fs_code fs1) = length (fs_code fs)" "fs_lasttarget fs1 = fs_pc fs"
    using patchtohere_ok [OF assms] by blast
  have pc1: "fs_pc fs1 \<le> MAXARG_sBx" using f1(3) assms(4) by simp
  obtain fs' where f': "gafqK_code fs1 i line = Inr (fs_pc fs1, fs')"
    "fs_code fs' = patch_list (fs_code fs1) (xs @ ys) (fs_pc fs1) NO_REG (fs_pc fs1) @ [i]" "fs_jpc fs' = NO_JUMP"
    "fs_lasttarget fs' = fs_lasttarget fs1"
    using gafqK_code_ok [OF f1(2) assms(3) pc1] by blast
  have "op_at (fs_code fs') x = opnum OP_JMP \<and> int x + 1 + GETARG_sBx (fs_code fs' ! x) = fs_pc fs" if x: "x \<in> set (xs @ ys)" for x
  proof -
    have xb: "x < length (fs_code fs1)" "op_at (fs_code fs1) x = opnum OP_JMP" using jlistD [OF f1(2) x] by simp_all
    have "fs_code fs' ! x = SETARG_sBx (fs_code fs1 ! x) (fs_pc fs1 - (int x + 1))"
      using patch_list_nth [OF f1(2) assms(3) xb(1)] x xb(1) by (simp add: f'(2) nth_append)
    moreover have "\<bar>fs_pc fs1 - (int x + 1)\<bar> \<le> MAXARG_sBx" using xb(1) pc1 by simp
    ultimately show ?thesis using sBx_offset(1) xb(2) f1(3) by (simp add: SETARG_sBx_op)
  qed
  then show ?thesis using f1 f' by (auto simp: nth_append)
qed

text \<open>A function whose code is one jump, not linked to another.\<close>

definition one_jump :: FuncState where
  "one_jump = \<lparr>fs_code = [CREATE_ABx (opnum OP_JMP) 0 (NO_JUMP + MAXARG_sBx)], fs_lineinfo = [1], fs_sizecode = 4, fs_sizelineinfo = 4,
     fs_k = [], fs_sizek = 0,
     fs_h = \<lparr>flags = NOT 0, lsizenode = 0, metatable = None, array = [], node = [dummynode], isdummy = True, lastfree = 0\<rparr>,
     fs_haddr = 16, fs_lasttarget = 0, fs_jpc = NO_JUMP, fs_freereg = 0, fs_nactvar = 0, fs_maxstacksize = 2, fs_lastline = 1\<rparr>"

theorem patched_jumps_land_witness:
  "\<exists>fs'. rbind (gafqK_patchtohere one_jump 0) (\<lambda>fs. gafqK_code fs 30 1) = Inr (1, fs') \<and>
     0 + 1 + GETARG_sBx (fs_code fs' ! 0) = 1"
proof -
  have "jlist (fs_code one_jump) (fs_jpc one_jump) []" "jlist (fs_code one_jump) 0 [0]" "fs_pc one_jump = 1"
    "fs_pc one_jump \<le> MAXARG_sBx" by code_simp+
  then show ?thesis using patched_jumps_land [of one_jump "[]" 0 "[0]" 30 1] by auto
qed

end
