(* ===== verification/Code_Frame.thy ===== *)
theory Code_Frame
  imports Code
begin

text \<open>
  What the functions of the code generator leave alone: those that patch jumps change instructions in place, those that code
  instructions change nothing but the code and its bookkeeping.
\<close>

definition emits :: "FuncState \<Rightarrow> FuncState \<Rightarrow> bool" where
  "emits fs fs' \<longleftrightarrow> fs_k fs' = fs_k fs \<and> fs_sizek fs' = fs_sizek fs \<and> fs_h fs' = fs_h fs \<and> fs_haddr fs' = fs_haddr fs \<and>
     fs_freereg fs' = fs_freereg fs \<and> fs_nactvar fs' = fs_nactvar fs \<and> fs_maxstacksize fs' = fs_maxstacksize fs \<and>
     fs_lastline fs' = fs_lastline fs"

definition patches :: "FuncState \<Rightarrow> FuncState \<Rightarrow> bool" where
  "patches fs fs' \<longleftrightarrow> emits fs fs' \<and> length (fs_code fs') = length (fs_code fs)"

lemma emits_refl [simp]: "emits fs fs"
  by (simp add: emits_def)

lemma emits_trans: "emits a b \<Longrightarrow> emits b c \<Longrightarrow> emits a c"
  by (simp add: emits_def)

lemma patches_refl [simp]: "patches fs fs"
  by (simp add: patches_def)

lemma patches_trans: "patches a b \<Longrightarrow> patches b c \<Longrightarrow> patches a c"
  by (auto simp: patches_def intro: emits_trans)

lemma patches_emits: "patches a b \<Longrightarrow> emits a b"
  by (simp add: patches_def)

lemma emits_updates [simp]:
  "emits fs (fs\<lparr>fs_code := c\<rparr>)" "emits fs (fs\<lparr>fs_jpc := j\<rparr>)" "emits fs (fs\<lparr>fs_lasttarget := t\<rparr>)"
  by (simp_all add: emits_def)

lemma patches_updates [simp]:
  "patches fs (set_code fs pc i)" "patches fs (fs\<lparr>fs_jpc := j\<rparr>)" "patches fs (fs\<lparr>fs_lasttarget := t\<rparr>)"
  by (simp_all add: patches_def emits_def set_code_def)

subsection \<open>Patching\<close>

lemma fixjump_patches: "fixjump fs pc dest = Inr fs' \<Longrightarrow> patches fs fs'"
  by (auto simp: fixjump_def Let_def res_simps split: if_splits)

lemma patchtestreg_patches: "patchtestreg fs x reg = Inr (b, fs') \<Longrightarrow> patches fs fs'"
  by (auto simp: patchtestreg_def res_simps split: if_splits)

lemma patchlistaux_loop_patches: "patchlistaux_loop n fs l v reg d = Inr fs' \<Longrightarrow> patches fs fs'"
proof (induction n arbitrary: fs l)
  case 0
  then show ?case by (subst (asm) patchlistaux_loop.simps) (simp split: if_splits)
next
  case (Suc n)
  show ?case
  proof (cases "l = NO_JUMP")
    case True
    then show ?thesis using Suc.prems by (subst (asm) patchlistaux_loop.simps) simp
  next
    case False
    then obtain nxt b fs1 fs2 where "patchtestreg fs l reg = Inr (b, fs1)" "fixjump fs1 l (if b then v else d) = Inr fs2"
      "patchlistaux_loop n fs2 nxt v reg d = Inr fs'"
      using Suc.prems by (subst (asm) patchlistaux_loop.simps) (auto simp: res_simps)
    then show ?thesis using Suc.IH fixjump_patches patchtestreg_patches patches_trans by metis
  qed
qed

lemma patchlistaux_patches: "patchlistaux fs l v reg d = Inr fs' \<Longrightarrow> patches fs fs'"
  unfolding patchlistaux_def by (rule patchlistaux_loop_patches)

lemma removevalues_loop_patches: "removevalues_loop n fs l = Inr fs' \<Longrightarrow> patches fs fs'"
proof (induction n arbitrary: fs l)
  case 0
  then show ?case by (subst (asm) removevalues_loop.simps) (simp split: if_splits)
next
  case (Suc n)
  show ?case
  proof (cases "l = NO_JUMP")
    case True
    then show ?thesis using Suc.prems by (subst (asm) removevalues_loop.simps) simp
  next
    case False
    then obtain nxt b fs1 where "patchtestreg fs l NO_REG = Inr (b, fs1)" "removevalues_loop n fs1 nxt = Inr fs'"
      using Suc.prems by (subst (asm) removevalues_loop.simps) (auto simp: res_simps)
    then show ?thesis using Suc.IH patchtestreg_patches patches_trans by blast
  qed
qed

lemma removevalues_patches: "removevalues fs l = Inr fs' \<Longrightarrow> patches fs fs'"
  unfolding removevalues_def by (rule removevalues_loop_patches)

lemma dischargejpc_patches: "dischargejpc fs = Inr fs' \<Longrightarrow> patches fs fs'"
  by (auto simp: dischargejpc_def res_simps dest!: patchlistaux_patches intro: patches_trans)

lemma concat_patches: "gafqK_concat fs l1 l2 = Inr (l, fs') \<Longrightarrow> patches fs fs'"
  by (auto simp: gafqK_concat_def res_simps dest!: fixjump_patches split: if_splits)

lemma patchtohere_patches: "gafqK_patchtohere fs l = Inr fs' \<Longrightarrow> patches fs fs'"
proof -
  assume "gafqK_patchtohere fs l = Inr fs'"
  then obtain j fs1 where "gafqK_concat (fs\<lparr>fs_lasttarget := fs_pc fs\<rparr>) (fs_jpc fs) l = Inr (j, fs1)" "fs' = fs1\<lparr>fs_jpc := j\<rparr>"
    by (auto simp: gafqK_patchtohere_def gafqK_getlabel_def res_simps Let_def)
  then show ?thesis using concat_patches patches_trans patches_updates(2,3) by metis
qed

lemma invertjump_patches: "invertjump fs e = Inr fs' \<Longrightarrow> patches fs fs'"
  by (auto simp: invertjump_def res_simps)

subsection \<open>Coding\<close>

lemma gafqK_code_frame:
  assumes "gafqK_code fs i line = Inr (pc, fs')"
  shows "emits fs fs'" "pc = fs_pc fs" "\<exists>c. fs_code fs' = c @ [i] \<and> length c = length (fs_code fs)"
proof -
  obtain fs1 where d: "dischargejpc fs = Inr fs1" "pc = fs_pc fs1" "fs_code fs' = fs_code fs1 @ [i]" "emits fs1 fs'"
    using assms by (auto simp: gafqK_code_def res_simps emits_def)
  have "patches fs fs1" by (rule dischargejpc_patches [OF d(1)])
  then show "emits fs fs'" "pc = fs_pc fs" "\<exists>c. fs_code fs' = c @ [i] \<and> length c = length (fs_code fs)"
    using d emits_trans by (auto simp: patches_def)
qed

lemma codeABC_emits: "gafqK_codeABC fs op a b c = Inr (pc, fs') \<Longrightarrow> emits fs fs'"
  by (simp add: gafqK_codeABC_def gafqK_code_frame(1))

lemma codeABx_emits: "gafqK_codeABx fs op a b = Inr (pc, fs') \<Longrightarrow> emits fs fs'"
  by (simp add: gafqK_codeABx_def gafqK_code_frame(1))

lemma gafqK_nil_emits: "gafqK_nil fs from n = Inr fs' \<Longrightarrow> emits fs fs'"
  by (auto simp: gafqK_nil_def Let_def res_simps dest!: codeABC_emits split: if_splits intro: patches_emits)

lemma gafqK_jump_emits: "gafqK_jump fs = Inr (j, fs') \<Longrightarrow> emits fs fs'"
proof -
  assume "gafqK_jump fs = Inr (j, fs')"
  then obtain i fs1 where "gafqK_codeABx (fs\<lparr>fs_jpc := NO_JUMP\<rparr>) OP_JMP 0 (NO_JUMP + MAXARG_sBx) = Inr (i, fs1)"
    "gafqK_concat fs1 i (fs_jpc fs) = Inr (j, fs')"
    by (auto simp: gafqK_jump_def gafqK_codeAsBx_def res_simps Let_def)
  then show ?thesis using codeABx_emits concat_patches patches_emits emits_trans emits_updates(2) by metis
qed

lemma condjump_emits: "condjump fs op a b c = Inr (j, fs') \<Longrightarrow> emits fs fs'"
  by (auto simp: condjump_def res_simps dest!: codeABC_emits gafqK_jump_emits intro: emits_trans)

lemma code_label_emits: "code_label fs a b j = Inr (pc, fs') \<Longrightarrow> emits fs fs'"
  unfolding code_label_def gafqK_getlabel_def using codeABC_emits emits_trans emits_updates(3) by fastforce

lemma exp2reg_jumps_emits: "exp2reg_jumps fs isjmp t f reg = Inr fs' \<Longrightarrow> emits fs fs'"
proof -
  assume "exp2reg_jumps fs isjmp t f reg = Inr fs'"
  then obtain need p_f p_t fs1 fs2 where
    l: "(if need then rbind (if isjmp then Inr (NO_JUMP, fs) else gafqK_jump fs) (\<lambda>(fj, fs).
           rbind (code_label fs reg 0 1) (\<lambda>(p_f, fs). rbind (code_label fs reg 1 0) (\<lambda>(p_t, fs).
             rbind (gafqK_patchtohere fs fj) (\<lambda>fs. Inr (p_f, p_t, fs)))))
         else Inr (NO_JUMP, NO_JUMP, fs)) = Inr (p_f, p_t, fs1)" and
    r: "patchlistaux (fs1\<lparr>fs_lasttarget := fs_pc fs1\<rparr>) f (fs_pc fs1) reg p_f = Inr fs2" "patchlistaux fs2 t (fs_pc fs1) reg p_t = Inr fs'"
    by (auto simp: exp2reg_jumps_def gafqK_getlabel_def res_simps Let_def)
  have "emits fs fs1"
  proof (cases need)
    case True
    then obtain fj a b c p q where s: "(if isjmp then Inr (NO_JUMP, fs) else gafqK_jump fs) = Inr (fj, a)" "code_label a reg 0 1 = Inr (p, b)"
      "code_label b reg 1 0 = Inr (q, c)" "gafqK_patchtohere c fj = Inr fs1" using l by (auto simp: res_simps)
    have "emits fs a" using s(1) gafqK_jump_emits by (auto split: if_splits)
    then show ?thesis using s(2-4) code_label_emits patchtohere_patches patches_emits emits_trans by metis
  qed (use l in simp)
  then show ?thesis using r patchlistaux_patches patches_emits emits_trans emits_updates(3) by metis
qed

end
