(* ===== verification/Code_Consts.thy ===== *)
theory Code_Consts
  imports Code
begin

text \<open>
  The constants of a function: the table \<open>fs->h\<close> maps every constant to its place in \<open>fs->k\<close>, so that a constant is
  entered once.  Nil, which cannot be a key, is entered under the table itself.
\<close>

subsection \<open>The invariant\<close>

text \<open>The value that a key of the table stands for.\<close>

definition const_matches :: "FuncState \<Rightarrow> TValue \<Rightarrow> TValue \<Rightarrow> bool" where
  "const_matches fs key v \<longleftrightarrow> (if key = TTable (fs_haddr fs) then v = TNil else gafqO_rawequalObj key v)"

definition const_inv :: "FuncState \<Rightarrow> bool" where
  "const_inv fs \<longleftrightarrow> table_inv (fs_h fs) \<and> fs_nk fs \<le> fs_sizek fs \<and> fs_sizek fs \<le> MAXARG_Bx \<and>
     (\<forall>key. proper key \<longrightarrow> tget (fs_h fs) key = TNil \<or>
       (\<exists>i < length (fs_k fs). tget (fs_h fs) key = TNumber (cast_num (int i)) \<and> const_matches fs key (fs_k fs ! i)))"

lemma const_invD:
  assumes "const_inv fs"
  shows "table_inv (fs_h fs)" "fs_nk fs \<le> fs_sizek fs" "fs_sizek fs \<le> MAXARG_Bx"
    "proper key \<Longrightarrow> tget (fs_h fs) key = TNil \<or>
       (\<exists>i < length (fs_k fs). tget (fs_h fs) key = TNumber (cast_num (int i)) \<and> const_matches fs key (fs_k fs ! i))"
  using assms by (auto simp: const_inv_def)

lemma rawequal_table: "gafqO_rawequalObj (TTable a) k \<longleftrightarrow> k = TTable a"
  by (cases k) auto

lemma rawequal_table2: "gafqO_rawequalObj k (TTable a) \<longleftrightarrow> k = TTable a"
  by (cases k) simp_all

lemma const_matches_equal:
  assumes "const_matches fs key v" "gafqO_rawequalObj key key'" shows "const_matches fs key' v"
proof (cases "key = TTable (fs_haddr fs)")
  case True
  then show ?thesis using assms by (simp add: rawequal_table)
next
  case False
  then have "key' \<noteq> TTable (fs_haddr fs)" using assms(2) rawequal_table2 by blast
  moreover have "gafqO_rawequalObj key' v" using assms False rawequal_trans rawequal_sym by (metis const_matches_def)
  ultimately show ?thesis by (simp add: const_matches_def)
qed

lemma set_contract_set: "table_inv t \<Longrightarrow> proper k \<Longrightarrow> set_contract t k (gafqH_set t k)"
  using set_contractI [OF gr.set_with_stored [of t k 0]] by (simp add: gafqH_set_def)

lemma nan_key_refused: "table_inv t \<Longrightarrow> nisnan r \<Longrightarrow> gafqH_set t (TNumber r) = Inl (RunError ''table index is NaN'')"
  using gafqH_set_errors [of t "TNumber r"] by (simp add: isnan_val_def gafqi_numisnan_iff)

subsection \<open>Entering a constant\<close>

lemma index_range: "const_inv fs \<Longrightarrow> i \<le> length (fs_k fs) \<Longrightarrow> gafq_number2int (cast_num (int i)) = int i"
  using const_invD(2,3) [of fs] by (intro number2int_cast_num) (auto simp: maxarg_defs size_defs)

lemma const_inv_same:
  assumes "const_inv fs" "table_inv h" "\<And>k. proper k \<Longrightarrow> tget h k = tget (fs_h fs) k"
  shows "const_inv (fs\<lparr>fs_h := h\<rparr>)"
  using assms by (auto simp: const_inv_def const_matches_def)

lemma const_inv_new:
  assumes "const_inv fs" "const_matches fs key v" "table_inv h" "int (length (fs_k fs)) < sz" "sz \<le> MAXARG_Bx"
    and h: "\<And>k. proper k \<Longrightarrow> tget h k = (if gafqO_rawequalObj key k then TNumber (cast_num (fs_nk fs)) else tget (fs_h fs) k)"
  shows "const_inv (fs\<lparr>fs_h := h, fs_k := fs_k fs @ [v], fs_sizek := sz\<rparr>)"
  unfolding const_inv_def
proof (intro conjI allI impI)
  let ?fs = "fs\<lparr>fs_h := h, fs_k := fs_k fs @ [v], fs_sizek := sz\<rparr>"
  show "table_inv (fs_h ?fs)" "fs_nk ?fs \<le> fs_sizek ?fs" "fs_sizek ?fs \<le> MAXARG_Bx" using assms by simp_all
  fix k assume k: "proper k"
  show "tget (fs_h ?fs) k = TNil \<or>
    (\<exists>i < length (fs_k ?fs). tget (fs_h ?fs) k = TNumber (cast_num (int i)) \<and> const_matches ?fs k (fs_k ?fs ! i))"
  proof (cases "gafqO_rawequalObj key k")
    case True
    then have "const_matches ?fs k (fs_k ?fs ! length (fs_k fs))"
      using const_matches_equal [OF assms(2) True] by (simp add: const_matches_def)
    then show ?thesis using h [OF k] True by auto
  next
    case False
    then have t: "tget h k = tget (fs_h fs) k" using h [OF k] by simp
    from const_invD(4) [OF assms(1) k] show ?thesis
    proof
      assume "\<exists>i < length (fs_k fs). tget (fs_h fs) k = TNumber (cast_num (int i)) \<and> const_matches fs k (fs_k fs ! i)"
      then obtain i where i: "i < length (fs_k fs)" "tget (fs_h fs) k = TNumber (cast_num (int i))" "const_matches fs k (fs_k fs ! i)" by blast
      then have "const_matches ?fs k (fs_k ?fs ! i)" by (simp add: const_matches_def nth_append)
      then show ?thesis using i t by (intro disjI2 exI [of _ i]) simp
    qed (use t in simp)
  qed
qed

definition const_overflow :: "(int \<times> FuncState) res \<Rightarrow> bool" where
  "const_overflow r \<longleftrightarrow> r = Inl (RunError ''table overflow'') \<or> r = Inl (RunError ''constant table overflow'')"

text \<open>What a successful \<open>addk\<close> does, with the constant known or new.\<close>

definition const_entered :: "FuncState \<Rightarrow> TValue \<Rightarrow> TValue \<Rightarrow> int \<Rightarrow> FuncState \<Rightarrow> bool" where
  "const_entered fs key v i fs' \<longleftrightarrow> const_inv fs' \<and> 0 \<le> i \<and> i < fs_nk fs' \<and> const_matches fs' key (fs_k fs' ! nat i) \<and>
     (fs_k fs' = fs_k fs \<or> fs_k fs' = fs_k fs @ [v] \<and> i = fs_nk fs) \<and> tget (fs_h fs') key = TNumber (cast_num i) \<and>
     (\<exists>h k sz. fs' = fs\<lparr>fs_h := h, fs_k := k, fs_sizek := sz\<rparr>)"

lemma addk_known:
  assumes "const_inv fs" "proper key" "tget (fs_h fs) key \<noteq> TNil" "const_matches fs key v"
  shows "\<exists>i h. i < length (fs_k fs) \<and> addk fs key v = Inr (int i, fs\<lparr>fs_h := h\<rparr>) \<and> tget (fs_h fs) key = TNumber (cast_num (int i)) \<and>
    const_entered fs key v (int i) (fs\<lparr>fs_h := h\<rparr>)
    \<or> const_overflow (addk fs key v)"
proof -
  obtain i where i: "i < length (fs_k fs)" "tget (fs_h fs) key = TNumber (cast_num (int i))" "const_matches fs key (fs_k fs ! i)"
    using const_invD(4) [OF assms(1,2)] assms(3) by blast
  have c: "set_contract (fs_h fs) key (gafqH_set (fs_h fs) key)" by (rule set_contract_set [OF const_invD(1) [OF assms(1)] assms(2)])
  then consider "gafqH_set (fs_h fs) key = Inl (RunError ''table overflow'')"
    | h slot where "gafqH_set (fs_h fs) key = Inr (h, slot)" by (auto simp: set_contract_def)
  then show ?thesis
  proof cases
    case 1
    then show ?thesis by (simp add: addk_def const_overflow_def)
  next
    case (2 h slot)
    have h: "table_inv h" "gafqH_get h key = Some slot" "\<And>k. proper k \<Longrightarrow> tget h k = tget (fs_h fs) k"
      using c 2 by (auto simp: set_contract_def)
    have "slotval h slot = tget h key" using h(2) by (simp add: tget_def slotoptval_def)
    then have "slotval h slot = TNumber (cast_num (int i))" using i(2) h(3) [OF assms(2)] by simp
    then have a: "addk fs key v = Inr (int i, fs\<lparr>fs_h := h\<rparr>)" using 2 i(1) index_range [OF assms(1)] by (simp add: addk_def)
    have "const_inv (fs\<lparr>fs_h := h\<rparr>)" by (rule const_inv_same [OF assms(1) h(1,3)])
    moreover have "\<exists>h' k sz. fs\<lparr>fs_h := h\<rparr> = fs\<lparr>fs_h := h', fs_k := k, fs_sizek := sz\<rparr>"
      by (intro exI [of _ h] exI [of _ "fs_k fs"] exI [of _ "fs_sizek fs"]) simp
    ultimately have "const_entered fs key v (int i) (fs\<lparr>fs_h := h\<rparr>)"
      using i h(3) [OF assms(2)] unfolding const_entered_def by (auto simp: const_matches_def)
    then show ?thesis using a i by blast
  qed
qed

lemma addk_new:
  assumes "const_inv fs" "proper key" "tget (fs_h fs) key = TNil" "const_matches fs key v"
  shows "const_overflow (addk fs key v) \<or> (\<exists>fs'. addk fs key v = Inr (fs_nk fs, fs') \<and> const_entered fs key v (fs_nk fs) fs')"
proof -
  have c: "set_contract (fs_h fs) key (gafqH_set (fs_h fs) key)" by (rule set_contract_set [OF const_invD(1) [OF assms(1)] assms(2)])
  then consider "gafqH_set (fs_h fs) key = Inl (RunError ''table overflow'')"
    | h slot where "gafqH_set (fs_h fs) key = Inr (h, slot)" by (auto simp: set_contract_def)
  then show ?thesis
  proof cases
    case 1
    then show ?thesis by (simp add: addk_def const_overflow_def)
  next
    case (2 h slot)
    let ?n = "TNumber (cast_num (fs_nk fs))"
    have h: "gafqH_get h key = Some slot" "tget h key = TNil" using c 2 assms(2,3) by (auto simp: set_contract_def)
    have st: "table_inv (setslot h slot ?n)"
      "\<And>k. proper k \<Longrightarrow> tget (setslot h slot ?n) k = (if gafqO_rawequalObj key k then ?n else tget (fs_h fs) k)"
      using c 2 by (auto simp: set_contract_def)
    have nil: "slotval h slot = TNil" using h by (simp add: tget_def slotoptval_def)
    show ?thesis
    proof (cases "gafqM_growvector (fs_nk fs) (fs_sizek fs) MAXARG_Bx ''constant table overflow''")
      case (Inl e)
      then show ?thesis using 2 nil growvector_fails [OF Inl] const_invD(2) [OF assms(1)]
        by (simp add: addk_def const_overflow_def maxarg_defs size_defs)
    next
      case (Inr sz)
      let ?fs = "fs\<lparr>fs_h := setslot h slot ?n, fs_k := fs_k fs @ [v], fs_sizek := sz\<rparr>"
      have r: "fs_nk fs < sz" "sz \<le> MAXARG_Bx"
        using growvector_room [OF Inr] const_invD(2,3) [OF assms(1)] by (simp_all add: maxarg_defs size_defs)
      have "addk fs key v = Inr (fs_nk fs, ?fs)" using 2 nil Inr by (simp add: addk_def)
      moreover have "const_inv ?fs" by (rule const_inv_new [OF assms(1,4) st(1) r st(2)])
      moreover have "const_matches ?fs key v" using assms(4) by (simp add: const_matches_def)
      moreover have "tget (setslot h slot ?n) key = ?n" using st(2) [OF assms(2)] proper_refl [OF assms(2)] by simp
      ultimately show ?thesis unfolding const_entered_def by (auto simp: nth_append)
    qed
  qed
qed

lemma addk_ok:
  assumes "const_inv fs" "proper key" "const_matches fs key v"
  shows "const_overflow (addk fs key v) \<or> (\<exists>i fs'. addk fs key v = Inr (i, fs') \<and> const_entered fs key v i fs')"
  using addk_known [OF assms(1,2) _ assms(3)] addk_new [OF assms(1,2) _ assms(3)] by blast

text \<open>A constant that is raw equal to one already entered gets the place of that one.\<close>

lemma addk_again:
  assumes "const_entered fs key v i fs'" "gafqO_rawequalObj key key'" "proper key'" "const_matches fs' key' v'"
  shows "const_overflow (addk fs' key' v') \<or> (\<exists>h. addk fs' key' v' = Inr (i, fs'\<lparr>fs_h := h\<rparr>))"
proof -
  have inv: "const_inv fs'" "0 \<le> i" "i < fs_nk fs'" "tget (fs_h fs') key = TNumber (cast_num i)" using assms(1) by (simp_all add: const_entered_def)
  have t: "tget (fs_h fs') key' = TNumber (cast_num i)" using tget_cong [of "fs_h fs'" key key'] inv(1,4) assms(2,3) by (simp add: const_inv_def)
  from addk_known [OF inv(1) assms(3) _ assms(4)] t
  consider "const_overflow (addk fs' key' v')" | j h where "j < length (fs_k fs')" "addk fs' key' v' = Inr (int j, fs'\<lparr>fs_h := h\<rparr>)"
    "cast_num i = cast_num (int j)" by auto
  then show ?thesis
  proof cases
    case (2 j h)
    have "i = int j" using 2(1,3) inv(2,3) index_range [OF inv(1), of j] index_range [OF inv(1), of "nat i"] by simp
    then show ?thesis using 2 by blast
  qed blast
qed

subsection \<open>The four kinds of constants\<close>

lemma proper_constants:
  "proper (TString x)" "\<not> nisnan r \<Longrightarrow> proper (TNumber r)" "proper (TBoolean b)" "proper (TTable a)"
  by (simp_all add: proper_def live_def isnan_val_def gafqi_numisnan_iff)

lemma const_matches_self: "v \<noteq> TTable (fs_haddr fs) \<Longrightarrow> proper v \<Longrightarrow> const_matches fs v v"
  by (simp add: const_matches_def proper_refl)

text \<open>The key of a constant, and the converse of the invariant: every constant of the vector is found in the table.\<close>

definition const_key :: "FuncState \<Rightarrow> TValue \<Rightarrow> TValue" where
  "const_key fs v = (if v = TNil then TTable (fs_haddr fs) else v)"

definition const_listed :: "FuncState \<Rightarrow> bool" where
  "const_listed fs \<longleftrightarrow> (\<forall>i < length (fs_k fs). tget (fs_h fs) (const_key fs (fs_k fs ! i)) = TNumber (cast_num (int i)) \<and> proper (const_key fs (fs_k fs ! i)))"

lemma const_listedD:
  "const_listed fs \<Longrightarrow> i < length (fs_k fs) \<Longrightarrow> tget (fs_h fs) (const_key fs (fs_k fs ! i)) = TNumber (cast_num (int i)) \<and> proper (const_key fs (fs_k fs ! i))"
  by (simp add: const_listed_def)

definition placed :: "FuncState \<Rightarrow> TValue \<Rightarrow> (int \<times> FuncState) res \<Rightarrow> bool" where
  "placed fs v r \<longleftrightarrow> const_overflow r \<or>
     (\<exists>i fs'. r = Inr (i, fs') \<and> const_inv fs' \<and> const_listed fs' \<and> 0 \<le> i \<and> i < fs_nk fs' \<and> fs_nk fs' \<le> MAXARG_Bx \<and>
        gafqO_rawequalObj (fs_k fs' ! nat i) v \<and>
        (if \<exists>w\<in>set (fs_k fs). gafqO_rawequalObj w v then fs_k fs' = fs_k fs else fs_k fs' = fs_k fs @ [v] \<and> i = fs_nk fs))"

text \<open>The table after \<open>addk\<close>: as before, or with the new place under the key.\<close>

lemma addk_table:
  assumes "const_inv fs" "proper key" "const_matches fs key v" "addk fs key v = Inr (i, fs')"
  shows "if tget (fs_h fs) key = TNil then i = fs_nk fs \<and> fs_k fs' = fs_k fs @ [v] \<and>
      (\<forall>k. proper k \<longrightarrow> tget (fs_h fs') k = (if gafqO_rawequalObj key k then TNumber (cast_num (fs_nk fs)) else tget (fs_h fs) k))
    else fs_k fs' = fs_k fs \<and> (\<forall>k. proper k \<longrightarrow> tget (fs_h fs') k = tget (fs_h fs) k)"
proof -
  have c: "set_contract (fs_h fs) key (gafqH_set (fs_h fs) key)" by (rule set_contract_set [OF const_invD(1) [OF assms(1)] assms(2)])
  obtain h slot where h: "gafqH_set (fs_h fs) key = Inr (h, slot)" using assms(4) by (auto simp: addk_def res_simps)
  have g: "gafqH_get h key = Some slot" "\<And>k. proper k \<Longrightarrow> tget h k = tget (fs_h fs) k"
    "\<And>v k. proper k \<Longrightarrow> tget (setslot h slot v) k = (if gafqO_rawequalObj key k then v else tget (fs_h fs) k)"
    using c h by (auto simp: set_contract_def)
  have sv: "slotval h slot = tget (fs_h fs) key" using g(1) g(2) [OF assms(2)] by (simp add: tget_def slotoptval_def)
  show ?thesis
  proof (cases "tget (fs_h fs) key = TNil")
    case True
    then obtain sz where "fs' = fs\<lparr>fs_h := setslot h slot (TNumber (cast_num (fs_nk fs))), fs_k := fs_k fs @ [v], fs_sizek := sz\<rparr>" "i = fs_nk fs"
      using assms(4) h sv by (auto simp: addk_def res_simps)
    then show ?thesis using True g(3) by simp
  next
    case False
    then obtain x where "tget (fs_h fs) key = TNumber x" using const_invD(4) [OF assms(1,2)] by blast
    then have "fs' = fs\<lparr>fs_h := h\<rparr>" using assms(4) h sv by (simp add: addk_def)
    then show ?thesis using False g(2) by simp
  qed
qed

lemma addk_placed:
  assumes "const_inv fs" "const_listed fs" "proper key" "const_matches fs key v" "key = const_key fs v" "v = TNil \<or> v \<noteq> TTable (fs_haddr fs)"
    "\<And>w. const_matches fs key w \<longleftrightarrow> gafqO_rawequalObj w v"
  shows "placed fs v (addk fs key v)"
proof -
  consider "const_overflow (addk fs key v)" | i fs' where "addk fs key v = Inr (i, fs')" "const_entered fs key v i fs'"
    using addk_ok [OF assms(1,3,4)] by blast
  then show ?thesis
  proof cases
    case (2 i fs')
    have c: "const_inv fs'" "0 \<le> i" "i < fs_nk fs'" "const_matches fs' key (fs_k fs' ! nat i)" "fs_haddr fs' = fs_haddr fs"
      using 2(2) by (auto simp: const_entered_def)
    have eq: "gafqO_rawequalObj (fs_k fs' ! nat i) v" using assms(7) c(4,5) by (simp add: const_matches_def)
    have nk: "fs_nk fs' \<le> MAXARG_Bx" using const_invD(2,3) [OF c(1)] by simp
    have ck: "const_key fs' = const_key fs" by (simp add: const_key_def c(5) fun_eq_iff)
    note t = addk_table [OF assms(1,3,4) 2(1)]
    have known: "(\<exists>w\<in>set (fs_k fs). gafqO_rawequalObj w v) \<longleftrightarrow> tget (fs_h fs) key \<noteq> TNil"
    proof
      assume "\<exists>w\<in>set (fs_k fs). gafqO_rawequalObj w v"
      then obtain j where j: "j < length (fs_k fs)" "gafqO_rawequalObj (fs_k fs ! j) v" by (auto simp: in_set_conv_nth)
      have "gafqO_rawequalObj (const_key fs (fs_k fs ! j)) key"
        using j(2) assms(3,5,6) proper_refl [OF assms(3)] unfolding assms(5) const_key_def by (cases v; cases "fs_k fs ! j") auto
      then have "tget (fs_h fs) key = tget (fs_h fs) (const_key fs (fs_k fs ! j))"
        using tget_cong [OF const_invD(1) [OF assms(1)]] const_listedD [OF assms(2) j(1)] assms(3) by metis
      then show "tget (fs_h fs) key \<noteq> TNil" using const_listedD [OF assms(2) j(1)] by simp
    next
      assume "tget (fs_h fs) key \<noteq> TNil"
      then obtain j where "j < length (fs_k fs)" "const_matches fs key (fs_k fs ! j)" using const_invD(4) [OF assms(1,3)] by blast
      then show "\<exists>w\<in>set (fs_k fs). gafqO_rawequalObj w v" using assms(7) nth_mem by blast
    qed
    have "const_listed fs'" unfolding const_listed_def ck
    proof (intro allI impI)
      fix j assume j: "j < length (fs_k fs')"
      show "tget (fs_h fs') (const_key fs (fs_k fs' ! j)) = TNumber (cast_num (int j)) \<and> proper (const_key fs (fs_k fs' ! j))"
      proof (cases "j < length (fs_k fs)")
        case True
        then have kj: "fs_k fs' ! j = fs_k fs ! j" using t by (auto simp: nth_append split: if_splits)
        note l = const_listedD [OF assms(2) True]
        have "\<not> gafqO_rawequalObj key (const_key fs (fs_k fs ! j))" if "tget (fs_h fs) key = TNil"
          using tget_cong [OF const_invD(1) [OF assms(1)]] l assms(3) that by (metis TValue.distinct(5))
        then show ?thesis using t l unfolding kj by (auto split: if_splits)
      next
        case False
        then have nil: "tget (fs_h fs) key = TNil" using t j by (auto split: if_splits)
        then have jl: "j = length (fs_k fs)" using t j False by simp
        then have "tget (fs_h fs) key = TNil" "j = length (fs_k fs)" "fs_k fs' ! j = v" using t nil by simp_all
        then show ?thesis using t assms(3,5) proper_refl [OF assms(3)] by simp
      qed
    qed
    then show ?thesis unfolding placed_def known using 2(1) c eq nk t by auto
  qed (simp add: placed_def)
qed

lemma addk_self_placed:
  assumes "const_inv fs" "const_listed fs" "proper v" "v \<noteq> TTable (fs_haddr fs)" shows "placed fs v (addk fs v v)"
proof (rule addk_placed [OF assms(1-3) const_matches_self [OF assms(4,3)]])
  show "v = const_key fs v" using live_not_nil [OF proper_live [OF assms(3)]] by (simp add: const_key_def)
  show "const_matches fs v w \<longleftrightarrow> gafqO_rawequalObj w v" for w using assms(4) rawequal_sym by (auto simp: const_matches_def)
qed (use assms(4) in simp)


lemma negative_zero_shared:
  assumes "const_inv fs" "gafqK_numberK fs (nzero False) = Inr (i, fs')"
  shows "const_overflow (gafqK_numberK fs' (nzero True)) \<or> (\<exists>h. gafqK_numberK fs' (nzero True) = Inr (i, fs'\<lparr>fs_h := h\<rparr>))"
proof -
  have z: "\<not> nisnan (nzero b)" "gafqi_numeq (nzero False) (nzero True)" for b
    by (cases b; simp add: nzero_def nisnan_def nexp_def gafqi_numeq_def nscaled_def nmag_def nfrac_def)+
  have "const_entered fs (TNumber (nzero False)) (TNumber (nzero False)) i fs'"
    using addk_ok [OF assms(1) proper_constants(2) [OF z(1) [of False]] const_matches_self] assms(2) z(1)
    by (auto simp: gafqK_numberK_def const_overflow_def proper_constants)
  from addk_again [OF this, of "TNumber (nzero True)" "TNumber (nzero True)"] z show ?thesis
    by (simp add: gafqK_numberK_def proper_constants const_matches_self)
qed

text \<open>The state of a function at its start: no code, no constants.\<close>

definition start_fs :: FuncState where
  "start_fs = \<lparr>fs_code = [], fs_lineinfo = [], fs_sizecode = 0, fs_sizelineinfo = 0, fs_k = [], fs_sizek = 0,
     fs_h = \<lparr>flags = NOT 0, lsizenode = 0, metatable = None, array = [], node = [dummynode], isdummy = True, lastfree = 0\<rparr>,
     fs_haddr = 16, fs_lasttarget = -1, fs_jpc = NO_JUMP, fs_freereg = 0, fs_nactvar = 0, fs_maxstacksize = 2, fs_lastline = 1\<rparr>"

lemma start_fs_const_inv: "const_inv start_fs"
proof -
  have "gafqH_new 0 0 = Inr (fs_h start_fs)"
    by (simp add: gafqH_new_def setarrayvector_def setnodevector_def start_fs_def)
  then have "table_inv (fs_h start_fs)" "\<forall>k. proper k \<longrightarrow> tget (fs_h start_fs) k = TNil"
    using gafqH_new_inv [of 0 0] by (simp_all add: MAXASIZE_def)
  then show ?thesis by (simp add: const_inv_def start_fs_def maxarg_defs size_defs)
qed


end
