(* ===== verification/Do_Frame.thy ===== *)
theory Do_Frame
  imports Table
begin

unbundle bit_operations_syntax

text \<open>
  The registers of a Gafq function when it starts: the part of \<open>gafqD_precall\<close> (\<open>gdo.c\<close>) that lays out the frame on the stack.  The stack
  above the function is a list of values, \<open>a\<close> the address of the table of extra arguments, which is created when the function is of the
  old style.  The growth of the stack, the record of the call and the hook are not part of it.
\<close>

fun fill_args :: "Table \<Rightarrow> int \<Rightarrow> TValue list \<Rightarrow> Table res" where
  "fill_args t i [] = Inr t"
| "fill_args t i (v # vs) = rbind (gafqH_setnum t i) (\<lambda>(t, s). fill_args (setslot t s v) (i + 1) vs)"

definition arg_table :: "TValue list \<Rightarrow> Table res" where
  "arg_table extra =
     rbind (gafqH_new (length extra) 1) (\<lambda>t. rbind (fill_args t 1 extra) (\<lambda>t.
       rbind (gafqH_setstr t ''n'') (\<lambda>(t, s). Inr (setslot t s (TNumber (cast_num (int (length extra))))))))"

text \<open>\<open>adjust_varargs\<close>: the stack above the function, the place in it where the frame begins, and the table of extra arguments.\<close>

definition adjust_varargs :: "nat \<Rightarrow> 8 word \<Rightarrow> addr \<Rightarrow> TValue list \<Rightarrow> (TValue list \<times> nat \<times> Table option) res" where
  "adjust_varargs nfixargs is_vararg a args =
     (let actual = args @ replicate (nfixargs - length args) TNil;
          needsarg = is_vararg AND VARARG_NEEDSARG \<noteq> 0
      in rbind (if needsarg then rbind (arg_table (drop nfixargs actual)) (\<lambda>t. Inr (Some t)) else Inr None) (\<lambda>htab.
         Inr (replicate nfixargs TNil @ drop nfixargs actual @ take nfixargs actual @ (if needsarg then [TTable a] else []),
              length actual, htab)))"

definition precall_frame :: "nat \<Rightarrow> 8 word \<Rightarrow> addr \<Rightarrow> nat \<Rightarrow> TValue list \<Rightarrow> (TValue list \<times> Table option) res" where
  "precall_frame numparams is_vararg a maxstacksize args =
     rbind (if is_vararg = 0 then Inr (take numparams args, 0, None) else adjust_varargs numparams is_vararg a args) (\<lambda>(st, base, htab).
       let regs = drop base st
       in Inr (regs @ replicate (maxstacksize - length regs) TNil, htab))"

text \<open>The frame: the parameters, the table of extra arguments, and nil in all other registers.\<close>

lemma precall_frame_shape:
  assumes "precall_frame numparams is_vararg a maxstacksize args = Inr (regs, htab)"
  obtains ps arg where "length ps \<le> numparams" "arg = (if is_vararg AND VARARG_NEEDSARG \<noteq> 0 then [TTable a] else [])"
    "regs = (ps @ arg) @ replicate (maxstacksize - length (ps @ arg)) TNil"
proof (cases "is_vararg = 0")
  case True
  then show ?thesis using assms that [of "take numparams args" "[]"] by (simp add: precall_frame_def)
next
  case False
  let ?ps = "take numparams (args @ replicate (numparams - length args) TNil)"
  have "length ?ps \<le> numparams" by simp
  then show ?thesis using False assms that [of ?ps "if is_vararg AND VARARG_NEEDSARG \<noteq> 0 then [TTable a] else []"]
    by (auto simp: precall_frame_def adjust_varargs_def Let_def res_simps split: if_splits)
qed

lemma precall_frame_clean:
  assumes "precall_frame numparams is_vararg a maxstacksize args = Inr (regs, htab)"
    and "numparams + (if is_vararg AND VARARG_NEEDSARG \<noteq> 0 then 1 else 0) \<le> i" "i < maxstacksize"
  shows "i < length regs" "regs ! i = TNil"
proof (atomize (full), rule precall_frame_shape [OF assms(1)])
  fix ps arg assume r: "length ps \<le> numparams" "arg = (if is_vararg AND VARARG_NEEDSARG \<noteq> 0 then [TTable a] else [])"
    "regs = (ps @ arg) @ replicate (maxstacksize - length (ps @ arg)) TNil"
  have "length (ps @ arg) \<le> i" using r(1,2) assms(2) by (simp split: if_splits)
  then show "i < length regs \<and> regs ! i = TNil" using assms(3) r(3) by (simp add: nth_append del: append_assoc)
qed

end
