(* ===== verification/Code_Nil.thy ===== *)
theory Code_Nil
  imports Code_Frame Code_Consts Do_Frame
begin

unbundle bit_operations_syntax

subsection \<open>Clearing registers\<close>

text \<open>The effect of \<open>OP_LOADNIL\<close> on the registers, as \<open>gafqV_execute\<close> has it: \<open>R(A) := ... := R(B) := nil\<close>.\<close>

definition load_nil :: "Instruction \<Rightarrow> (int \<Rightarrow> TValue) \<Rightarrow> int \<Rightarrow> TValue" where
  "load_nil i R = (\<lambda>r. if GETARG_A i \<le> r \<and> r \<le> GETARG_B i then TNil else R r)"

definition clear_regs :: "int \<Rightarrow> int \<Rightarrow> (int \<Rightarrow> TValue) \<Rightarrow> int \<Rightarrow> TValue" where
  "clear_regs from n R = (\<lambda>r. if from \<le> r \<and> r < from + n then TNil else R r)"

lemma codeABC_loadnil:
  assumes "0 \<le> from" "1 \<le> n" "from + n \<le> 256"
  shows "GET_OPCODE (CREATE_ABC (opnum OP_LOADNIL) from (from + n - 1) 0) = opnum OP_LOADNIL"
    "load_nil (CREATE_ABC (opnum OP_LOADNIL) from (from + n - 1) 0) R = clear_regs from n R"
proof -
  have b: "from \<le> MAXARG_A" "0 \<le> from + n - 1" "from + n - 1 \<le> MAXARG_B" "(0::int) \<le> MAXARG_C" "opnum OP_LOADNIL < 2 ^ SIZE_OP"
    using assms by (simp_all add: maxarg_defs size_defs)
  have "GETARG_A (CREATE_ABC (opnum OP_LOADNIL) from (from + n - 1) 0) = from"
    "GETARG_B (CREATE_ABC (opnum OP_LOADNIL) from (from + n - 1) 0) = from + n - 1"
    "GET_OPCODE (CREATE_ABC (opnum OP_LOADNIL) from (from + n - 1) 0) = opnum OP_LOADNIL"
    using b assms(1)
    by (simp_all add: CREATE_ABC_sets GET_SET_OPCODE getarg_SET_OPCODE fields_independent maxarg_bounds fA.getf_setf_id fB.getf_setf_id)
  then show "GET_OPCODE (CREATE_ABC (opnum OP_LOADNIL) from (from + n - 1) 0) = opnum OP_LOADNIL"
    "load_nil (CREATE_ABC (opnum OP_LOADNIL) from (from + n - 1) 0) R = clear_regs from n R"
    by (auto simp: load_nil_def clear_regs_def)
qed

lemma extended_loadnil:
  assumes "GETARG_A p \<le> from" "from \<le> GETARG_B p + 1" "GETARG_B p < from + n - 1" "from + n \<le> 256"
  shows "load_nil (SETARG_B p (from + n - 1)) R = clear_regs from n (load_nil p R)"
proof -
  have "0 \<le> GETARG_B p" using fB.getf_bounds [of p] by simp
  then have "0 \<le> from + n - 1" "from + n - 1 < 2 ^ SIZE_B" using assms by (simp_all add: size_defs)
  then have "GETARG_B (SETARG_B p (from + n - 1)) = from + n - 1" "GETARG_A (SETARG_B p (from + n - 1)) = GETARG_A p"
    by (simp_all add: fB.getf_setf_id fields_independent)
  then show ?thesis using assms by (auto simp: load_nil_def clear_regs_def fun_eq_iff)
qed

text \<open>
  The registers \<open>from .. from + n - 1\<close> are nil in every frame that \<open>gafqD_precall\<close> lays out for a function whose active variables at its start are its
  parameters and, for an old-style function, the table of extra arguments.
\<close>

definition clean_at_entry :: "FuncState \<Rightarrow> int \<Rightarrow> int \<Rightarrow> bool" where
  "clean_at_entry fs from n \<longleftrightarrow>
    (\<forall>numparams is_vararg a maxstacksize args regs htab r.
      int numparams + (if is_vararg AND VARARG_NEEDSARG \<noteq> 0 then 1 else 0) \<le> fs_nactvar fs \<and> from \<le> r \<and> r < from + n \<and> r < int maxstacksize \<and>
      precall_frame numparams is_vararg a maxstacksize args = Inr (regs, htab) \<longrightarrow>
      nat r < length regs \<and> regs ! nat r = TNil)"

lemma clean_at_entryI: "fs_nactvar fs \<le> from \<Longrightarrow> clean_at_entry fs from n"
  unfolding clean_at_entry_def
proof (intro allI impI, elim conjE)
  fix numparams is_vararg a maxstacksize args regs htab r
  assume a: "fs_nactvar fs \<le> from" "int numparams + (if is_vararg AND VARARG_NEEDSARG \<noteq> 0 then 1 else 0) \<le> fs_nactvar fs" "from \<le> r" "r < int maxstacksize"
    and f: "precall_frame numparams is_vararg a maxstacksize args = Inr (regs, htab)"
  have "numparams + (if is_vararg AND VARARG_NEEDSARG \<noteq> 0 then 1 else 0) \<le> nat r" "nat r < maxstacksize" using a by (auto split: if_splits)
  from precall_frame_clean [OF f this] show "nat r < length regs \<and> regs ! nat r = TNil" by simp
qed

text \<open>The code of \<open>fs'\<close> is that of \<open>fs\<close> made to clear the registers \<open>from .. from + n - 1\<close> as well.\<close>

definition nil_coded :: "FuncState \<Rightarrow> int \<Rightarrow> int \<Rightarrow> FuncState \<Rightarrow> bool" where
  "nil_coded fs from n fs' \<longleftrightarrow>
    (fs' = fs \<and> fs_code fs = [] \<and> fs_lasttarget fs < 0 \<and> clean_at_entry fs from n) \<or>
    (\<exists>c p p'. fs_code fs = c @ [p] \<and> fs_code fs' = c @ [p'] \<and> fs_lasttarget fs < fs_pc fs \<and>
      GET_OPCODE p = opnum OP_LOADNIL \<and> GET_OPCODE p' = opnum OP_LOADNIL \<and> (\<forall>R. load_nil p' R = clear_regs from n (load_nil p R))) \<or>
    (\<exists>c i. fs_code fs' = c @ [i] \<and> length c = length (fs_code fs) \<and> GET_OPCODE i = opnum OP_LOADNIL \<and>
      (\<forall>R. load_nil i R = clear_regs from n R))"

text \<open>
  C31. \<open>gafqK_nil\<close> and its optimisations: the registers \<open>from .. from + n - 1\<close> are cleared by a new instruction at the end of the
  code, or by the last one, extended, in place of the last one followed by such an instruction, and then no jump
  leads between the two.  Only at the start of a function, to which no jump leads, may no instruction be coded: then these registers are nil in every frame that
  \<open>gafqD_precall\<close> lays out for the function.
\<close>

theorem gafqK_nil_clears:
  assumes "gafqK_nil fs from n = Inr fs'" "0 \<le> from" "1 \<le> n" "from + n \<le> 256"
  shows "nil_coded fs from n fs'"
proof -
  let ?i = "CREATE_ABC (opnum OP_LOADNIL) from (from + n - 1) 0"
  have new: ?thesis if "rbind (gafqK_codeABC fs OP_LOADNIL from (from + n - 1) 0) (\<lambda>(pc, fs). Inr fs) = Inr fs'"
  proof -
    note coded = that
    obtain pc where "gafqK_code fs ?i (fs_lastline fs) = Inr (pc, fs')"
      using coded unfolding gafqK_codeABC_def rbind_eq_Inr by auto
    then obtain c where d: "fs_code fs' = c @ [?i]" "length c = length (fs_code fs)"
      using gafqK_code_frame(3) by blast
    then show ?thesis using codeABC_loadnil [OF assms(2-4)] unfolding nil_coded_def by blast
  qed
  show ?thesis
  proof (cases "fs_lasttarget fs < fs_pc fs")
    case False
    then show ?thesis using assms(1) new by (simp add: gafqK_nil_def Let_def)
  next
    case True
    show ?thesis
    proof (cases "fs_code fs" rule: rev_cases)
      case Nil
      then show ?thesis using assms(1) new True clean_at_entryI by (auto simp: nil_coded_def gafqK_nil_def Let_def split: if_splits)
    next
      case (snoc c p)
      have last: "fs_code fs ! nat (fs_pc fs - 1) = p" "fs_pc fs \<noteq> 0" "nat (fs_pc fs - 1) = length c" using snoc by (simp_all add: nat_add_distrib)
      show ?thesis
      proof (cases "GET_OPCODE p = opnum OP_LOADNIL \<and> GETARG_A p \<le> from \<and> from \<le> GETARG_B p + 1")
        case False
        then show ?thesis using assms(1) new True last by (auto simp: gafqK_nil_def Let_def split: if_splits)
      next
        case merge: True
        have m: "fs' = (if from + n - 1 > GETARG_B p then set_code fs (fs_pc fs - 1) (SETARG_B p (from + n - 1)) else fs)"
          using assms(1) True last merge by (simp add: gafqK_nil_def Let_def split: if_splits)
        show ?thesis
        proof (cases "from + n - 1 > GETARG_B p")
          case True
          then have "fs_code fs' = c @ [SETARG_B p (from + n - 1)]" using m snoc last(3) by (simp add: set_code_def)
          moreover have "GET_OPCODE (SETARG_B p (from + n - 1)) = opnum OP_LOADNIL" using merge by (simp add: fields_independent)
          moreover have "load_nil (SETARG_B p (from + n - 1)) R = clear_regs from n (load_nil p R)" for R
            using extended_loadnil [of p "from" n R] True merge assms(4) by simp
          ultimately show ?thesis using snoc merge \<open>fs_lasttarget fs < fs_pc fs\<close> unfolding nil_coded_def by blast
        next
          case False
          then have "load_nil p R = clear_regs from n (load_nil p R)" for R
            using merge by (auto simp: load_nil_def clear_regs_def fun_eq_iff)
          then show ?thesis using m False snoc merge \<open>fs_lasttarget fs < fs_pc fs\<close> unfolding nil_coded_def by auto
        qed
      qed
    qed
  qed
qed

text \<open>\<open>local a; local b, c\<close>: one instruction clears the three registers.\<close>

definition nil_fs :: FuncState where
  "nil_fs = start_fs\<lparr>fs_code := [CREATE_ABC (opnum OP_LOADNIL) 0 0 0], fs_lineinfo := [1], fs_sizecode := 4, fs_sizelineinfo := 4\<rparr>"

theorem gafqK_nil_clears_witness:
  "\<exists>fs'. gafqK_nil nil_fs 1 2 = Inr fs' \<and> nil_coded nil_fs 1 2 fs' \<and> fs_code fs' = [CREATE_ABC (opnum OP_LOADNIL) 0 2 0]"
proof -
  let ?fs = "nil_fs\<lparr>fs_code := [CREATE_ABC (opnum OP_LOADNIL) 0 2 0]\<rparr>"
  have "gafqK_nil nil_fs 1 2 = Inr ?fs" by code_simp
  then show ?thesis using gafqK_nil_clears [of nil_fs 1 2 ?fs] by auto
qed

end
