(* ===== verification/Code_Regs.thy ===== *)
theory Code_Regs
  imports Code_Frame Code_Consts
begin

text \<open>
  Registers and operands: an expression is brought into a register of the frame or into the constant vector, and the
  operand that \<open>gafqK_exp2RK\<close> returns is well typed: a constant that exists, or a register within the
  stack size that the function declares.
\<close>

subsection \<open>Well-formed states and expressions\<close>

definition reg_ok :: "FuncState \<Rightarrow> bool" where
  "reg_ok fs \<longleftrightarrow> 0 \<le> fs_nactvar fs \<and> fs_nactvar fs \<le> fs_freereg fs \<and> fs_freereg fs \<le> fs_maxstacksize fs \<and> fs_maxstacksize fs < MAXSTACK"

definition fs_ok :: "FuncState \<Rightarrow> bool" where
  "fs_ok fs \<longleftrightarrow> const_inv fs \<and> reg_ok fs"

text \<open>The number of temporary registers (0 or 1) that an operand holds.\<close>

definition temps :: "FuncState \<Rightarrow> int \<Rightarrow> int" where
  "temps fs r = (if \<not> ISK r \<and> r \<ge> fs_nactvar fs then 1 else 0)"

definition exp_ok :: "FuncState \<Rightarrow> expdesc \<Rightarrow> bool" where
  "exp_ok fs e \<longleftrightarrow>
     (case ek e of
        VLOCAL \<Rightarrow> 0 \<le> info e \<and> info e < fs_nactvar fs
      | VNONRELOC \<Rightarrow> 0 \<le> info e \<and> info e < fs_freereg fs
      | VK \<Rightarrow> 0 \<le> info e \<and> info e < fs_nk fs
      | VKNUM \<Rightarrow> \<not> nisnan (nval e)
      | VINDEXED \<Rightarrow> fs_nactvar fs + temps fs (aux e) + temps fs (info e) \<le> fs_freereg fs
      | VCALL \<Rightarrow> \<forall>i. code_at fs (info e) = Inr i \<longrightarrow> GETARG_A i < fs_freereg fs
      | _ \<Rightarrow> True)"

definition discharged :: "expdesc \<Rightarrow> bool" where
  "discharged e \<longleftrightarrow> ek e \<notin> {VLOCAL, VUPVAL, VGLOBAL, VINDEXED, VCALL, VVARARG}"

definition rk_ok :: "FuncState \<Rightarrow> int \<Rightarrow> bool" where
  "rk_ok fs r \<longleftrightarrow> (if ISK r then 0 \<le> INDEXK r \<and> INDEXK r < fs_nk fs else 0 \<le> r \<and> r < fs_maxstacksize fs)"

lemma fs_ok_emits: "emits fs fs' \<Longrightarrow> fs_ok fs \<Longrightarrow> fs_ok fs'"
  by (auto simp: fs_ok_def reg_ok_def const_inv_def const_matches_def emits_def)

lemma const_inv_regs: "const_inv (fs\<lparr>fs_freereg := r\<rparr>) = const_inv fs" "const_inv (fs\<lparr>fs_maxstacksize := m\<rparr>) = const_inv fs"
  by (auto simp: const_inv_def const_matches_def)

lemma exp_ok_emits: "emits fs fs' \<Longrightarrow> discharged e \<Longrightarrow> exp_ok fs e \<Longrightarrow> exp_ok fs' e"
  by (cases "ek e") (auto simp: exp_ok_def emits_def discharged_def)

subsection \<open>Registers\<close>

lemma freereg_ok:
  assumes "fs_ok fs" "fs_nactvar fs + temps fs r \<le> fs_freereg fs"
  shows "fs_ok (freereg fs r)" "fs_freereg (freereg fs r) = fs_freereg fs - temps fs r" "fs_nactvar (freereg fs r) = fs_nactvar fs"
    "fs_k (freereg fs r) = fs_k fs" "fs_code (freereg fs r) = fs_code fs" "fs_maxstacksize (freereg fs r) = fs_maxstacksize fs"
  using assms by (auto simp: fs_ok_def reg_ok_def freereg_def temps_def const_inv_regs split: if_splits)

lemma reserveregs_ok:
  assumes "gafqK_reserveregs fs n = Inr fs'" "fs_ok fs" "0 \<le> n"
  shows "fs_ok fs'" "fs_freereg fs' = fs_freereg fs + n" "fs_nactvar fs' = fs_nactvar fs" "fs_k fs' = fs_k fs" "fs_code fs' = fs_code fs"
  using assms by (auto simp: gafqK_reserveregs_def gafqK_checkstack_def fs_ok_def reg_ok_def const_inv_regs Let_def res_simps MAXSTACK_def
      split: if_splits)

subsection \<open>Discharging\<close>

lemma GETARG_A_nonneg: "0 \<le> GETARG_A i"
  using fA.getf_bounds [of i] by simp

lemma dischargevars_id: "discharged e \<Longrightarrow> gafqK_dischargevars fs e = Inr (e, fs)"
  by (cases "ek e") (auto simp: gafqK_dischargevars_def discharged_def)

lemma dischargevars_ok:
  assumes "gafqK_dischargevars fs e = Inr (e', fs')" "fs_ok fs" "exp_ok fs e"
  shows "fs_ok fs' \<and> exp_ok fs' e' \<and> discharged e' \<and> et e' = et e \<and> ef e' = ef e"
proof (cases "discharged e")
  case True
  then show ?thesis using assms dischargevars_id by auto
next
  case False
  then consider "ek e = VLOCAL" | "ek e = VUPVAL" | "ek e = VGLOBAL" | "ek e = VINDEXED" | "ek e = VCALL" | "ek e = VVARARG"
    by (auto simp: discharged_def)
  then show ?thesis
  proof cases
    case 1
    then show ?thesis using assms by (auto simp: gafqK_dischargevars_def exp_ok_def discharged_def fs_ok_def reg_ok_def)
  next
    case 2
    then obtain pc where c: "gafqK_codeABC fs OP_GETUPVAL 0 (info e) 0 = Inr (pc, fs')" "e' = e\<lparr>info := pc, ek := VRELOCABLE\<rparr>"
      using assms(1) by (auto simp: gafqK_dischargevars_def res_simps)
    then show ?thesis using fs_ok_emits [OF codeABC_emits [OF c(1)] assms(2)] by (simp add: exp_ok_def discharged_def)
  next
    case 3
    then obtain pc where c: "gafqK_codeABx fs OP_GETGLOBAL 0 (info e) = Inr (pc, fs')" "e' = e\<lparr>info := pc, ek := VRELOCABLE\<rparr>"
      using assms(1) by (auto simp: gafqK_dischargevars_def res_simps)
    then show ?thesis using fs_ok_emits [OF codeABx_emits [OF c(1)] assms(2)] by (simp add: exp_ok_def discharged_def)
  next
    case 4
    have t: "fs_nactvar fs + temps fs (aux e) + temps fs (info e) \<le> fs_freereg fs" "0 \<le> temps fs (info e)"
      using assms(3) 4 by (auto simp: exp_ok_def temps_def)
    let ?f1 = "freereg fs (aux e)"
    have f1: "fs_ok ?f1" "fs_nactvar ?f1 + temps ?f1 (info e) \<le> fs_freereg ?f1"
      using freereg_ok [OF assms(2), of "aux e"] t by (auto simp: temps_def)
    have f2: "fs_ok (freereg ?f1 (info e))" using freereg_ok(1) [OF f1] .
    obtain pc where c: "gafqK_codeABC (freereg ?f1 (info e)) OP_GETTABLE 0 (info e) (aux e) = Inr (pc, fs')"
      "e' = e\<lparr>info := pc, ek := VRELOCABLE\<rparr>"
      using assms(1) 4 by (auto simp: gafqK_dischargevars_def res_simps Let_def)
    then show ?thesis using fs_ok_emits [OF codeABC_emits [OF c(1)] f2] by (simp add: exp_ok_def discharged_def)
  next
    case 5
    then show ?thesis using assms GETARG_A_nonneg
      by (auto simp: gafqK_dischargevars_def gafqK_setoneret_def res_simps exp_ok_def discharged_def)
  next
    case 6
    then show ?thesis using assms fs_ok_emits [OF patches_emits [OF patches_updates(1)]]
      by (auto simp: gafqK_dischargevars_def gafqK_setoneret_def res_simps exp_ok_def discharged_def)
  qed
qed

definition same_regs :: "FuncState \<Rightarrow> FuncState \<Rightarrow> bool" where
  "same_regs fs fs' \<longleftrightarrow> fs_ok fs' \<and> fs_freereg fs' = fs_freereg fs \<and> fs_nactvar fs' = fs_nactvar fs \<and> fs_maxstacksize fs' = fs_maxstacksize fs"

lemma same_regs_emits: "fs_ok fs \<Longrightarrow> emits fs fs' \<Longrightarrow> same_regs fs fs'"
  using fs_ok_emits by (auto simp: same_regs_def emits_def)

lemma same_regs_trans: "same_regs a b \<Longrightarrow> same_regs b c \<Longrightarrow> same_regs a c"
  by (simp add: same_regs_def)

lemma addk_regs:
  assumes "addk fs key v = Inr (k, fs')" "fs_ok fs" "proper key" "const_matches fs key v"
  shows "same_regs fs fs'" "0 \<le> k" "k < fs_nk fs'" "fs_nk fs' \<le> fs_nk fs + 1"
proof -
  have "const_entered fs key v k fs'"
    using addk_ok [of fs key v] assms by (auto simp: const_overflow_def fs_ok_def)
  then show "same_regs fs fs'" "0 \<le> k" "k < fs_nk fs'" "fs_nk fs' \<le> fs_nk fs + 1"
    using assms(2) by (auto simp: same_regs_def const_entered_def fs_ok_def reg_ok_def)
qed

lemma constantK_regs:
  assumes "constantK fs e = Inr (k, fs')" "fs_ok fs" "exp_ok fs e"
  shows "same_regs fs fs'" "0 \<le> k" "k < fs_nk fs'" "fs_nk fs' \<le> fs_nk fs + 1"
proof -
  define v where "v = (if ek e = VNIL then TNil else if ek e = VKNUM then TNumber (nval e) else TBoolean (ek e = VTRUE))"
  define key where "key = (if ek e = VNIL then TTable (fs_haddr fs) else v)"
  have a: "addk fs key v = Inr (k, fs')"
    using assms(1) by (simp add: constantK_def nilK_def boolK_def gafqK_numberK_def key_def v_def split: if_splits)
  have p: "proper key" using assms(3) by (auto simp: key_def v_def proper_constants exp_ok_def)
  have m: "const_matches fs key v"
  proof (cases "ek e = VNIL")
    case True
    then show ?thesis by (simp add: key_def v_def const_matches_def)
  next
    case False
    then show ?thesis using p by (auto simp: key_def v_def intro!: const_matches_self)
  qed
  show "same_regs fs fs'" "0 \<le> k" "k < fs_nk fs'" "fs_nk fs' \<le> fs_nk fs + 1" by (rule addk_regs [OF a assms(2) p m])+
qed

lemma discharge2reg_ok:
  assumes "discharge2reg fs e reg = Inr (e', fs')" "fs_ok fs" "exp_ok fs e" "discharged e"
  shows "same_regs fs fs'"
proof -
  have n: "same_regs fs fs2" if "gafqK_numberK fs (nval e) = Inr (k, fs1)" "gafqK_codeABx fs1 OP_LOADK reg k = Inr (pc, fs2)" "ek e = VKNUM" for k fs1 pc fs2
  proof -
    have "constantK fs e = Inr (k, fs1)" using that(1,3) by (simp add: constantK_def)
    then have "same_regs fs fs1" using constantK_regs(1) assms(2,3) by blast
    then show ?thesis using same_regs_emits [OF _ codeABx_emits [OF that(2)]] same_regs_trans same_regs_def by blast
  qed
  note d = assms(1) [unfolded discharge2reg_def dischargevars_id [OF assms(4)]]
  have "emits fs fs'" if "ek e \<noteq> VKNUM"
    using d that by (cases "ek e")
      (auto simp: res_simps Let_def dest!: gafqK_nil_emits codeABC_emits codeABx_emits intro: patches_emits split: if_splits)
  moreover have ?thesis if "ek e = VKNUM" using d that n by (auto simp: res_simps Let_def)
  ultimately show ?thesis using same_regs_emits [OF assms(2)] by blast
qed

lemma discharge2reg_result:
  assumes "discharge2reg fs e reg = Inr (e', fs')" "discharged e"
  shows "et e' = et e \<and> ef e' = ef e \<and> (ek e' = VNONRELOC \<and> info e' = reg \<or> e' = e \<and> ek e \<in> {VVOID, VJMP})"
  using assms(1) [unfolded discharge2reg_def dischargevars_id [OF assms(2)]] assms(2)
  by (cases "ek e") (auto simp: res_simps Let_def discharged_def split: if_splits)

lemma exp2reg_ok:
  assumes "exp2reg fs e reg = Inr (e', fs')" "fs_ok fs" "exp_ok fs e" "discharged e"
  shows "same_regs fs fs' \<and> e' = e\<lparr>ef := NO_JUMP, et := NO_JUMP, info := reg, ek := VNONRELOC\<rparr>"
proof -
  obtain e1 fs1 e2 fs2 where s: "discharge2reg fs e reg = Inr (e1, fs1)"
    "(if ek e1 = VJMP then rbind (gafqK_concat fs1 (et e1) (info e1)) (\<lambda>(t, fs). Inr (e1\<lparr>et := t\<rparr>, fs)) else Inr (e1, fs1)) = Inr (e2, fs2)"
    "(if hasjumps e2 then exp2reg_jumps fs2 (ek e2 = VJMP) (et e2) (ef e2) reg else Inr fs2) = Inr fs'"
    "e' = e2\<lparr>ef := NO_JUMP, et := NO_JUMP, info := reg, ek := VNONRELOC\<rparr>"
    using assms(1) unfolding exp2reg_def by (auto simp: res_simps)
  have "same_regs fs fs1" by (rule discharge2reg_ok [OF s(1) assms(2-4)])
  moreover have "emits fs1 fs2" using s(2) concat_patches patches_emits by (auto simp: res_simps split: if_splits)
  moreover have "emits fs2 fs'" using s(3) exp2reg_jumps_emits by (auto split: if_splits)
  ultimately have "same_regs fs fs'" using same_regs_emits same_regs_trans emits_trans same_regs_def by metis
  moreover have "aux e2 = aux e1 \<and> nval e2 = nval e1" using s(2) by (auto simp: res_simps split: if_splits)
  moreover have "aux e1 = aux e \<and> nval e1 = nval e"
    using s(1) [unfolded discharge2reg_def dischargevars_id [OF assms(4)]]
    by (cases "ek e") (auto simp: res_simps Let_def split: if_splits)
  ultimately show ?thesis using s(4) by simp
qed

text \<open>An expression that a register of the frame holds, with no jumps.\<close>

definition in_reg :: "FuncState \<Rightarrow> expdesc \<Rightarrow> bool" where
  "in_reg fs e \<longleftrightarrow> fs_ok fs \<and> ek e = VNONRELOC \<and> 0 \<le> info e \<and> info e < fs_freereg fs \<and> \<not> hasjumps e"

lemma register_not_ISK: "fs_ok fs \<Longrightarrow> 0 \<le> r \<Longrightarrow> r < fs_freereg fs \<Longrightarrow> \<not> ISK r"
  by (rule not_ISK_register) (simp_all add: fs_ok_def reg_ok_def MAXSTACK_def MAXINDEXRK_def BITRK_def size_defs)

lemma freeexp_ok:
  assumes "fs_ok fs" "exp_ok fs e"
  shows "fs_ok (freeexp fs e)" "fs_freereg fs \<le> fs_freereg (freeexp fs e) + 1" "fs_freereg (freeexp fs e) \<le> fs_freereg fs"
    "fs_nactvar (freeexp fs e) = fs_nactvar fs" "fs_k (freeexp fs e) = fs_k fs" "fs_code (freeexp fs e) = fs_code fs"
proof -
  have "fs_nactvar fs + temps fs (info e) \<le> fs_freereg fs" if "ek e = VNONRELOC"
    using assms that by (auto simp: exp_ok_def temps_def fs_ok_def reg_ok_def)
  then show "fs_ok (freeexp fs e)" "fs_freereg fs \<le> fs_freereg (freeexp fs e) + 1" "fs_freereg (freeexp fs e) \<le> fs_freereg fs"
    "fs_nactvar (freeexp fs e) = fs_nactvar fs" "fs_k (freeexp fs e) = fs_k fs" "fs_code (freeexp fs e) = fs_code fs"
    using freereg_ok [OF assms(1), of "info e"] assms(1) by (auto simp: freeexp_def temps_def)
qed

lemma exp2nextreg_ok:
  assumes "gafqK_exp2nextreg fs e = Inr (e', fs')" "fs_ok fs" "exp_ok fs e"
  shows "in_reg fs' e'"
proof -
  obtain e1 fs1 fs2 where s: "gafqK_dischargevars fs e = Inr (e1, fs1)" "gafqK_reserveregs (freeexp fs1 e1) 1 = Inr fs2"
    "exp2reg fs2 e1 (fs_freereg fs2 - 1) = Inr (e', fs')"
    using assms(1) by (auto simp: gafqK_exp2nextreg_def res_simps)
  have d: "fs_ok fs1" "exp_ok fs1 e1" "discharged e1" using dischargevars_ok [OF s(1) assms(2,3)] by auto
  note f = freeexp_ok [OF d(1,2)]
  note r = reserveregs_ok [OF s(2) f(1)]
  have "fs_ok fs2" "fs_freereg fs1 \<le> fs_freereg fs2" "fs_k fs2 = fs_k fs1" "0 < fs_freereg fs2"
    using r f(1,2,5) by (auto simp: fs_ok_def reg_ok_def)
  moreover from this have "exp_ok fs2 e1" using d(2,3) by (cases "ek e1") (auto simp: exp_ok_def discharged_def)
  ultimately have "same_regs fs2 fs'" "e' = e1\<lparr>ef := NO_JUMP, et := NO_JUMP, info := fs_freereg fs2 - 1, ek := VNONRELOC\<rparr>"
    using exp2reg_ok [OF s(3) _ _ d(3)] by blast+
  then show ?thesis using \<open>0 < fs_freereg fs2\<close> by (simp add: in_reg_def same_regs_def hasjumps_def)
qed

lemma exp2anyreg_ok:
  assumes "gafqK_exp2anyreg fs e = Inr (e', fs')" "fs_ok fs" "exp_ok fs e"
  shows "in_reg fs' e'"
proof -
  obtain e1 fs1 where s: "gafqK_dischargevars fs e = Inr (e1, fs1)"
    "(if ek e1 = VNONRELOC \<and> \<not> hasjumps e1 then Inr (e1, fs1)
      else if ek e1 = VNONRELOC \<and> info e1 \<ge> fs_nactvar fs1 then exp2reg fs1 e1 (info e1)
      else gafqK_exp2nextreg fs1 e1) = Inr (e', fs')"
    using assms(1) by (auto simp: gafqK_exp2anyreg_def res_simps)
  have d: "fs_ok fs1" "exp_ok fs1 e1" "discharged e1" using dischargevars_ok [OF s(1) assms(2,3)] by auto
  have "in_reg fs' e'" if "exp2reg fs1 e1 (info e1) = Inr (e', fs')" "ek e1 = VNONRELOC"
    using exp2reg_ok [OF that(1) d] that(2) d(2) by (auto simp: in_reg_def same_regs_def hasjumps_def exp_ok_def)
  then show ?thesis using s(2) exp2nextreg_ok [OF _ d(1,2), of e' fs'] d(1,2)
    by (auto simp: in_reg_def exp_ok_def split: if_splits)
qed

lemma exp2val_ok:
  assumes "gafqK_exp2val fs e = Inr (e', fs')" "fs_ok fs" "exp_ok fs e"
  shows "fs_ok fs' \<and> exp_ok fs' e' \<and> discharged e'"
proof (cases "hasjumps e")
  case True
  then have "in_reg fs' e'" using exp2anyreg_ok assms by (simp add: gafqK_exp2val_def)
  then show ?thesis by (simp add: in_reg_def exp_ok_def discharged_def)
next
  case False
  then show ?thesis using dischargevars_ok [OF _ assms(2,3)] assms(1) by (simp add: gafqK_exp2val_def)
qed

subsection \<open>Operands\<close>

lemma in_reg_rk: "in_reg fs e \<Longrightarrow> rk_ok fs (info e)"
  using register_not_ISK by (auto simp: in_reg_def rk_ok_def fs_ok_def reg_ok_def)

lemma constant_rk:
  assumes "0 \<le> k" "k \<le> MAXINDEXRK" "k < fs_nk fs" shows "rk_ok fs (RKASK k)"
  using assms by (simp add: rk_ok_def ISK_RKASK INDEXK_RKASK)

lemma exp2RK_cases:
  assumes "gafqK_exp2RK fs e = Inr (rk, e', fs')" "gafqK_exp2val fs e = Inr (e1, fs1)"
  shows "(gafqK_exp2anyreg fs1 e1 = Inr (e', fs') \<and> rk = info e') \<or>
    (\<exists>k. constantK fs1 e1 = Inr (k, fs') \<and> fs_nk fs1 \<le> MAXINDEXRK \<and> rk = RKASK k \<and> e' = e1\<lparr>info := k, ek := VK\<rparr>) \<or>
    (ek e1 = VK \<and> info e1 \<le> MAXINDEXRK \<and> rk = RKASK (info e1) \<and> e' = e1 \<and> fs' = fs1)"
proof -
  define reg where "reg = rbind (gafqK_exp2anyreg fs1 e1) (\<lambda>(e, fs). Inr (info e, e, fs))"
  define const where "const = rbind (constantK fs1 e1) (\<lambda>(k, fs). Inr (RKASK k, e1\<lparr>info := k, ek := VK\<rparr>, fs))"
  have r: "(if ek e1 \<in> {VKNUM, VTRUE, VFALSE, VNIL} then if fs_nk fs1 \<le> MAXINDEXRK then const else reg
      else if ek e1 = VK \<and> info e1 \<le> MAXINDEXRK then Inr (RKASK (info e1), e1, fs1) else reg) = Inr (rk, e', fs')"
    using assms(1) unfolding gafqK_exp2RK_def assms(2) rbind.simps prod.case Let_def const_def reg_def .
  have "gafqK_exp2anyreg fs1 e1 = Inr (e', fs') \<and> rk = info e'" if "reg = Inr (rk, e', fs')"
    using that unfolding reg_def rbind_eq_Inr by auto
  moreover have "\<exists>k. constantK fs1 e1 = Inr (k, fs') \<and> rk = RKASK k \<and> e' = e1\<lparr>info := k, ek := VK\<rparr>" if "const = Inr (rk, e', fs')"
    using that unfolding const_def rbind_eq_Inr by auto
  ultimately show ?thesis using r
    by (cases "ek e1 \<in> {VKNUM, VTRUE, VFALSE, VNIL}"; cases "fs_nk fs1 \<le> MAXINDEXRK"; cases "ek e1 = VK \<and> info e1 \<le> MAXINDEXRK") auto
qed



end
