(* ===== verification/Parser.thy ===== *)
theory Parser
  imports Lex Code Func
begin

text \<open>
  The parser (\<open>gparser.c\<close>).  Its state is the scanner, the functions being compiled, innermost first, and the count
  of nested syntax levels (\<open>L->nCcalls\<close>).  A \<open>Func\<close> is a \<open>FuncState\<close> of the code generator together with the rest of the
  prototype under construction: \<open>fs->np\<close>, \<open>fs->nlocvars\<close> and \<open>f->nups\<close> are the lengths of \<open>fn_p\<close>, \<open>fn_locvars\<close> and \<open>fn_upnames\<close>, and
  the chain of blocks is a list, innermost first.  Functions of the C code that change an \<open>expdesc\<close> return the new
  one.  The two functions that C declares first, \<open>chunk\<close> and \<open>expr\<close>, close the recursion of the grammar: the
  other functions take them as the argument \<open>G\<close>, and \<open>grammar_n n\<close> gives them with \<open>n\<close> levels of nesting; \<open>n\<close> bounds the turns of
  each loop as well.  Every level and every turn consumes a token, so the length of the text is enough.
  The anchors that keep strings and prototypes from the collector are not modelled.
\<close>

subsection \<open>Data\<close>

definition TK_AND :: nat where "TK_AND = 257"
definition TK_BREAK :: nat where "TK_BREAK = 258"
definition TK_DO :: nat where "TK_DO = 259"
definition TK_ELSE :: nat where "TK_ELSE = 260"
definition TK_ELSEIF :: nat where "TK_ELSEIF = 261"
definition TK_END :: nat where "TK_END = 262"
definition TK_FALSE :: nat where "TK_FALSE = 263"
definition TK_FOR :: nat where "TK_FOR = 264"
definition TK_FUNCTION :: nat where "TK_FUNCTION = 265"
definition TK_IF :: nat where "TK_IF = 266"
definition TK_IN :: nat where "TK_IN = 267"
definition TK_LOCAL :: nat where "TK_LOCAL = 268"
definition TK_NIL :: nat where "TK_NIL = 269"
definition TK_NOT :: nat where "TK_NOT = 270"
definition TK_OR :: nat where "TK_OR = 271"
definition TK_REPEAT :: nat where "TK_REPEAT = 272"
definition TK_RETURN :: nat where "TK_RETURN = 273"
definition TK_THEN :: nat where "TK_THEN = 274"
definition TK_TRUE :: nat where "TK_TRUE = 275"
definition TK_UNTIL :: nat where "TK_UNTIL = 276"
definition TK_WHILE :: nat where "TK_WHILE = 277"

definition GAFQI_MAXVARS :: int where "GAFQI_MAXVARS = 200"
definition GAFQI_MAXUPVALUES :: int where "GAFQI_MAXUPVALUES = 60"
definition GAFQI_MAXCCALLS :: int where "GAFQI_MAXCCALLS = 200"
definition SHRT_MAX :: int where "SHRT_MAX = 32767"
definition GAFQ_MULTRET :: int where "GAFQ_MULTRET = -1"

record upvaldesc =
  ud_k :: expkind
  ud_info :: int

record BlockCnt =
  breaklist :: int
  bl_nactvar :: int
  bl_upval :: bool
  isbreakable :: bool

record Func =
  fn :: FuncState
  fn_p :: "Proto list"
  fn_sizep :: int
  fn_locvars :: "LocVar list"
  fn_sizelocvars :: int
  fn_upnames :: "string list"
  fn_sizeupvalues :: int
  fn_upvalues :: "upvaldesc list"
  fn_actvar :: "int \<Rightarrow> nat"
  fn_bl :: "BlockCnt list"
  fn_linedefined :: int
  fn_lastlinedefined :: int
  fn_numparams :: "8 word"
  fn_is_vararg :: "8 word"

record 'd PState =
  ps_ls :: "'d LexState"
  ps_fs :: "Func list"
  ps_nCcalls :: int

text \<open>
  What the parser is given: the bound for the scanner, \<open>strtod\<close>, the reader of the stream, \<open>pow\<close>, and the address of the table of constants
  (a key of that table only).
\<close>

record 'd penv =
  pe_fuel :: nat
  pe_str2d :: "string \<Rightarrow> gafq_Number option"
  pe_reader :: "'d reader"
  pe_numpow :: "gafq_Number \<Rightarrow> gafq_Number \<Rightarrow> gafq_Number"
  pe_haddr :: addr

text \<open>
  A parsing function ends with a result, with an error that it or a function it calls raises, or with \<open>Cut\<close>, which is no
  behaviour of the C code: the model stopped at a bound, of the levels of the grammar, of the turns of a loop of the grammar or of
  a loop of the scanner.
\<close>

datatype perr = Raised gerr | Cut

type_synonym ('d, 'a) parser = "'d PState \<Rightarrow> perr + 'a \<times> 'd PState"

subsection \<open>Plumbing\<close>

definition preturn :: "'a \<Rightarrow> ('d, 'a) parser" where
  "preturn x s = Inr (x, s)"

definition pbind :: "('d, 'a) parser \<Rightarrow> ('a \<Rightarrow> ('d, 'b) parser) \<Rightarrow> ('d, 'b) parser" where
  "pbind m f s = (case m s of Inl e \<Rightarrow> Inl e | Inr (x, s) \<Rightarrow> f x s)"

abbreviation pthen :: "('d, 'a) parser \<Rightarrow> ('d, 'b) parser \<Rightarrow> ('d, 'b) parser" where
  "pthen m k \<equiv> pbind m (\<lambda>_. k)"

definition pcut :: "('d, 'a) parser" where
  "pcut s = Inl Cut"

text \<open>A call of a function that does not use the state, and one of a function of the scanner.\<close>

definition pcall :: "'a res \<Rightarrow> ('d, 'a) parser" where
  "pcall r s = (case r of Inl e \<Rightarrow> Inl (Raised e) | Inr x \<Rightarrow> Inr (x, s))"

definition pscan :: "('d LexState \<Rightarrow> 'd LexState res) \<Rightarrow> ('d, unit) parser" where
  "pscan f s = (case f (ps_ls s) of Inl OutOfFuel \<Rightarrow> Inl Cut | Inl e \<Rightarrow> Inl (Raised e) | Inr ls \<Rightarrow> Inr ((), s\<lparr>ps_ls := ls\<rparr>))"

definition pget :: "('d PState \<Rightarrow> 'a) \<Rightarrow> ('d, 'a) parser" where
  "pget f s = Inr (f s, s)"

abbreviation ptoken :: "'d PState \<Rightarrow> nat" where
  "ptoken s \<equiv> tk_token (lx_t (ps_ls s))"

text \<open>The function being compiled, \<open>ls->fs\<close>.\<close>

definition pfun :: "(Func \<Rightarrow> ('a \<times> Func) res) \<Rightarrow> ('d, 'a) parser" where
  "pfun f s =
     (case ps_fs s of
        [] \<Rightarrow> Inl (Raised (Undefined ''no function''))
      | F # Fs \<Rightarrow> pbind (pcall (f F)) (\<lambda>(x, F) s. Inr (x, s\<lparr>ps_fs := F # Fs\<rparr>)) s)"

definition pread :: "(Func \<Rightarrow> 'a) \<Rightarrow> ('d, 'a) parser" where
  "pread f = pfun (\<lambda>F. Inr (f F, F))"

definition pwrite :: "(Func \<Rightarrow> Func) \<Rightarrow> ('d, unit) parser" where
  "pwrite f = pfun (\<lambda>F. Inr ((), f F))"

definition pwritefs :: "(FuncState \<Rightarrow> FuncState) \<Rightarrow> ('d, unit) parser" where
  "pwritefs f = pwrite (\<lambda>F. F\<lparr>fn := f (fn F)\<rparr>)"

text \<open>A call of the code generator, which takes the line from \<open>ls->lastline\<close> and raises its errors by \<open>gafqX_syntaxerror\<close>.\<close>

definition cg :: "(FuncState \<Rightarrow> ('a \<times> FuncState) res) \<Rightarrow> ('d, 'a) parser" where
  "cg f s =
     (case ps_fs s of
        [] \<Rightarrow> Inl (Raised (Undefined ''no function''))
      | F # Fs \<Rightarrow>
          (case f ((fn F)\<lparr>fs_lastline := lastline (ps_ls s)\<rparr>) of
             Inr (x, fs) \<Rightarrow> Inr (x, s\<lparr>ps_fs := F\<lparr>fn := fs\<rparr> # Fs\<rparr>)
           | Inl (SyntaxError msg) \<Rightarrow> pcall (gafqX_syntaxerror (ps_ls s) msg) s
           | Inl e \<Rightarrow> Inl (Raised e)))"

definition cgu :: "(FuncState \<Rightarrow> FuncState res) \<Rightarrow> ('d, unit) parser" where
  "cgu f = cg (\<lambda>fs. rbind (f fs) (\<lambda>fs. Inr ((), fs)))"

definition cgRK :: "expdesc \<Rightarrow> ('d, int \<times> expdesc) parser" where
  "cgRK e = cg (\<lambda>fs. rbind (gafqK_exp2RK fs e) (\<lambda>(rk, e, fs). Inr ((rk, e), fs)))"

subsection \<open>Errors and tokens\<close>

definition psyntaxerror :: "string \<Rightarrow> ('d, 'a) parser" where
  "psyntaxerror msg s = pcall (gafqX_syntaxerror (ps_ls s) msg) s"

definition quoted :: "string \<Rightarrow> string" where
  "quoted t = [CHR 0x27] @ t @ [CHR 0x27]"

definition error_expected :: "nat \<Rightarrow> ('d, 'a) parser" where
  "error_expected token = pbind (pcall (gafqX_token2str token)) (\<lambda>t. psyntaxerror (quoted t @ '' expected''))"

definition errorlimit :: "'d LexState \<Rightarrow> Func \<Rightarrow> int \<Rightarrow> string \<Rightarrow> 'a res" where
  "errorlimit ls F limit what =
     gafqX_lexerror ls
       (if fn_linedefined F = 0 then ''main function has more than '' @ digits (nat limit) @ '' '' @ what
        else ''function at line '' @ digits (nat (fn_linedefined F)) @ '' has more than '' @ digits (nat limit) @ '' '' @ what) 0"

definition gafqY_checklimit :: "int \<Rightarrow> int \<Rightarrow> string \<Rightarrow> ('d, unit) parser" where
  "gafqY_checklimit v l m s =
     (if v > l then case ps_fs s of [] \<Rightarrow> Inl (Raised (Undefined ''no function'')) | F # Fs \<Rightarrow> pcall (errorlimit (ps_ls s) F l m) s
      else Inr ((), s))"

definition pnext :: "'d penv \<Rightarrow> ('d, unit) parser" where
  "pnext env = pscan (gafqX_next (pe_fuel env) (pe_str2d env) (pe_reader env))"

definition plookahead :: "'d penv \<Rightarrow> ('d, unit) parser" where
  "plookahead env = pscan (gafqX_lookahead (pe_fuel env) (pe_str2d env) (pe_reader env))"

definition testnext :: "'d penv \<Rightarrow> nat \<Rightarrow> ('d, bool) parser" where
  "testnext env c = pbind (pget ptoken) (\<lambda>t. if t = c then pthen (pnext env) (preturn True) else preturn False)"

definition check :: "nat \<Rightarrow> ('d, unit) parser" where
  "check c = pbind (pget ptoken) (\<lambda>t. if t \<noteq> c then error_expected c else preturn ())"

definition checknext :: "'d penv \<Rightarrow> nat \<Rightarrow> ('d, unit) parser" where
  "checknext env c = pthen (check c) (pnext env)"

definition check_condition :: "bool \<Rightarrow> string \<Rightarrow> ('d, unit) parser" where
  "check_condition c msg = (if \<not> c then psyntaxerror msg else preturn ())"

definition check_match :: "'d penv \<Rightarrow> nat \<Rightarrow> nat \<Rightarrow> int \<Rightarrow> ('d, unit) parser" where
  "check_match env what who where_line =
     pbind (testnext env what) (\<lambda>b.
       if b then preturn ()
       else pbind (pget (\<lambda>s. linenumber (ps_ls s))) (\<lambda>line.
              if where_line = line then error_expected what
              else pbind (pcall (gafqX_token2str what)) (\<lambda>t. pbind (pcall (gafqX_token2str who)) (\<lambda>w.
                     psyntaxerror (quoted t @ '' expected (to close '' @ quoted w @ '' at line '' @ digits (nat where_line) @ '')'')))))"

definition str_checkname :: "'d penv \<Rightarrow> ('d, string) parser" where
  "str_checkname env =
     pthen (check TK_NAME) (pbind (pget (\<lambda>s. tk_seminfo (lx_t (ps_ls s)))) (\<lambda>i.
       case i of
         SStr ts \<Rightarrow> pthen (pnext env) (preturn ts)
       | _ \<Rightarrow> (\<lambda>s. Inl (Raised (Undefined ''name without string'')))))"

definition init_exp :: "expkind \<Rightarrow> int \<Rightarrow> expdesc" where
  "init_exp k i = \<lparr>ek = k, info = i, aux = 0, nval = 0, et = NO_JUMP, ef = NO_JUMP\<rparr>"

definition codestring :: "string \<Rightarrow> ('d, expdesc) parser" where
  "codestring str = pbind (cg (\<lambda>fs. gafqK_stringK fs str)) (\<lambda>k. preturn (init_exp VK k))"

definition checkname :: "'d penv \<Rightarrow> ('d, expdesc) parser" where
  "checkname env = pbind (str_checkname env) codestring"

subsection \<open>Variables\<close>

definition getlocvar :: "Func \<Rightarrow> int \<Rightarrow> LocVar res" where
  "getlocvar F i =
     (if fn_actvar F i < length (fn_locvars F) then Inr (fn_locvars F ! fn_actvar F i) else Inl (Undefined ''no such local variable''))"

definition setlocvar :: "Func \<Rightarrow> int \<Rightarrow> (LocVar \<Rightarrow> LocVar) \<Rightarrow> Func res" where
  "setlocvar F i upd =
     rbind (getlocvar F i) (\<lambda>v. Inr (F\<lparr>fn_locvars := (fn_locvars F)[fn_actvar F i := upd v]\<rparr>))"

definition registerlocalvar :: "Func \<Rightarrow> string \<Rightarrow> (nat \<times> Func) res" where
  "registerlocalvar F name =
     rbind (gafqM_growvector (int (length (fn_locvars F))) (fn_sizelocvars F) SHRT_MAX ''too many local variables'') (\<lambda>sz.
       Inr (length (fn_locvars F),
            F\<lparr>fn_locvars := fn_locvars F @ [\<lparr>varname = Some name, startpc = 0, endpc = 0\<rparr>], fn_sizelocvars := sz\<rparr>))"

definition new_localvar :: "string \<Rightarrow> int \<Rightarrow> ('d, unit) parser" where
  "new_localvar name n =
     pbind (pread (\<lambda>F. fs_nactvar (fn F))) (\<lambda>nactvar.
       pthen (gafqY_checklimit (nactvar + n + 1) GAFQI_MAXVARS ''local variables'')
         (pfun (\<lambda>F. rbind (registerlocalvar F name) (\<lambda>(v, F).
            Inr ((), F\<lparr>fn_actvar := (fn_actvar F)(nactvar + n := v mod 2 ^ 16)\<rparr>)))))"

fun set_startpc :: "nat \<Rightarrow> Func \<Rightarrow> Func res" where
  "set_startpc 0 F = Inr F"
| "set_startpc (Suc n) F =
     rbind (setlocvar F (fs_nactvar (fn F) - int (Suc n)) (\<lambda>v. v\<lparr>startpc := fs_pc (fn F)\<rparr>)) (set_startpc n)"

definition adjustlocalvars :: "int \<Rightarrow> ('d, unit) parser" where
  "adjustlocalvars nvars =
     pfun (\<lambda>F. rbind (set_startpc (nat nvars) (F\<lparr>fn := (fn F)\<lparr>fs_nactvar := (fs_nactvar (fn F) + nvars) mod 256\<rparr>\<rparr>)) (\<lambda>F. Inr ((), F)))"

fun removevars_loop :: "nat \<Rightarrow> Func \<Rightarrow> Func res" where
  "removevars_loop 0 F = Inr F"
| "removevars_loop (Suc n) F =
     (let F = F\<lparr>fn := (fn F)\<lparr>fs_nactvar := fs_nactvar (fn F) - 1\<rparr>\<rparr>
      in rbind (setlocvar F (fs_nactvar (fn F)) (\<lambda>v. v\<lparr>endpc := fs_pc (fn F)\<rparr>)) (removevars_loop n))"

definition removevars :: "int \<Rightarrow> ('d, unit) parser" where
  "removevars tolevel =
     pfun (\<lambda>F. rbind (removevars_loop (nat (fs_nactvar (fn F) - tolevel)) F) (\<lambda>F. Inr ((), F)))"

fun upvalue_index :: "upvaldesc list \<Rightarrow> expkind \<Rightarrow> int \<Rightarrow> int \<Rightarrow> int option" where
  "upvalue_index [] k i n = None"
| "upvalue_index (u # us) k i n = (if ud_k u = k \<and> ud_info u = i then Some n else upvalue_index us k i (n + 1))"

definition indexupvalue :: "'d LexState \<Rightarrow> Func \<Rightarrow> string \<Rightarrow> expkind \<Rightarrow> int \<Rightarrow> (int \<times> Func) res" where
  "indexupvalue ls F name k i =
     (case upvalue_index (fn_upvalues F) k i 0 of
        Some n \<Rightarrow> Inr (n, F)
      | None \<Rightarrow>
          let nups = int (length (fn_upnames F))
          in if nups + 1 > GAFQI_MAXUPVALUES then errorlimit ls F GAFQI_MAXUPVALUES ''upvalues''
             else rbind (gafqM_growvector nups (fn_sizeupvalues F) MAX_INT []) (\<lambda>sz.
                    Inr (nups, F\<lparr>fn_upnames := fn_upnames F @ [name], fn_sizeupvalues := sz,
                                  fn_upvalues := fn_upvalues F @ [\<lparr>ud_k = k, ud_info = i mod 256\<rparr>]\<rparr>)))"

fun searchvar_loop :: "nat \<Rightarrow> Func \<Rightarrow> string \<Rightarrow> int res" where
  "searchvar_loop 0 F n = Inr (-1)"
| "searchvar_loop (Suc i) F n =
     rbind (getlocvar F (int i)) (\<lambda>v. if varname v = Some n then Inr (int i) else searchvar_loop i F n)"

definition searchvar :: "Func \<Rightarrow> string \<Rightarrow> int res" where
  "searchvar F n = searchvar_loop (nat (fs_nactvar (fn F))) F n"

fun mark_block :: "BlockCnt list \<Rightarrow> int \<Rightarrow> BlockCnt list" where
  "mark_block [] level = []"
| "mark_block (b # bs) level = (if bl_nactvar b > level then b # mark_block bs level else b\<lparr>bl_upval := True\<rparr> # bs)"

definition markupval :: "Func \<Rightarrow> int \<Rightarrow> Func" where
  "markupval F level = F\<lparr>fn_bl := mark_block (fn_bl F) level\<rparr>"

fun singlevaraux :: "'d LexState \<Rightarrow> Func list \<Rightarrow> string \<Rightarrow> bool \<Rightarrow> (expkind \<times> int \<times> Func list) res" where
  "singlevaraux ls [] n base = Inr (VGLOBAL, NO_REG, [])"
| "singlevaraux ls (F # Fs) n base =
     rbind (searchvar F n) (\<lambda>v.
       if v \<ge> 0 then Inr (VLOCAL, v, (if base then F else markupval F v) # Fs)
       else rbind (singlevaraux ls Fs n False) (\<lambda>(k, i, Fs).
              if k = VGLOBAL then Inr (VGLOBAL, i, F # Fs)
              else rbind (indexupvalue ls F n k i) (\<lambda>(idx, F). Inr (VUPVAL, idx, F # Fs))))"

definition singlevar :: "'d penv \<Rightarrow> ('d, expdesc) parser" where
  "singlevar env =
     pbind (str_checkname env) (\<lambda>varname.
       pbind (\<lambda>s. pbind (pcall (singlevaraux (ps_ls s) (ps_fs s) varname True)) (\<lambda>(k, i, Fs) s. Inr (init_exp k i, s\<lparr>ps_fs := Fs\<rparr>)) s) (\<lambda>var.
         if ek var = VGLOBAL
         then pbind (cg (\<lambda>fs. gafqK_stringK fs varname)) (\<lambda>k. preturn (var\<lparr>info := k\<rparr>))
         else preturn var))"

definition hasmultret :: "expkind \<Rightarrow> bool" where
  "hasmultret k \<longleftrightarrow> k = VCALL \<or> k = VVARARG"

definition adjust_assign :: "int \<Rightarrow> int \<Rightarrow> expdesc \<Rightarrow> ('d, unit) parser" where
  "adjust_assign nvars nexps e =
     (let extra = nvars - nexps
      in if hasmultret (ek e) then
           let extra = (if extra + 1 < 0 then 0 else extra + 1)
           in pthen (cgu (\<lambda>fs. gafqK_setreturns fs e extra))
                (if extra > 1 then cgu (\<lambda>fs. gafqK_reserveregs fs (extra - 1)) else preturn ())
         else
           pthen (if ek e \<noteq> VVOID then pthen (cg (\<lambda>fs. gafqK_exp2nextreg fs e)) (preturn ()) else preturn ())
             (if extra > 0
              then pbind (pread (\<lambda>F. fs_freereg (fn F))) (\<lambda>reg.
                     pthen (cgu (\<lambda>fs. gafqK_reserveregs fs extra)) (cgu (\<lambda>fs. gafqK_nil fs reg extra)))
              else preturn ()))"

subsection \<open>Levels and blocks\<close>

definition enterlevel :: "('d, unit) parser" where
  "enterlevel s =
     (let s = s\<lparr>ps_nCcalls := ps_nCcalls s + 1\<rparr>
      in if ps_nCcalls s > GAFQI_MAXCCALLS then pcall (gafqX_lexerror (ps_ls s) ''chunk has too many syntax levels'' 0) s
         else Inr ((), s))"

definition leavelevel :: "('d, unit) parser" where
  "leavelevel s = Inr ((), s\<lparr>ps_nCcalls := ps_nCcalls s - 1\<rparr>)"

definition enterblock :: "bool \<Rightarrow> ('d, unit) parser" where
  "enterblock isbr =
     pwrite (\<lambda>F. F\<lparr>fn_bl := \<lparr>breaklist = NO_JUMP, bl_nactvar = fs_nactvar (fn F), bl_upval = False, isbreakable = isbr\<rparr> # fn_bl F\<rparr>)"

definition popblock :: "('d, BlockCnt) parser" where
  "popblock =
     pfun (\<lambda>F. case fn_bl F of [] \<Rightarrow> Inl (Undefined ''no block'') | b # bs \<Rightarrow> Inr (b, F\<lparr>fn_bl := bs\<rparr>))"

definition leaveblock :: "('d, unit) parser" where
  "leaveblock =
     pbind popblock (\<lambda>bl.
       pthen (removevars (bl_nactvar bl))
         (pthen (if bl_upval bl then pthen (cg (\<lambda>fs. gafqK_codeABC fs OP_CLOSE (bl_nactvar bl) 0 0)) (preturn ()) else preturn ())
           (pthen (pwritefs (\<lambda>fs. fs\<lparr>fs_freereg := fs_nactvar fs\<rparr>))
             (cgu (\<lambda>fs. gafqK_patchtohere fs (breaklist bl))))))"

subsection \<open>Functions\<close>

definition proto_of :: "string \<Rightarrow> Func \<Rightarrow> Proto" where
  "proto_of source F =
     Proto (fs_k (fn F)) (fs_code (fn F)) (fn_p F) (fs_lineinfo (fn F)) (fn_locvars F) (map Some (fn_upnames F)) (Some source)
       (fn_linedefined F) (fn_lastlinedefined F) (of_nat (length (fn_upnames F))) (fn_numparams F) (fn_is_vararg F)
       (word_of_int (fs_maxstacksize (fn F)))"

fun code_upvalues :: "upvaldesc list \<Rightarrow> FuncState \<Rightarrow> FuncState res" where
  "code_upvalues [] fs = Inr fs"
| "code_upvalues (u # us) fs =
     rbind (gafqK_codeABC fs (if ud_k u = VLOCAL then OP_MOVE else OP_GETUPVAL) 0 (ud_info u) 0) (\<lambda>(pc, fs). code_upvalues us fs)"

definition pushclosure :: "Func \<Rightarrow> ('d, expdesc) parser" where
  "pushclosure func =
     pbind (pget (\<lambda>s. lx_source (ps_ls s))) (\<lambda>source.
       pthen (pfun (\<lambda>F. rbind (gafqM_growvector (int (length (fn_p F))) (fn_sizep F) MAXARG_Bx ''constant table overflow'') (\<lambda>sz.
           Inr ((), F\<lparr>fn_p := fn_p F @ [proto_of source func], fn_sizep := sz\<rparr>))))
         (pbind (pread (\<lambda>F. int (length (fn_p F)))) (\<lambda>np.
           pbind (cg (\<lambda>fs. gafqK_codeABx fs OP_CLOSURE 0 (np - 1))) (\<lambda>pc.
             pthen (cgu (code_upvalues (fn_upvalues func))) (preturn (init_exp VRELOCABLE pc))))))"

definition new_func :: "'d penv \<Rightarrow> Table \<Rightarrow> Func" where
  "new_func env h =
     \<lparr>fn = \<lparr>fs_code = [], fs_lineinfo = [], fs_sizecode = 0, fs_sizelineinfo = 0, fs_k = [], fs_sizek = 0, fs_h = h, fs_haddr = pe_haddr env,
            fs_lasttarget = -1, fs_jpc = NO_JUMP, fs_freereg = 0, fs_nactvar = 0, fs_maxstacksize = 2, fs_lastline = 0\<rparr>,
      fn_p = [], fn_sizep = 0, fn_locvars = [], fn_sizelocvars = 0, fn_upnames = [], fn_sizeupvalues = 0, fn_upvalues = [],
      fn_actvar = (\<lambda>_. 0), fn_bl = [], fn_linedefined = 0, fn_lastlinedefined = 0, fn_numparams = 0, fn_is_vararg = 0\<rparr>"

definition open_func :: "'d penv \<Rightarrow> ('d, unit) parser" where
  "open_func env = pbind (pcall (gafqH_new 0 0)) (\<lambda>h s. Inr ((), s\<lparr>ps_fs := new_func env h # ps_fs s\<rparr>))"

definition popfunc :: "('d, Func) parser" where
  "popfunc s = (case ps_fs s of [] \<Rightarrow> Inl (Raised (Undefined ''no function'')) | F # Fs \<Rightarrow> Inr (F, s\<lparr>ps_fs := Fs\<rparr>))"

definition close_func :: "('d, Func) parser" where
  "close_func = pthen (removevars 0) (pthen (cgu (\<lambda>fs. gafqK_ret fs 0 0)) popfunc)"

subsection \<open>The recursion of the grammar\<close>

record 'd grammar =
  g_fuel :: nat
  g_chunk :: "('d, unit) parser"
  g_subexpr :: "nat \<Rightarrow> ('d, expdesc \<times> BinOpr) parser"

definition expr :: "'d grammar \<Rightarrow> ('d, expdesc) parser" where
  "expr G = pbind (g_subexpr G 0) (\<lambda>(v, op). preturn v)"

subsection \<open>Constructors\<close>

definition field :: "'d penv \<Rightarrow> expdesc \<Rightarrow> ('d, expdesc) parser" where
  "field env v =
     pbind (cg (\<lambda>fs. gafqK_exp2anyreg fs v)) (\<lambda>v.
       pthen (pnext env) (pbind (checkname env) (\<lambda>key. cg (\<lambda>fs. gafqK_indexed fs v key))))"

definition yindex :: "'d penv \<Rightarrow> 'd grammar \<Rightarrow> ('d, expdesc) parser" where
  "yindex env G =
     pthen (pnext env) (pbind (expr G) (\<lambda>v. pbind (cg (\<lambda>fs. gafqK_exp2val fs v)) (\<lambda>v.
       pthen (checknext env (uchar CHR '']'')) (preturn v))))"

text \<open>The field \<open>t\<close> of the structure is the register of the table, \<open>cc->t->u.s.info\<close>.\<close>

record ConsControl =
  cc_v :: expdesc
  cc_t :: int
  nh :: int
  na :: int
  tostore :: int

definition recfield :: "'d penv \<Rightarrow> 'd grammar \<Rightarrow> ConsControl \<Rightarrow> ('d, ConsControl) parser" where
  "recfield env G cc =
     pbind (pread (\<lambda>F. fs_freereg (fn F))) (\<lambda>reg.
     pbind (pget ptoken) (\<lambda>t.
     pbind (if t = TK_NAME then pthen (gafqY_checklimit (nh cc) MAX_INT ''items in a constructor'') (checkname env) else yindex env G) (\<lambda>key.
     pthen (checknext env (uchar CHR ''=''))
     (pbind (cgRK key) (\<lambda>(rkkey, key).
     pbind (expr G) (\<lambda>val.
     pbind (cgRK val) (\<lambda>(rkval, val).
     pthen (cg (\<lambda>fs. gafqK_codeABC fs OP_SETTABLE (cc_t cc) rkkey rkval))
     (pthen (pwritefs (\<lambda>fs. fs\<lparr>fs_freereg := reg\<rparr>))
       (preturn (cc\<lparr>nh := nh cc + 1\<rparr>))))))))))"

definition closelistfield :: "ConsControl \<Rightarrow> ('d, ConsControl) parser" where
  "closelistfield cc =
     (if ek (cc_v cc) = VVOID then preturn cc
      else pbind (cg (\<lambda>fs. gafqK_exp2nextreg fs (cc_v cc))) (\<lambda>v.
             let cc = cc\<lparr>cc_v := v\<lparr>ek := VVOID\<rparr>\<rparr>
             in if tostore cc = LFIELDS_PER_FLUSH
                then pthen (cgu (\<lambda>fs. gafqK_setlist fs (cc_t cc) (na cc) (tostore cc))) (preturn (cc\<lparr>tostore := 0\<rparr>))
                else preturn cc))"

definition lastlistfield :: "ConsControl \<Rightarrow> ('d, ConsControl) parser" where
  "lastlistfield cc =
     (if tostore cc = 0 then preturn cc
      else if hasmultret (ek (cc_v cc)) then
        pthen (cgu (\<lambda>fs. gafqK_setreturns fs (cc_v cc) GAFQ_MULTRET))
          (pthen (cgu (\<lambda>fs. gafqK_setlist fs (cc_t cc) (na cc) GAFQ_MULTRET)) (preturn (cc\<lparr>na := na cc - 1\<rparr>)))
      else
        pthen (if ek (cc_v cc) \<noteq> VVOID then pthen (cg (\<lambda>fs. gafqK_exp2nextreg fs (cc_v cc))) (preturn ()) else preturn ())
          (pthen (cgu (\<lambda>fs. gafqK_setlist fs (cc_t cc) (na cc) (tostore cc))) (preturn cc)))"

definition listfield :: "'d grammar \<Rightarrow> ConsControl \<Rightarrow> ('d, ConsControl) parser" where
  "listfield G cc =
     pbind (expr G) (\<lambda>v.
       pthen (gafqY_checklimit (na cc) MAX_INT ''items in a constructor'')
         (preturn (cc\<lparr>cc_v := v, na := na cc + 1, tostore := tostore cc + 1\<rparr>)))"

definition constructor_item :: "'d penv \<Rightarrow> 'd grammar \<Rightarrow> ConsControl \<Rightarrow> ('d, ConsControl) parser" where
  "constructor_item env G cc =
     pbind (pget ptoken) (\<lambda>t.
       if t = TK_NAME then
         pthen (plookahead env) (pbind (pget (\<lambda>s. tk_token (lx_lookahead (ps_ls s)))) (\<lambda>la.
           if la \<noteq> uchar CHR ''='' then listfield G cc else recfield env G cc))
       else if t = uchar CHR ''['' then recfield env G cc
       else listfield G cc)"

primrec constructor_loop :: "nat \<Rightarrow> 'd penv \<Rightarrow> 'd grammar \<Rightarrow> ConsControl \<Rightarrow> ('d, ConsControl) parser" where
  "constructor_loop 0 env G cc = pcut"
| "constructor_loop (Suc k) env G cc =
     pbind (pget ptoken) (\<lambda>t.
       if t = uchar CHR ''}'' then preturn cc
       else pbind (closelistfield cc) (\<lambda>cc.
            pbind (constructor_item env G cc) (\<lambda>cc.
            pbind (testnext env (uchar CHR '','')) (\<lambda>b.
            pbind (if b then preturn True else testnext env (uchar CHR '';'')) (\<lambda>b.
              if b then constructor_loop k env G cc else preturn cc)))))"

definition constructor :: "'d penv \<Rightarrow> 'd grammar \<Rightarrow> ('d, expdesc) parser" where
  "constructor env G =
     pbind (pget (\<lambda>s. linenumber (ps_ls s))) (\<lambda>line.
     pbind (cg (\<lambda>fs. gafqK_codeABC fs OP_NEWTABLE 0 0 0)) (\<lambda>pc.
     pbind (cg (\<lambda>fs. gafqK_exp2nextreg fs (init_exp VRELOCABLE pc))) (\<lambda>t.
     pthen (checknext env (uchar CHR ''{''))
     (pbind (constructor_loop (g_fuel G) env G \<lparr>cc_v = init_exp VVOID 0, cc_t = info t, nh = 0, na = 0, tostore = 0\<rparr>) (\<lambda>cc.
     pthen (check_match env (uchar CHR ''}'') (uchar CHR ''{'') line)
     (pbind (lastlistfield cc) (\<lambda>cc.
     pthen (cgu (\<lambda>fs. rbind (code_at fs pc) (\<lambda>i.
              Inr (set_code fs pc (SETARG_C (SETARG_B i (gafqO_int2fb (word_of_int (na cc)))) (gafqO_int2fb (word_of_int (nh cc))))))))
       (preturn t))))))))"

subsection \<open>Function bodies\<close>

primrec parlist_loop :: "nat \<Rightarrow> 'd penv \<Rightarrow> int \<Rightarrow> ('d, int) parser" where
  "parlist_loop 0 env nparams = pcut"
| "parlist_loop (Suc k) env nparams =
     pbind (pget ptoken) (\<lambda>t.
       if t = TK_NAME then
         pbind (str_checkname env) (\<lambda>name. pthen (new_localvar name nparams)
           (pbind (testnext env (uchar CHR '','')) (\<lambda>b. if b then parlist_loop k env (nparams + 1) else preturn (nparams + 1))))
       else if t = TK_DOTS then
         pthen (pnext env) (pthen (new_localvar ''arg'' nparams)
           (pthen (pwrite (\<lambda>F. F\<lparr>fn_is_vararg := (VARARG_HASARG OR VARARG_NEEDSARG) OR VARARG_ISVARARG\<rparr>)) (preturn (nparams + 1))))
       else psyntaxerror (''<name> or '' @ quoted ''...'' @ '' expected''))"

definition parlist :: "'d penv \<Rightarrow> nat \<Rightarrow> ('d, unit) parser" where
  "parlist env k =
     pthen (pwrite (\<lambda>F. F\<lparr>fn_is_vararg := 0\<rparr>))
     (pbind (pget ptoken) (\<lambda>t.
     pbind (if t \<noteq> uchar CHR '')'' then parlist_loop k env 0 else preturn 0) (\<lambda>nparams.
     pthen (adjustlocalvars nparams)
     (pthen (pwrite (\<lambda>F. F\<lparr>fn_numparams := word_of_int (fs_nactvar (fn F)) - (fn_is_vararg F AND VARARG_HASARG)\<rparr>))
     (pbind (pread (\<lambda>F. fs_nactvar (fn F))) (\<lambda>nactvar. cgu (\<lambda>fs. gafqK_reserveregs fs nactvar)))))))"

definition body :: "'d penv \<Rightarrow> 'd grammar \<Rightarrow> bool \<Rightarrow> int \<Rightarrow> ('d, expdesc) parser" where
  "body env G needself line =
     pthen (open_func env)
     (pthen (pwrite (\<lambda>F. F\<lparr>fn_linedefined := line\<rparr>))
     (pthen (checknext env (uchar CHR ''(''))
     (pthen (if needself then pthen (new_localvar ''self'' 0) (adjustlocalvars 1) else preturn ())
     (pthen (parlist env (g_fuel G))
     (pthen (checknext env (uchar CHR '')''))
     (pthen (g_chunk G)
     (pbind (pget (\<lambda>s. linenumber (ps_ls s))) (\<lambda>lastl.
     pthen (pwrite (\<lambda>F. F\<lparr>fn_lastlinedefined := lastl\<rparr>))
     (pthen (check_match env TK_END TK_FUNCTION line)
     (pbind close_func pushclosure))))))))))"

subsection \<open>Expressions\<close>

text \<open>The last expression of the list and the number of expressions.\<close>

primrec explist1_loop :: "nat \<Rightarrow> 'd penv \<Rightarrow> 'd grammar \<Rightarrow> expdesc \<Rightarrow> int \<Rightarrow> ('d, expdesc \<times> int) parser" where
  "explist1_loop 0 env G v n = pcut"
| "explist1_loop (Suc k) env G v n =
     pbind (testnext env (uchar CHR '','')) (\<lambda>b.
       if b then pthen (cg (\<lambda>fs. gafqK_exp2nextreg fs v)) (pbind (expr G) (\<lambda>v. explist1_loop k env G v (n + 1)))
       else preturn (v, n))"

definition explist1 :: "'d penv \<Rightarrow> 'd grammar \<Rightarrow> ('d, expdesc \<times> int) parser" where
  "explist1 env G = pbind (expr G) (\<lambda>v. explist1_loop (g_fuel G) env G v 1)"

definition call_args :: "'d penv \<Rightarrow> 'd grammar \<Rightarrow> int \<Rightarrow> ('d, expdesc) parser" where
  "call_args env G line =
     pbind (pget ptoken) (\<lambda>t.
       if t = uchar CHR ''('' then
         pbind (pget (\<lambda>s. lastline (ps_ls s))) (\<lambda>lastl.
         pthen (check_condition (line = lastl) ''ambiguous syntax (function call x new statement)'')
         (pthen (pnext env)
         (pbind (pget ptoken) (\<lambda>t.
         pbind (if t = uchar CHR '')'' then preturn (init_exp VVOID 0)
                else pbind (explist1 env G) (\<lambda>(args, n). pthen (cgu (\<lambda>fs. gafqK_setreturns fs args GAFQ_MULTRET)) (preturn args))) (\<lambda>args.
         pthen (check_match env (uchar CHR '')'') (uchar CHR ''('') line) (preturn args))))))
       else if t = uchar CHR ''{'' then constructor env G
       else if t = TK_STRING then
         pbind (pget (\<lambda>s. tk_seminfo (lx_t (ps_ls s)))) (\<lambda>i.
           case i of
             SStr ts \<Rightarrow> pbind (codestring ts) (\<lambda>args. pthen (pnext env) (preturn args))
           | _ \<Rightarrow> (\<lambda>s. Inl (Raised (Undefined ''string token without string''))))
       else psyntaxerror ''function arguments expected'')"

definition funcargs :: "'d penv \<Rightarrow> 'd grammar \<Rightarrow> expdesc \<Rightarrow> ('d, expdesc) parser" where
  "funcargs env G f =
     pbind (pget (\<lambda>s. linenumber (ps_ls s))) (\<lambda>line.
     pbind (call_args env G line) (\<lambda>args.
     let base = info f
     in pbind (if hasmultret (ek args) then preturn GAFQ_MULTRET
               else pthen (if ek args \<noteq> VVOID then pthen (cg (\<lambda>fs. gafqK_exp2nextreg fs args)) (preturn ()) else preturn ())
                      (pread (\<lambda>F. fs_freereg (fn F) - (base + 1)))) (\<lambda>nparams.
        pbind (cg (\<lambda>fs. gafqK_codeABC fs OP_CALL base (nparams + 1) 2)) (\<lambda>pc.
        pthen (pwritefs (\<lambda>fs. gafqK_fixline fs line))
        (pthen (pwritefs (\<lambda>fs. fs\<lparr>fs_freereg := base + 1\<rparr>)) (preturn (init_exp VCALL pc)))))))"

definition prefixexp :: "'d penv \<Rightarrow> 'd grammar \<Rightarrow> ('d, expdesc) parser" where
  "prefixexp env G =
     pbind (pget ptoken) (\<lambda>t.
       if t = uchar CHR ''('' then
         pbind (pget (\<lambda>s. linenumber (ps_ls s))) (\<lambda>line.
         pthen (pnext env) (pbind (expr G) (\<lambda>v.
         pthen (check_match env (uchar CHR '')'') (uchar CHR ''('') line) (cg (\<lambda>fs. gafqK_dischargevars fs v)))))
       else if t = TK_NAME then singlevar env
       else psyntaxerror ''unexpected symbol'')"

primrec primaryexp_loop :: "nat \<Rightarrow> 'd penv \<Rightarrow> 'd grammar \<Rightarrow> expdesc \<Rightarrow> ('d, expdesc) parser" where
  "primaryexp_loop 0 env G v = pcut"
| "primaryexp_loop (Suc k) env G v =
     pbind (pget ptoken) (\<lambda>t.
       if t = uchar CHR ''.'' then pbind (field env v) (primaryexp_loop k env G)
       else if t = uchar CHR ''['' then
         pbind (cg (\<lambda>fs. gafqK_exp2anyreg fs v)) (\<lambda>v. pbind (yindex env G) (\<lambda>key.
         pbind (cg (\<lambda>fs. gafqK_indexed fs v key)) (primaryexp_loop k env G)))
       else if t = uchar CHR '':'' then
         pthen (pnext env) (pbind (checkname env) (\<lambda>key. pbind (cg (\<lambda>fs. gafqK_self fs v key)) (\<lambda>v.
         pbind (funcargs env G v) (primaryexp_loop k env G))))
       else if t = uchar CHR ''('' \<or> t = TK_STRING \<or> t = uchar CHR ''{'' then
         pbind (cg (\<lambda>fs. gafqK_exp2nextreg fs v)) (\<lambda>v. pbind (funcargs env G v) (primaryexp_loop k env G))
       else preturn v)"

definition primaryexp :: "'d penv \<Rightarrow> 'd grammar \<Rightarrow> ('d, expdesc) parser" where
  "primaryexp env G = pbind (prefixexp env G) (primaryexp_loop (g_fuel G) env G)"

definition vararg_exp :: "('d, expdesc) parser" where
  "vararg_exp =
     pbind (pread fn_is_vararg) (\<lambda>va.
     pthen (check_condition (va \<noteq> 0) (''cannot use '' @ quoted ''...'' @ '' outside a vararg function''))
     (pthen (pwrite (\<lambda>F. F\<lparr>fn_is_vararg := fn_is_vararg F AND NOT VARARG_NEEDSARG\<rparr>))
     (pbind (cg (\<lambda>fs. gafqK_codeABC fs OP_VARARG 0 1 0)) (\<lambda>pc. preturn (init_exp VVARARG pc)))))"

definition simpleexp :: "'d penv \<Rightarrow> 'd grammar \<Rightarrow> ('d, expdesc) parser" where
  "simpleexp env G =
     pbind (pget ptoken) (\<lambda>t. pbind (pget (\<lambda>s. tk_seminfo (lx_t (ps_ls s)))) (\<lambda>i.
       let skip = (\<lambda>v. pthen (pnext env) (preturn v))
       in if t = TK_NUMBER then
            (case i of SNum r \<Rightarrow> skip ((init_exp VKNUM 0)\<lparr>nval := r\<rparr>) | _ \<Rightarrow> (\<lambda>s. Inl (Raised (Undefined ''number token without number''))))
          else if t = TK_STRING then
            (case i of SStr ts \<Rightarrow> pbind (codestring ts) skip | _ \<Rightarrow> (\<lambda>s. Inl (Raised (Undefined ''string token without string''))))
          else if t = TK_NIL then skip (init_exp VNIL 0)
          else if t = TK_TRUE then skip (init_exp VTRUE 0)
          else if t = TK_FALSE then skip (init_exp VFALSE 0)
          else if t = TK_DOTS then pbind vararg_exp skip
          else if t = uchar CHR ''{'' then constructor env G
          else if t = TK_FUNCTION then
            pthen (pnext env) (pbind (pget (\<lambda>s. linenumber (ps_ls s))) (body env G False))
          else primaryexp env G))"

definition getunopr :: "nat \<Rightarrow> UnOpr" where
  "getunopr op =
     (if op = TK_NOT then OPR_NOT else if op = uchar CHR ''-'' then OPR_MINUS else if op = uchar CHR ''#'' then OPR_LEN else OPR_NOUNOPR)"

definition getbinopr :: "nat \<Rightarrow> BinOpr" where
  "getbinopr op =
     (if op = uchar CHR ''+'' then OPR_ADD else if op = uchar CHR ''-'' then OPR_SUB else if op = uchar CHR ''*'' then OPR_MUL
      else if op = uchar CHR ''/'' then OPR_DIV else if op = uchar CHR ''%'' then OPR_MOD else if op = uchar CHR ''^'' then OPR_POW
      else if op = TK_CONCAT then OPR_CONCAT else if op = TK_NE then OPR_NE else if op = TK_EQ then OPR_EQ
      else if op = uchar CHR ''<'' then OPR_LT else if op = TK_LE then OPR_LE else if op = uchar CHR ''>'' then OPR_GT
      else if op = TK_GE then OPR_GE else if op = TK_AND then OPR_AND else if op = TK_OR then OPR_OR else OPR_NOBINOPR)"

text \<open>The priorities to the left and to the right of each operator; \<open>OPR_NOBINOPR\<close> has no entry in the array.\<close>

fun priority :: "BinOpr \<Rightarrow> nat \<times> nat" where
  "priority OPR_ADD = (6, 6)"
| "priority OPR_SUB = (6, 6)"
| "priority OPR_MUL = (7, 7)"
| "priority OPR_DIV = (7, 7)"
| "priority OPR_MOD = (7, 7)"
| "priority OPR_POW = (10, 9)"
| "priority OPR_CONCAT = (5, 4)"
| "priority OPR_NE = (3, 3)"
| "priority OPR_EQ = (3, 3)"
| "priority OPR_LT = (3, 3)"
| "priority OPR_LE = (3, 3)"
| "priority OPR_GT = (3, 3)"
| "priority OPR_GE = (3, 3)"
| "priority OPR_AND = (2, 2)"
| "priority OPR_OR = (1, 1)"
| "priority OPR_NOBINOPR = (0, 0)"

definition UNARY_PRIORITY :: nat where "UNARY_PRIORITY = 8"

primrec subexpr_loop :: "nat \<Rightarrow> 'd penv \<Rightarrow> 'd grammar \<Rightarrow> nat \<Rightarrow> BinOpr \<Rightarrow> expdesc \<Rightarrow> ('d, expdesc \<times> BinOpr) parser" where
  "subexpr_loop 0 env G limit op v = pcut"
| "subexpr_loop (Suc k) env G limit op v =
     (if op \<noteq> OPR_NOBINOPR \<and> fst (priority op) > limit then
        pthen (pnext env) (pbind (cg (\<lambda>fs. gafqK_infix fs op v)) (\<lambda>v.
        pbind (g_subexpr G (snd (priority op))) (\<lambda>(v2, nextop).
        pbind (cg (\<lambda>fs. gafqK_posfix (pe_numpow env) fs op v v2)) (subexpr_loop k env G limit nextop))))
      else preturn (v, op))"

definition subexpr :: "'d penv \<Rightarrow> 'd grammar \<Rightarrow> nat \<Rightarrow> ('d, expdesc \<times> BinOpr) parser" where
  "subexpr env G limit =
     pthen enterlevel
     (pbind (pget ptoken) (\<lambda>t.
     let uop = getunopr t
     in pbind (if uop \<noteq> OPR_NOUNOPR
               then pthen (pnext env) (pbind (g_subexpr G UNARY_PRIORITY) (\<lambda>(v, op). cg (\<lambda>fs. gafqK_prefix (pe_numpow env) fs uop v)))
               else simpleexp env G) (\<lambda>v.
        pbind (pget ptoken) (\<lambda>t.
        pbind (subexpr_loop (g_fuel G) env G limit (getbinopr t) v) (\<lambda>r.
        pthen leavelevel (preturn r))))))"

subsection \<open>Statements\<close>

definition block_follow :: "nat \<Rightarrow> bool" where
  "block_follow token \<longleftrightarrow> token \<in> {TK_ELSE, TK_ELSEIF, TK_END, TK_UNTIL, TK_EOS}"

definition block :: "'d grammar \<Rightarrow> ('d, unit) parser" where
  "block G = pthen (enterblock False) (pthen (g_chunk G) leaveblock)"

text \<open>
  The chain of variables on the left of an assignment is a list, the last one first.  \<open>conflict_var\<close> is one turn of the loop of
  \<open>check_conflict\<close>.
\<close>

definition conflict_var :: "int \<Rightarrow> expdesc \<Rightarrow> expdesc \<Rightarrow> expdesc" where
  "conflict_var extra v lh =
     (if ek lh = VINDEXED
      then lh\<lparr>info := (if info lh = info v then extra else info lh), aux := (if aux lh = info v then extra else aux lh)\<rparr>
      else lh)"

definition conflicts :: "expdesc \<Rightarrow> expdesc \<Rightarrow> bool" where
  "conflicts v lh \<longleftrightarrow> ek lh = VINDEXED \<and> (info lh = info v \<or> aux lh = info v)"

definition check_conflict :: "expdesc list \<Rightarrow> expdesc \<Rightarrow> ('d, expdesc list) parser" where
  "check_conflict lh v =
     pbind (pread (\<lambda>F. fs_freereg (fn F))) (\<lambda>extra.
       pthen (if list_ex (conflicts v) lh
              then pthen (cg (\<lambda>fs. gafqK_codeABC fs OP_MOVE (fs_freereg fs) (info v) 0)) (cgu (\<lambda>fs. gafqK_reserveregs fs 1))
              else preturn ())
         (preturn (map (conflict_var extra v) lh)))"

definition storedefault :: "expdesc \<Rightarrow> ('d, unit) parser" where
  "storedefault var =
     pbind (pread (\<lambda>F. fs_freereg (fn F))) (\<lambda>r. cgu (\<lambda>fs. gafqK_storevar fs var (init_exp VNONRELOC (r - 1))))"

definition assign_values :: "'d penv \<Rightarrow> 'd grammar \<Rightarrow> expdesc \<Rightarrow> int \<Rightarrow> ('d, unit) parser" where
  "assign_values env G var nvars =
     pthen (checknext env (uchar CHR ''=''))
     (pbind (explist1 env G) (\<lambda>(e, nexps).
       if nexps \<noteq> nvars then
         pthen (adjust_assign nvars nexps e)
         (pthen (if nexps > nvars then pwritefs (\<lambda>fs. fs\<lparr>fs_freereg := fs_freereg fs - (nexps - nvars)\<rparr>) else preturn ())
           (storedefault var))
       else pbind (cg (\<lambda>fs. gafqK_setoneret fs e)) (\<lambda>e. cgu (\<lambda>fs. gafqK_storevar fs var e))))"

primrec assignment :: "nat \<Rightarrow> 'd penv \<Rightarrow> 'd grammar \<Rightarrow> expdesc \<Rightarrow> expdesc list \<Rightarrow> int \<Rightarrow> ('d, expdesc list) parser" where
  "assignment 0 env G var lh nvars = pcut"
| "assignment (Suc k) env G var lh nvars =
     pthen (check_condition (ek var \<in> {VLOCAL, VUPVAL, VGLOBAL, VINDEXED}) ''syntax error'')
     (pbind (testnext env (uchar CHR '','')) (\<lambda>b.
       if b then
         pbind (primaryexp env G) (\<lambda>nv.
         pbind (if ek nv = VLOCAL then check_conflict (var # lh) nv else preturn (var # lh)) (\<lambda>lh.
         pbind (pget ps_nCcalls) (\<lambda>nCcalls.
         pthen (gafqY_checklimit nvars (GAFQI_MAXCCALLS - nCcalls) ''variables in assignment'')
         (pbind (assignment k env G nv lh (nvars + 1)) (\<lambda>lh.
         pthen (storedefault (hd lh)) (preturn (tl lh)))))))
       else pthen (assign_values env G var nvars) (preturn lh)))"

definition cond :: "'d grammar \<Rightarrow> ('d, int) parser" where
  "cond G =
     pbind (expr G) (\<lambda>v.
       pbind (cg (\<lambda>fs. gafqK_goiftrue fs (if ek v = VNIL then v\<lparr>ek := VFALSE\<rparr> else v))) (\<lambda>v. preturn (ef v)))"

text \<open>The blocks up to the innermost loop: whether one has an upvalue, the loop, and the place of the loop in the chain.\<close>

fun find_loop :: "BlockCnt list \<Rightarrow> bool \<Rightarrow> nat \<Rightarrow> (bool \<times> BlockCnt \<times> nat) option" where
  "find_loop [] upval i = None"
| "find_loop (b # bs) upval i = (if isbreakable b then Some (upval, b, i) else find_loop bs (upval \<or> bl_upval b) (i + 1))"

definition breakstat :: "('d, unit) parser" where
  "breakstat =
     pbind (pread fn_bl) (\<lambda>bl.
       case find_loop bl False 0 of
         None \<Rightarrow> psyntaxerror ''no loop to break''
       | Some (upval, b, i) \<Rightarrow>
           pthen (if upval then pthen (cg (\<lambda>fs. gafqK_codeABC fs OP_CLOSE (bl_nactvar b) 0 0)) (preturn ()) else preturn ())
           (pbind (cg gafqK_jump) (\<lambda>j.
           pbind (cg (\<lambda>fs. gafqK_concat fs (breaklist b) j)) (\<lambda>l.
           pwrite (\<lambda>F. F\<lparr>fn_bl := (fn_bl F)[i := (fn_bl F ! i)\<lparr>breaklist := l\<rparr>]\<rparr>)))))"

definition whilestat :: "'d penv \<Rightarrow> 'd grammar \<Rightarrow> int \<Rightarrow> ('d, unit) parser" where
  "whilestat env G line =
     pthen (pnext env)
     (pbind (cg (\<lambda>fs. Inr (gafqK_getlabel fs))) (\<lambda>whileinit.
     pbind (cond G) (\<lambda>condexit.
     pthen (enterblock True)
     (pthen (checknext env TK_DO)
     (pthen (block G)
     (pbind (cg gafqK_jump) (\<lambda>j.
     pthen (cgu (\<lambda>fs. gafqK_patchlist fs j whileinit))
     (pthen (check_match env TK_END TK_WHILE line)
     (pthen leaveblock
       (cgu (\<lambda>fs. gafqK_patchtohere fs condexit)))))))))))"

definition repeatstat :: "'d penv \<Rightarrow> 'd grammar \<Rightarrow> int \<Rightarrow> ('d, unit) parser" where
  "repeatstat env G line =
     pbind (cg (\<lambda>fs. Inr (gafqK_getlabel fs))) (\<lambda>repeat_init.
     pthen (enterblock True)
     (pthen (enterblock False)
     (pthen (pnext env)
     (pthen (g_chunk G)
     (pthen (check_match env TK_UNTIL TK_REPEAT line)
     (pbind (cond G) (\<lambda>condexit.
     pbind (pread (\<lambda>F. list_ex bl_upval (take 1 (fn_bl F)))) (\<lambda>upval.
     pthen (if \<not> upval
            then pthen leaveblock (cgu (\<lambda>fs. gafqK_patchlist fs condexit repeat_init))
            else pthen breakstat (pthen (cgu (\<lambda>fs. gafqK_patchtohere fs condexit)) (pthen leaveblock
                   (pbind (cg gafqK_jump) (\<lambda>j. cgu (\<lambda>fs. gafqK_patchlist fs j repeat_init))))))
       leaveblock))))))))"

definition exp1 :: "'d grammar \<Rightarrow> ('d, expkind) parser" where
  "exp1 G = pbind (expr G) (\<lambda>e. pthen (cg (\<lambda>fs. gafqK_exp2nextreg fs e)) (preturn (ek e)))"

definition forbody :: "'d penv \<Rightarrow> 'd grammar \<Rightarrow> int \<Rightarrow> int \<Rightarrow> int \<Rightarrow> bool \<Rightarrow> ('d, unit) parser" where
  "forbody env G base line nvars isnum =
     pthen (adjustlocalvars 3)
     (pthen (checknext env TK_DO)
     (pbind (cg (\<lambda>fs. if isnum then gafqK_codeAsBx fs OP_FORPREP base NO_JUMP else gafqK_jump fs)) (\<lambda>prep.
     pthen (enterblock False)
     (pthen (adjustlocalvars nvars)
     (pthen (cgu (\<lambda>fs. gafqK_reserveregs fs nvars))
     (pthen (block G)
     (pthen leaveblock
     (pthen (cgu (\<lambda>fs. gafqK_patchtohere fs prep))
     (pbind (cg (\<lambda>fs. if isnum then gafqK_codeAsBx fs OP_FORLOOP base NO_JUMP else gafqK_codeABC fs OP_TFORLOOP base 0 nvars)) (\<lambda>endfor.
     pthen (pwritefs (\<lambda>fs. gafqK_fixline fs line))
     (pbind (if isnum then preturn endfor else cg gafqK_jump) (\<lambda>l.
       cgu (\<lambda>fs. gafqK_patchlist fs l (prep + 1))))))))))))))"

definition fornum :: "'d penv \<Rightarrow> 'd grammar \<Rightarrow> string \<Rightarrow> int \<Rightarrow> ('d, unit) parser" where
  "fornum env G vname line =
     pbind (pread (\<lambda>F. fs_freereg (fn F))) (\<lambda>base.
     pthen (new_localvar ''(for index)'' 0)
     (pthen (new_localvar ''(for limit)'' 1)
     (pthen (new_localvar ''(for step)'' 2)
     (pthen (new_localvar vname 3)
     (pthen (checknext env (uchar CHR ''=''))
     (pthen (exp1 G)
     (pthen (checknext env (uchar CHR '',''))
     (pthen (exp1 G)
     (pbind (testnext env (uchar CHR '','')) (\<lambda>b.
     pthen (if b then pthen (exp1 G) (preturn ())
            else pbind (cg (\<lambda>fs. gafqK_numberK fs (cast_num 1))) (\<lambda>k.
                 pthen (cg (\<lambda>fs. gafqK_codeABx fs OP_LOADK (fs_freereg fs) k)) (cgu (\<lambda>fs. gafqK_reserveregs fs 1))))
       (forbody env G base line 1 True)))))))))))"

primrec forlist_names :: "nat \<Rightarrow> 'd penv \<Rightarrow> int \<Rightarrow> ('d, int) parser" where
  "forlist_names 0 env nvars = pcut"
| "forlist_names (Suc k) env nvars =
     pbind (testnext env (uchar CHR '','')) (\<lambda>b.
       if b then pbind (str_checkname env) (\<lambda>name. pthen (new_localvar name nvars) (forlist_names k env (nvars + 1)))
       else preturn nvars)"

definition forlist :: "'d penv \<Rightarrow> 'd grammar \<Rightarrow> string \<Rightarrow> ('d, unit) parser" where
  "forlist env G indexname =
     pbind (pread (\<lambda>F. fs_freereg (fn F))) (\<lambda>base.
     pthen (new_localvar ''(for generator)'' 0)
     (pthen (new_localvar ''(for state)'' 1)
     (pthen (new_localvar ''(for control)'' 2)
     (pthen (new_localvar indexname 3)
     (pbind (forlist_names (g_fuel G) env 4) (\<lambda>nvars.
     pthen (checknext env TK_IN)
     (pbind (pget (\<lambda>s. linenumber (ps_ls s))) (\<lambda>line.
     pbind (explist1 env G) (\<lambda>(e, nexps).
     pthen (adjust_assign 3 nexps e)
     (pthen (cgu (\<lambda>fs. gafqK_checkstack fs 3))
       (forbody env G base line (nvars - 3) False)))))))))))"

definition forstat :: "'d penv \<Rightarrow> 'd grammar \<Rightarrow> int \<Rightarrow> ('d, unit) parser" where
  "forstat env G line =
     pthen (enterblock True)
     (pthen (pnext env)
     (pbind (str_checkname env) (\<lambda>varname.
     pbind (pget ptoken) (\<lambda>t.
     pthen (if t = uchar CHR ''='' then fornum env G varname line
            else if t = uchar CHR '','' \<or> t = TK_IN then forlist env G varname
            else psyntaxerror (quoted ''='' @ '' or '' @ quoted ''in'' @ '' expected''))
     (pthen (check_match env TK_END TK_FOR line) leaveblock)))))"

definition test_then_block :: "'d penv \<Rightarrow> 'd grammar \<Rightarrow> ('d, int) parser" where
  "test_then_block env G =
     pthen (pnext env) (pbind (cond G) (\<lambda>condexit.
       pthen (checknext env TK_THEN) (pthen (block G) (preturn condexit))))"

text \<open>Before an \<open>elseif\<close> or \<open>else\<close>: a jump out joins the list, and the false condition leads here.\<close>

definition escape_part :: "int \<Rightarrow> int \<Rightarrow> ('d, int) parser" where
  "escape_part flist escapelist =
     pbind (cg gafqK_jump) (\<lambda>j. pbind (cg (\<lambda>fs. gafqK_concat fs escapelist j)) (\<lambda>escapelist.
       pthen (cgu (\<lambda>fs. gafqK_patchtohere fs flist)) (preturn escapelist)))"

primrec elseif_loop :: "nat \<Rightarrow> 'd penv \<Rightarrow> 'd grammar \<Rightarrow> int \<Rightarrow> int \<Rightarrow> ('d, int \<times> int) parser" where
  "elseif_loop 0 env G flist escapelist = pcut"
| "elseif_loop (Suc k) env G flist escapelist =
     pbind (pget ptoken) (\<lambda>t.
       if t = TK_ELSEIF
       then pbind (escape_part flist escapelist) (\<lambda>escapelist.
            pbind (test_then_block env G) (\<lambda>flist. elseif_loop k env G flist escapelist))
       else preturn (flist, escapelist))"

definition ifstat :: "'d penv \<Rightarrow> 'd grammar \<Rightarrow> int \<Rightarrow> ('d, unit) parser" where
  "ifstat env G line =
     pbind (test_then_block env G) (\<lambda>flist.
     pbind (elseif_loop (g_fuel G) env G flist NO_JUMP) (\<lambda>(flist, escapelist).
     pbind (pget ptoken) (\<lambda>t.
     pbind (if t = TK_ELSE
            then pbind (escape_part flist escapelist) (\<lambda>escapelist. pthen (pnext env) (pthen (block G) (preturn escapelist)))
            else cg (\<lambda>fs. gafqK_concat fs escapelist flist)) (\<lambda>escapelist.
     pthen (cgu (\<lambda>fs. gafqK_patchtohere fs escapelist))
       (check_match env TK_END TK_IF line)))))"

definition localfunc :: "'d penv \<Rightarrow> 'd grammar \<Rightarrow> ('d, unit) parser" where
  "localfunc env G =
     pbind (str_checkname env) (\<lambda>name.
     pthen (new_localvar name 0)
     (pbind (pread (\<lambda>F. fs_freereg (fn F))) (\<lambda>r.
     pthen (cgu (\<lambda>fs. gafqK_reserveregs fs 1))
     (pthen (adjustlocalvars 1)
     (pbind (pget (\<lambda>s. linenumber (ps_ls s))) (\<lambda>line.
     pbind (body env G False line) (\<lambda>b.
     pthen (cgu (\<lambda>fs. gafqK_storevar fs (init_exp VLOCAL r) b))
       (pfun (\<lambda>F. rbind (setlocvar F (fs_nactvar (fn F) - 1) (\<lambda>v. v\<lparr>startpc := fs_pc (fn F)\<rparr>)) (\<lambda>F. Inr ((), F)))))))))))"

primrec localstat_names :: "nat \<Rightarrow> 'd penv \<Rightarrow> int \<Rightarrow> ('d, int) parser" where
  "localstat_names 0 env nvars = pcut"
| "localstat_names (Suc k) env nvars =
     pbind (str_checkname env) (\<lambda>name. pthen (new_localvar name nvars)
       (pbind (testnext env (uchar CHR '','')) (\<lambda>b. if b then localstat_names k env (nvars + 1) else preturn (nvars + 1))))"

definition localstat :: "'d penv \<Rightarrow> 'd grammar \<Rightarrow> ('d, unit) parser" where
  "localstat env G =
     pbind (localstat_names (g_fuel G) env 0) (\<lambda>nvars.
     pbind (testnext env (uchar CHR ''='')) (\<lambda>b.
     pbind (if b then explist1 env G else preturn (init_exp VVOID 0, 0)) (\<lambda>(e, nexps).
       pthen (adjust_assign nvars nexps e) (adjustlocalvars nvars))))"

primrec funcname_loop :: "nat \<Rightarrow> 'd penv \<Rightarrow> expdesc \<Rightarrow> ('d, expdesc) parser" where
  "funcname_loop 0 env v = pcut"
| "funcname_loop (Suc k) env v =
     pbind (pget ptoken) (\<lambda>t. if t = uchar CHR ''.'' then pbind (field env v) (funcname_loop k env) else preturn v)"

definition funcname :: "'d penv \<Rightarrow> nat \<Rightarrow> ('d, expdesc \<times> bool) parser" where
  "funcname env k =
     pbind (singlevar env) (\<lambda>v. pbind (funcname_loop k env v) (\<lambda>v. pbind (pget ptoken) (\<lambda>t.
       if t = uchar CHR '':'' then pbind (field env v) (\<lambda>v. preturn (v, True)) else preturn (v, False))))"

definition funcstat :: "'d penv \<Rightarrow> 'd grammar \<Rightarrow> int \<Rightarrow> ('d, unit) parser" where
  "funcstat env G line =
     pthen (pnext env) (pbind (funcname env (g_fuel G)) (\<lambda>(v, needself). pbind (body env G needself line) (\<lambda>b.
       pthen (cgu (\<lambda>fs. gafqK_storevar fs v b)) (pwritefs (\<lambda>fs. gafqK_fixline fs line)))))"

definition exprstat :: "'d penv \<Rightarrow> 'd grammar \<Rightarrow> ('d, unit) parser" where
  "exprstat env G =
     pbind (primaryexp env G) (\<lambda>v.
       if ek v = VCALL then cgu (\<lambda>fs. rbind (code_at fs (info v)) (\<lambda>i. Inr (set_code fs (info v) (SETARG_C i 1))))
       else pthen (assignment (g_fuel G) env G v [] 1) (preturn ()))"

definition return_values :: "'d penv \<Rightarrow> 'd grammar \<Rightarrow> ('d, int \<times> int) parser" where
  "return_values env G =
     pbind (explist1 env G) (\<lambda>(e, nret).
       if hasmultret (ek e) then
         pthen (cgu (\<lambda>fs. gafqK_setreturns fs e GAFQ_MULTRET))
         (pthen (if ek e = VCALL \<and> nret = 1
                 then cgu (\<lambda>fs. rbind (code_at fs (info e)) (\<lambda>i. Inr (set_code fs (info e) (SET_OPCODE i (opnum OP_TAILCALL)))))
                 else preturn ())
           (pread (\<lambda>F. (fs_nactvar (fn F), GAFQ_MULTRET))))
       else if nret = 1 then pbind (cg (\<lambda>fs. gafqK_exp2anyreg fs e)) (\<lambda>e. preturn (info e, nret))
       else pthen (cg (\<lambda>fs. gafqK_exp2nextreg fs e)) (pread (\<lambda>F. (fs_nactvar (fn F), nret))))"

definition retstat :: "'d penv \<Rightarrow> 'd grammar \<Rightarrow> ('d, unit) parser" where
  "retstat env G =
     pthen (pnext env) (pbind (pget ptoken) (\<lambda>t.
     pbind (if block_follow t \<or> t = uchar CHR '';'' then preturn (0, 0) else return_values env G) (\<lambda>(first, nret).
       cgu (\<lambda>fs. gafqK_ret fs first nret))))"

text \<open>Whether the statement must be the last one of its block.\<close>

definition statement :: "'d penv \<Rightarrow> 'd grammar \<Rightarrow> ('d, bool) parser" where
  "statement env G =
     pbind (pget (\<lambda>s. linenumber (ps_ls s))) (\<lambda>line. pbind (pget ptoken) (\<lambda>t.
       if t = TK_IF then pthen (ifstat env G line) (preturn False)
       else if t = TK_WHILE then pthen (whilestat env G line) (preturn False)
       else if t = TK_DO then pthen (pnext env) (pthen (block G) (pthen (check_match env TK_END TK_DO line) (preturn False)))
       else if t = TK_FOR then pthen (forstat env G line) (preturn False)
       else if t = TK_REPEAT then pthen (repeatstat env G line) (preturn False)
       else if t = TK_FUNCTION then pthen (funcstat env G line) (preturn False)
       else if t = TK_LOCAL then
         pthen (pnext env) (pbind (testnext env TK_FUNCTION) (\<lambda>b. pthen (if b then localfunc env G else localstat env G) (preturn False)))
       else if t = TK_RETURN then pthen (retstat env G) (preturn True)
       else if t = TK_BREAK then pthen (pnext env) (pthen breakstat (preturn True))
       else pthen (exprstat env G) (preturn False)))"

primrec chunk_loop :: "nat \<Rightarrow> 'd penv \<Rightarrow> 'd grammar \<Rightarrow> bool \<Rightarrow> ('d, unit) parser" where
  "chunk_loop 0 env G islast = pcut"
| "chunk_loop (Suc k) env G islast =
     pbind (pget ptoken) (\<lambda>t.
       if \<not> islast \<and> \<not> block_follow t
       then pbind (statement env G) (\<lambda>islast.
            pthen (testnext env (uchar CHR '';''))
            (pthen (pwritefs (\<lambda>fs. fs\<lparr>fs_freereg := fs_nactvar fs\<rparr>)) (chunk_loop k env G islast)))
       else preturn ())"

definition chunk :: "'d penv \<Rightarrow> 'd grammar \<Rightarrow> ('d, unit) parser" where
  "chunk env G = pthen enterlevel (pthen (chunk_loop (g_fuel G) env G False) leavelevel)"

primrec grammar_n :: "'d penv \<Rightarrow> nat \<Rightarrow> 'd grammar" where
  "grammar_n env 0 = \<lparr>g_fuel = 0, g_chunk = pcut, g_subexpr = (\<lambda>limit. pcut)\<rparr>"
| "grammar_n env (Suc n) =
     (let G = grammar_n env n in \<lparr>g_fuel = Suc n, g_chunk = chunk env G, g_subexpr = subexpr env G\<rparr>)"

definition gafqY_parser :: "nat \<Rightarrow> 'd penv \<Rightarrow> 'd ZIO \<Rightarrow> Mbuffer \<Rightarrow> string \<Rightarrow> int \<Rightarrow> perr + Proto \<times> 'd PState" where
  "gafqY_parser n env z b name nCcalls =
     (case gafqX_setinput (pe_reader env) \<lparr>tk_token = 0, tk_seminfo = SNone\<rparr> z b name of
        Inl e \<Rightarrow> Inl (Raised e)
      | Inr ls \<Rightarrow>
          pthen (open_func env)
          (pthen (pwrite (\<lambda>F. F\<lparr>fn_is_vararg := VARARG_ISVARARG\<rparr>))
          (pthen (pnext env)
          (pthen (g_chunk (grammar_n env n))
          (pthen (check TK_EOS)
          (pbind close_func (\<lambda>F. preturn (proto_of name F)))))))
          \<lparr>ps_ls = ls, ps_fs = [], ps_nCcalls = nCcalls\<rparr>)"

end
