(* ===== verification/Parser_Scope.thy ===== *)
theory Parser_Scope
  imports Parser
begin

text \<open>
  Variables: the search of \<open>singlevaraux\<close> through the functions being compiled, which enters upvalues on its way back, implements
  lexical scoping.  The reference is a search in lists of names, and the meaning of an operand is found by
  following the upvalue descriptors outwards.
\<close>

subsection \<open>Scopes\<close>

definition local_name :: "Func \<Rightarrow> int \<Rightarrow> string option" where
  "local_name F i = varname (fn_locvars F ! fn_actvar F i)"

text \<open>The names of the active variables of a function, in order of declaration.\<close>

definition visible :: "Func \<Rightarrow> string option list" where
  "visible F = map (\<lambda>i. local_name F (int i)) [0..<nat (fs_nactvar (fn F))]"

definition last_index :: "'a list \<Rightarrow> 'a \<Rightarrow> nat option" where
  "last_index xs x = (case filter (\<lambda>i. xs ! i = x) (rev [0..<length xs]) of [] \<Rightarrow> None | i # is \<Rightarrow> Some i)"

text \<open>The innermost declaration of a name: how many functions out, and which variable of that function.\<close>

fun resolve :: "string option list list \<Rightarrow> string \<Rightarrow> (nat \<times> nat) option" where
  "resolve [] n = None"
| "resolve (names # outer) n =
     (case last_index names (Some n) of
        Some i \<Rightarrow> Some (0, i)
      | None \<Rightarrow> map_option (\<lambda>(d, i). (Suc d, i)) (resolve outer n))"

text \<open>The variable that a local register or an upvalue stands for.\<close>

fun denotes :: "Func list \<Rightarrow> expkind \<Rightarrow> int \<Rightarrow> (nat \<times> nat) option" where
  "denotes [] k i = None"
| "denotes (F # Fs) k i =
     (if k = VLOCAL then Some (0, nat i)
      else if k = VUPVAL \<and> 0 \<le> i \<and> nat i < length (fn_upvalues F)
      then let u = fn_upvalues F ! nat i in map_option (\<lambda>(d, j). (Suc d, j)) (denotes Fs (ud_k u) (ud_info u))
      else None)"

definition func_ok :: "Func \<Rightarrow> bool" where
  "func_ok F \<longleftrightarrow> 0 \<le> fs_nactvar (fn F) \<and> fs_nactvar (fn F) \<le> GAFQI_MAXVARS \<and>
     (\<forall>i. 0 \<le> i \<and> i < fs_nactvar (fn F) \<longrightarrow> fn_actvar F i < length (fn_locvars F)) \<and>
     length (fn_upvalues F) = length (fn_upnames F) \<and> int (length (fn_upnames F)) \<le> GAFQI_MAXUPVALUES \<and>
     int (length (fn_upnames F)) \<le> fn_sizeupvalues F"

text \<open>A variable that an inner function uses: the block of its declaration, if it has one, is to be closed.\<close>

definition block_marked :: "Func \<Rightarrow> nat \<Rightarrow> bool" where
  "block_marked F i \<longleftrightarrow> (case dropWhile (\<lambda>b. bl_nactvar b > int i) (fn_bl F) of [] \<Rightarrow> True | b # bs \<Rightarrow> bl_upval b)"

subsection \<open>Searching\<close>

lemma last_index_snoc: "last_index (xs @ [y]) x = (if y = x then Some (length xs) else last_index xs x)"
proof -
  have "filter (\<lambda>i. (xs @ [y]) ! i = x) (rev [0..<length xs]) = filter (\<lambda>i. xs ! i = x) (rev [0..<length xs])"
    by (rule filter_cong) (simp_all add: nth_append)
  then show ?thesis by (simp add: last_index_def)
qed

lemma last_index_bound: "last_index xs x = Some i \<Longrightarrow> i < length xs \<and> xs ! i = x"
proof -
  assume "last_index xs x = Some i"
  then obtain js where "filter (\<lambda>i. xs ! i = x) (rev [0..<length xs]) = i # js" by (auto simp: last_index_def split: list.splits)
  then have "i \<in> set (filter (\<lambda>i. xs ! i = x) (rev [0..<length xs]))" by (simp only: list.set_intros)
  then show ?thesis by simp
qed

lemma searchvar_loop_index:
  assumes "\<And>i. i < n \<Longrightarrow> fn_actvar F (int i) < length (fn_locvars F)"
  shows "searchvar_loop n F x = Inr (case last_index (map (\<lambda>i. local_name F (int i)) [0..<n]) (Some x) of None \<Rightarrow> -1 | Some i \<Rightarrow> int i)"
  using assms
proof (induction n)
  case 0
  then show ?case by (simp add: last_index_def)
next
  case (Suc n)
  have "getlocvar F (int n) = Inr (fn_locvars F ! fn_actvar F (int n))" using Suc.prems [of n] by (simp add: getlocvar_def)
  moreover have "last_index (map (\<lambda>i. local_name F (int i)) [0..<Suc n]) (Some x) =
    (if local_name F (int n) = Some x then Some n else last_index (map (\<lambda>i. local_name F (int i)) [0..<n]) (Some x))"
    using last_index_snoc [of "map (\<lambda>i. local_name F (int i)) [0..<n]" "local_name F (int n)" "Some x"] by simp
  ultimately show ?case using Suc.IH Suc.prems by (simp add: local_name_def)
qed

lemma searchvar_index:
  "func_ok F \<Longrightarrow> searchvar F x = Inr (case last_index (visible F) (Some x) of None \<Rightarrow> -1 | Some i \<Rightarrow> int i)"
  unfolding searchvar_def visible_def by (rule searchvar_loop_index) (auto simp: func_ok_def)

lemma upvalue_index_Some:
  "upvalue_index us k i n = Some m \<Longrightarrow> n \<le> m \<and> nat (m - n) < length us \<and> ud_k (us ! nat (m - n)) = k \<and> ud_info (us ! nat (m - n)) = i"
proof (induction us arbitrary: n)
  case (Cons u us)
  show ?case
  proof (cases "ud_k u = k \<and> ud_info u = i")
    case False
    then have h: "n + 1 \<le> m \<and> nat (m - (n + 1)) < length us \<and> ud_k (us ! nat (m - (n + 1))) = k \<and> ud_info (us ! nat (m - (n + 1))) = i"
      using Cons by auto
    moreover from this have "nat (m - n) = Suc (nat (m - (n + 1)))" by linarith
    ultimately show ?thesis by simp
  qed (use Cons.prems in auto)
qed simp

lemma mark_block_marked: "case dropWhile (\<lambda>b. bl_nactvar b > v) (mark_block bs v) of [] \<Rightarrow> True | b # _ \<Rightarrow> bl_upval b"
  by (induction bs) auto

lemma markupval_frame [simp]:
  "visible (markupval F v) = visible F" "fn_upvalues (markupval F v) = fn_upvalues F" "func_ok (markupval F v) = func_ok F"
  by (simp_all add: markupval_def visible_def local_name_def func_ok_def)

subsection \<open>Entering an upvalue\<close>

lemma indexupvalue_ok:
  assumes "func_ok F" "0 \<le> i" "i < 256"
  shows "(\<exists>msg. indexupvalue ls F x k i = Inl (SyntaxError msg)) \<or>
    (\<exists>idx F' us. indexupvalue ls F x k i = Inr (idx, F') \<and> 0 \<le> idx \<and> idx < GAFQI_MAXUPVALUES \<and> nat idx < length (fn_upvalues F') \<and>
      fn_upvalues F' ! nat idx = \<lparr>ud_k = k, ud_info = i\<rparr> \<and> fn_upvalues F' = fn_upvalues F @ us \<and> func_ok F' \<and>
      visible F' = visible F \<and> fn_bl F' = fn_bl F)"
proof (cases "upvalue_index (fn_upvalues F) k i 0")
  case (Some n)
  have b: "0 \<le> n" "nat n < length (fn_upvalues F)" "fn_upvalues F ! nat n = \<lparr>ud_k = k, ud_info = i\<rparr>"
    using upvalue_index_Some [OF Some] by simp_all
  moreover have "n < GAFQI_MAXUPVALUES" using b(1,2) assms(1) unfolding func_ok_def by linarith
  ultimately show ?thesis using Some assms(1) by (simp add: indexupvalue_def)
next
  case None
  let ?n = "int (length (fn_upnames F))"
  show ?thesis
  proof (cases "?n + 1 > GAFQI_MAXUPVALUES")
    case True
    then show ?thesis using None by (simp add: indexupvalue_def errorlimit_def gafqX_lexerror_def)
  next
    case False
    have sz: "0 \<le> ?n" "?n \<le> fn_sizeupvalues F" using assms(1) by (simp_all add: func_ok_def)
    have lim: "?n < MAX_INT" using False by (simp add: GAFQI_MAXUPVALUES_def MAX_INT_def)
    obtain sz' where s: "gafqM_growvector ?n (fn_sizeupvalues F) MAX_INT [] = Inr sz'"
      using growvector_fails [OF _ sz(2), of MAX_INT] lim by (cases "gafqM_growvector ?n (fn_sizeupvalues F) MAX_INT []") (auto simp: MAX_INT_def)
    have g: "?n < sz'" using s sz by (auto simp: gafqM_growvector_def grow_size_def Let_def MINSIZEARRAY_def MAX_INT_def GAFQI_MAXUPVALUES_def split: if_splits)
    define F' where "F' = F\<lparr>fn_upnames := fn_upnames F @ [x], fn_sizeupvalues := sz', fn_upvalues := fn_upvalues F @ [\<lparr>ud_k = k, ud_info = i\<rparr>]\<rparr>"
    have "indexupvalue ls F x k i = Inr (?n, F')" using None False s assms(2,3) by (simp add: indexupvalue_def Let_def F'_def)
    moreover have "func_ok F'" "visible F' = visible F" "fn_bl F' = fn_bl F" "fn_upvalues F' = fn_upvalues F @ [\<lparr>ud_k = k, ud_info = i\<rparr>]"
      "length (fn_upvalues F) = length (fn_upnames F)" "?n < GAFQI_MAXUPVALUES"
      using assms(1) False g by (simp_all add: F'_def func_ok_def visible_def local_name_def)
    ultimately show ?thesis by (simp add: nth_append)
  qed
qed

subsection \<open>Resolution\<close>

text \<open>What a search leaves of the functions: their scopes, and all the upvalues entered before.\<close>

definition extends :: "Func \<Rightarrow> Func \<Rightarrow> bool" where
  "extends F F' \<longleftrightarrow> visible F' = visible F \<and> (\<exists>us. fn_upvalues F' = fn_upvalues F @ us) \<and> func_ok F'"

lemma extends_refl: "func_ok F \<Longrightarrow> extends F F"
  by (simp add: extends_def)

definition resolved :: "Func list \<Rightarrow> string \<Rightarrow> bool \<Rightarrow> (expkind \<times> int \<times> Func list) res \<Rightarrow> bool" where
  "resolved Fs x base r \<longleftrightarrow>
     (case resolve (map visible Fs) x of
        None \<Rightarrow> r = Inr (VGLOBAL, NO_REG, Fs)
      | Some (d, i) \<Rightarrow>
          (\<exists>msg. r = Inl (SyntaxError msg)) \<or>
          (\<exists>k j Fs'. r = Inr (k, j, Fs') \<and> k = (if d = 0 then VLOCAL else VUPVAL) \<and> 0 \<le> j \<and> j < 256 \<and>
             denotes Fs' k j = Some (d, i) \<and> list_all2 extends Fs Fs' \<and> (\<not> base \<or> 0 < d \<longrightarrow> block_marked (Fs' ! d) i)))"

lemma resolved_local:
  assumes "func_ok F" "list_all func_ok Fs" "last_index (visible F) (Some x) = Some i"
  shows "resolved (F # Fs) x base (Inr (VLOCAL, int i, (if base then F else markupval F (int i)) # Fs))"
proof -
  have "i < length (visible F)" using last_index_bound [OF assms(3)] by blast
  then have "int i < fs_nactvar (fn F)" by (simp add: visible_def)
  then have "int i < 256" using assms(1) by (simp add: func_ok_def GAFQI_MAXVARS_def)
  moreover have "list_all2 extends Fs Fs" using assms(2) by (induction Fs) (simp_all add: extends_refl)
  moreover have "extends F (if base then F else markupval F (int i))" using assms(1) by (simp add: extends_def)
  moreover have "block_marked (markupval F (int i)) i" using mark_block_marked [of "int i" "fn_bl F"] by (simp add: block_marked_def markupval_def)
  ultimately show ?thesis using assms(3) by (simp add: resolved_def)
qed

lemma resolved_outer:
  assumes "func_ok F" "last_index (visible F) (Some x) = None" "resolved Fs x False r"
  shows "resolved (F # Fs) x base (rbind r (\<lambda>(k, i, Fs). if k = VGLOBAL then Inr (VGLOBAL, i, F # Fs)
     else rbind (indexupvalue ls F x k i) (\<lambda>(idx, F). Inr (VUPVAL, idx, F # Fs))))"
proof (cases "resolve (map visible Fs) x")
  case None
  then show ?thesis using assms(2,3) by (simp add: resolved_def)
next
  case (Some v)
  obtain d i where v: "v = (d, i)" by (cases v)
  show ?thesis
  proof (cases "\<exists>msg. r = Inl (SyntaxError msg)")
    case True
    then show ?thesis using Some v assms(2) by (auto simp: resolved_def)
  next
    case False
    then obtain k j Fs' where r: "r = Inr (k, j, Fs')" "k = VLOCAL \<or> k = VUPVAL" "0 \<le> j" "j < 256" "denotes Fs' k j = Some (d, i)"
      "list_all2 extends Fs Fs'" "block_marked (Fs' ! d) i"
      using assms(3) Some v by (auto simp: resolved_def split: if_splits)
    from indexupvalue_ok [OF assms(1) r(3,4)]
    consider msg where "indexupvalue ls F x k j = Inl (SyntaxError msg)"
      | idx F' us where "indexupvalue ls F x k j = Inr (idx, F')" "0 \<le> idx" "idx < GAFQI_MAXUPVALUES" "nat idx < length (fn_upvalues F')"
        "fn_upvalues F' ! nat idx = \<lparr>ud_k = k, ud_info = j\<rparr>" "fn_upvalues F' = fn_upvalues F @ us" "func_ok F'" "visible F' = visible F"
      by blast
    then show ?thesis
    proof cases
      case 1
      then show ?thesis using r(1,2) Some v assms(2) by (auto simp: resolved_def)
    next
      case 2
      have "denotes (F' # Fs') VUPVAL idx = Some (Suc d, i)" using 2(2,4,5) r(5) by (simp add: Let_def)
      moreover have "list_all2 extends (F # Fs) (F' # Fs')" using 2(6-8) r(6) by (auto simp: extends_def)
      moreover have "idx < 256" using 2(3) by (simp add: GAFQI_MAXUPVALUES_def)
      ultimately show ?thesis using 2(1,2) r(1,2,7) Some v assms(2) by (auto simp: resolved_def)
    qed
  qed
qed

lemma singlevaraux_cons:
  assumes "func_ok F"
  shows "singlevaraux ls (F # Fs) x base =
    (case last_index (visible F) (Some x) of
       Some i \<Rightarrow> Inr (VLOCAL, int i, (if base then F else markupval F (int i)) # Fs)
     | None \<Rightarrow> rbind (singlevaraux ls Fs x False) (\<lambda>(k, i, Fs). if k = VGLOBAL then Inr (VGLOBAL, i, F # Fs)
                 else rbind (indexupvalue ls F x k i) (\<lambda>(idx, F). Inr (VUPVAL, idx, F # Fs))))"
  unfolding singlevaraux.simps searchvar_index [OF assms] by (auto split: option.splits)

text \<open>
  C13. Lexical scoping: \<open>singlevaraux\<close> makes a name a global exactly when no active variable of the function or of the functions around
  it has that name, and changes nothing then; otherwise the operand it returns, a local variable or an upvalue
  followed outwards through the descriptors, is the innermost declaration of the name.  The upvalues entered before
  keep their places, all scopes stay as they are, and the block of a variable that an inner function uses is marked to be closed.  It fails only by a syntax
  error, when a function would have too many upvalues.
\<close>

theorem singlevaraux_resolves:
  assumes "list_all func_ok Fs"
  shows "resolved Fs x base (singlevaraux ls Fs x base)"
  using assms
proof (induction Fs arbitrary: base)
  case Nil
  then show ?case by (simp add: resolved_def)
next
  case (Cons F Fs)
  then have ok: "func_ok F" "list_all func_ok Fs" by simp_all
  show ?case
  proof (cases "last_index (visible F) (Some x)")
    case None
    then show ?thesis using resolved_outer [OF ok(1) None Cons.IH [OF ok(2)]] unfolding singlevaraux_cons [OF ok(1)] by simp
  next
    case (Some i)
    then show ?thesis using resolved_local [OF ok Some] unfolding singlevaraux_cons [OF ok(1)] by simp
  qed
qed

text \<open>A function inside one with the local variables \<open>x\<close>, \<open>y\<close>, \<open>x\<close> uses \<open>x\<close>: it is the last of them.\<close>

definition scope_func :: "string list \<Rightarrow> Func" where
  "scope_func names =
     \<lparr>fn = \<lparr>fs_code = [], fs_lineinfo = [], fs_sizecode = 0, fs_sizelineinfo = 0, fs_k = [], fs_sizek = 0,
            fs_h = \<lparr>flags = NOT 0, lsizenode = 0, metatable = None, array = [], node = [dummynode], isdummy = True, lastfree = 0\<rparr>, fs_haddr = 16,
            fs_lasttarget = -1, fs_jpc = NO_JUMP, fs_freereg = int (length names), fs_nactvar = int (length names), fs_maxstacksize = 5, fs_lastline = 0\<rparr>,
      fn_p = [], fn_sizep = 0, fn_locvars = map (\<lambda>n. \<lparr>varname = Some n, startpc = 0, endpc = 0\<rparr>) names, fn_sizelocvars = int (length names),
      fn_upnames = [], fn_sizeupvalues = 0, fn_upvalues = [], fn_actvar = nat, fn_bl = [], fn_linedefined = 0, fn_lastlinedefined = 0,
      fn_numparams = 0, fn_is_vararg = 0\<rparr>"

lemma scope_func_ok: "length names \<le> 200 \<Longrightarrow> func_ok (scope_func names)"
  by (auto simp: func_ok_def scope_func_def GAFQI_MAXVARS_def GAFQI_MAXUPVALUES_def nat_less_iff)

lemma scope_func_visible: "visible (scope_func names) = map Some names"
  by (rule nth_equalityI) (simp_all add: visible_def scope_func_def local_name_def)

theorem singlevaraux_resolves_witness:
  "\<forall>ls :: LoadS LexState. resolved [scope_func [''z''], scope_func [''x'', ''y'', ''x'']] ''x'' True
      (singlevaraux ls [scope_func [''z''], scope_func [''x'', ''y'', ''x'']] ''x'' True) \<and>
    resolve (map visible [scope_func [''z''], scope_func [''x'', ''y'', ''x'']]) ''x'' = Some (1, 2)"
proof
  fix ls :: "LoadS LexState"
  have "list_all func_ok [scope_func [''z''], scope_func [''x'', ''y'', ''x'']]" by (simp add: scope_func_ok)
  from singlevaraux_resolves [OF this, of "''x''" True ls]
  show "resolved [scope_func [''z''], scope_func [''x'', ''y'', ''x'']] ''x'' True
      (singlevaraux ls [scope_func [''z''], scope_func [''x'', ''y'', ''x'']] ''x'' True) \<and>
    resolve (map visible [scope_func [''z''], scope_func [''x'', ''y'', ''x'']]) ''x'' = Some (1, 2)"
    by (simp add: scope_func_visible last_index_def upt_rec numeral_nat)
qed

end
