(* ===== verification/Lex_Frame.thy ===== *)
theory Lex_Frame
  imports Lex_Props
begin

text \<open>What the scanner leaves alone: the current token and the one looked ahead; and the range of the tokens it returns.\<close>

definition same_toks :: "'d LexState \<Rightarrow> 'd LexState \<Rightarrow> bool" where
  "same_toks ls ls' \<longleftrightarrow> lx_t ls' = lx_t ls \<and> lx_lookahead ls' = lx_lookahead ls"

named_theorems toks

lemma same_toks_refl [simp]: "same_toks ls ls"
  by (simp add: same_toks_def)

lemma same_toks_trans [trans]: "same_toks a b \<Longrightarrow> same_toks b c \<Longrightarrow> same_toks a c"
  by (simp add: same_toks_def)

lemma same_toks_bind: "same_toks a b \<Longrightarrow> same_toks c a \<Longrightarrow> same_toks c b"
  by (simp add: same_toks_def)

lemma lexerror_Inr [simp]: "gafqX_lexerror ls msg t \<noteq> Inr x" "gafqX_syntaxerror ls msg \<noteq> Inr x"
  by (simp_all add: gafqX_syntaxerror_def gafqX_lexerror_def res_simps)

lemma lx_next_toks [toks]: "lx_next reader ls = Inr ls' \<Longrightarrow> same_toks ls ls'"
  by (auto simp: lx_next_def res_simps same_toks_def)

lemma save_toks [toks]: "save ls c = Inr ls' \<Longrightarrow> same_toks ls ls'"
  by (auto simp: save_def res_simps same_toks_def Let_def split: if_splits)

lemma save_and_next_toks [toks]: "save_and_next reader ls = Inr ls' \<Longrightarrow> same_toks ls ls'"
  by (auto simp: save_and_next_def res_simps split: option.splits dest!: toks intro: same_toks_trans)

lemma resetbuffer_toks [simp]: "same_toks ls (resetbuffer ls)" "same_toks (resetbuffer ls) ls' = same_toks ls ls'"
  by (simp_all add: resetbuffer_def same_toks_def)

lemma inclinenumber_toks [toks]: "inclinenumber reader ls = Inr ls' \<Longrightarrow> same_toks ls ls'"
  by (auto simp: inclinenumber_def res_simps Let_def same_toks_def split: if_splits dest!: toks)

lemma check_next_toks [toks]: "check_next reader ls cs = Inr (b, ls') \<Longrightarrow> same_toks ls ls'"
  by (auto simp: check_next_def res_simps split: if_splits dest!: toks)

lemma save_while_toks [toks]: "save_while n P reader ls = Inr ls' \<Longrightarrow> same_toks ls ls'"
  by (induction n arbitrary: ls) (auto simp: res_simps split: if_splits dest!: toks intro: same_toks_trans)

lemma skip_while_toks [toks]: "skip_while n P reader ls = Inr ls' \<Longrightarrow> same_toks ls ls'"
  by (induction n arbitrary: ls) (auto simp: res_simps split: if_splits dest!: toks intro: same_toks_trans)

lemma trydecpoint_toks [toks]: "trydecpoint str2d ls = Inr (r, ls') \<Longrightarrow> same_toks ls ls'"
  by (auto simp: trydecpoint_def buffreplace_def res_simps Let_def same_toks_def split: if_splits option.splits)

lemma read_numeral_toks [toks]: "read_numeral n str2d reader ls = Inr (r, ls') \<Longrightarrow> same_toks ls ls'"
  unfolding read_numeral_def
  by (auto simp: res_simps Let_def buffreplace_def same_toks_def split: if_splits option.splits dest!: toks)

lemma skip_sep_loop_toks [toks]: "skip_sep_loop n reader ls k = Inr (r, ls') \<Longrightarrow> same_toks ls ls'"
  by (induction n arbitrary: ls k) (auto simp: res_simps split: if_splits dest!: toks intro: same_toks_trans)

lemma skip_sep_toks [toks]: "skip_sep n reader ls = Inr (r, ls') \<Longrightarrow> same_toks ls ls'"
  by (auto simp: skip_sep_def res_simps split: if_splits option.splits dest!: toks intro: same_toks_trans)

lemma long_turn_toks [toks]: "long_turn n reader b sep ls = Inr (r, ls') \<Longrightarrow> same_toks ls ls'"
  by (auto simp: long_turn_def res_simps split: if_splits option.splits dest!: toks intro: same_toks_trans same_toks_bind)

lemma long_loop_toks [toks]: "long_loop n k reader b sep ls = Inr ls' \<Longrightarrow> same_toks ls ls'"
  by (induction k arbitrary: ls) (auto simp: res_simps split: if_splits dest!: toks intro: same_toks_trans)

lemma read_long_string_toks [toks]: "read_long_string n reader b sep ls = Inr (r, ls') \<Longrightarrow> same_toks ls ls'"
  by (auto simp: read_long_string_def res_simps Let_def split: if_splits dest!: toks intro: same_toks_trans same_toks_bind)

lemma escape_digits_toks [toks]: "escape_digits k reader ls c = Inr (r, ls') \<Longrightarrow> same_toks ls ls'"
  by (induction k arbitrary: ls c) (auto simp: res_simps split: if_splits option.splits dest!: toks intro: same_toks_trans)

lemma read_escape_toks [toks]:
  assumes "read_escape reader ls = Inr ls'" shows "same_toks ls ls'"
proof -
  obtain ls1 where n: "lx_next reader ls = Inr ls1" using assms by (auto simp: read_escape_def rbind_eq_Inr)
  have "same_toks ls1 ls'"
  proof (cases "current ls1")
    case None
    then show ?thesis using assms n by (simp add: read_escape_def)
  next
    case (Some x)
    note r = assms [unfolded read_escape_def n rbind.simps Some option.case]
    show ?thesis
    proof (cases "simple_escape x")
      case None
      then show ?thesis using r by (auto simp: res_simps split: if_splits dest!: toks intro: same_toks_trans)
    next
      case (Some c)
      then show ?thesis using r by (auto simp: res_simps dest!: toks intro: same_toks_trans)
    qed
  qed
  then show ?thesis using toks(1) [OF n] same_toks_trans by blast
qed

lemma string_loop_toks [toks]: "string_loop n reader d ls = Inr ls' \<Longrightarrow> same_toks ls ls'"
  by (induction n arbitrary: ls) (auto simp: res_simps split: if_splits option.splits dest!: toks intro: same_toks_trans)

lemma read_string_toks [toks]: "read_string n reader d ls = Inr (r, ls') \<Longrightarrow> same_toks ls ls'"
  by (auto simp: read_string_def res_simps dest!: toks intro: same_toks_trans same_toks_bind)

lemma reserved_token: "i < NUM_RESERVED \<Longrightarrow> i + FIRST_RESERVED \<le> TK_EOS"
  by (simp add: NUM_RESERVED_def FIRST_RESERVED_def TK_EOS_def)

lemma token_range:
  "uchar c \<le> TK_EOS" "TK_EQ \<le> TK_EOS" "TK_LE \<le> TK_EOS" "TK_GE \<le> TK_EOS" "TK_NE \<le> TK_EOS" "TK_STRING \<le> TK_EOS" "TK_NUMBER \<le> TK_EOS"
  "TK_NAME \<le> TK_EOS" "TK_DOTS \<le> TK_EOS" "TK_CONCAT \<le> TK_EOS"
proof -
  show "uchar c \<le> TK_EOS" using nat_of_char_less_256 [of c] unfolding TK_EOS_def by linarith
qed (simp_all add: TK_EOS_def TK_EQ_def TK_LE_def TK_GE_def TK_NE_def TK_STRING_def TK_NUMBER_def TK_NAME_def TK_DOTS_def TK_CONCAT_def)

text \<open>A turn of the scanner: tokens kept, and the result in range.\<close>

definition turn_ok :: "'d LexState \<Rightarrow> (nat \<times> SemInfo) option \<times> 'd LexState \<Rightarrow> bool" where
  "turn_ok ls r \<longleftrightarrow> same_toks ls (snd r) \<and> (case fst r of None \<Rightarrow> True | Some (t, i) \<Rightarrow> t \<le> TK_EOS)"

lemma token_if_equals_turn: "tk \<le> TK_EOS \<Longrightarrow> token_if_equals reader ls c tk = Inr r \<Longrightarrow> turn_ok ls r"
  by (auto simp: token_if_equals_def res_simps turn_ok_def token_range split: if_splits dest!: toks intro: same_toks_trans)

lemma lex_dash_turn: "lex_dash n reader ls = Inr r \<Longrightarrow> turn_ok ls r"
  by (auto simp: lex_dash_def res_simps turn_ok_def TK_EOS_def Let_def same_toks_def resetbuffer_def split: if_splits dest!: toks)

lemma lex_bracket_turn: "lex_bracket n reader ls = Inr r \<Longrightarrow> turn_ok ls r"
  by (auto simp: lex_bracket_def res_simps turn_ok_def TK_EOS_def TK_STRING_def split: if_splits dest!: toks intro: same_toks_trans)

lemma lex_dot_turn: "lex_dot n str2d reader ls = Inr r \<Longrightarrow> turn_ok ls r"
  by (auto simp: lex_dot_def res_simps turn_ok_def token_range split: if_splits dest!: toks intro: same_toks_trans same_toks_bind)
    (simp_all add: TK_EOS_def)

lemma lex_name_turn: "lex_name n reader ls = Inr r \<Longrightarrow> turn_ok ls r"
  by (auto simp: lex_name_def res_simps turn_ok_def token_range reserved_token Let_def split: if_splits dest!: toks intro: same_toks_trans)

definition turns :: "'d LexState \<Rightarrow> 'd turn \<Rightarrow> bool" where
  "turns ls r \<longleftrightarrow> (\<forall>x. r = Inr x \<longrightarrow> turn_ok ls x)"

lemma turns_if: "turns ls a \<Longrightarrow> turns ls b \<Longrightarrow> turns ls (if P then a else b)"
  by simp

lemma glex_turn_turn: "glex_turn n str2d reader ls = Inr r \<Longrightarrow> turn_ok ls r"
proof -
  have call: "turns ls (lex_dash n reader ls)" "turns ls (lex_bracket n reader ls)" "turns ls (lex_dot n str2d reader ls)" "turns ls (lex_name n reader ls)"
    "tk \<le> TK_EOS \<Longrightarrow> turns ls (token_if_equals reader ls c tk)" for tk c
    by (auto simp: turns_def lex_dash_turn lex_bracket_turn lex_dot_turn lex_name_turn token_if_equals_turn)
  have step: "turns ls (rbind (inclinenumber reader ls) (\<lambda>ls. Inr (None, ls)))" "turns ls (rbind (lx_next reader ls) (\<lambda>ls. Inr (None, ls)))"
    "turns ls (rbind (lx_next reader ls) (\<lambda>ls. Inr (Some (uchar c, SNone), ls)))"
    "turns ls (rbind (read_string n reader c ls) (\<lambda>(s, ls). Inr (Some (TK_STRING, SStr s), ls)))"
    "turns ls (rbind (read_numeral n str2d reader ls) (\<lambda>(r, ls). Inr (Some (TK_NUMBER, SNum r), ls)))" for c
    by (auto simp: turns_def turn_ok_def res_simps token_range dest!: toks)
  have "turns ls (glex_turn n str2d reader ls)"
  proof (cases "current ls")
    case None
    then show ?thesis by (simp add: glex_turn_def turns_def turn_ok_def)
  next
    case (Some c)
    show ?thesis unfolding glex_turn_def Some option.case by (intro turns_if call step token_range)
  qed
  then show "glex_turn n str2d reader ls = Inr r \<Longrightarrow> turn_ok ls r" by (simp add: turns_def)
qed

lemma glex_loop_turn: "glex_loop n k str2d reader ls = Inr ((t, i), ls') \<Longrightarrow> same_toks ls ls' \<and> t \<le> TK_EOS"
proof (induction k arbitrary: ls)
  case (Suc k)
  then obtain r ls1 where r: "glex_turn n str2d reader ls = Inr (r, ls1)"
    "(case r of Some t \<Rightarrow> Inr (t, ls1) | None \<Rightarrow> glex_loop n k str2d reader ls1) = Inr ((t, i), ls')"
    by (auto simp: res_simps)
  have "turn_ok ls (r, ls1)" by (rule glex_turn_turn [OF r(1)])
  then show ?case using r(2) Suc.IH [of ls1] by (auto simp: turn_ok_def split: option.splits intro: same_toks_trans)
qed simp

lemma glex_turn_kept: "glex n str2d reader ls = Inr ((t, i), ls') \<Longrightarrow> same_toks ls ls' \<and> t \<le> TK_EOS"
  using glex_loop_turn by (fastforce simp: glex_def)

end
