(* ===== verification/Parser_Fuel.thy ===== *)
theory Parser_Fuel
  imports Parser Lex_Frame
begin

text \<open>
  Termination of the parser: the bound on levels and turns, \<open>n\<close> in \<open>grammar_n env n\<close>, does not matter as soon as it exceeds the number of
  tokens that can be left.  Every level of the grammar and every turn of a loop consumes a token, so such a bound is never reached,
  and with two of them the parser does the same.
\<close>

subsection \<open>Tokens left\<close>

definition tleft :: "('d \<Rightarrow> string) \<Rightarrow> 'd LexState \<Rightarrow> nat" where
  "tleft C ls = (if tk_token (lx_t ls) \<noteq> TK_EOS then 1 else 0) + (if tk_token (lx_lookahead ls) \<noteq> TK_EOS then 1 else 0) + length (text_of C ls)"

definition lex_inv :: "('d \<Rightarrow> string) \<Rightarrow> 'd penv \<Rightarrow> 'd LexState \<Rightarrow> bool" where
  "lex_inv C env ls \<longleftrightarrow> lex_ok ls \<and> tk_token (lx_lookahead ls) \<le> TK_EOS \<and> length (text_of C ls) < pe_fuel env"

text \<open>
  Two parsers agree on the states with at most \<open>N\<close> tokens left, and with the current token given when \<open>t\<close> is some: they do the same, no bound is reached, a result leaves no more
  tokens than there were, and fewer when \<open>b\<close> holds.
\<close>

definition settled :: "('d \<Rightarrow> string) \<Rightarrow> 'd penv \<Rightarrow> bool \<Rightarrow> 'd PState \<Rightarrow> perr + 'a \<times> 'd PState \<Rightarrow> bool" where
  "settled C env b s r \<longleftrightarrow> r \<noteq> Inl Cut \<and>
     (\<forall>x s'. r = Inr (x, s') \<longrightarrow> lex_inv C env (ps_ls s') \<and> tleft C (ps_ls s') \<le> tleft C (ps_ls s) \<and>
        (b \<longrightarrow> tleft C (ps_ls s') < tleft C (ps_ls s)))"

definition agree ::
  "('d \<Rightarrow> string) \<Rightarrow> 'd penv \<Rightarrow> nat \<Rightarrow> nat option \<Rightarrow> bool \<Rightarrow> ('d, 'a) parser \<Rightarrow> ('d, 'a) parser \<Rightarrow> bool" where
  "agree C env N t b p q \<longleftrightarrow>
     (\<forall>s. lex_inv C env (ps_ls s) \<and> tleft C (ps_ls s) \<le> N \<and> (\<forall>c. t = Some c \<longrightarrow> ptoken s = c) \<longrightarrow>
        p s = q s \<and> settled C env b s (p s))"

text \<open>An action that does not touch the scanner and reaches no bound.\<close>

definition quiet :: "('d, 'a) parser \<Rightarrow> bool" where
  "quiet p \<longleftrightarrow> (\<forall>s. p s \<noteq> Inl Cut \<and> (\<forall>x s'. p s = Inr (x, s') \<longrightarrow> ps_ls s' = ps_ls s))"

named_theorems quiet_intros

subsection \<open>Quiet actions\<close>

lemma quiet_basic [quiet_intros]: "quiet (preturn x)" "quiet (pget f)" "quiet (pcall r)" "quiet leavelevel"
  by (auto simp: quiet_def preturn_def pget_def pcall_def leavelevel_def split: sum.splits)

lemma quiet_bind [quiet_intros]: "quiet p \<Longrightarrow> (\<And>x. quiet (f x)) \<Longrightarrow> quiet (pbind p f)"
  unfolding quiet_def pbind_def by (fastforce split: sum.splits)

lemma quiet_if [quiet_intros]: "quiet p \<Longrightarrow> quiet q \<Longrightarrow> quiet (if b then p else q)"
  by simp

lemma quiet_pfun [quiet_intros]: "quiet (pfun f)" "quiet (pread g)" "quiet (pwrite h)" "quiet (pwritefs k)"
  by (auto simp: pread_def pwrite_def pwritefs_def quiet_def pfun_def pbind_def pcall_def split: list.splits sum.splits)

lemma quiet_cg [quiet_intros]: "quiet (cg f)"
  unfolding quiet_def cg_def pcall_def by (auto split: list.splits sum.splits gerr.splits)

lemma quiet_cgu [quiet_intros]: "quiet (cgu f)" "quiet (cgRK e)"
  by (simp_all add: cgu_def cgRK_def quiet_cg)

lemma quiet_errors [quiet_intros]:
  "quiet (psyntaxerror msg)" "quiet (error_expected c)" "quiet (gafqY_checklimit v l m)" "quiet (check_condition P msg)" "quiet enterlevel"
  "quiet (check c)" "quiet popfunc" "quiet (open_func env)" "quiet popblock"
  by (auto simp: quiet_def psyntaxerror_def error_expected_def gafqY_checklimit_def check_condition_def enterlevel_def check_def preturn_def pbind_def
      pget_def pcall_def popfunc_def open_func_def popblock_def pfun_def Let_def split: if_splits list.splits sum.splits)

lemma quiet_vars [quiet_intros]:
  "quiet (new_localvar name n)" "quiet (adjustlocalvars n)" "quiet (removevars l)" "quiet (codestring x)" "quiet (adjust_assign a b e)"
  "quiet (enterblock br)" "quiet leaveblock" "quiet close_func" "quiet (pushclosure F)" "quiet (closelistfield cc)" "quiet (lastlistfield cc)"
  "quiet vararg_exp" "quiet (check_conflict lh v)" "quiet (storedefault var)" "quiet breakstat" "quiet (escape_part a b)"
proof -
  show [quiet_intros]: "quiet (new_localvar name n)" "quiet (adjustlocalvars n)" "quiet (removevars l)" "quiet (codestring x)" "quiet (enterblock br)"
    for name n l x br
    unfolding new_localvar_def adjustlocalvars_def removevars_def codestring_def enterblock_def by (intro quiet_intros)+
  show "quiet (adjust_assign a b e)" unfolding adjust_assign_def Let_def by (intro quiet_intros)
  show "quiet leaveblock" "quiet close_func" "quiet (pushclosure F)" "quiet vararg_exp" "quiet (check_conflict lh v)" "quiet (storedefault var)" "quiet (escape_part a b)"
    unfolding leaveblock_def close_func_def pushclosure_def vararg_exp_def check_conflict_def storedefault_def escape_part_def by (intro quiet_intros)+
  show "quiet (closelistfield cc)" "quiet (lastlistfield cc)" unfolding closelistfield_def lastlistfield_def Let_def by (intro quiet_intros)+
  show "quiet breakstat" unfolding breakstat_def by (intro quiet_intros) (auto split: option.splits intro!: quiet_intros)
qed

subsection \<open>Rules\<close>

lemma settled_weaken: "settled C env b s r \<Longrightarrow> (c \<Longrightarrow> b) \<Longrightarrow> settled C env c s r"
  unfolding settled_def by blast

lemma agree_weaken: "agree C env N t b p q \<Longrightarrow> M \<le> N \<Longrightarrow> (c \<Longrightarrow> b) \<Longrightarrow> t = None \<or> t = u \<Longrightarrow> agree C env M u c p q"
proof -
  assume a: "agree C env N t b p q" "M \<le> N" "c \<Longrightarrow> b" "t = None \<or> t = u"
  have "p s = q s \<and> settled C env c s (p s)"
    if s: "lex_inv C env (ps_ls s)" "tleft C (ps_ls s) \<le> M" "\<forall>c. u = Some c \<longrightarrow> ptoken s = c" for s
    using a(1) [unfolded agree_def, rule_format, of s] s a(2,4) settled_weaken [of C env b s "p s" c] a(3) by auto
  then show ?thesis unfolding agree_def by blast
qed

lemma agree_relax: "agree C env N t True p q \<Longrightarrow> agree C env N t b p q"
  by (rule agree_weaken) auto

lemma agree_quiet: "quiet p \<Longrightarrow> agree C env N t False p p"
  unfolding agree_def quiet_def settled_def by auto

lemma settled_bind:
  assumes "settled C env b s (p s)" "\<And>x s'. p s = Inr (x, s') \<Longrightarrow> settled C env c s' (f x s')" "d \<Longrightarrow> b \<or> c"
  shows "settled C env d s (pbind p f s)"
proof (cases "p s")
  case (Inl e)
  then show ?thesis using assms(1) by (simp add: settled_def pbind_def)
next
  case (Inr r)
  then obtain x s' where r: "p s = Inr (x, s')" by (cases r) simp
  have i: "tleft C (ps_ls s') \<le> tleft C (ps_ls s)" "b \<longrightarrow> tleft C (ps_ls s') < tleft C (ps_ls s)"
    using assms(1) r by (auto simp: settled_def)
  have f: "f x s' \<noteq> Inl Cut" using assms(2) [OF r] by (simp add: settled_def)
  have "lex_inv C env (ps_ls s'') \<and> tleft C (ps_ls s'') \<le> tleft C (ps_ls s) \<and> (d \<longrightarrow> tleft C (ps_ls s'') < tleft C (ps_ls s))"
    if "f x s' = Inr (y, s'')" for y s''
  proof -
    have "lex_inv C env (ps_ls s'')" "tleft C (ps_ls s'') \<le> tleft C (ps_ls s')" "c \<longrightarrow> tleft C (ps_ls s'') < tleft C (ps_ls s')"
      using assms(2) [OF r] that by (auto simp: settled_def)
    then show ?thesis using i assms(3) by linarith
  qed
  then show ?thesis using f r by (simp add: settled_def pbind_def)
qed

lemma agree_bind:
  assumes "agree C env N t b p q" "\<And>x M. M \<le> N \<Longrightarrow> (b \<Longrightarrow> M < N) \<Longrightarrow> agree C env M None c (f x) (g x)" "d \<Longrightarrow> b \<or> c"
  shows "agree C env N t d (pbind p f) (pbind q g)"
  unfolding agree_def
proof (intro allI impI, elim conjE, rule conjI)
  fix s assume s: "lex_inv C env (ps_ls s)" "tleft C (ps_ls s) \<le> N" "\<forall>c. t = Some c \<longrightarrow> ptoken s = c"
  have p: "p s = q s" "settled C env b s (p s)"
    using assms(1) [unfolded agree_def, rule_format, of s] s by auto
  have f: "f x s' = g x s' \<and> settled C env c s' (f x s')" if "p s = Inr (x, s')" for x s'
  proof -
    have i: "lex_inv C env (ps_ls s')" "tleft C (ps_ls s') \<le> tleft C (ps_ls s)" "b \<longrightarrow> tleft C (ps_ls s') < tleft C (ps_ls s)"
      using p(2) that by (auto simp: settled_def)
    have "agree C env (tleft C (ps_ls s')) None c (f x) (g x)" by (rule assms(2)) (use i s(2) in linarith)+
    from this [unfolded agree_def, rule_format, of s'] i(1) show ?thesis by auto
  qed
  show "pbind p f s = pbind q g s"
  proof (cases "p s")
    case (Inr r)
    then obtain x s' where "p s = Inr (x, s')" by (cases r) simp
    then show ?thesis using f p(1) by (auto simp: pbind_def split: sum.splits)
  qed (use p(1) in \<open>simp add: pbind_def\<close>)
  show "settled C env d s (pbind p f s)" by (rule settled_bind [where p = p and b = b and c = c]) (use p(2) f assms(3) in auto)
qed

text \<open>The three ways to go on: after an action that consumes a token, after one that keeps them, and after one that does not touch the scanner.\<close>

lemma agree_eat:
  "agree C env N t True p q \<Longrightarrow> (\<And>x M. M < N \<Longrightarrow> agree C env M None False (f x) (g x)) \<Longrightarrow> agree C env N t b (pbind p f) (pbind q g)"
  by (rule agree_bind [where b = True and c = False]) auto

lemma agree_keep:
  "agree C env N t False p q \<Longrightarrow> (\<And>x M. M \<le> N \<Longrightarrow> agree C env M None b (f x) (g x)) \<Longrightarrow> agree C env N t b (pbind p f) (pbind q g)"
  by (rule agree_bind [where b = False and c = b]) auto

lemma agree_skip: "quiet p \<Longrightarrow> (\<And>x. agree C env N t b (f x) (g x)) \<Longrightarrow> agree C env N t b (pbind p f) (pbind p g)"
proof -
  assume a: "quiet p" "\<And>x. agree C env N t b (f x) (g x)"
  show ?thesis unfolding agree_def
  proof (intro allI impI)
    fix s assume s: "lex_inv C env (ps_ls s) \<and> tleft C (ps_ls s) \<le> N \<and> (\<forall>c. t = Some c \<longrightarrow> ptoken s = c)"
    show "pbind p f s = pbind p g s \<and> settled C env b s (pbind p f s)"
    proof (cases "p s")
      case (Inr r)
      then obtain x s1 where r: "p s = Inr (x, s1)" by (cases r) simp
      have "ps_ls s1 = ps_ls s" using a(1) r by (simp add: quiet_def)
      then show ?thesis using a(2) [of x, unfolded agree_def, rule_format, of s1] s by (force simp: pbind_def r settled_def)
    qed (use a(1) in \<open>auto simp: pbind_def settled_def quiet_def\<close>)
  qed
qed

lemma agree_token:
  assumes "\<And>c. t = None \<or> t = Some c \<Longrightarrow> agree C env N (Some c) b (f c) (g c)"
  shows "agree C env N t b (pbind (pget ptoken) f) (pbind (pget ptoken) g)"
  unfolding agree_def
proof (intro allI impI)
  fix s assume s: "lex_inv C env (ps_ls s) \<and> tleft C (ps_ls s) \<le> N \<and> (\<forall>c. t = Some c \<longrightarrow> ptoken s = c)"
  then have "t = None \<or> t = Some (ptoken s)" by (cases t) auto
  from assms [OF this, unfolded agree_def, rule_format, of s] s
  show "pbind (pget ptoken) f s = pbind (pget ptoken) g s \<and> settled C env b s (pbind (pget ptoken) f s)"
    by (auto simp: pbind_def pget_def)
qed

lemma agree_if: "(P \<Longrightarrow> agree C env N t b p q) \<Longrightarrow> (\<not> P \<Longrightarrow> agree C env N t b p' q') \<Longrightarrow> agree C env N t b (if P then p else p') (if P then q else q')"
  by simp

lemma agree_token_known: "agree C env N (Some c) b (f c) (g c) \<Longrightarrow> agree C env N (Some c) b (pbind (pget ptoken) f) (pbind (pget ptoken) g)"
  by (rule agree_token) auto

lemma preturn_bind [simp]: "pbind (preturn x) f = f x"
  by (rule ext) (simp add: pbind_def preturn_def)

lemma agree_prod: "(\<And>x y. agree C env N t b (f x y) (g x y)) \<Longrightarrow> agree C env N t b (case r of (x, y) \<Rightarrow> f x y) (case r of (x, y) \<Rightarrow> g x y)"
  by (simp split: prod.splits)

lemma agree_error: "agree C env N t b (psyntaxerror msg) (psyntaxerror msg)" "agree C env N t b (error_expected c) (error_expected c)"
  "agree C env N t b (\<lambda>s. Inl (Raised e)) (\<lambda>s. Inl (Raised e))"
  by (auto simp: agree_def settled_def psyntaxerror_def error_expected_def pcall_def pbind_def split: sum.splits)

lemma agree_ret: "agree C env N t False (preturn x) (preturn x)"
  by (rule agree_quiet) (rule quiet_intros)

subsection \<open>The scanner\<close>

lemmas steps = agree_if agree_prod agree_error agree_ret agree_token

locale token_source = chunk_reader reader contents for reader :: "'d reader" and contents :: "'d \<Rightarrow> string" +
  fixes env :: "'d penv"
  assumes env_reader: "pe_reader env = reader"
begin

abbreviation "agr \<equiv> agree contents env"

lemma glex_left:
  assumes "lex_ok ls" "length (text_of contents ls) < pe_fuel env" "glex (pe_fuel env) (pe_str2d env) reader ls = Inr ((t, i), ls')"
  shows "lex_ok ls'" "if t = TK_EOS then text_of contents ls' = [] else length (text_of contents ls') < length (text_of contents ls)"
    "t \<le> TK_EOS" "lx_t ls' = lx_t ls" "lx_lookahead ls' = lx_lookahead ls"
proof -
  have "lex_at contents (length (text_of contents ls)) (resetbuffer ls)" by (rule resetbuffer_at) (simp add: lex_at_def assms(1))
  from glex_loop_ensures [OF this assms(2,2), of "pe_str2d env"] assms(3)
  show "lex_ok ls'" "if t = TK_EOS then text_of contents ls' = [] else length (text_of contents ls') < length (text_of contents ls)"
    unfolding glex_def by (auto simp: ensures_def split: if_splits)
  show "t \<le> TK_EOS" "lx_t ls' = lx_t ls" "lx_lookahead ls' = lx_lookahead ls"
    using glex_turn_kept [OF assms(3)] by (simp_all add: same_toks_def)
qed

lemma next_left:
  assumes "lex_inv contents env ls" "gafqX_next (pe_fuel env) (pe_str2d env) (pe_reader env) ls = Inr ls'"
  shows "lex_inv contents env ls'" "tleft contents ls' \<le> tleft contents ls"
    "tk_token (lx_t ls) \<noteq> TK_EOS \<Longrightarrow> tleft contents ls' < tleft contents ls"
proof -
  have ok: "lex_ok (ls\<lparr>lastline := linenumber ls\<rparr>)" "length (text_of contents (ls\<lparr>lastline := linenumber ls\<rparr>)) < pe_fuel env"
    using assms(1) by (simp_all add: lex_inv_def lex_ok_def)
  have "lex_inv contents env ls' \<and> tleft contents ls' \<le> tleft contents ls \<and> (tk_token (lx_t ls) \<noteq> TK_EOS \<longrightarrow> tleft contents ls' < tleft contents ls)"
  proof (cases "tk_token (lx_lookahead ls) \<noteq> TK_EOS")
    case True
    then have "ls' = ls\<lparr>lastline := linenumber ls, lx_t := lx_lookahead ls, lx_lookahead := (lx_lookahead ls)\<lparr>tk_token := TK_EOS\<rparr>\<rparr>"
      using assms(2) by (simp add: gafqX_next_def)
    then show ?thesis using assms(1) True by (simp add: lex_inv_def lex_ok_def tleft_def text_of_def cong: option.case_cong)
  next
    case False
    then obtain t i ls1 where g: "glex (pe_fuel env) (pe_str2d env) reader (ls\<lparr>lastline := linenumber ls\<rparr>) = Inr ((t, i), ls1)"
      "ls' = ls1\<lparr>lx_t := \<lparr>tk_token = t, tk_seminfo = i\<rparr>\<rparr>"
      using assms(2) by (auto simp: gafqX_next_def env_reader res_simps)
    have "text_of contents ls' = text_of contents ls1" using g(2) by (simp add: text_of_def cong: option.case_cong)
    moreover have "lex_ok ls'" using glex_left(1,3) [OF ok g(1)] g(2) by (simp add: lex_ok_def)
    ultimately show ?thesis using glex_left(2,5) [OF ok g(1)] g(2) assms(1) False
      by (cases "t = TK_EOS") (simp_all add: lex_inv_def tleft_def)
  qed
  then show "lex_inv contents env ls'" "tleft contents ls' \<le> tleft contents ls"
    "tk_token (lx_t ls) \<noteq> TK_EOS \<Longrightarrow> tleft contents ls' < tleft contents ls" by auto
qed

lemma glex_ends: "lex_ok ls \<Longrightarrow> length (text_of contents ls) < pe_fuel env \<Longrightarrow> glex (pe_fuel env) (pe_str2d env) reader ls \<noteq> Inl OutOfFuel"
proof -
  assume a: "lex_ok ls" "length (text_of contents ls) < pe_fuel env"
  have "lex_at contents (length (text_of contents ls)) (resetbuffer ls)" by (rule resetbuffer_at) (simp add: lex_at_def a(1))
  from glex_loop_ensures [OF this a(2,2), of "pe_str2d env"] show ?thesis unfolding glex_def by (auto simp: ensures_def)
qed

lemma next_ends: "lex_inv contents env ls \<Longrightarrow> gafqX_next (pe_fuel env) (pe_str2d env) (pe_reader env) ls = Inl OutOfFuel \<Longrightarrow> False"
  using glex_ends [of "ls\<lparr>lastline := linenumber ls\<rparr>"]
  by (auto simp: gafqX_next_def env_reader lex_inv_def lex_ok_def Let_def res_simps split: if_splits)

lemma lookahead_ends: "lex_inv contents env ls \<Longrightarrow> gafqX_lookahead (pe_fuel env) (pe_str2d env) (pe_reader env) ls = Inl OutOfFuel \<Longrightarrow> False"
  using glex_ends [of ls] by (auto simp: gafqX_lookahead_def env_reader lex_inv_def res_simps)

lemma pnext_keep: "agr N t False (pnext env) (pnext env)"
  unfolding agree_def settled_def pnext_def pscan_def
  by (auto split: sum.splits gerr.splits dest: next_left next_ends)

lemma pnext_eat: "c \<noteq> TK_EOS \<Longrightarrow> agr N (Some c) True (pnext env) (pnext env)"
  unfolding agree_def settled_def pnext_def pscan_def
  by (auto split: sum.splits gerr.splits dest: next_left next_ends)

lemma plookahead_keep: "agr N t False (plookahead env) (plookahead env)"
proof -
  have "lex_inv contents env ls' \<and> tleft contents ls' \<le> tleft contents ls"
    if a: "lex_inv contents env ls" "gafqX_lookahead (pe_fuel env) (pe_str2d env) (pe_reader env) ls = Inr ls'" for ls ls'
  proof -
    obtain t i ls1 where g: "glex (pe_fuel env) (pe_str2d env) reader ls = Inr ((t, i), ls1)" "ls' = ls1\<lparr>lx_lookahead := \<lparr>tk_token = t, tk_seminfo = i\<rparr>\<rparr>"
      using a(2) by (auto simp: gafqX_lookahead_def env_reader res_simps)
    have ok: "lex_ok ls" "length (text_of contents ls) < pe_fuel env" using a(1) by (simp_all add: lex_inv_def)
    have "text_of contents ls' = text_of contents ls1" using g(2) by (simp add: text_of_def cong: option.case_cong)
    moreover have "lex_ok ls'" using glex_left(1) [OF ok g(1)] g(2) by (simp add: lex_ok_def)
    ultimately show ?thesis using glex_left(2,3,4) [OF ok g(1)] g(2) a(1)
      by (cases "t = TK_EOS") (simp_all add: lex_inv_def tleft_def)
  qed
  then show ?thesis unfolding agree_def settled_def plookahead_def pscan_def
    by (auto split: sum.splits gerr.splits dest: lookahead_ends)
qed

lemma plookahead_token: "plookahead env s = Inr (x, s') \<Longrightarrow> ptoken s' = ptoken s"
  by (auto simp: plookahead_def pscan_def gafqX_lookahead_def res_simps same_toks_def split: sum.splits gerr.splits dest!: glex_turn_kept)

lemma plookahead_rule:
  assumes "\<And>x. agr N t b (f x) (g x)" shows "agr N t b (pbind (plookahead env) f) (pbind (plookahead env) g)"
  unfolding agree_def
proof (intro allI impI)
  fix s assume s: "lex_inv contents env (ps_ls s) \<and> tleft contents (ps_ls s) \<le> N \<and> (\<forall>c. t = Some c \<longrightarrow> ptoken s = c)"
  have k: "settled contents env False s (plookahead env s)" using plookahead_keep [of N t, unfolded agree_def, rule_format, of s] s by auto
  show "pbind (plookahead env) f s = pbind (plookahead env) g s \<and> settled contents env b s (pbind (plookahead env) f s)"
  proof (cases "plookahead env s")
    case (Inr r)
    then obtain x s1 where r: "plookahead env s = Inr (x, s1)" by (cases r) simp
    have "lex_inv contents env (ps_ls s1) \<and> tleft contents (ps_ls s1) \<le> tleft contents (ps_ls s)"
      using k r by (auto simp: settled_def)
    then show ?thesis using assms [of x, unfolded agree_def, rule_format, of s1] s plookahead_token [OF r]
      by (fastforce simp: pbind_def r settled_def)
  qed (use k in \<open>auto simp: pbind_def settled_def\<close>)
qed

lemma testnext_bind: "pbind (testnext env c) h = pbind (pget ptoken) (\<lambda>u. if u = c then pbind (pnext env) (\<lambda>_. h True) else h False)"
proof
  fix s show "pbind (testnext env c) h s = pbind (pget ptoken) (\<lambda>u. if u = c then pbind (pnext env) (\<lambda>_. h True) else h False) s"
    by (cases "pnext env s") (auto simp: testnext_def pbind_def pget_def preturn_def)
qed

lemma testnext_rule:
  assumes "c \<noteq> TK_EOS" "\<And>M. M < N \<Longrightarrow> agr M None False (f True) (g True)" "agr N None b (f False) (g False)"
  shows "agr N t b (pbind (testnext env c) f) (pbind (testnext env c) g)"
proof -
  have "agr N t b (pbind (pget ptoken) (\<lambda>u. if u = c then pbind (pnext env) (\<lambda>_. f True) else f False))
    (pbind (pget ptoken) (\<lambda>u. if u = c then pbind (pnext env) (\<lambda>_. g True) else g False))"
  proof (rule agree_token, rule agree_if)
    fix u assume "u = c"
    then show "agr N (Some u) b (pbind (pnext env) (\<lambda>_. f True)) (pbind (pnext env) (\<lambda>_. g True))"
      using assms(1,2) by (intro agree_eat [OF pnext_eat]) auto
  next
    fix u show "agr N (Some u) b (f False) (g False)" by (rule agree_weaken [OF assms(3)]) auto
  qed
  then show ?thesis unfolding testnext_bind .
qed

lemma error_bind: "pbind (error_expected c) f s = error_expected c s"
  by (cases "gafqX_token2str c"; cases "txtToken (ps_ls s) (ptoken s)")
    (simp_all add: error_expected_def psyntaxerror_def gafqX_syntaxerror_def gafqX_lexerror_def pbind_def pcall_def)

lemma check_bind: "pthen (check c) h = pbind (pget ptoken) (\<lambda>u. if u \<noteq> c then error_expected c else h)"
proof
  fix s show "pthen (check c) h s = pbind (pget ptoken) (\<lambda>u. if u \<noteq> c then error_expected c else h) s"
    using error_bind [of c "\<lambda>_ :: unit. h" s] by (simp add: check_def pbind_def pget_def preturn_def)
qed

lemma check_rule: "agr N (Some c) b p q \<Longrightarrow> agr N t b (pthen (check c) p) (pthen (check c) q)"
proof -
  assume a: "agr N (Some c) b p q"
  have "agr N t b (pbind (pget ptoken) (\<lambda>u. if u \<noteq> c then error_expected c else p)) (pbind (pget ptoken) (\<lambda>u. if u \<noteq> c then error_expected c else q))"
    by (rule agree_token, rule agree_if) (use a agree_error in auto)
  then show ?thesis unfolding check_bind .
qed

lemma checknext_eat: "c \<noteq> TK_EOS \<Longrightarrow> agr N t True (checknext env c) (checknext env c)"
  unfolding checknext_def by (intro check_rule pnext_eat)

lemma check_match_eat: "c \<noteq> TK_EOS \<Longrightarrow> agr N t True (check_match env c w l) (check_match env c w l)"
  unfolding check_match_def
  by (rule testnext_rule, assumption, simp add: agree_ret, simp)
    (intro agree_skip agree_if agree_error quiet_intros)

lemma str_checkname_eat: "agr N t True (str_checkname env) (str_checkname env)"
proof -
  have "agr N (Some TK_NAME) True (case i of SStr ts \<Rightarrow> pthen (pnext env) (preturn ts) | _ \<Rightarrow> (\<lambda>s. Inl (Raised (Undefined ''name without string''))))
    (case i of SStr ts \<Rightarrow> pthen (pnext env) (preturn ts) | _ \<Rightarrow> (\<lambda>s. Inl (Raised (Undefined ''name without string''))))" for i
    by (cases i) (auto intro!: agree_error agree_eat [OF pnext_eat] agree_ret simp: TK_NAME_def TK_EOS_def)
  then show ?thesis unfolding str_checkname_def by (intro check_rule agree_skip quiet_intros)
qed

lemma singlevar_eat: "agr N t True (singlevar env) (singlevar env)"
proof -
  have "quiet (\<lambda>s. pbind (pcall (singlevaraux (ps_ls s) (ps_fs s) v True)) (\<lambda>(k, i, Fs) s. Inr (init_exp k i, s\<lparr>ps_fs := Fs\<rparr>)) s)" for v
    by (auto simp: quiet_def pbind_def pcall_def split: sum.splits)
  then show ?thesis unfolding singlevar_def
    by (intro agree_eat [OF str_checkname_eat] agree_skip agree_if agree_ret quiet_intros)
qed

lemma checkname_eat: "agr N t True (checkname env) (checkname env)"
  unfolding checkname_def by (intro agree_eat [OF str_checkname_eat] agree_quiet quiet_intros)

lemma field_eat: "agr N t True (field env v) (field env v)"
  unfolding field_def
  by (intro agree_skip [OF quiet_cg] agree_keep [OF pnext_keep] agree_eat [OF checkname_eat] agree_quiet quiet_intros)

end

subsection \<open>Two grammars\<close>

lemma tokens_not_eos:
  "uchar c \<noteq> TK_EOS" "TK_STRING \<noteq> TK_EOS" "TK_NUMBER \<noteq> TK_EOS" "TK_NAME \<noteq> TK_EOS" "TK_DOTS \<noteq> TK_EOS" "TK_NIL \<noteq> TK_EOS" "TK_TRUE \<noteq> TK_EOS"
  "TK_FALSE \<noteq> TK_EOS" "TK_FUNCTION \<noteq> TK_EOS" "TK_END \<noteq> TK_EOS" "TK_DO \<noteq> TK_EOS" "TK_THEN \<noteq> TK_EOS" "TK_ELSEIF \<noteq> TK_EOS" "TK_ELSE \<noteq> TK_EOS"
  "TK_IF \<noteq> TK_EOS" "TK_WHILE \<noteq> TK_EOS" "TK_FOR \<noteq> TK_EOS" "TK_IN \<noteq> TK_EOS" "TK_REPEAT \<noteq> TK_EOS" "TK_UNTIL \<noteq> TK_EOS" "TK_LOCAL \<noteq> TK_EOS"
  "TK_RETURN \<noteq> TK_EOS" "TK_BREAK \<noteq> TK_EOS" "TK_NOT \<noteq> TK_EOS"
proof -
  show "uchar c \<noteq> TK_EOS" by (rule uchar_not_eos)
qed (simp_all add: TK_EOS_def TK_STRING_def TK_NUMBER_def TK_NAME_def TK_DOTS_def TK_NIL_def TK_TRUE_def TK_FALSE_def TK_FUNCTION_def TK_END_def
    TK_DO_def TK_THEN_def TK_ELSEIF_def TK_ELSE_def TK_IF_def TK_WHILE_def TK_FOR_def TK_IN_def TK_REPEAT_def TK_UNTIL_def TK_LOCAL_def TK_RETURN_def
    TK_BREAK_def TK_NOT_def)

lemma operators_not_eos: "getunopr t \<noteq> OPR_NOUNOPR \<Longrightarrow> t \<noteq> TK_EOS" "getbinopr t \<noteq> OPR_NOBINOPR \<Longrightarrow> t \<noteq> TK_EOS"
proof -
  have "getunopr TK_EOS = OPR_NOUNOPR" "getbinopr TK_EOS = OPR_NOBINOPR" by code_simp+
  then show "getunopr t \<noteq> OPR_NOUNOPR \<Longrightarrow> t \<noteq> TK_EOS" "getbinopr t \<noteq> OPR_NOBINOPR \<Longrightarrow> t \<noteq> TK_EOS" by auto
qed

locale grammars = token_source reader contents env for reader :: "'d reader" and contents :: "'d \<Rightarrow> string" and env :: "'d penv" +
  fixes N :: nat and G G' :: "'d grammar"
  assumes fuel: "N < g_fuel G" "N < g_fuel G'"
    and sub: "M < N \<Longrightarrow> agr M None True (g_subexpr G l) (g_subexpr G' l)"
    and nested: "M < N \<Longrightarrow> agr M None False (g_chunk G) (g_chunk G')"
begin

lemma subexpr_bind:
  "M < N \<Longrightarrow> (\<And>v op M'. M' < M \<Longrightarrow> agr M' None False (f (v, op)) (g (v, op))) \<Longrightarrow> agr M t b (pbind (g_subexpr G l) f) (pbind (g_subexpr G' l) g)"
  by (rule agree_eat [OF agree_weaken [OF sub]]) auto

lemma expr_eat: "M < N \<Longrightarrow> agr M t True (expr G) (expr G')"
  unfolding expr_def by (rule subexpr_bind) (simp_all add: agree_ret)

lemma chunk_bind:
  "M < N \<Longrightarrow> (\<And>x M'. M' \<le> M \<Longrightarrow> agr M' None b (f x) (g x)) \<Longrightarrow> agr M t b (pbind (g_chunk G) f) (pbind (g_chunk G') g)"
  by (rule agree_keep [OF agree_weaken [OF nested]]) auto

lemmas eats = agree_eat [OF checknext_eat] agree_eat [OF check_match_eat] agree_eat [OF str_checkname_eat] agree_eat [OF singlevar_eat]
  agree_eat [OF checkname_eat] agree_eat [OF field_eat] agree_eat [OF expr_eat] subexpr_bind chunk_bind testnext_rule plookahead_rule

lemmas pnext_bind = agree_eat [OF pnext_eat]

lemma yindex_eat: "c \<noteq> TK_EOS \<Longrightarrow> M \<le> N \<Longrightarrow> agr M (Some c) True (yindex env G) (yindex env G')"
  unfolding yindex_def
  by (rule pnext_bind) (rule eats | (rule agree_skip, (rule quiet_intros)+) | rule steps tokens_not_eos | assumption | linarith)+

lemma recfield_eat: "c \<noteq> TK_EOS \<Longrightarrow> M \<le> N \<Longrightarrow> agr M (Some c) True (recfield env G cc) (recfield env G' cc)"
proof -
  assume c: "c \<noteq> TK_EOS" "M \<le> N"
  have key: "agr M (Some c) True (if c = TK_NAME then pthen (gafqY_checklimit (nh cc) MAX_INT ''items in a constructor'') (checkname env) else yindex env G)
    (if c = TK_NAME then pthen (gafqY_checklimit (nh cc) MAX_INT ''items in a constructor'') (checkname env) else yindex env G')"
    by (rule agree_if) (use c in \<open>auto intro!: agree_skip quiet_intros checkname_eat yindex_eat\<close>)
  show ?thesis unfolding recfield_def
    by (rule agree_skip, rule quiet_intros, rule agree_token_known, rule agree_eat [OF key])
      (rule eats | (rule agree_skip, (rule quiet_intros)+) | rule steps tokens_not_eos | use c(2) in linarith)+
qed

lemma listfield_eat: "M < N \<Longrightarrow> agr M t True (listfield G cc) (listfield G' cc)"
  unfolding listfield_def by (rule eats | (rule agree_skip, (rule quiet_intros)+) | rule steps | assumption)+

lemma constructor_item_eat: "M < N \<Longrightarrow> agr M t True (constructor_item env G cc) (constructor_item env G' cc)"
  unfolding constructor_item_def
  by (rule agree_token, rule agree_if, rule plookahead_rule, rule agree_skip, rule quiet_intros)
    (auto intro!: agree_if listfield_eat recfield_eat simp: TK_NAME_def TK_EOS_def)

lemma constructor_loop_keep:
  "M < N \<Longrightarrow> M < k \<Longrightarrow> M < k' \<Longrightarrow> agr M t False (constructor_loop k env G cc) (constructor_loop k' env G' cc)"
proof (induction k arbitrary: k' M t cc)
  case (Suc k)
  obtain j where k': "k' = Suc j" using Suc.prems(3) by (cases k') auto
  have rec: "agr M' None False (constructor_loop k env G cc) (constructor_loop j env G' cc)" if "M' < M" for M' cc
    by (rule Suc.IH) (use that Suc.prems k' in auto)
  show ?case unfolding k' constructor_loop.simps
    by (rule agree_token, rule agree_if, rule agree_ret, rule agree_skip, rule quiet_intros, rule agree_eat [OF constructor_item_eat [OF Suc.prems(1)]],
        rule testnext_rule, rule tokens_not_eos)
      (simp_all add: rec testnext_rule agree_ret TK_EOS_def)
qed simp

lemma constructor_eat: "M \<le> N \<Longrightarrow> agr M t True (constructor env G) (constructor env G')"
  unfolding constructor_def
  by (rule agree_keep [OF constructor_loop_keep] eats | (rule agree_skip, (rule quiet_intros)+) | rule steps tokens_not_eos
      | use fuel in linarith)+

subsection \<open>Bodies and expressions\<close>

lemma parlist_loop_keep: "M < k \<Longrightarrow> M < k' \<Longrightarrow> agr M t False (parlist_loop k env n) (parlist_loop k' env n)"
proof (induction k arbitrary: k' M t n)
  case (Suc k)
  obtain j where k': "k' = Suc j" using Suc.prems(2) by (cases k') auto
  have rec: "agr M' t False (parlist_loop k env n) (parlist_loop j env n)" if "M' < M" for M' t n
    by (rule Suc.IH) (use that Suc.prems k' in auto)
  show ?case unfolding k' parlist_loop.simps
    by (rule rec eats | (rule agree_skip, (rule quiet_intros)+) | rule steps tokens_not_eos | rule agree_keep [OF pnext_keep] | linarith)+
qed simp

lemma parlist_keep: "M < k \<Longrightarrow> M < k' \<Longrightarrow> agr M t False (parlist env k) (parlist env k')"
proof -
  assume m: "M < k" "M < k'"
  have "agr M t False (if c then parlist_loop k env 0 else preturn 0) (if c then parlist_loop k' env 0 else preturn 0)" for c t
    by (rule agree_if) (use m in \<open>auto intro!: parlist_loop_keep agree_ret\<close>)
  then show ?thesis unfolding parlist_def
    by (intro agree_skip [OF quiet_pfun(3)] agree_token) (rule agree_keep, assumption, intro agree_quiet quiet_intros)
qed

lemma body_eat: "M \<le> N \<Longrightarrow> agr M t True (body env G needself line) (body env G' needself line)"
  unfolding body_def
  by (rule agree_keep [OF parlist_keep] eats | (rule agree_skip, (rule quiet_intros)+) | rule steps tokens_not_eos
      | (rule agree_quiet, (rule quiet_intros)+) | use fuel in linarith)+

lemma explist1_loop_keep:
  "M < N \<Longrightarrow> M < k \<Longrightarrow> M < k' \<Longrightarrow> agr M t False (explist1_loop k env G v n) (explist1_loop k' env G' v n)"
proof (induction k arbitrary: k' M t v n)
  case (Suc k)
  obtain j where k': "k' = Suc j" using Suc.prems(3) by (cases k') auto
  have rec: "agr M' t False (explist1_loop k env G v n) (explist1_loop j env G' v n)" if "M' < M" for M' t v n
    by (rule Suc.IH) (use that Suc.prems k' in auto)
  show ?case unfolding k' explist1_loop.simps
    by (rule testnext_rule, rule tokens_not_eos)
      (simp_all, (rule rec eats | (rule agree_skip, (rule quiet_intros)+) | rule steps tokens_not_eos | use Suc.prems in linarith)+)
qed simp

lemma explist1_eat: "M < N \<Longrightarrow> agr M t True (explist1 env G) (explist1 env G')"
  unfolding explist1_def by (rule eats explist1_loop_keep | assumption | use fuel in linarith)+

lemma call_args_eat: "M \<le> N \<Longrightarrow> agr M t True (call_args env G l) (call_args env G' l)"
proof -
  assume m: "M \<le> N"
  have args: "agr K t False (if c = uchar CHR '')'' then preturn (init_exp VVOID 0)
      else pbind (explist1 env G) (\<lambda>(args, n). pthen (cgu (\<lambda>fs. gafqK_setreturns fs args GAFQ_MULTRET)) (preturn args)))
    (if c = uchar CHR '')'' then preturn (init_exp VVOID 0)
      else pbind (explist1 env G') (\<lambda>(args, n). pthen (cgu (\<lambda>fs. gafqK_setreturns fs args GAFQ_MULTRET)) (preturn args)))" if "K < N" for K t c
    by (rule agree_eat [OF explist1_eat] | (rule agree_skip, (rule quiet_intros)+) | rule steps | rule that)+
  have str: "agr M (Some c) True
      (case i of SStr ts \<Rightarrow> pbind (codestring ts) (\<lambda>args. pthen (pnext env) (preturn args)) | _ \<Rightarrow> (\<lambda>s. Inl (Raised (Undefined ''string token without string''))))
      (case i of SStr ts \<Rightarrow> pbind (codestring ts) (\<lambda>args. pthen (pnext env) (preturn args)) | _ \<Rightarrow> (\<lambda>s. Inl (Raised (Undefined ''string token without string''))))"
    if "c \<noteq> TK_EOS" for c i
    by (cases i) (auto intro!: agree_error agree_skip [OF quiet_vars(4)] pnext_bind agree_ret that)
  show ?thesis unfolding call_args_def
    by (rule agree_token, rule agree_if)
      (rule pnext_bind agree_keep [OF args] eats str constructor_eat [OF m] | (rule agree_skip, (rule quiet_intros)+)
        | rule steps tokens_not_eos | use m in \<open>simp add: tokens_not_eos TK_EOS_def TK_STRING_def\<close>)+
qed

lemma funcargs_eat: "M \<le> N \<Longrightarrow> agr M t True (funcargs env G f) (funcargs env G' f)"
  unfolding funcargs_def Let_def
  by (rule agree_skip, rule quiet_intros, rule agree_eat [OF call_args_eat], assumption, intro agree_quiet quiet_intros)

lemma prefixexp_eat: "M \<le> N \<Longrightarrow> agr M t True (prefixexp env G) (prefixexp env G')"
  unfolding prefixexp_def
  by (rule agree_token, rule agree_if)
    (rule pnext_bind eats singlevar_eat | (rule agree_skip, (rule quiet_intros)+) | rule steps tokens_not_eos
      | (rule agree_quiet, (rule quiet_intros)+) | simp add: TK_EOS_def | linarith)+

lemma primaryexp_loop_keep:
  "M < N \<Longrightarrow> M < k \<Longrightarrow> M < k' \<Longrightarrow> agr M t False (primaryexp_loop k env G v) (primaryexp_loop k' env G' v)"
proof (induction k arbitrary: k' M t v)
  case (Suc k)
  obtain j where k': "k' = Suc j" using Suc.prems(3) by (cases k') auto
  have rec: "agr M' t False (primaryexp_loop k env G v) (primaryexp_loop j env G' v)" if "M' < M" for M' t v
    by (rule Suc.IH) (use that Suc.prems k' in auto)
  have skip: "agr M' t False (pbind (cg f) (primaryexp_loop k env G)) (pbind (cg f) (primaryexp_loop j env G'))" if "M' < M" for M' t f
    by (rule agree_skip) (use that in \<open>auto intro!: quiet_intros rec\<close>)
  have idx: "agr M (Some c) False (pbind (yindex env G) (\<lambda>key. pbind (cg (f key)) (primaryexp_loop k env G)))
      (pbind (yindex env G') (\<lambda>key. pbind (cg (f key)) (primaryexp_loop j env G')))" if "c \<noteq> TK_EOS" for c f
    by (rule agree_eat [OF yindex_eat [OF that]]) (use Suc.prems in \<open>auto intro!: skip\<close>)
  have args: "agr K t False (pbind (funcargs env G v) (primaryexp_loop k env G)) (pbind (funcargs env G' v) (primaryexp_loop j env G'))" if "K \<le> M" for K t v
    by (rule agree_eat [OF funcargs_eat]) (use that Suc.prems in \<open>auto intro!: rec\<close>)
  show ?case unfolding k' primaryexp_loop.simps
    by (rule agree_token, rule agree_if)
      (rule args idx pnext_bind eats rec | (rule agree_skip, (rule quiet_intros)+) | rule steps tokens_not_eos
        | linarith | simp add: TK_EOS_def)+
qed simp

lemma primaryexp_eat: "M \<le> N \<Longrightarrow> agr M t True (primaryexp env G) (primaryexp env G')"
  unfolding primaryexp_def by (rule agree_eat [OF prefixexp_eat] primaryexp_loop_keep | assumption | use fuel in linarith)+

lemma simpleexp_eat: "M \<le> N \<Longrightarrow> agr M t True (simpleexp env G) (simpleexp env G')"
proof -
  assume m: "M \<le> N"
  have skip: "agr M (Some c) True (pthen (pnext env) (preturn v)) (pthen (pnext env) (preturn v))" if "c \<noteq> TK_EOS" for c and v :: expdesc
    by (rule pnext_bind [OF that]) (rule agree_ret)
  have fun': "agr M (Some c) True (pthen (pnext env) (pbind (pget (\<lambda>s. linenumber (ps_ls s))) (body env G False)))
      (pthen (pnext env) (pbind (pget (\<lambda>s. linenumber (ps_ls s))) (body env G' False)))" if "c \<noteq> TK_EOS" for c
    by (rule pnext_bind [OF that], rule agree_skip, rule quiet_intros, rule agree_weaken [OF body_eat]) (use m in auto)
  have str: "agr M (Some c) True (pbind (codestring ts) (\<lambda>v. pthen (pnext env) (preturn v))) (pbind (codestring ts) (\<lambda>v. pthen (pnext env) (preturn v)))"
    "agr M (Some c) True (pbind vararg_exp (\<lambda>v. pthen (pnext env) (preturn v))) (pbind vararg_exp (\<lambda>v. pthen (pnext env) (preturn v)))"
    if "c \<noteq> TK_EOS" for c ts
    by (rule agree_skip, rule quiet_intros, rule skip [OF that])+
  have eos: "c = TK_NUMBER \<or> c = TK_STRING \<or> c = TK_NIL \<or> c = TK_TRUE \<or> c = TK_FALSE \<or> c = TK_DOTS \<or> c = TK_FUNCTION \<Longrightarrow> c \<noteq> TK_EOS" for c
    using tokens_not_eos by metis
  show ?thesis unfolding simpleexp_def Let_def
    apply (rule agree_token, rule agree_skip, rule quiet_intros)
    subgoal for c i
      by (cases i; simp only: SemInfo.case)
        (rule agree_if skip fun' str agree_error constructor_eat [OF m] primaryexp_eat [OF m] | (rule eos, simp))+
    done
qed

lemma subexpr_loop_keep:
  "M < N \<Longrightarrow> M < k \<Longrightarrow> M < k' \<Longrightarrow> agr M t False (subexpr_loop k env G l op v) (subexpr_loop k' env G' l op v)"
proof (induction k arbitrary: k' M t op v)
  case (Suc k)
  obtain j where k': "k' = Suc j" using Suc.prems(3) by (cases k') auto
  have rec: "agr M' t False (subexpr_loop k env G l op v) (subexpr_loop j env G' l op v)" if "M' < M" for M' t op v
    by (rule Suc.IH) (use that Suc.prems k' in auto)
  show ?case unfolding k' subexpr_loop.simps
    by (rule agree_if)
      (rule agree_keep [OF pnext_keep] rec eats | (rule agree_skip, (rule quiet_intros)+) | rule steps | use Suc.prems in linarith)+
qed simp

lemma subexpr_agree: "agr N t True (subexpr env G l) (subexpr env G' l)"
proof -
  have first: "agr N (Some c) True
      (if getunopr c \<noteq> OPR_NOUNOPR then pthen (pnext env) (pbind (g_subexpr G UNARY_PRIORITY) (\<lambda>(v, op). cg (f c v))) else simpleexp env G)
      (if getunopr c \<noteq> OPR_NOUNOPR then pthen (pnext env) (pbind (g_subexpr G' UNARY_PRIORITY) (\<lambda>(v, op). cg (f c v))) else simpleexp env G')" for c f
    by (rule agree_if)
      (rule pnext_bind eats simpleexp_eat | rule steps | (rule agree_quiet, (rule quiet_intros)+) | erule operators_not_eos | assumption | simp)+
  show ?thesis unfolding subexpr_def Let_def
    by (rule agree_skip, rule quiet_intros, rule agree_token, rule agree_eat [OF first], rule agree_token, rule agree_keep [OF subexpr_loop_keep])
      ((rule agree_skip, (rule quiet_intros)+) | rule steps | use fuel in linarith)+
qed

subsection \<open>Statements\<close>

lemma block_keep: "M < N \<Longrightarrow> agr M t False (block G) (block G')"
  unfolding block_def by (rule agree_skip, rule quiet_intros, rule chunk_bind, assumption, intro agree_quiet quiet_intros)

lemmas more = eats agree_eat [OF explist1_eat] agree_eat [OF primaryexp_eat] agree_eat [OF body_eat] agree_keep [OF block_keep]

lemma assign_values_keep: "M < N \<Longrightarrow> agr M t False (assign_values env G var n) (assign_values env G' var n)"
  unfolding assign_values_def
  by (rule more | (rule agree_skip, (rule quiet_intros)+) | (rule agree_quiet, (rule quiet_intros)+) | rule steps tokens_not_eos | linarith)+

lemma assignment_keep:
  "M < N \<Longrightarrow> M < k \<Longrightarrow> M < k' \<Longrightarrow> agr M t False (assignment k env G v lh n) (assignment k' env G' v lh n)"
proof (induction k arbitrary: k' M t v lh n)
  case (Suc k)
  obtain j where k': "k' = Suc j" using Suc.prems(3) by (cases k') auto
  have rec: "agr M' t False (assignment k env G v lh n) (assignment j env G' v lh n)" if "M' < M" for M' t v lh n
    by (rule Suc.IH) (use that Suc.prems k' in auto)
  show ?case unfolding k' assignment.simps
    by (rule agree_skip, rule quiet_intros, rule testnext_rule, rule tokens_not_eos)
      (simp_all, (rule agree_keep [OF rec] agree_keep [OF assign_values_keep] more | (rule agree_skip, (rule quiet_intros)+)
        | rule steps | use Suc.prems in linarith)+)
qed simp

lemma cond_eat: "M < N \<Longrightarrow> agr M t True (cond G) (cond G')"
  unfolding cond_def by (rule more | (rule agree_quiet, (rule quiet_intros)+) | assumption)+

lemma exp1_eat: "M < N \<Longrightarrow> agr M t True (exp1 G) (exp1 G')"
  unfolding exp1_def by (rule more | (rule agree_quiet, (rule quiet_intros)+) | assumption)+

lemmas most = more agree_eat [OF cond_eat] agree_eat [OF exp1_eat]

lemma whilestat_eat: "c \<noteq> TK_EOS \<Longrightarrow> M \<le> N \<Longrightarrow> agr M (Some c) True (whilestat env G l) (whilestat env G' l)"
  unfolding whilestat_def
  by (rule pnext_bind most | (rule agree_skip, (rule quiet_intros)+) | (rule agree_quiet, (rule quiet_intros)+) | rule tokens_not_eos | assumption | linarith)+

lemma repeatstat_eat: "c \<noteq> TK_EOS \<Longrightarrow> M \<le> N \<Longrightarrow> agr M (Some c) True (repeatstat env G l) (repeatstat env G' l)"
  unfolding repeatstat_def
  by (rule pnext_bind most | (rule agree_skip, (rule quiet_intros)+) | (rule agree_quiet, (rule quiet_intros)+) | rule tokens_not_eos | assumption | linarith)+

lemma forbody_eat: "M < N \<Longrightarrow> agr M t True (forbody env G base l n isnum) (forbody env G' base l n isnum)"
  unfolding forbody_def
  by (rule most | (rule agree_skip, (rule quiet_intros)+) | (rule agree_quiet, (rule quiet_intros)+) | rule tokens_not_eos | linarith)+

lemma fornum_eat: "M < N \<Longrightarrow> agr M t True (fornum env G v l) (fornum env G' v l)"
proof -
  assume m: "M < N"
  have step: "agr K t False (if b then pthen (exp1 G) (preturn ()) else p) (if b then pthen (exp1 G') (preturn ()) else p)" if "quiet p" "K < N" for K t b p
    by (rule agree_if agree_eat [OF exp1_eat] agree_ret agree_quiet | rule that)+
  show ?thesis unfolding fornum_def
    by (rule most agree_keep [OF step] agree_relax [OF forbody_eat] | (rule agree_skip, (rule quiet_intros)+) | (rule quiet_intros)+
        | rule tokens_not_eos | use m in linarith | simp only: simp_thms)+
qed

lemma forlist_names_keep: "M < k \<Longrightarrow> M < k' \<Longrightarrow> agr M t False (forlist_names k env n) (forlist_names k' env n)"
proof (induction k arbitrary: k' M t n)
  case (Suc k)
  obtain j where k': "k' = Suc j" using Suc.prems(2) by (cases k') auto
  have rec: "agr M' t False (forlist_names k env n) (forlist_names j env n)" if "M' < M" for M' t n
    by (rule Suc.IH) (use that Suc.prems k' in auto)
  show ?case unfolding k' forlist_names.simps
    by (rule testnext_rule, rule tokens_not_eos)
      (simp_all, (rule rec most | (rule agree_skip, (rule quiet_intros)+) | rule steps | linarith)+)
qed simp

lemma forlist_eat: "M < N \<Longrightarrow> agr M t True (forlist env G v) (forlist env G' v)"
  unfolding forlist_def
  by (rule agree_keep [OF forlist_names_keep] most agree_relax [OF forbody_eat] | (rule agree_skip, (rule quiet_intros)+)
      | rule steps tokens_not_eos | use fuel in linarith | simp)+

lemma forstat_eat: "c \<noteq> TK_EOS \<Longrightarrow> M \<le> N \<Longrightarrow> agr M (Some c) True (forstat env G l) (forstat env G' l)"
proof -
  assume c: "c \<noteq> TK_EOS" "M \<le> N"
  have alts: "agr K t True (if b then fornum env G v l else if b' then forlist env G v else psyntaxerror m)
      (if b then fornum env G' v l else if b' then forlist env G' v else psyntaxerror m)" if "K < N" for K t b b' v m
    by (rule agree_if fornum_eat forlist_eat agree_error | rule that)+
  show ?thesis unfolding forstat_def
    by (rule pnext_bind agree_eat [OF alts] most agree_token | (rule agree_skip, (rule quiet_intros)+) | (rule agree_quiet, (rule quiet_intros)+)
        | rule tokens_not_eos c(1) | use c(2) in linarith)+
qed

lemma test_then_block_eat: "c \<noteq> TK_EOS \<Longrightarrow> M \<le> N \<Longrightarrow> agr M (Some c) True (test_then_block env G) (test_then_block env G')"
  unfolding test_then_block_def by (rule pnext_bind most agree_ret | rule tokens_not_eos | assumption | linarith)+

lemma elseif_loop_keep:
  "M < N \<Longrightarrow> M < k \<Longrightarrow> M < k' \<Longrightarrow> agr M t False (elseif_loop k env G f e) (elseif_loop k' env G' f e)"
proof (induction k arbitrary: k' M t f e)
  case (Suc k)
  obtain j where k': "k' = Suc j" using Suc.prems(3) by (cases k') auto
  have rec: "agr M' t False (elseif_loop k env G f e) (elseif_loop j env G' f e)" if "M' < M" for M' t f e
    by (rule Suc.IH) (use that Suc.prems k' in auto)
  show ?case unfolding k' elseif_loop.simps
    by (rule agree_token, rule agree_if, rule agree_skip, rule quiet_intros, rule agree_eat [OF test_then_block_eat])
      (use Suc.prems in \<open>auto intro!: rec agree_ret simp: tokens_not_eos\<close>)
qed simp

lemma ifstat_eat: "c \<noteq> TK_EOS \<Longrightarrow> M \<le> N \<Longrightarrow> agr M (Some c) True (ifstat env G l) (ifstat env G' l)"
proof -
  assume c: "c \<noteq> TK_EOS" "M \<le> N"
  have alt: "agr K t False (if b then pbind (escape_part f e) (\<lambda>e. pthen (pnext env) (pthen (block G) (preturn e))) else cg p)
      (if b then pbind (escape_part f e) (\<lambda>e. pthen (pnext env) (pthen (block G') (preturn e))) else cg p)" if "K < N" for K t b f e p
    by (rule agree_if agree_keep [OF pnext_keep] most agree_ret | (rule agree_skip, (rule quiet_intros)+) | (rule agree_quiet, (rule quiet_intros)+)
        | use that in linarith)+
  show ?thesis unfolding ifstat_def
    by (rule agree_eat [OF test_then_block_eat [OF c]], rule agree_keep [OF elseif_loop_keep])
      (rule agree_prod agree_token agree_keep [OF alt] agree_relax [OF check_match_eat] | (rule agree_skip, (rule quiet_intros)+)
        | rule tokens_not_eos order_refl | use c(2) fuel in linarith | simp)+
qed

lemma localfunc_eat: "M < N \<Longrightarrow> agr M t True (localfunc env G) (localfunc env G')"
  unfolding localfunc_def
  by (rule most | (rule agree_skip, (rule quiet_intros)+) | (rule agree_quiet, (rule quiet_intros)+) | linarith)+

lemma localstat_names_keep: "M < k \<Longrightarrow> M < k' \<Longrightarrow> agr M t True (localstat_names k env n) (localstat_names k' env n)"
proof (induction k arbitrary: k' M t n)
  case (Suc k)
  obtain j where k': "k' = Suc j" using Suc.prems(2) by (cases k') auto
  have rec: "agr M' t False (localstat_names k env n) (localstat_names j env n)" if "M' < M" for M' t n
    by (rule agree_weaken [OF Suc.IH [of M' j]]) (use that Suc.prems k' in auto)
  show ?case unfolding k' localstat_names.simps
    by (rule agree_eat [OF str_checkname_eat], rule agree_skip, rule quiet_intros, rule testnext_rule, rule tokens_not_eos) (simp_all add: rec agree_ret)
qed simp

lemma localstat_eat: "M < N \<Longrightarrow> agr M t True (localstat env G) (localstat env G')"
proof -
  assume m: "M < N"
  have alt: "agr K t False (if b then explist1 env G else preturn r) (if b then explist1 env G' else preturn r)" if "K < N" for K t b r
    by (rule agree_if agree_ret agree_relax [OF explist1_eat] | rule that)+
  show ?thesis unfolding localstat_def
    by (rule agree_eat [OF localstat_names_keep] testnext_rule agree_keep [OF alt] agree_prod | (rule agree_quiet, (rule quiet_intros)+)
        | rule tokens_not_eos | use m fuel in linarith)+
qed

lemma funcname_loop_keep: "M < k \<Longrightarrow> M < k' \<Longrightarrow> agr M t False (funcname_loop k env v) (funcname_loop k' env v)"
proof (induction k arbitrary: k' M t v)
  case (Suc k)
  obtain j where k': "k' = Suc j" using Suc.prems(2) by (cases k') auto
  have rec: "agr M' t False (funcname_loop k env v) (funcname_loop j env v)" if "M' < M" for M' t v
    by (rule Suc.IH) (use that Suc.prems k' in auto)
  show ?case unfolding k' funcname_loop.simps
    by (rule agree_token agree_if agree_eat [OF field_eat] rec agree_ret | assumption)+
qed simp

lemma funcname_eat: "M < k \<Longrightarrow> M < k' \<Longrightarrow> agr M t True (funcname env k) (funcname env k')"
  unfolding funcname_def
  by (rule agree_eat [OF singlevar_eat] agree_keep [OF funcname_loop_keep] agree_eat [OF field_eat] agree_token agree_if agree_ret | linarith)+

lemma funcstat_eat: "c \<noteq> TK_EOS \<Longrightarrow> M \<le> N \<Longrightarrow> agr M (Some c) True (funcstat env G l) (funcstat env G' l)"
  unfolding funcstat_def
  by (rule pnext_bind agree_eat [OF funcname_eat] agree_prod most | (rule agree_quiet, (rule quiet_intros)+) | assumption | use fuel in linarith)+

lemma exprstat_eat: "M \<le> N \<Longrightarrow> agr M t True (exprstat env G) (exprstat env G')"
  unfolding exprstat_def
  by (rule most agree_if agree_keep [OF assignment_keep] agree_ret | (rule agree_quiet, (rule quiet_intros)+) | use fuel in linarith)+

lemma return_values_keep: "M < N \<Longrightarrow> agr M t False (return_values env G) (return_values env G')"
  unfolding return_values_def
  by (rule most agree_prod | (rule agree_quiet, (rule quiet_intros)+) | assumption)+

lemma retstat_eat: "c \<noteq> TK_EOS \<Longrightarrow> M \<le> N \<Longrightarrow> agr M (Some c) True (retstat env G) (retstat env G')"
proof -
  assume c: "c \<noteq> TK_EOS" "M \<le> N"
  have alt: "agr K t False (if b then preturn r else return_values env G) (if b then preturn r else return_values env G')" if "K < N" for K t b r
    by (rule agree_if agree_ret return_values_keep | rule that)+
  show ?thesis unfolding retstat_def
    by (rule pnext_bind agree_token agree_keep [OF alt] agree_prod | (rule agree_quiet, (rule quiet_intros)+) | rule c(1) | use c(2) in linarith)+
qed

lemma statement_eat: "c \<noteq> TK_EOS \<Longrightarrow> M \<le> N \<Longrightarrow> agr M (Some c) True (statement env G) (statement env G')"
proof -
  assume c: "c \<noteq> TK_EOS" "M \<le> N"
  have alt: "agr K t False (if b then localfunc env G else localstat env G) (if b then localfunc env G' else localstat env G')" if "K < N" for K t b
    by (rule agree_if agree_relax [OF localfunc_eat] agree_relax [OF localstat_eat] | rule that)+
  have loc: "agr M (Some c) True (pthen (pnext env) (pbind (testnext env TK_FUNCTION) (\<lambda>b. pthen (if b then localfunc env G else localstat env G) (preturn False))))
      (pthen (pnext env) (pbind (testnext env TK_FUNCTION) (\<lambda>b. pthen (if b then localfunc env G' else localstat env G') (preturn False))))"
    by (rule pnext_bind [OF c(1)] agree_ret testnext_rule agree_keep [OF alt] tokens_not_eos | use c(2) in linarith)+
  have blk: "agr M (Some c) True (pthen (pnext env) (pthen (block G) (pthen (check_match env TK_END TK_DO l) (preturn False))))
      (pthen (pnext env) (pthen (block G') (pthen (check_match env TK_END TK_DO l) (preturn False))))" for l
    by (rule pnext_bind [OF c(1)] agree_ret most tokens_not_eos | use c(2) in linarith)+
  have brk: "agr M (Some c) True (pthen (pnext env) (pthen breakstat (preturn True))) (pthen (pnext env) (pthen breakstat (preturn True)))"
    by (rule pnext_bind [OF c(1)], intro agree_quiet quiet_intros)
  show ?thesis unfolding statement_def
    by (rule agree_skip, rule quiet_intros, rule agree_token_known)
      (rule agree_if loc blk brk agree_eat [OF ifstat_eat [OF c]] agree_eat [OF whilestat_eat [OF c]] agree_eat [OF forstat_eat [OF c]]
        agree_eat [OF repeatstat_eat [OF c]] agree_eat [OF funcstat_eat [OF c]] agree_eat [OF retstat_eat [OF c]] agree_eat [OF exprstat_eat [OF c(2)]] agree_ret)+
qed

lemma chunk_loop_keep:
  "M \<le> N \<Longrightarrow> M < k \<Longrightarrow> M < k' \<Longrightarrow> agr M t False (chunk_loop k env G b) (chunk_loop k' env G' b)"
proof (induction k arbitrary: k' M t b)
  case (Suc k)
  obtain j where k': "k' = Suc j" using Suc.prems(3) by (cases k') auto
  have rec: "agr M' t False (chunk_loop k env G b) (chunk_loop j env G' b)" if "M' < M" for M' t b
    by (rule Suc.IH) (use that Suc.prems k' in auto)
  have c: "c \<noteq> TK_EOS" if "\<not> b \<and> \<not> block_follow c" for c using that by (auto simp: block_follow_def)
  show ?case unfolding k' chunk_loop.simps
    by (rule agree_token, rule agree_if, rule agree_eat [OF statement_eat [OF c]])
      (rule testnext_rule rec agree_ret tokens_not_eos | (rule agree_skip, (rule quiet_intros)+) | assumption | use Suc.prems in linarith)+
qed simp

lemma chunk_agree: "agr N t False (chunk env G) (chunk env G')"
  unfolding chunk_def
  by (rule agree_skip, rule quiet_intros, rule agree_keep [OF chunk_loop_keep], rule order_refl, rule fuel, rule fuel, intro agree_quiet quiet_intros)

end

subsection \<open>The bound\<close>

lemma grammar_fuel: "g_fuel (grammar_n env n) = n"
  by (cases n) (simp_all add: Let_def)

context token_source
begin

lemma grammars_level:
  assumes "N < n" "N < m" "\<And>M n' m' l. M < N \<Longrightarrow> M < n' \<Longrightarrow> M < m' \<Longrightarrow> agr M None False (g_chunk (grammar_n env (Suc n'))) (g_chunk (grammar_n env (Suc m'))) \<and>
     agr M None True (g_subexpr (grammar_n env (Suc n')) l) (g_subexpr (grammar_n env (Suc m')) l)"
  shows "grammars reader contents env N (grammar_n env n) (grammar_n env m)"
proof (rule grammars.intro, rule token_source_axioms, unfold_locales)
  obtain n' m' where n: "n = Suc n'" "m = Suc m'" using assms(1,2) by (cases n; cases m) auto
  show "N < g_fuel (grammar_n env n)" "N < g_fuel (grammar_n env m)" using assms(1,2) by (simp_all only: grammar_fuel)
  fix M l assume "M < N"
  then have "M < n'" "M < m'" using assms(1,2) n by auto
  then show "agr M None True (g_subexpr (grammar_n env n) l) (g_subexpr (grammar_n env m) l)" "agr M None False (g_chunk (grammar_n env n)) (g_chunk (grammar_n env m))"
    using assms(3) [OF \<open>M < N\<close>, of n' m'] unfolding n by blast+
qed

lemma grammar_agree:
  "N < n \<Longrightarrow> N < m \<Longrightarrow> agr N t False (g_chunk (grammar_n env (Suc n))) (g_chunk (grammar_n env (Suc m))) \<and>
     agr N t True (g_subexpr (grammar_n env (Suc n)) l) (g_subexpr (grammar_n env (Suc m)) l)"
proof (induction N arbitrary: n m t l rule: less_induct)
  case (less N)
  have "grammars reader contents env N (grammar_n env n) (grammar_n env m)" by (rule grammars_level [OF less.prems less.IH])
  from grammars.chunk_agree [OF this] grammars.subexpr_agree [OF this] show ?case by (simp add: Let_def)
qed

lemma grammar_n_grammars: "N < n \<Longrightarrow> N < m \<Longrightarrow> grammars reader contents env N (grammar_n env n) (grammar_n env m)"
  by (rule grammars_level) (simp_all only: grammar_agree)

lemma setinput_left:
  assumes "z_ok z" "mb_n b = 0" "length (zbytes z) < pe_fuel env" "gafqX_setinput reader \<lparr>tk_token = 0, tk_seminfo = SNone\<rparr> z b name = Inr ls"
  shows "lex_inv contents env ls \<and> tleft contents ls \<le> length (zbytes z) + 1"
proof -
  obtain c z' where g: "zgetc reader z = Inr (c, z')" and
    ls: "ls = \<lparr>current = c, linenumber = 1, lastline = 1, lx_t = \<lparr>tk_token = 0, tk_seminfo = SNone\<rparr>,
        lx_lookahead = \<lparr>tk_token = TK_EOS, tk_seminfo = SNone\<rparr>, lx_z = z', buff = gafqZ_resizebuffer b GAFQ_MINBUFFER, lx_source = name, decpoint = CHR ''.''\<rparr>"
    using assms(4) by (auto simp: gafqX_setinput_def lx_next_def res_simps)
  have t: "(c \<noteq> None \<longrightarrow> z_ok z') \<and> text_of contents ls = zbytes z"
  proof (cases "zbytes z")
    case Nil
    then show ?thesis using zgetc_end [OF assms(1) Nil] g ls by (auto simp: text_of_def)
  next
    case (Cons x xs)
    then show ?thesis using zgetc_char [OF assms(1) Cons] g ls by (auto simp: text_of_def zbytes_def)
  qed
  have b: "mb_n (gafqZ_resizebuffer b GAFQ_MINBUFFER) = 0" "0 < mb_buffsize (gafqZ_resizebuffer b GAFQ_MINBUFFER)"
    using assms(2) by (simp_all add: gafqZ_resizebuffer_def GAFQ_MINBUFFER_def)
  have "lex_ok ls" using t b ls by (simp add: lex_ok_def)
  then show ?thesis using t ls assms(3) by (simp add: lex_inv_def tleft_def)
qed

lemma parser_agree:
  assumes "z_ok z" "mb_n b = 0" "length (zbytes z) < pe_fuel env" "length (zbytes z) + 2 < n" "length (zbytes z) + 2 < m"
  shows "gafqY_parser n env z b name c = gafqY_parser m env z b name c" "gafqY_parser n env z b name c \<noteq> Inl Cut"
proof (atomize (full), cases "gafqX_setinput reader \<lparr>tk_token = 0, tk_seminfo = SNone\<rparr> z b name")
  case (Inl e)
  then show "gafqY_parser n env z b name c = gafqY_parser m env z b name c \<and> gafqY_parser n env z b name c \<noteq> Inl Cut"
    by (simp add: gafqY_parser_def env_reader)
next
  case (Inr ls)
  have ls: "lex_inv contents env ls" "tleft contents ls \<le> length (zbytes z) + 1" using setinput_left [OF assms(1-3) Inr] by auto
  obtain n' m' where n: "n = Suc n'" "m = Suc m'" using assms(4,5) by (cases n; cases m) auto
  have rest: "agr K t False (pthen (g_chunk (grammar_n env n)) p) (pthen (g_chunk (grammar_n env m)) p)" if "quiet p" "K \<le> length (zbytes z) + 1" for K t
    and p :: "('d, Proto) parser"
    by (rule agree_keep [where p = "g_chunk (grammar_n env n)"]) (use grammar_agree [of K n' m' t] n assms(4,5) that in \<open>auto intro: agree_quiet\<close>)
  have "agr (length (zbytes z) + 1) None False
      (pthen (open_func env) (pthen (pwrite (\<lambda>F. F\<lparr>fn_is_vararg := VARARG_ISVARARG\<rparr>)) (pthen (pnext env) (pthen (g_chunk (grammar_n env n))
        (pthen (check TK_EOS) (pbind close_func (\<lambda>F. preturn (proto_of name F))))))))
      (pthen (open_func env) (pthen (pwrite (\<lambda>F. F\<lparr>fn_is_vararg := VARARG_ISVARARG\<rparr>)) (pthen (pnext env) (pthen (g_chunk (grammar_n env m))
        (pthen (check TK_EOS) (pbind close_func (\<lambda>F. preturn (proto_of name F))))))))"
    by (rule agree_skip, rule quiet_intros, rule agree_skip, rule quiet_intros, rule agree_keep [OF pnext_keep], rule rest, (intro quiet_intros)+)
  from this [unfolded agree_def, rule_format, of "\<lparr>ps_ls = ls, ps_fs = [], ps_nCcalls = c\<rparr>"] ls Inr
  show "gafqY_parser n env z b name c = gafqY_parser m env z b name c \<and> gafqY_parser n env z b name c \<noteq> Inl Cut"
    unfolding gafqY_parser_def env_reader settled_def by auto
qed

end

text \<open>
  C11. The parser ends: the calls and loops of the grammar and of the scanner are finitely many.  For every input that a reader
  delivers, however cut into pieces, with bounds for the levels of the grammar, for the turns of its loops and for the loops of the scanner that exceed the
  number of its characters (the first two by more than two), compiling it stops at no bound (it is not \<open>Cut\<close>): it gives a prototype or an error that a
  function raised, and every other such bound gives the same outcome.  The walks of the code generator along lists of jumps
  have a bound of their own, the number of instructions; what they do is the subject of the jump lists, not of this theorem.
\<close>

theorem parser_terminates:
  assumes "chunk_reader reader contents" "pe_reader env = reader" "z_ok z" "mb_n b = 0"
    and "length (z_p z @ contents (z_data z)) < pe_fuel env" "length (z_p z @ contents (z_data z)) + 2 < n" "length (z_p z @ contents (z_data z)) + 2 < m"
  shows "gafqY_parser n env z b name nCcalls \<noteq> Inl Cut \<and> gafqY_parser m env z b name nCcalls = gafqY_parser n env z b name nCcalls"
proof -
  have t: "token_source reader contents env" using assms(1,2) by (simp add: token_source_def token_source_axioms_def)
  note bytes = chunk_reader.zbytes_def [OF assms(1)]
  show ?thesis
    by (rule conjI, rule token_source.parser_agree(2) [OF t assms(3,4)], unfold bytes, (rule assms)+)
      (rule token_source.parser_agree(1) [OF t assms(3,4)], unfold bytes, (rule assms)+)
qed

definition example_env :: "LoadS penv" where
  "example_env = \<lparr>pe_fuel = 1000, pe_str2d = (\<lambda>_. None), pe_reader = getS, pe_numpow = (\<lambda>x y. x), pe_haddr = 16\<rparr>"

interpretation src: token_source getS "\<lambda>ls. take (ls_size ls) (ls_s ls)" example_env
  by (simp add: token_source_def token_source_axioms_def str.chunk_reader_axioms example_env_def)

interpretation gs: grammars getS "\<lambda>ls. take (ls_size ls) (ls_s ls)" example_env 9 "grammar_n example_env 10" "grammar_n example_env 20"
  by (rule src.grammar_n_grammars) simp_all

theorem parser_terminates_witness:
  "gafqY_parser 10 example_env (gafqZ_init \<lparr>ls_s = ''break'', ls_size = 5\<rparr>) \<lparr>mb_buffer = [], mb_n = 0, mb_buffsize = 0\<rparr> ''=x'' 0 \<noteq> Inl Cut \<and>
   gafqY_parser 1000 example_env (gafqZ_init \<lparr>ls_s = ''break'', ls_size = 5\<rparr>) \<lparr>mb_buffer = [], mb_n = 0, mb_buffsize = 0\<rparr> ''=x'' 0 =
   gafqY_parser 10 example_env (gafqZ_init \<lparr>ls_s = ''break'', ls_size = 5\<rparr>) \<lparr>mb_buffer = [], mb_n = 0, mb_buffsize = 0\<rparr> ''=x'' 0"
  by (rule parser_terminates [OF str.chunk_reader_axioms]) (simp_all add: example_env_def gafqZ_init_def z_ok_def)

end
