(* ===== verification/Spec2Isabelle.thy ===== *)
theory Spec2Isabelle
  imports Table_Iter Debug_Check Undump_Round Quote Tablib_Props Func_Props Code_Jumps Code_Nil Code_Regs Parser_Scope Parser_Fuel
begin

text \<open>
  \<^bold>\<open>The Gafq interpreter\<close>

  Gafq is an interpreter for a small dynamic language, written in C (the files of \<open>src/\<close>).  A chunk of text is read through
  a buffered stream (\<open>gzio.c\<close>), cut into tokens (\<open>glex.c\<close>), and compiled in one pass by the parser (\<open>gparser.c\<close>) and the
  code generator (\<open>gcode.c\<close>) to a function prototype: 32-bit instructions (\<open>gopcodes.h\<close>), constants and nested
  prototypes.  A prototype can be saved and loaded in binary (\<open>gdump.c\<close>, \<open>gundump.c\<close>), and a loaded one is checked by
  a symbolic execution (\<open>gdebug.c\<close>).  The virtual machine (\<open>gvm.c\<close>) works on values (\<open>gobject.h\<close>), interned
  strings (\<open>gstring.c\<close>), tables (\<open>gtable.c\<close>), closures with upvalues (\<open>gfunc.c\<close>) and tag methods (\<open>gtm.c\<close>); libraries
  (\<open>gstrlib.c\<close>, \<open>gtablib.c\<close> and others) are reached through an API.

  \<^bold>\<open>The theories\<close>, each with the part of the program it models:

  \<^item> \<open>Prelude\<close>: errors as values (\<open>gerr\<close>, \<open>'a res\<close>, \<open>rbind\<close>), the collection \<open>res_simps\<close>, lemmas on lists and words.
    \<open>Undefined\<close> is the value of a step that C leaves undefined, such as a read outside an array, and \<open>OutOfFuel\<close> that of a loop whose
    bound was too small; the safety and termination theorems show that neither occurs.
  \<^item> \<open>Numbers\<close>: \<open>gafq_Number\<close> as the 64-bit pattern of an IEEE double, with exact rational values and
    rounding to nearest even; the \<open>gafqi_num\<close> macros of \<open>gafqconf.h\<close>.
  \<^item> \<open>Opcodes\<close>: \<open>gopcodes.h\<close> and \<open>gopcodes.c\<close>; a locale \<open>bitfield\<close> interpreted for each field of an instruction.
  \<^item> \<open>Objects\<close>: \<open>gobject.h\<close> and \<open>gobject.c\<close>: values, prototypes, raw equality, floating point bytes, \<open>chunkid\<close>.
  \<^item> \<open>Strings\<close>: the string table of \<open>gstring.c\<close> with its resizing and memory errors, and which of its strings are dead and which live.
  \<^item> \<open>Table\<close>, \<open>Table_Inv\<close>, \<open>Table_Get\<close>, \<open>Table_Set\<close>, \<open>Table_Rehash\<close>, \<open>Table_Iter\<close>: all of \<open>gtable.c\<close>.  The invariant \<open>table_inv\<close> says
    that every key is reached from its main position; lookup, insertion with moves of colliding nodes, rehash, resize,
    traversal and border search are proved against the map \<open>tget\<close> of the table.  A key that the collector retired (\<open>removeentry\<close>)
    is compared by address, which is the parameter \<open>same\<close> of \<open>findindex\<close> and \<open>gafqH_next\<close>; \<open>apart\<close> is what the traversal needs of it, and every operation keeps it.
  \<^item> \<open>Debug\<close>, \<open>Debug_Check\<close>: the checker of \<open>gdebug.c\<close> and an abstract machine of program counters: what the checker accepts never leaves
    its code, registers, constants or upvalues.
  \<^item> \<open>Zio\<close>, \<open>Undump\<close>, \<open>Undump_Round\<close>: streams, the binary format and its round trips.  Both callers of \<open>gafqU_header\<close> give it an array
    of 12 bytes, in which it writes 13 (\<open>header_overflow\<close>), so the round trips are those of \<open>DumpFunction\<close> and \<open>LoadFunction\<close>, from the end of the header on.
  \<^item> \<open>Ctype\<close>, \<open>Match\<close>, \<open>Match_Ref\<close>, \<open>Strlib\<close>, \<open>Strlib_Props\<close>: \<open>gstrlib.c\<close>; the matcher is proved equal to a reference that lists all
    matches in order of preference.
  \<^item> \<open>Lex\<close>, \<open>Lex_Props\<close>, \<open>Quote\<close>: \<open>glex.c\<close>, that scanning always ends, and that text written by \<open>%q\<close> is scanned back.
  \<^item> \<open>Tm\<close>, \<open>Vm\<close>, \<open>Vm_Props\<close>: tag methods and the operations of \<open>gvm.c\<close> outside its main loop.
  \<^item> \<open>Tablib\<close>, \<open>Tablib_View\<close>, \<open>Tablib_Sort\<close>, \<open>Tablib_Props\<close>: \<open>gtablib.c\<close> on the store of tables, which the functions it calls may change.  \<open>tview\<close> is a table
    as a function of its integer keys; the sort is proved once for any comparison that answers as a strict weak order and leaves the table alone
    (locale \<open>weak_order\<close>), interpreted for the orders of numbers and of strings.
  \<^item> \<open>Mem\<close>, \<open>Func\<close>, \<open>Func_Props\<close>: vector growth (\<open>gmem.c\<close>) and \<open>gfunc.c\<close>; the lists of open upvalues, in an explicit store of
    upvalue blocks, refine a map from stack levels to upvalues; closing frees the dead ones only.
  \<^item> \<open>Code\<close>, \<open>Code_Frame\<close>, \<open>Code_Jumps\<close>, \<open>Code_Consts\<close>, \<open>Code_Nil\<close>, \<open>Code_Regs\<close>: all of \<open>gcode.c\<close>: jump lists threaded through the
    instructions, constants, the merging of \<open>OP_LOADNIL\<close>, and the typing of operands.  \<open>Do_Frame\<close> has the part of \<open>gdo.c\<close> that lays out
    the registers of a function, on which the omission of an \<open>OP_LOADNIL\<close> at its start relies.
  \<^item> \<open>Parser\<close>, \<open>Parser_Scope\<close>, \<open>Lex_Frame\<close>, \<open>Parser_Fuel\<close>: all of \<open>gparser.c\<close>, over \<open>Lex\<close> and \<open>Code\<close>.  The resolution of a name through the
    enclosing functions (\<open>singlevaraux\<close>) refines lexical scoping; the locales \<open>token_source\<close> (what the parser relies on of the scanner) and
    \<open>grammars\<close> (what one level of the grammar promises to the next) carry the proof that the parser ends: it never stops at a bound (\<open>Cut\<close>).

  \<^bold>\<open>Conventions.\<close>  Sizes are those of Linux on x86-64: \<open>int\<close> has 32 bits, \<open>size_t\<close> 64, integers are little endian.  Strings are
  known by their contents outside \<open>Strings\<close>, which shows that interned strings are equal exactly when their addresses are.
  Allocation succeeds outside \<open>Strings\<close> and \<open>Mem\<close>.  The payload of a NaN is canonical, and a double outside the range of \<open>int\<close> is
  converted to the least \<open>int\<close>, as the processor does.  Messages of errors come without the position that
  \<open>gafqL_where\<close> puts before them.  Functions of the libraries are modelled from the point where their arguments are fetched.
  The functions \<open>strtod\<close>, \<open>pow\<close>, the formatting of numbers, readers, writers and callbacks are parameters.  The locale is \<open>C\<close>.

  \<^bold>\<open>Bounds.\<close>  The loops over jump lists have as many turns as there are instructions, and those over
  upvalue lists as many as the list has elements: the invariants make the elements distinct.  The
  nesting of growing tables inside growing tables is bounded by the size of the table being grown.  The recursion of the sort
  halves its range at each level, so that 40 levels are enough for a range of \<open>int\<close>.  The scanner has as fuel the number of bytes
  that remain.  The grammar is mutually recursive: \<open>grammar_n\<close> unfolds it a given number of levels, and its loops take
  as many turns as there are tokens left.  Theorems show that these bounds are enough for lists that are well formed, tables that are
  sound, comparisons that are orders and any text; that every list of jumps the parser hands to the code generator is well formed is not shown.

  \<^bold>\<open>Not modelled\<close>: the main loop of the virtual machine, the call stack and protected calls (\<open>gdo.c\<close>, but for the layout of a frame), the phases of the
  garbage collector, the states, the API and the libraries over it (\<open>gapi.c\<close>, \<open>gauxlib.c\<close>, \<open>gbaselib.c\<close>, \<open>gdblib.c\<close>), which are the next parts of the
  plan; the input and output, operating system and mathematical libraries, package loading and the stand-alone programs, which
  hand their work to the C library and the operating system.
\<close>

end
